(* ===== verification/Prelude.thy ===== *)
theory Prelude
  imports Main "HOL-Library.Word"
begin

text \<open>
  Shared vocabulary of the development: the machine integers of the C sources under
  their usual names, the pages the memory manager deals in, and the few facts about
  64-bit addresses (wrap-around differences, page-aligned addresses, offsets within a
  page) that every component needs.

  Pointers are \<open>u64\<close> values. A range of \<open>n\<close> bytes that starts at \<open>b\<close> is described by
  \<open>in_range x b n\<close>, which reads the distance from \<open>b\<close> to \<open>x\<close> modulo \<open>2 ^ 64\<close>, exactly as
  pointer arithmetic does on the machine, so no lemma has to exclude wrap-around.
\<close>

unbundle bit_operations_syntax

type_synonym u8 = "8 word"
type_synonym u16 = "16 word"
type_synonym u32 = "32 word"
type_synonym u64 = "64 word"

named_theorems mem_simps \<open>evaluation of loads and stores\<close>
named_theorems frame_simps \<open>components an operation leaves unchanged\<close>

text \<open>\<open>UINT64_MAX\<close>, the value the sources use for "no such page" and "not mapped".\<close>

abbreviation UINT64_MAX :: u64 where
  "UINT64_MAX \<equiv> 0xFFFFFFFFFFFFFFFF"

lemma unat_eq_of_nat: "unat (w :: u64) = i \<Longrightarrow> w = of_nat i"
  by auto

section \<open>Ranges of addresses\<close>

definition in_range :: "u64 \<Rightarrow> u64 \<Rightarrow> nat \<Rightarrow> bool" where
  "in_range x b n \<longleftrightarrow> unat (x - b) < n"

definition disj :: "u64 \<Rightarrow> nat \<Rightarrow> u64 \<Rightarrow> nat \<Rightarrow> bool" where
  "disj a n b k \<longleftrightarrow> n \<le> unat (b - a) \<and> k \<le> unat (a - b)"

lemma disj_sym: "disj a n b k \<Longrightarrow> disj b k a n"
  by (simp add: disj_def)

lemma in_range_empty [simp]: "\<not> in_range x b 0"
  by (simp add: in_range_def)

lemma in_range_start [simp]: "in_range b b n \<longleftrightarrow> 0 < n"
  by (simp add: in_range_def)

lemma in_range_mono: "in_range x b n \<Longrightarrow> n \<le> k \<Longrightarrow> in_range x b k"
  by (simp add: in_range_def)

lemma in_range_shift [simp]: "in_range (x + c) (b + c) n \<longleftrightarrow> in_range x b n"
  by (simp add: in_range_def)

lemma unat_u64_less [simp]: "unat (a::u64) < 18446744073709551616"
  using unsigned_less [of a] by simp

lemma unat_diff_ge: "unat (x::u64) \<le> unat y \<Longrightarrow> unat (y - x) = unat y - unat x"
  by (simp add: unat_sub_if_size)

lemma unat_neg_diff:
  assumes "(a::u64) \<noteq> b"
  shows "unat (a - b) = 2 ^ 64 - unat (b - a)"
proof -
  have ne: "unat a \<noteq> unat b" using assms by (simp add: word_unat_eq_iff)
  have lt: "unat a < 2 ^ 64" "unat b < 2 ^ 64" by simp_all
  have "unat (a - b) = unat a - unat b \<and> unat b \<le> unat a \<and>
      unat (b - a) = unat b + 2 ^ 64 - unat a \<or>
    unat (b - a) = unat b - unat a \<and> unat a \<le> unat b \<and>
      unat (a - b) = unat a + 2 ^ 64 - unat b"
    using ne by (auto simp: unat_sub_if_size word_size)
  with ne lt show ?thesis by linarith
qed

lemma u64_add_of_nat_diff:
  "unat (a - b) + i < 2 ^ 64 \<Longrightarrow> unat (a + of_nat i - b :: u64) = unat (a - b) + i"
proof -
  assume h: "unat (a - b) + i < 2 ^ 64"
  have i: "unat (of_nat i :: u64) = i"
    using h by (simp add: unat_of_nat take_bit_nat_eq_self)
  with h have "unat ((a - b) + of_nat i) = unat (a - b) + i"
    using unat_add_lem [of "a - b" "of_nat i"] by simp
  then show ?thesis by (simp only: diff_add_eq)
qed

lemma not_in_range_disj:
  assumes d: "disj a n b k" and i: "i < n"
  shows "\<not> in_range (a + of_nat i) b k"
proof (cases "a = b")
  case True
  with d i show ?thesis by (simp add: disj_def)
next
  case False
  then have "unat (a - b) = 2 ^ 64 - unat (b - a)" by (rule unat_neg_diff)
  moreover have "unat (b - a) < 2 ^ 64" by simp
  moreover from d i have k: "i < unat (b - a)" "k \<le> unat (a - b)" by (auto simp: disj_def)
  ultimately have "unat (a - b) + i < 2 ^ 64" by linarith
  then have "unat (a + of_nat i - b) = unat (a - b) + i" by (rule u64_add_of_nat_diff)
  with k(2) show ?thesis by (simp add: in_range_def)
qed

lemma in_range_Suc: "in_range x b (Suc n) \<longleftrightarrow> x = b \<or> in_range x (b + 1) n"
proof (cases "x = b")
  case True
  then show ?thesis by simp
next
  case False
  then have "x - b \<noteq> 0" by simp
  then have "unat (x - b - 1) = unat (x - b) - 1" "0 < unat (x - b)"
    by (simp_all add: unat_minus_one unat_gt_0)
  then have "unat (x - (b + 1)) = unat (x - b) - 1" "0 < unat (x - b)"
    by (simp_all only: diff_diff_add)
  then show ?thesis using False by (auto simp: in_range_def simp del: diff_diff_add)
qed

lemma disj_offsets:
  assumes "unat x + n \<le> unat y" "unat y + k \<le> 2 ^ 64" "0 < n" "0 < k"
  shows "disj (a + x) n (a + y) k"
proof -
  have "unat (y - x) = unat y - unat x"
    using assms(1) by (intro unat_diff_ge) simp
  moreover have "y \<noteq> x" using assms(1,3) by auto
  moreover have "unat (x - y) = 2 ^ 64 - unat (y - x)"
    using \<open>y \<noteq> x\<close> by (intro unat_neg_diff) simp
  moreover have "a + y - (a + x) = y - x" "a + x - (a + y) = x - y" by simp_all
  ultimately show ?thesis
    using assms unfolding disj_def by auto
qed

section \<open>Pages\<close>

text \<open>\<open>0x1000\<close>, the size of a page, and its number of bits.\<close>

definition page_aligned :: "u64 \<Rightarrow> bool" where
  "page_aligned a \<longleftrightarrow> unat a mod 4096 = 0"

lemma page_aligned_le: "page_aligned a \<Longrightarrow> unat a \<le> 2 ^ 64 - 4096"
proof -
  assume "page_aligned a"
  then obtain k where k: "unat a = 4096 * k"
    unfolding page_aligned_def by (metis mult_div_mod_eq add_0_right)
  moreover have "unat a < 2 ^ 64" by simp
  ultimately have "k < 4503599627370496" by simp
  with k show ?thesis by simp
qed

lemma page_aligned_unat_add:
  "page_aligned p \<Longrightarrow> unat x < 4096 \<Longrightarrow> unat (p + x) = unat p + unat x"
  using page_aligned_le [of p] unat_add_lem [of p x] by simp

lemma page_aligned_gap:
  assumes "page_aligned p" "page_aligned q" "unat p < unat q"
  shows "unat p + 4096 \<le> unat q"
proof -
  from assms obtain i j where "unat p = 4096 * i" "unat q = 4096 * j"
    unfolding page_aligned_def by (metis mult_div_mod_eq add_0_right)
  with assms(3) show ?thesis by simp
qed

lemma page_aligned_neq_MAX: "page_aligned p \<Longrightarrow> p \<noteq> UINT64_MAX"
  by (auto simp: page_aligned_def)

lemma disj_pages_less:
  assumes p: "page_aligned p" "page_aligned q" "unat p < unat q"
    and x: "unat x + n \<le> 4096" "unat x < 4096" and y: "unat y + k \<le> 4096" "unat y < 4096"
  shows "disj (p + x) n (q + y) k"
proof -
  have gap: "unat p + 4096 \<le> unat q" using p by (rule page_aligned_gap)
  have u: "unat (p + x) = unat p + unat x" "unat (q + y) = unat q + unat y"
    using p x y by (simp_all add: page_aligned_unat_add)
  have up: "unat (q + y - (p + x)) = unat q + unat y - (unat p + unat x)"
    using gap u x unat_diff_ge [of "p + x" "q + y"] by simp
  moreover have "p + x \<noteq> q + y" using u gap x by auto
  then have "unat (p + x - (q + y)) = 2 ^ 64 - unat (q + y - (p + x))"
    by (rule unat_neg_diff)
  moreover have "unat q \<le> 2 ^ 64 - 4096" using p(2) by (rule page_aligned_le)
  ultimately show ?thesis using gap x y by (simp add: disj_def le_diff_conv2)
qed

lemma disj_pages:
  assumes "page_aligned p" "page_aligned q" "p \<noteq> q"
    and "unat x + n \<le> 4096" "unat x < 4096" "unat y + k \<le> 4096" "unat y < 4096"
  shows "disj (p + x) n (q + y) k"
proof (cases "unat p < unat q")
  case True
  with assms show ?thesis by (intro disj_pages_less)
next
  case False
  with assms(3) have "unat q < unat p" by (simp add: word_unat_eq_iff)
  with assms have "disj (q + y) k (p + x) n" by (intro disj_pages_less)
  then show ?thesis by (rule disj_sym)
qed

lemma disj_shift [simp]: "disj (a + c) n (b + c) k \<longleftrightarrow> disj a n b k"
  by (simp add: disj_def)

lemma disj_shift3 [simp]: "disj (a + c + x) n (b + c + y) k \<longleftrightarrow> disj (a + x) n (b + y) k"
  by (simp add: disj_def algebra_simps)

lemma in_range_page:
  assumes "page_aligned p" "page_aligned q" "unat x < 4096"
  shows "in_range (p + x) q 4096 \<longleftrightarrow> p = q"
proof
  assume "in_range (p + x) q 4096"
  show "p = q"
  proof (rule ccontr)
    assume "p \<noteq> q"
    then have "disj (p + x) 1 (q + 0) 4096"
      using assms by (intro disj_pages) auto
    then have "\<not> in_range (p + x + of_nat 0) q 4096"
      using not_in_range_disj [of "p + x" 1 q 4096 0] by simp
    with \<open>in_range (p + x) q 4096\<close> show False by simp
  qed
next
  assume "p = q"
  with assms show "in_range (p + x) q 4096" by (simp add: in_range_def)
qed

lemma pages_apart:
  assumes "page_aligned p" "page_aligned q"
    and "in_range x (p + c) 4096" "in_range x (q + c) 4096"
  shows "p = q"
proof -
  have x: "x - c = p + (x - (p + c))" by simp
  have "in_range (p + (x - (p + c))) q 4096"
    using assms(4) unfolding in_range_def by (simp add: algebra_simps)
  moreover have "unat (x - (p + c)) < 4096" using assms(3) by (simp add: in_range_def)
  ultimately show ?thesis
    using in_range_page [THEN iffD1, OF assms(1,2), of "x - (p + c)"] by blast
qed

section \<open>Counted loops\<close>

text \<open>
  \<open>for (uint64_t i = lo; i < hi; i++) s = body(i, s)\<close> over a state \<open>s\<close>, for loops whose body
  neither leaves early nor changes \<open>hi\<close>.
\<close>

lemma u64_Suc: "i < (n::u64) \<Longrightarrow> unat (i + 1) = Suc (unat i)"
  using unat_add_lem [of i 1] unat_u64_less [of n] by (simp add: word_less_nat_alt)

function for_u64 :: "u64 \<Rightarrow> u64 \<Rightarrow> (u64 \<Rightarrow> 's \<Rightarrow> 's) \<Rightarrow> 's \<Rightarrow> 's" where
  "for_u64 i n body s = (if i < n then for_u64 (i + 1) n body (body i s) else s)"
  by pat_completeness auto
termination
  by (relation "measure (\<lambda>(i, n, _). unat n - unat i)") (auto simp: u64_Suc word_less_nat_alt)

declare for_u64.simps [simp del]

lemma for_u64_done [simp]: "\<not> i < n \<Longrightarrow> for_u64 i n body s = s"
  by (subst for_u64.simps) simp

lemma for_u64_step: "i < n \<Longrightarrow> for_u64 i n body s = for_u64 (i + 1) n body (body i s)"
  by (subst for_u64.simps) simp

text \<open>The invariant rule: \<open>P k s\<close> says that the first \<open>k\<close> rounds have been made.\<close>

lemma for_u64_invariant:
  assumes "P (unat i) s" and "i \<le> n"
    and "\<And>j s. i \<le> j \<Longrightarrow> j < n \<Longrightarrow> P (unat j) s \<Longrightarrow> P (Suc (unat j)) (body j s)"
  shows "P (unat n) (for_u64 i n body s)"
  using assms
proof (induction i n body s rule: for_u64.induct)
  case (1 i n body s)
  show ?case
  proof (cases "i < n")
    case False
    with 1 have "i = n" by (simp add: word_le_nat_alt word_less_nat_alt word_unat_eq_iff)
    with 1 show ?thesis by simp
  next
    case True
    have "i + 1 \<le> n" using u64_Suc [OF True] True by (simp add: word_le_nat_alt word_less_nat_alt)
    moreover have "i \<le> j" if "i + 1 \<le> j" for j
      using that u64_Suc [OF True] by (simp add: word_le_nat_alt)
    ultimately show ?thesis
      using "1.IH" [OF True] "1.prems" True by (simp add: for_u64_step u64_Suc)
  qed
qed

lemma for_u64_cong:
  assumes "\<And>j s. j < n \<Longrightarrow> body j s = body' j s"
  shows "for_u64 i n body s = for_u64 i n body' s"
  using assms
proof (induction i n body s rule: for_u64.induct)
  case (1 i n body s)
  then show ?case by (cases "i < n") (simp_all add: for_u64_step)
qed

end
