(* ===== verification/CMemory.thy ===== *)
theory CMemory
  imports Prelude
begin

text \<open>
  The memory the C code runs on: one byte per 64-bit address, read and written in little
  endian order at the widths the sources use. Addresses are the virtual addresses the
  kernel dereferences; the physical memory behind them is reached through the direct map
  of the bootloader, by adding the higher-half offset, as the sources do.

  The locale \<open>cell\<close> states what a typed access (a \<open>uint16_t\<close>, \<open>uint32_t\<close> or \<open>uint64_t\<close>
  lvalue) promises, and proves once what arrays of such cells need; it is interpreted
  below at the three widths.
\<close>

type_synonym memory = "u64 \<Rightarrow> u8"

section \<open>Little-endian access\<close>

fun load_le :: "nat \<Rightarrow> memory \<Rightarrow> u64 \<Rightarrow> nat" where
  "load_le 0 m a = 0"
| "load_le (Suc n) m a = unat (m a) + 256 * load_le n m (a + 1)"

fun store_le :: "nat \<Rightarrow> memory \<Rightarrow> u64 \<Rightarrow> nat \<Rightarrow> memory" where
  "store_le 0 m a v = m"
| "store_le (Suc n) m a v = store_le n (m(a := word_of_nat v)) (a + 1) (v div 256)"

definition load16 :: "memory \<Rightarrow> u64 \<Rightarrow> u16" where
  "load16 m a = word_of_nat (load_le 2 m a)"
definition load32 :: "memory \<Rightarrow> u64 \<Rightarrow> u32" where
  "load32 m a = word_of_nat (load_le 4 m a)"
definition load64 :: "memory \<Rightarrow> u64 \<Rightarrow> u64" where
  "load64 m a = word_of_nat (load_le 8 m a)"
definition store16 :: "memory \<Rightarrow> u64 \<Rightarrow> u16 \<Rightarrow> memory" where
  "store16 m a v = store_le 2 m a (unat v)"
definition store32 :: "memory \<Rightarrow> u64 \<Rightarrow> u32 \<Rightarrow> memory" where
  "store32 m a v = store_le 4 m a (unat v)"
definition store64 :: "memory \<Rightarrow> u64 \<Rightarrow> u64 \<Rightarrow> memory" where
  "store64 m a v = store_le 8 m a (unat v)"

lemma store_le_outside: "\<not> in_range x a n \<Longrightarrow> store_le n m a v x = m x"
  by (induction n arbitrary: m a v) (auto simp: in_range_Suc)

lemma load_le_cong:
  "(\<And>i. i < n \<Longrightarrow> m (a + of_nat i) = m' (a + of_nat i)) \<Longrightarrow> load_le n m a = load_le n m' a"
proof (induction n arbitrary: a)
  case 0
  then show ?case by simp
next
  case (Suc n)
  have "load_le n m (a + 1) = load_le n m' (a + 1)"
  proof (rule Suc.IH)
    fix i assume "i < n"
    then show "m (a + 1 + of_nat i) = m' (a + 1 + of_nat i)"
      using Suc.prems [of "Suc i"] by (simp add: ac_simps)
  qed
  then show ?case using Suc.prems [of 0] by simp
qed

lemma not_in_range_before: "n < 2 ^ 64 \<Longrightarrow> \<not> in_range a (a + 1) n"
  using unat_neg_diff [of "0 :: u64" 1] by (simp add: in_range_def)

lemma load_store_le: "n \<le> 2 ^ 64 \<Longrightarrow> load_le n (store_le n m a v) a = v mod 256 ^ n"
proof (induction n arbitrary: m a v)
  case 0
  then show ?case by simp
next
  case (Suc n)
  from Suc.prems have "store_le n (m(a := word_of_nat v)) (a + 1) (v div 256) a = word_of_nat v"
    by (simp add: store_le_outside not_in_range_before)
  with Suc show ?case
    by (simp add: unat_of_nat mod_mult2_eq)
qed

lemma load_store_le_disj:
  "disj a n b k \<Longrightarrow> load_le n (store_le k m b v) a = load_le n m a"
  by (rule load_le_cong) (simp add: store_le_outside not_in_range_disj)

lemma load_le_less: "load_le n m a < 256 ^ n"
proof (induction n arbitrary: a)
  case 0
  then show ?case by simp
next
  case (Suc n)
  have "unat (m a) < 256" using unsigned_less [of "m a"] by simp
  moreover have "load_le n m (a + 1) + 1 \<le> 256 ^ n" using Suc [of "a + 1"] by simp
  ultimately show ?case by simp
qed

lemma word_of_nat_mod:
  "word_of_nat (unat v mod 65536) = (v :: u16)"
  "word_of_nat (unat w mod 4294967296) = (w :: u32)"
  "word_of_nat (unat x mod 18446744073709551616) = (x :: u64)"
proof -
  have "unat v < 2 ^ LENGTH(16)" "unat w < 2 ^ LENGTH(32)"
    by (rule unsigned_less)+
  then show "word_of_nat (unat v mod 65536) = v" "word_of_nat (unat w mod 4294967296) = w"
    by simp_all
qed simp

text \<open>A store hides the one before it, and storing what is there changes nothing.\<close>

lemma store_le_agree:
  "in_range x a n \<or> m x = m' x \<Longrightarrow> store_le n m a v x = store_le n m' a v x"
proof (induction n arbitrary: m m' a v)
  case (Suc n)
  then show ?case unfolding store_le.simps by (intro Suc.IH) (auto simp: in_range_Suc)
qed auto

lemma store_le_twice: "store_le n (store_le n m a v) a w = store_le n m a w"
  by (rule ext, rule store_le_agree) (metis store_le_outside)

lemma store_load_le: "store_le n m a (load_le n m a) = m"
proof (induction n arbitrary: a)
  case (Suc n)
  have "unat (m a) < 256" using unsigned_less [of "m a"] by simp
  then have "(unat (m a) + 256 * load_le n m (a + 1)) div 256 = load_le n m (a + 1)"
    "word_of_nat (unat (m a) + 256 * load_le n m (a + 1)) = m a"
    by (simp, simp only: word_unat_eq_iff unat_of_nat take_bit_eq_mod, simp)
  with Suc show ?case by simp
qed simp

section \<open>Typed cells\<close>

locale cell =
  fixes rd :: "memory \<Rightarrow> u64 \<Rightarrow> 'v"
    and wr :: "memory \<Rightarrow> u64 \<Rightarrow> 'v \<Rightarrow> memory"
    and width :: nat
  assumes width_pos: "0 < width"
    and rd_wr: "rd (wr m a v) a = v"
    and rd_cong: "(\<And>i. i < width \<Longrightarrow> m (a + of_nat i) = m' (a + of_nat i)) \<Longrightarrow> rd m a = rd m' a"
    and wr_outside: "\<not> in_range x a width \<Longrightarrow> wr m a v x = m x"
begin

lemma rd_wr_disj: "disj a width b width \<Longrightarrow> rd (wr m b v) a = rd m a"
  by (rule rd_cong) (simp add: wr_outside not_in_range_disj)

lemma rd_frame:
  assumes "\<And>x. \<not> in_range x b k \<Longrightarrow> m' x = m x" and "disj a width b k"
  shows "rd m' a = rd m a"
  by (rule rd_cong) (simp add: assms(1) not_in_range_disj [OF assms(2)])

text \<open>Two slots of one array: the code writes \<open>p[i]\<close> for \<open>a + width * i\<close>.\<close>

lemma unat_slot:
  assumes "width * (unat i + 1) \<le> 2 ^ 64"
  shows "unat (of_nat width * i :: u64) = width * unat i"
proof -
  have i: "width * unat i < 2 ^ 64" using assms width_pos by simp
  have "width * 1 \<le> width * (unat i + 1)" by (rule mult_le_mono2) simp
  with assms have w: "width \<le> 2 ^ 64" by linarith
  show ?thesis
  proof (cases "i = 0")
    case True
    then show ?thesis by simp
  next
    case False
    then have "width * 1 \<le> width * unat i"
      by (intro mult_le_mono2) (simp add: unat_gt_0 Suc_le_eq)
    with i have "width < 2 ^ 64" by linarith
    then have "unat (of_nat width :: u64) = width"
      by (simp add: unat_of_nat take_bit_nat_eq_self)
    with i show ?thesis using unat_mult_lem [of "of_nat width :: u64" i] by simp
  qed
qed

lemma disj_slots:
  assumes "i \<noteq> j" "width * (unat i + 1) \<le> 2 ^ 64" "width * (unat j + 1) \<le> 2 ^ 64"
  shows "disj (a + of_nat width * i) width (a + of_nat width * j) width"
proof -
  have less: "disj (a + of_nat width * i) width (a + of_nat width * j) width"
    if "unat i < unat j" "width * (unat i + 1) \<le> 2 ^ 64" "width * (unat j + 1) \<le> 2 ^ 64" for i j
  proof (rule disj_offsets)
    have "width * (unat i + 1) \<le> width * unat j"
      using that(1) by (intro mult_le_mono2) simp
    then show "unat (of_nat width * i :: u64) + width \<le> unat (of_nat width * j :: u64)"
      using that by (simp only: unat_slot) simp
    show "unat (of_nat width * j :: u64) + width \<le> 2 ^ 64"
      using that(3) by (simp only: unat_slot) simp
  qed (simp_all add: width_pos)
  from assms(1) consider "unat i < unat j" | "unat j < unat i"
    by (metis linorder_neqE_nat word_unat_eq_iff)
  then show ?thesis
    by cases (use assms less disj_sym in blast)+
qed

lemma rd_wr_slot:
  assumes "width * (unat i + 1) \<le> 2 ^ 64" "width * (unat j + 1) \<le> 2 ^ 64"
  shows "rd (wr m (a + of_nat width * j) v) (a + of_nat width * i) =
    (if i = j then v else rd m (a + of_nat width * i))"
proof (cases "i = j")
  case True
  then show ?thesis by (simp add: rd_wr)
next
  case False
  then show ?thesis using assms by (simp add: rd_wr_disj [OF disj_slots])
qed

end

interpretation cell16: cell load16 store16 2
proof
  show "load16 m a = load16 m' a" if "\<And>i. i < 2 \<Longrightarrow> m (a + of_nat i) = m' (a + of_nat i)" for m m' a
    using load_le_cong [of 2 m a m'] that by (simp add: load16_def)
qed (simp_all add: load16_def store16_def load_store_le store_le_outside
    word_of_nat_mod)

interpretation cell32: cell load32 store32 4
proof
  show "load32 m a = load32 m' a" if "\<And>i. i < 4 \<Longrightarrow> m (a + of_nat i) = m' (a + of_nat i)" for m m' a
    using load_le_cong [of 4 m a m'] that by (simp add: load32_def)
qed (simp_all add: load32_def store32_def load_store_le store_le_outside
    word_of_nat_mod)

interpretation cell64: cell load64 store64 8
proof
  show "load64 m a = load64 m' a" if "\<And>i. i < 8 \<Longrightarrow> m (a + of_nat i) = m' (a + of_nat i)" for m m' a
    using load_le_cong [of 8 m a m'] that by (simp add: load64_def)
qed (simp_all add: load64_def store64_def load_store_le store_le_outside
    word_of_nat_mod)

end
