(* ===== verification/CString.thy ===== *)
theory CString
  imports CMemory "HOL-Library.Sublist"
begin

text \<open>
  \<open>src/inc/string.c\<close>: the byte loops \<open>memcpy\<close>, \<open>memset\<close>, \<open>memmove\<close>, \<open>memcmp\<close>, and the
  string functions \<open>strlen\<close> and \<open>does_string_end_with\<close>. Each loop is a recursion on its
  counter \<open>i\<close>, a \<open>uint64_t\<close>, and is related to a specification without a loop.
  \<open>strlen\<close> and the backward branch of \<open>memmove\<close> have no bound of their own, so they are
  partial functions: \<open>None\<close> says that the loop does not return.
\<close>

section \<open>The loops\<close>

function memcpy_loop :: "u64 \<Rightarrow> u64 \<Rightarrow> u64 \<Rightarrow> u64 \<Rightarrow> memory \<Rightarrow> memory" where
  "memcpy_loop i n dest src m =
    (if i < n then memcpy_loop (i + 1) n dest src (m(dest + i := m (src + i))) else m)"
  by pat_completeness auto
termination
  by (relation "measure (\<lambda>(i, n, _). unat n - unat i)") (auto simp: u64_Suc word_less_nat_alt)

definition memcpy :: "u64 \<Rightarrow> u64 \<Rightarrow> u64 \<Rightarrow> memory \<Rightarrow> memory" where
  "memcpy dest src n m = memcpy_loop 0 n dest src m"

function memset_loop :: "u64 \<Rightarrow> u64 \<Rightarrow> u64 \<Rightarrow> u8 \<Rightarrow> memory \<Rightarrow> memory" where
  "memset_loop i n s c m = (if i < n then memset_loop (i + 1) n s c (m(s + i := c)) else m)"
  by pat_completeness auto
termination
  by (relation "measure (\<lambda>(i, n, _). unat n - unat i)") (auto simp: u64_Suc word_less_nat_alt)

text \<open>The \<open>int\<close> argument is cast to \<open>uint8_t\<close> at each store.\<close>

definition memset :: "u64 \<Rightarrow> u32 \<Rightarrow> u64 \<Rightarrow> memory \<Rightarrow> memory" where
  "memset s c n m = memset_loop 0 n s (ucast c) m"

text \<open>\<open>for (uint64_t i = n - 1; i >= 0; i--)\<close>: the guard compares an unsigned value with 0.\<close>

partial_function (option) memmove_back :: "u64 \<Rightarrow> u64 \<Rightarrow> u64 \<Rightarrow> memory \<Rightarrow> memory option" where
  "memmove_back i s1 s2 m =
    (if i \<ge> 0 then memmove_back (i - 1) s1 s2 (m(s1 + i := m (s2 + i))) else Some m)"

definition memmove :: "u64 \<Rightarrow> u64 \<Rightarrow> u64 \<Rightarrow> memory \<Rightarrow> memory option" where
  "memmove s1 s2 n m =
    (if s1 > s2 then memmove_back (n - 1) s1 s2 m else Some (memcpy_loop 0 n s1 s2 m))"

function memcmp_loop :: "u64 \<Rightarrow> u64 \<Rightarrow> u64 \<Rightarrow> u64 \<Rightarrow> memory \<Rightarrow> int" where
  "memcmp_loop i n s1 s2 m =
    (if i < n then
       (let b1 = m (s1 + i); b2 = m (s2 + i) in
        if b1 > b2 then 1 else if b1 < b2 then -1 else memcmp_loop (i + 1) n s1 s2 m)
     else 0)"
  by pat_completeness auto
termination
  by (relation "measure (\<lambda>(i, n, _). unat n - unat i)") (auto simp: u64_Suc word_less_nat_alt)

definition memcmp :: "u64 \<Rightarrow> u64 \<Rightarrow> u64 \<Rightarrow> memory \<Rightarrow> int" where
  "memcmp s1 s2 n m = memcmp_loop 0 n s1 s2 m"

partial_function (option) strlen_loop :: "u64 \<Rightarrow> u64 \<Rightarrow> memory \<Rightarrow> u64 option" where
  "strlen_loop i str m = (if m (str + i) \<noteq> 0 then strlen_loop (i + 1) str m else Some i)"

definition strlen :: "u64 \<Rightarrow> memory \<Rightarrow> u64 option" where
  "strlen str m = strlen_loop 0 str m"

function end_with_loop :: "u64 \<Rightarrow> u64 \<Rightarrow> u64 \<Rightarrow> u64 \<Rightarrow> u64 \<Rightarrow> memory \<Rightarrow> bool" where
  "end_with_loop i len_str len_end str suf m =
    (if i < len_end then
       (if m (str + (len_str - 1 - i)) \<noteq> m (suf + (len_end - 1 - i)) then False
        else end_with_loop (i + 1) len_str len_end str suf m)
     else True)"
  by pat_completeness auto
termination
  by (relation "measure (\<lambda>(i, _, n, _). unat n - unat i)") (auto simp: u64_Suc word_less_nat_alt)

definition does_string_end_with :: "u64 \<Rightarrow> u64 \<Rightarrow> memory \<Rightarrow> bool option" where
  "does_string_end_with str suf m =
    (case strlen str m of None \<Rightarrow> None
     | Some len_str \<Rightarrow>
       (case strlen suf m of None \<Rightarrow> None
        | Some len_end \<Rightarrow>
          Some (if len_str < len_end then False
                else end_with_loop 0 len_str len_end str suf m)))"

declare memcpy_loop.simps [simp del] memset_loop.simps [simp del]
  memcmp_loop.simps [simp del] end_with_loop.simps [simp del]

section \<open>\<open>memset\<close> and \<open>memcpy\<close> as updates of a range\<close>

lemma in_range_from:
  assumes "i < (n::u64)"
  shows "in_range x (s + i) (unat n - unat i) \<longleftrightarrow>
    x = s + i \<or> in_range x (s + (i + 1)) (unat n - unat (i + 1))"
proof -
  have "unat n - unat i = Suc (unat n - unat (i + 1))"
    using assms by (simp add: u64_Suc word_less_nat_alt)
  then show ?thesis by (simp only: in_range_Suc add.assoc)
qed

lemma memset_loop_eq:
  "memset_loop i n s c m = (\<lambda>x. if in_range x (s + i) (unat n - unat i) then c else m x)"
proof (induction i n s c m rule: memset_loop.induct)
  case (1 i n s c m)
  show ?case
  proof (cases "i < n")
    case True
    then have step: "memset_loop i n s c m = memset_loop (i + 1) n s c (m(s + i := c))"
      by (subst memset_loop.simps) simp
    show ?thesis
      unfolding step "1.IH" [OF True] by (rule ext) (simp add: in_range_from [OF True])
  next
    case False
    then show ?thesis
      by (subst memset_loop.simps) (simp add: word_less_nat_alt)
  qed
qed

lemma memset_eq: "memset s c n m = (\<lambda>x. if in_range x s (unat n) then ucast c else m x)"
  by (simp add: memset_def memset_loop_eq)

lemma memset_0_eq: "memset s 0 n m = (\<lambda>x. if in_range x s (unat n) then 0 else m x)"
  by (rule ext) (simp add: memset_eq)

text \<open>
  \<open>memcpy_loop\<close> reads each source byte before it is overwritten exactly when the
  destination does not start strictly inside the source.
\<close>

lemma memcpy_loop_eq:
  assumes "dest = src \<or> unat n \<le> unat (dest - src)"
  shows "memcpy_loop i n dest src m =
    (\<lambda>x. if in_range x (dest + i) (unat n - unat i) then m (x - dest + src) else m x)"
  using assms
proof (induction i n dest src m rule: memcpy_loop.induct)
  case (1 i n dest src m)
  show ?case
  proof (cases "i < n")
    case False
    then show ?thesis
      by (subst memcpy_loop.simps) (simp add: word_less_nat_alt)
  next
    case True
    let ?m = "m(dest + i := m (src + i))"
    have IH: "memcpy_loop (i + 1) n dest src ?m =
      (\<lambda>x. if in_range x (dest + (i + 1)) (unat n - unat (i + 1)) then ?m (x - dest + src) else ?m x)"
      using 1 True by blast
    have keep: "?m (x - dest + src) = m (x - dest + src)"
      if r: "in_range x (dest + (i + 1)) (unat n - unat (i + 1))" for x
    proof (cases "x - dest + src = dest + i")
      case False
      then show ?thesis by simp
    next
      case eq: True
      define j where "j = x - dest"
      have "x - (dest + (i + 1)) = j - (i + 1)" by (simp add: j_def)
      with r have jr: "unat (j - (i + 1)) < unat n - unat (i + 1)" by (simp add: in_range_def)
      from eq have ds: "dest - src = j - i" by (simp add: j_def algebra_simps)
      have "dest = src"
      proof (rule ccontr)
        assume "dest \<noteq> src"
        with "1.prems" ds have n: "unat n \<le> unat (j - i)" "j - i \<noteq> 0" by auto
        then have "unat (j - i - 1) = unat (j - i) - 1" by (simp add: unat_minus_one)
        moreover have "j - (i + 1) = j - i - 1" by (simp only: diff_diff_add)
        ultimately have "unat (j - i) - 1 < unat n - unat (i + 1)" using jr by metis
        with n(1) u64_Suc [OF True] show False by linarith
      qed
      with eq show ?thesis by simp
    qed
    have step: "memcpy_loop i n dest src m = memcpy_loop (i + 1) n dest src ?m"
      using True by (subst memcpy_loop.simps) simp
    show ?thesis
    proof
      fix x
      show "memcpy_loop i n dest src m x =
        (if in_range x (dest + i) (unat n - unat i) then m (x - dest + src) else m x)"
        using keep [of x] unfolding step IH in_range_from [OF True]
        by (cases "x = dest + i") (simp_all add: algebra_simps del: fun_upd_apply, simp_all)
    qed
  qed
qed

lemma memcpy_eq:
  "dest = src \<or> unat n \<le> unat (dest - src) \<Longrightarrow>
   memcpy dest src n m = (\<lambda>x. if in_range x dest (unat n) then m (x - dest + src) else m x)"
  by (simp add: memcpy_def memcpy_loop_eq)

lemma memcpy_outside: 
  assumes "\<not> in_range x dest (unat n)"
  shows "memcpy dest src n m x = m x"
proof -
  have "memcpy_loop i n dest src m x = m x" if "\<not> in_range x (dest + i) (unat n - unat i)" for i
    using that
  proof (induction i n dest src m rule: memcpy_loop.induct)
    case (1 i n dest src m)
    show ?case
    proof (cases "i < n")
      case False
      then show ?thesis by (subst memcpy_loop.simps) simp
    next
      case True
      then have step: "memcpy_loop i n dest src m =
          memcpy_loop (i + 1) n dest src (m(dest + i := m (src + i)))"
        by (subst memcpy_loop.simps) simp
      have out: "x \<noteq> dest + i" "\<not> in_range x (dest + (i + 1)) (unat n - unat (i + 1))"
        using "1.prems" by (simp_all add: in_range_from [OF True])
      show ?thesis unfolding step "1.IH" [OF True out(2)] using out(1) by simp
    qed
  qed
  from this [of 0] assms show ?thesis by (simp add: memcpy_def)
qed

lemma memmove_back_None: "memmove_back i s1 s2 m = None"
proof (cases "memmove_back i s1 s2 m")
  case (Some r)
  have False
    by (rule memmove_back.raw_induct [where P = "\<lambda>_ _ _ _ _. False", OF _ Some]) auto
  then show ?thesis ..
qed simp

section \<open>Comparing\<close>

lemma memcmp_loop_cases:
  "memcmp_loop i n s1 s2 m = 0 \<and> (\<forall>k. i \<le> k \<and> k < n \<longrightarrow> m (s1 + k) = m (s2 + k)) \<or>
   (\<exists>k. i \<le> k \<and> k < n \<and> (\<forall>l. i \<le> l \<and> l < k \<longrightarrow> m (s1 + l) = m (s2 + l)) \<and>
     (m (s1 + k) > m (s2 + k) \<and> memcmp_loop i n s1 s2 m = 1 \<or>
      m (s1 + k) < m (s2 + k) \<and> memcmp_loop i n s1 s2 m = -1))"
proof (induction i n s1 s2 m rule: memcmp_loop.induct)
  case (1 i n s1 s2 m)
  have le: "i \<le> k \<longleftrightarrow> i = k \<or> i + 1 \<le> k" if "i < n" for k
    using u64_Suc [OF that] by (auto simp: word_le_nat_alt word_unat_eq_iff)
  consider "\<not> i < n" | "i < n" "m (s1 + i) \<noteq> m (s2 + i)" | "i < n" "m (s1 + i) = m (s2 + i)"
    by blast
  then show ?case
  proof cases
    case 1
    then show ?thesis by (subst memcmp_loop.simps) auto
  next
    case 2
    have "\<exists>k. i \<le> k \<and> k < n \<and> (\<forall>l. i \<le> l \<and> l < k \<longrightarrow> m (s1 + l) = m (s2 + l)) \<and>
     (m (s1 + k) > m (s2 + k) \<and> memcmp_loop i n s1 s2 m = 1 \<or>
      m (s1 + k) < m (s2 + k) \<and> memcmp_loop i n s1 s2 m = -1)"
      using 2 by (intro exI [of _ i]) (auto simp: memcmp_loop.simps [of i] Let_def)
    then show ?thesis ..
  next
    case 3
    then have eq: "memcmp_loop i n s1 s2 m = memcmp_loop (i + 1) n s1 s2 m"
      by (subst memcmp_loop.simps) simp
    have IH: "memcmp_loop (i + 1) n s1 s2 m = 0 \<and>
        (\<forall>k. i + 1 \<le> k \<and> k < n \<longrightarrow> m (s1 + k) = m (s2 + k)) \<or>
      (\<exists>k. i + 1 \<le> k \<and> k < n \<and> (\<forall>l. i + 1 \<le> l \<and> l < k \<longrightarrow> m (s1 + l) = m (s2 + l)) \<and>
        (m (s1 + k) > m (s2 + k) \<and> memcmp_loop (i + 1) n s1 s2 m = 1 \<or>
         m (s1 + k) < m (s2 + k) \<and> memcmp_loop (i + 1) n s1 s2 m = -1))"
      using "1.IH" [OF 3(1) refl refl] 3(2) by simp
    show ?thesis
      unfolding eq le [OF 3(1)] using IH
    proof (elim disjE exE conjE, goal_cases)
      case 1
      with 3 show ?case by blast
    next
      case (2 k)
      then show ?case using 3 by (intro disjI2 exI [of _ k]) auto
    next
      case (3 k)
      then show ?case using \<open>m (s1 + i) = m (s2 + i)\<close> by (intro disjI2 exI [of _ k]) auto
    qed
  qed
qed

section \<open>Strings\<close>

text \<open>
  \<open>cstring m p xs\<close>: the bytes from \<open>p\<close> on are those of \<open>xs\<close>, none of them 0, and then a 0.
\<close>

definition bytes_at :: "memory \<Rightarrow> u64 \<Rightarrow> u8 list \<Rightarrow> bool" where
  "bytes_at m p xs \<longleftrightarrow> (\<forall>i < length xs. m (p + of_nat i) = xs ! i)"

definition cstring :: "memory \<Rightarrow> u64 \<Rightarrow> u8 list \<Rightarrow> bool" where
  "cstring m p xs \<longleftrightarrow> bytes_at m p (xs @ [0]) \<and> 0 \<notin> set xs \<and> length xs < 2 ^ 64"

lemma cstring_nth: "cstring m p xs \<Longrightarrow> i < length xs \<Longrightarrow> m (p + of_nat i) = xs ! i"
  unfolding cstring_def bytes_at_def by (metis less_SucI length_append_singleton nth_append)

lemma cstring_end: "cstring m p xs \<Longrightarrow> m (p + of_nat (length xs)) = 0"
  unfolding cstring_def bytes_at_def by (metis length_append_singleton lessI nth_append_length)

lemma cstring_nonzero: "cstring m p xs \<Longrightarrow> i < length xs \<Longrightarrow> m (p + of_nat i) \<noteq> 0"
  by (simp add: cstring_nth) (metis cstring_def nth_mem)

lemma strlen_loop_cstring:
  "cstring m p xs \<Longrightarrow> k \<le> length xs \<Longrightarrow>
   strlen_loop (of_nat (length xs - k)) p m = Some (of_nat (length xs))"
proof (induction k)
  case 0
  then show ?case
    by (subst strlen_loop.simps) (simp add: cstring_end)
next
  case (Suc k)
  then have "m (p + of_nat (length xs - Suc k)) \<noteq> 0"
    by (intro cstring_nonzero) auto
  moreover have "of_nat (length xs - Suc k) + 1 = (of_nat (length xs - k) :: u64)"
    using Suc.prems(2) by (metis Suc_diff_Suc Suc_le_lessD of_nat_Suc add.commute)
  ultimately show ?case
    using Suc by (subst strlen_loop.simps) (simp only: if_True Suc_leD simp_thms)
qed

lemma strlen_cstring: "cstring m p xs \<Longrightarrow> strlen p m = Some (of_nat (length xs))"
  using strlen_loop_cstring [of m p xs "length xs"] by (simp add: strlen_def)

lemma end_with_loop_iff:
  "end_with_loop i ls le p q m \<longleftrightarrow>
    (\<forall>k. i \<le> k \<and> k < le \<longrightarrow> m (p + (ls - 1 - k)) = m (q + (le - 1 - k)))"
proof (induction i ls le p q m rule: end_with_loop.induct)
  case (1 i ls le p q m)
  have le: "i \<le> k \<longleftrightarrow> i = k \<or> i + 1 \<le> k" if "i < le" for k
    using u64_Suc [OF that] by (auto simp: word_le_nat_alt word_unat_eq_iff)
  show ?case
  proof (cases "i < le")
    case False
    then show ?thesis by (subst end_with_loop.simps) auto
  next
    case True
    with 1 show ?thesis
      by (subst end_with_loop.simps) (auto simp: le [OF True])
  qed
qed

end
