(* ===== verification/Machine.thy ===== *)
theory Machine
  imports CString
begin

text \<open>
  What every component shares: the memory, the privileged instructions the kernel has
  executed (\<open>invlpg\<close>, writes of \<open>cr3\<close>, \<open>lidt\<close>, \<open>cli\<close>, \<open>sti\<close>), and the calls of \<open>printf\<close> it
  has made, each a format string with its arguments, oldest first. Components extend
  the record by the global variables of their C file.

  The records below are the structures of \<open>src/bootdata.h\<close>. The memory map is the array
  the boot loader hands over, read-only for the kernel, so it is a list; the number of its
  entries is the length of the list.
\<close>

datatype cpu_op = Invlpg u64 | WriteCr3 u64 | Lidt u64 | Cli | Sti

datatype print_arg = PInt u64 | PStr string

record machine =
  mem :: memory
  cpu_ops :: "cpu_op list"
  console :: "(string \<times> print_arg list) list"

definition cpu :: "cpu_op \<Rightarrow> 'a machine_scheme \<Rightarrow> 'a machine_scheme" where
  "cpu c s = s\<lparr>cpu_ops := cpu_ops s @ [c]\<rparr>"

definition print :: "string \<Rightarrow> print_arg list \<Rightarrow> 'a machine_scheme \<Rightarrow> 'a machine_scheme" where
  "print fmt args s = s\<lparr>console := console s @ [(fmt, args)]\<rparr>"

definition newline :: string where
  "newline = [CHR 0x0A]"

text \<open>The colours of \<open>src/inc/stdio.h\<close>.\<close>

definition COLOUR_BACKGROUND :: u32 where "COLOUR_BACKGROUND = 0x040405"
definition COLOUR_KERNEL_INFO :: u32 where "COLOUR_KERNEL_INFO = 0x48A5C2"
definition COLOUR_PRINT :: u32 where "COLOUR_PRINT = 0xFFE8F2"
definition COLOUR_SPECIAL_INFO :: u32 where "COLOUR_SPECIAL_INFO = 0x97C8EB"
definition COLOUR_DRIVER_INFO :: u32 where "COLOUR_DRIVER_INFO = 0x64E9EE"
definition COLOUR_PRINT_ERROR :: u32 where "COLOUR_PRINT_ERROR = 0xEB6734"

lemma mem_cpu [simp]: "mem (cpu c s) = mem s" "mem (print f a s) = mem s"
  by (simp_all add: cpu_def print_def)

section \<open>Boot data\<close>

definition MEMMAP_USABLE :: u64 where "MEMMAP_USABLE = 0"
definition MEMMAP_RESERVED :: u64 where "MEMMAP_RESERVED = 1"
definition MEMMAP_ACPI_RECLAIMABLE :: u64 where "MEMMAP_ACPI_RECLAIMABLE = 2"
definition MEMMAP_ACPI_NVS :: u64 where "MEMMAP_ACPI_NVS = 3"
definition MEMMAP_BAD_MEMORY :: u64 where "MEMMAP_BAD_MEMORY = 4"
definition MEMMAP_BOOTLOADER_RECLAIMABLE :: u64 where "MEMMAP_BOOTLOADER_RECLAIMABLE = 5"
definition MEMMAP_EXECUTABLE_AND_MODULES :: u64 where "MEMMAP_EXECUTABLE_AND_MODULES = 6"
definition MEMMAP_FRAMEBUFFER :: u64 where "MEMMAP_FRAMEBUFFER = 7"

lemmas memmap_types = MEMMAP_USABLE_def MEMMAP_RESERVED_def MEMMAP_ACPI_RECLAIMABLE_def
  MEMMAP_ACPI_NVS_def MEMMAP_BAD_MEMORY_def MEMMAP_BOOTLOADER_RECLAIMABLE_def
  MEMMAP_EXECUTABLE_AND_MODULES_def MEMMAP_FRAMEBUFFER_def

record memmap_entry =
  me_base :: u64
  me_length :: u64
  me_type :: u64

record bootloader_info =
  bl_exists :: bool
  bl_name :: u64
  bl_version :: u64

record firmware_info =
  fw_exists :: bool
  fw_type :: u64

record higher_half_info =
  hh_exists :: bool
  hh_offset :: u64
  hh_kernel_start :: u64
  hh_kernel_end :: u64

record memmap_info =
  mm_exists :: bool
  mm_entries :: "memmap_entry list"

record rsdp_info =
  rsdp_exists :: bool
  rsdp_address :: u64

record bamboo_fb =
  fb_buffer :: u64
  fb_width :: u64
  fb_height :: u64
  fb_pitch :: u64

record boot_data =
  bootloader :: bootloader_info
  firmware :: firmware_info
  higher_half :: higher_half_info
  framebuffer :: bamboo_fb
  memmap :: memmap_info
  rsdp :: rsdp_info

end
