(* ===== verification/Page_Allocator.thy ===== *)
theory Page_Allocator
  imports Machine
begin

text \<open>
  The interface between the page allocator and its clients (the page tables, the heap, the
  interrupt table): what a call that returns one page of 4096 bytes promises. The clients
  ask for several pages in a row; the lemmas about \<open>alloc_many\<close> say once, for every
  provider, that such pages are pairwise different, were free before and, where the
  provider clears pages, are all clear at the end.
  \<open>Pmm\<close> interprets the locales at \<open>pmm_alloc_phys\<close>, \<open>pmm_alloc\<close> and \<open>pmm_allocz\<close>.
\<close>

fun alloc_many :: "('s \<Rightarrow> u64 \<times> 's) \<Rightarrow> nat \<Rightarrow> 's \<Rightarrow> u64 list \<times> 's" where
  "alloc_many alloc 0 s = ([], s)"
| "alloc_many alloc (Suc n) s =
    (let (p, s1) = alloc s; (ps, s2) = alloc_many alloc n s1 in (p # ps, s2))"

locale page_allocator =
  fixes alloc :: "'s \<Rightarrow> u64 \<times> 's"
    and free :: "'s \<Rightarrow> u64 set"
    and inv :: "'s \<Rightarrow> bool"
  assumes finite_free: "inv s \<Longrightarrow> finite (free s)"
    and alloc_page: "inv s \<Longrightarrow> free s \<noteq> {} \<Longrightarrow> fst (alloc s) \<in> free s"
    and alloc_free: "inv s \<Longrightarrow> free s \<noteq> {} \<Longrightarrow> free (snd (alloc s)) = free s - {fst (alloc s)}"
    and alloc_inv: "inv s \<Longrightarrow> free s \<noteq> {} \<Longrightarrow> inv (snd (alloc s))"
begin

lemma card_alloc: "inv s \<Longrightarrow> free s \<noteq> {} \<Longrightarrow> card (free (snd (alloc s))) = card (free s) - 1"
  by (simp add: alloc_free alloc_page card_Diff_singleton finite_free)

lemma nonempty: "n < card (free s) \<Longrightarrow> free s \<noteq> {}"
  by auto

lemma alloc_many_pages:
  assumes "inv s" "n \<le> card (free s)"
  shows "distinct (fst (alloc_many alloc n s)) \<and> length (fst (alloc_many alloc n s)) = n \<and>
    set (fst (alloc_many alloc n s)) \<subseteq> free s \<and>
    free (snd (alloc_many alloc n s)) = free s - set (fst (alloc_many alloc n s)) \<and>
    inv (snd (alloc_many alloc n s))"
  using assms
proof (induction n arbitrary: s)
  case 0
  then show ?case by simp
next
  case (Suc n)
  then have ne: "free s \<noteq> {}" by auto
  let ?s = "snd (alloc s)"
  have "inv ?s" "n \<le> card (free ?s)"
    using Suc.prems ne by (simp_all add: alloc_inv card_alloc)
  note IH = Suc.IH [OF this]
  then show ?case
    using alloc_free [OF Suc.prems(1) ne] alloc_page [OF Suc.prems(1) ne]
    by (auto simp: split_beta Let_def)
qed

end

locale zeroed_page_allocator = page_allocator alloc free inv
  for alloc :: "'s \<Rightarrow> u64 \<times> 's" and free :: "'s \<Rightarrow> u64 set" and inv :: "'s \<Rightarrow> bool" +
  fixes memory :: "'s \<Rightarrow> memory"
    and own :: "'s \<Rightarrow> u64 set"
  assumes zeroed: "inv s \<Longrightarrow> free s \<noteq> {} \<Longrightarrow> in_range x (fst (alloc s)) 4096 \<Longrightarrow>
      memory (snd (alloc s)) x = 0"
    and frame: "inv s \<Longrightarrow> free s \<noteq> {} \<Longrightarrow> x \<notin> own s \<Longrightarrow> \<not> in_range x (fst (alloc s)) 4096 \<Longrightarrow>
      memory (snd (alloc s)) x = memory s x"
    and own_alloc: "inv s \<Longrightarrow> free s \<noteq> {} \<Longrightarrow> own (snd (alloc s)) = own s"
    and own_free: "inv s \<Longrightarrow> p \<in> free s \<Longrightarrow> in_range x p 4096 \<Longrightarrow> x \<notin> own s"
    and free_apart: "inv s \<Longrightarrow> p \<in> free s \<Longrightarrow> q \<in> free s \<Longrightarrow> in_range x p 4096 \<Longrightarrow>
      in_range x q 4096 \<Longrightarrow> p = q"
begin

lemma alloc_many_frame:
  assumes "inv s" "n \<le> card (free s)" "x \<notin> own s"
    and "\<And>p. p \<in> set (fst (alloc_many alloc n s)) \<Longrightarrow> \<not> in_range x p 4096"
  shows "memory (snd (alloc_many alloc n s)) x = memory s x"
  using assms
proof (induction n arbitrary: s)
  case 0
  then show ?case by simp
next
  case (Suc n)
  then have ne: "free s \<noteq> {}" by auto
  let ?s = "snd (alloc s)"
  have s: "inv ?s" "n \<le> card (free ?s)" "x \<notin> own ?s"
    using Suc.prems ne by (simp_all add: alloc_inv card_alloc own_alloc [OF Suc.prems(1) ne])
  have out: "\<not> in_range x p 4096" if "p = fst (alloc s) \<or> p \<in> set (fst (alloc_many alloc n ?s))" for p
    using Suc.prems(4) [of p] that by (auto simp: split_beta Let_def)
  have "memory (snd (alloc_many alloc n ?s)) x = memory ?s x"
    using s out by (intro Suc.IH) auto
  also have "\<dots> = memory s x" using Suc.prems ne out by (simp add: frame)
  finally show ?case by (simp add: split_beta Let_def)
qed

lemma alloc_many_zeroed:
  assumes "inv s" "n \<le> card (free s)" "p \<in> set (fst (alloc_many alloc n s))" "in_range x p 4096"
  shows "memory (snd (alloc_many alloc n s)) x = 0"
  using assms
proof (induction n arbitrary: s)
  case 0
  then show ?case by simp
next
  case (Suc n)
  then have ne: "free s \<noteq> {}" by auto
  let ?s = "snd (alloc s)"
  have s: "inv ?s" "n \<le> card (free ?s)"
    using Suc.prems ne by (simp_all add: alloc_inv card_alloc)
  have res: "snd (alloc_many alloc (Suc n) s) = snd (alloc_many alloc n ?s)"
    by (simp add: split_beta Let_def)
  show ?case
  proof (cases "p \<in> set (fst (alloc_many alloc n ?s))")
    case True
    then show ?thesis using Suc.IH [OF s True Suc.prems(4)] unfolding res by simp
  next
    case False
    then have p: "p = fst (alloc s)" using Suc.prems(3) by (auto simp: split_beta Let_def)
    have "memory (snd (alloc_many alloc n ?s)) x = memory ?s x"
    proof (rule alloc_many_frame [OF s])
      show "x \<notin> own ?s"
        using own_free [OF Suc.prems(1) alloc_page [OF Suc.prems(1) ne]] Suc.prems(4) p
        by (simp add: own_alloc [OF Suc.prems(1) ne])
      show "\<not> in_range x q 4096" if q: "q \<in> set (fst (alloc_many alloc n ?s))" for q
      proof
        assume "in_range x q 4096"
        moreover have "q \<in> free s" "p \<in> free s"
          using q alloc_many_pages [OF s] alloc_free [OF Suc.prems(1) ne] alloc_page [OF Suc.prems(1) ne] p
          by auto
        ultimately have "q = p" using free_apart [OF Suc.prems(1)] Suc.prems(4) by blast
        with q False show False by simp
      qed
    qed
    also have "\<dots> = 0" using zeroed [OF Suc.prems(1) ne] Suc.prems(4) p by simp
    finally show ?thesis unfolding res .
  qed
qed

end

end
