(* ===== verification/Pmm.thy ===== *)
theory Pmm
  imports Page_Allocator
begin

text \<open>
  \<open>src/mem/pmm.c\<close>, the physical page allocator: the usable pages of the memory map are
  numbered in the order of its entries, and a bitmap in the first of them holds one bit per
  page. This theory has everything but \<open>pmm_virt_to_phys\<close> and \<open>pmm_free\<close>, which call the
  page tables of \<open>vmm.c\<close> and are in \<open>Pmm_Free\<close>.

  The specification is the list \<open>usable_pages\<close> of page addresses and the set of free pages.
  The lemmas show that the index arithmetic of the code is lookup in that list and
  its inverse, that the bitmap is a set of indices, and that allocation hands out a free
  page and removes exactly that page from the free ones.
\<close>

record pmm = machine +
  higher_half_offset :: u64
  memmap_entries :: "memmap_entry list"
  pmm_usable_pages :: u64
  pmm_bitmap_pages :: u64
  pmm_num_allocated_pages :: u64

section \<open>The operations\<close>

definition pmm_phys_to_virt :: "'a pmm_scheme \<Rightarrow> u64 \<Rightarrow> u64" where
  "pmm_phys_to_virt s phys = phys + higher_half_offset s"

fun address_by_index :: "memmap_entry list \<Rightarrow> u64 \<Rightarrow> u64 \<Rightarrow> u64" where
  "address_by_index [] current_index index = UINT64_MAX"
| "address_by_index (entry # es) current_index index =
    (if me_type entry = MEMMAP_USABLE then
       (if current_index + me_length entry div 0x1000 \<le> index
        then address_by_index es (current_index + me_length entry div 0x1000) index
        else me_base entry + 0x1000 * (index - current_index))
     else address_by_index es current_index index)"

definition pmm_get_address_by_index :: "'a pmm_scheme \<Rightarrow> u64 \<Rightarrow> u64" where
  "pmm_get_address_by_index s index = address_by_index (memmap_entries s) 0 index"

fun index_by_address :: "memmap_entry list \<Rightarrow> u64 \<Rightarrow> u64 \<Rightarrow> u64" where
  "index_by_address [] current_index physical_address = UINT64_MAX"
| "index_by_address (entry # es) current_index physical_address =
    (if me_type entry = MEMMAP_USABLE then
       (if physical_address \<ge> me_base entry \<and> physical_address < me_base entry + me_length entry
        then current_index + (physical_address - me_base entry) div 0x1000
        else index_by_address es (current_index + me_length entry div 0x1000) physical_address)
     else index_by_address es current_index physical_address)"

definition pmm_get_index_by_address :: "'a pmm_scheme \<Rightarrow> u64 \<Rightarrow> u64" where
  "pmm_get_index_by_address s address = index_by_address (memmap_entries s) 0 address"

definition pmm_is_usable_page_allocated_by_index :: "'a pmm_scheme \<Rightarrow> u64 \<Rightarrow> bool" where
  "pmm_is_usable_page_allocated_by_index s index =
    (let bitmap_page = index div (0x1000 * 8);
         bit_of_page = index - bitmap_page * (0x1000 * 8);
         byte_of_page = bit_of_page div 8;
         bit_of_byte = ucast (bit_of_page - 8 * byte_of_page) :: u8;
         page = pmm_get_address_by_index s bitmap_page
     in if page = UINT64_MAX then True
        else
          (let page = pmm_phys_to_virt s page;
               byte = mem s (page + byte_of_page)
           in byte AND push_bit (unat bit_of_byte) 1 \<noteq> 0))"

definition pmm_set_usable_page_allocated_by_index ::
    "u64 \<Rightarrow> bool \<Rightarrow> 'a pmm_scheme \<Rightarrow> 'a pmm_scheme" where
  "pmm_set_usable_page_allocated_by_index index allocated s =
    (let bitmap_page = index div (0x1000 * 8);
         bit_of_page = index - bitmap_page * (0x1000 * 8);
         byte_of_page = bit_of_page div 8;
         bit_of_byte = ucast (bit_of_page - byte_of_page * 8) :: u8;
         page = pmm_get_address_by_index s bitmap_page
     in if page = UINT64_MAX then s
        else
          (let page = pmm_phys_to_virt s page;
               byte = mem s (page + byte_of_page);
               new_byte = (if allocated then byte OR push_bit (unat bit_of_byte) 1
                           else byte AND NOT (push_bit (unat bit_of_byte) 1));
               s = (if allocated \<and> new_byte \<noteq> byte
                      then s\<lparr>pmm_num_allocated_pages := pmm_num_allocated_pages s + 1\<rparr>
                    else if \<not> allocated \<and> new_byte \<noteq> byte
                      then s\<lparr>pmm_num_allocated_pages := pmm_num_allocated_pages s - 1\<rparr>
                    else s)
           in s\<lparr>mem := (mem s)(page + byte_of_page := new_byte)\<rparr>))"

function alloc_phys_loop :: "u64 \<Rightarrow> 'a pmm_scheme \<Rightarrow> u64 \<times> 'a pmm_scheme" where
  "alloc_phys_loop i s =
    (if i < pmm_usable_pages s then
       (if \<not> pmm_is_usable_page_allocated_by_index s i then
          (let s' = pmm_set_usable_page_allocated_by_index i True s;
               address = pmm_get_address_by_index s' i
           in if address = UINT64_MAX then (0, s') else (address, s'))
        else alloc_phys_loop (i + 1) s)
     else (0, s))"
  by pat_completeness auto
termination
  by (relation "measure (\<lambda>(i, s). unat (pmm_usable_pages s) - unat i)")
    (auto simp: u64_Suc word_less_nat_alt)

definition pmm_alloc_phys :: "'a pmm_scheme \<Rightarrow> u64 \<times> 'a pmm_scheme" where
  "pmm_alloc_phys s = alloc_phys_loop 0 s"

definition pmm_alloc :: "'a pmm_scheme \<Rightarrow> u64 \<times> 'a pmm_scheme" where
  "pmm_alloc s = (let (phys, s') = pmm_alloc_phys s in (pmm_phys_to_virt s' phys, s'))"

definition pmm_allocz :: "'a pmm_scheme \<Rightarrow> u64 \<times> 'a pmm_scheme" where
  "pmm_allocz s =
    (let (page, s') = pmm_alloc s in (page, s'\<lparr>mem := memset page 0 0x1000 (mem s')\<rparr>))"

definition pmm_get_total_usable_memory :: "'a pmm_scheme \<Rightarrow> u64" where
  "pmm_get_total_usable_memory s = pmm_usable_pages s * 0x1000"

definition pmm_get_current_free_memory :: "'a pmm_scheme \<Rightarrow> u64" where
  "pmm_get_current_free_memory s = (pmm_usable_pages s - pmm_num_allocated_pages s) * 0x1000"

text \<open>The loop of \<open>pmm_init\<close> that adds up the usable pages.\<close>

definition count_usable :: "memmap_entry list \<Rightarrow> u64 \<Rightarrow> u64" where
  "count_usable es n =
    fold (\<lambda>entry n. if me_type entry = MEMMAP_USABLE then n + me_length entry div 0x1000 else n) es n"

definition pmm_init :: "boot_data \<Rightarrow> 'a pmm_scheme \<Rightarrow> 'a pmm_scheme" where
  "pmm_init bootdata s =
    (let s = s\<lparr>higher_half_offset := hh_offset (higher_half bootdata),
               memmap_entries := mm_entries (memmap bootdata)\<rparr>;
         s = s\<lparr>pmm_usable_pages := count_usable (memmap_entries s) (pmm_usable_pages s)\<rparr>;
         s = s\<lparr>pmm_bitmap_pages := pmm_usable_pages s div (0x1000 * 8) + 1\<rparr>;
         s = for_u64 0 (pmm_bitmap_pages s)
               (\<lambda>i s. s\<lparr>mem := memset (pmm_phys_to_virt s (pmm_get_address_by_index s i)) 0 0x1000 (mem s)\<rparr>) s;
         s = for_u64 0 (pmm_bitmap_pages s)
               (\<lambda>i s. pmm_set_usable_page_allocated_by_index i True s) s
     in print (''%C[PMM]%C - PMM initialised, usable memory: %X bytes'' @ newline)
          [PInt (ucast COLOUR_KERNEL_INFO), PInt (ucast COLOUR_PRINT),
           PInt (pmm_get_total_usable_memory s)] s)"

declare alloc_phys_loop.simps [simp del]

section \<open>Numbering the usable pages\<close>

definition entry_pages :: "memmap_entry \<Rightarrow> u64 list" where
  "entry_pages e = map (\<lambda>i. me_base e + 0x1000 * of_nat i) [0..<unat (me_length e) div 4096]"

fun usable_pages :: "memmap_entry list \<Rightarrow> u64 list" where
  "usable_pages [] = []"
| "usable_pages (e # es) =
    (if me_type e = MEMMAP_USABLE then entry_pages e @ usable_pages es else usable_pages es)"

text \<open>
  What the boot protocol promises of the usable entries: their bounds are multiples of the page
  size, they end inside the address space and they do not overlap.
\<close>

definition wf_entry :: "memmap_entry \<Rightarrow> bool" where
  "wf_entry e \<longleftrightarrow> unat (me_base e) mod 4096 = 0 \<and> unat (me_length e) mod 4096 = 0 \<and>
    unat (me_base e) + unat (me_length e) < 2 ^ 64"

definition entries_disjoint :: "memmap_entry \<Rightarrow> memmap_entry \<Rightarrow> bool" where
  "entries_disjoint a b \<longleftrightarrow> unat (me_base a) + unat (me_length a) \<le> unat (me_base b) \<or>
    unat (me_base b) + unat (me_length b) \<le> unat (me_base a)"

definition wf_memmap :: "memmap_entry list \<Rightarrow> bool" where
  "wf_memmap es \<longleftrightarrow>
    (\<forall>e \<in> set es. me_type e = MEMMAP_USABLE \<longrightarrow> wf_entry e) \<and>
    sorted_wrt entries_disjoint (filter (\<lambda>e. me_type e = MEMMAP_USABLE) es)"

lemma length_entry_pages: "length (entry_pages e) = unat (me_length e) div 4096"
  by (simp add: entry_pages_def)

lemma unat_div_0x1000 [simp]: "unat (x div 0x1000 :: u64) = unat x div 4096"
  by (simp add: unat_div)

text \<open>Below an entry's end, page \<open>i\<close> of the entry starts at \<open>base + 4096 * i\<close>, unwrapped.\<close>

lemma unat_entry_page:
  assumes "wf_entry e" "i < unat (me_length e) div 4096"
  shows "unat (me_base e + 0x1000 * of_nat i) = unat (me_base e) + 4096 * i"
proof -
  have "4096 * i < unat (me_length e)" using assms(2) by linarith
  moreover have "unat (me_base e) + unat (me_length e) < 2 ^ 64" using assms(1) by (simp add: wf_entry_def)
  ultimately have b: "unat (me_base e) + 4096 * i < 2 ^ 64" by linarith
  then have i: "unat (0x1000 * of_nat i :: u64) = 4096 * i"
    using unat_of_nat [of "4096 * i", where ?'a = 64] by (simp add: take_bit_nat_eq_self)
  with b show ?thesis using unat_add_lem [of "me_base e" "0x1000 * of_nat i"] by simp
qed

lemma entry_pages_nth:
  "i < unat (me_length e) div 4096 \<Longrightarrow> entry_pages e ! i = me_base e + 0x1000 * of_nat i"
  by (simp add: entry_pages_def)

lemma in_entry_pages:
  assumes "wf_entry e" "p \<in> set (entry_pages e)"
  shows "page_aligned p" "unat (me_base e) \<le> unat p" "unat p + 4096 \<le> unat (me_base e) + unat (me_length e)"
proof -
  from assms(2) obtain i where i: "i < unat (me_length e) div 4096"
    and p: "p = me_base e + 0x1000 * of_nat i"
    by (auto simp: entry_pages_def)
  have u: "unat p = unat (me_base e) + 4096 * i" unfolding p using assms(1) i by (rule unat_entry_page)
  with assms(1) show "page_aligned p" by (simp add: page_aligned_def wf_entry_def)
  from u show "unat (me_base e) \<le> unat p" by simp
  show "unat p + 4096 \<le> unat (me_base e) + unat (me_length e)" using u i by linarith
qed

lemma distinct_entry_pages: "wf_entry e \<Longrightarrow> distinct (entry_pages e)"
  unfolding distinct_conv_nth
  by (auto simp: length_entry_pages entry_pages_nth word_unat_eq_iff unat_entry_page
      simp del: unat_word_ariths)

lemma wf_memmap_Cons:
  "wf_memmap (e # es) \<Longrightarrow> wf_memmap es"
  "wf_memmap (e # es) \<Longrightarrow> me_type e = MEMMAP_USABLE \<Longrightarrow> wf_entry e"
  by (auto simp: wf_memmap_def split: if_splits)

lemma usable_pages_entry:
  "wf_memmap es \<Longrightarrow> p \<in> set (usable_pages es) \<Longrightarrow>
   \<exists>e \<in> set es. me_type e = MEMMAP_USABLE \<and> wf_entry e \<and> p \<in> set (entry_pages e)"
  by (induction es) (auto dest: wf_memmap_Cons split: if_splits)

lemma usable_pages_aligned: "wf_memmap es \<Longrightarrow> p \<in> set (usable_pages es) \<Longrightarrow> page_aligned p"
  by (blast dest: usable_pages_entry in_entry_pages)

lemma distinct_usable_pages: "wf_memmap es \<Longrightarrow> distinct (usable_pages es)"
proof (induction es)
  case Nil
  then show ?case by simp
next
  case (Cons e es)
  note wf = wf_memmap_Cons [OF Cons.prems]
  show ?case
  proof (cases "me_type e = MEMMAP_USABLE")
    case False
    with Cons wf(1) show ?thesis by simp
  next
    case True
    have "p \<notin> set (usable_pages es)" if p: "p \<in> set (entry_pages e)" for p
    proof
      assume "p \<in> set (usable_pages es)"
      then obtain e' where e': "e' \<in> set es" "me_type e' = MEMMAP_USABLE" "wf_entry e'"
        "p \<in> set (entry_pages e')"
        using usable_pages_entry [OF wf(1)] by blast
      then have "entries_disjoint e e'" using Cons.prems True by (auto simp: wf_memmap_def)
      with in_entry_pages(2,3) [OF wf(2) [OF True] p] in_entry_pages(2,3) [OF e'(3,4)]
      show False by (auto simp: entries_disjoint_def)
    qed
    with Cons.IH [OF wf(1)] True distinct_entry_pages [OF wf(2) [OF True]]
    show ?thesis by auto
  qed
qed

text \<open>There are less than \<open>2 ^ 52\<close> pages, so no index ever wraps.\<close>

lemma length_usable_pages_less:
  assumes "wf_memmap es"
  shows "length (usable_pages es) < 2 ^ 52"
proof -
  let ?f = "\<lambda>p :: u64. unat p div 4096"
  have inj: "inj_on ?f (set (usable_pages es))"
  proof (rule inj_onI)
    fix p q assume "p \<in> set (usable_pages es)" "q \<in> set (usable_pages es)" "?f p = ?f q"
    moreover then have "unat p mod 4096 = 0" "unat q mod 4096 = 0"
      using usable_pages_aligned [OF assms] by (simp_all add: page_aligned_def)
    ultimately show "p = q" by (metis div_mult_mod_eq word_unat_eq_iff)
  qed
  have "?f p < 2 ^ 52 - 1" if "p \<in> set (usable_pages es)" for p
  proof -
    from usable_pages_entry [OF assms that] obtain e where
      e: "wf_entry e" "p \<in> set (entry_pages e)" by blast
    have "unat p + 4096 < 2 ^ 64"
      using in_entry_pages(3) [OF e] e(1) by (simp add: wf_entry_def)
    then show ?thesis by (simp add: less_mult_imp_div_less)
  qed
  then have sub: "?f ` set (usable_pages es) \<subseteq> {..<2 ^ 52 - 1}" by auto
  have "length (usable_pages es) = card (set (usable_pages es))"
    using distinct_usable_pages [OF assms] by (simp add: distinct_card)
  also have "\<dots> = card (?f ` set (usable_pages es))" using inj by (simp add: card_image)
  also have "\<dots> \<le> card {..<2 ^ 52 - 1 :: nat}" by (rule card_mono) (use sub in auto)
  finally show ?thesis by simp
qed

lemma length_usable_pages: "wf_memmap es \<Longrightarrow> length (usable_pages es) \<le> 2 ^ 52"
  by (rule less_imp_le) (rule length_usable_pages_less)

lemma address_by_index_eq:
  assumes "wf_memmap es" "cur \<le> index" "unat cur + length (usable_pages es) < 2 ^ 64"
  shows "address_by_index es cur index =
    (if unat index - unat cur < length (usable_pages es)
     then usable_pages es ! (unat index - unat cur) else UINT64_MAX)"
  using assms
proof (induction es arbitrary: cur)
  case Nil
  then show ?case by simp
next
  case (Cons e es)
  note wf = wf_memmap_Cons [OF Cons.prems(1)]
  show ?case
  proof (cases "me_type e = MEMMAP_USABLE")
    case False
    with Cons wf(1) show ?thesis by simp
  next
    case True
    let ?k = "unat (me_length e) div 4096"
    have k: "unat cur + ?k < 2 ^ 64" "unat cur + ?k + length (usable_pages es) < 2 ^ 64"
      using Cons.prems(3) True by (simp_all add: length_entry_pages)
    then have u: "unat (cur + me_length e div 0x1000) = unat cur + ?k"
      using unat_add_lem [of cur "me_length e div 0x1000"] by simp
    show ?thesis
    proof (cases "cur + me_length e div 0x1000 \<le> index")
      case skip: True
      have "address_by_index (e # es) cur index = address_by_index es (cur + me_length e div 0x1000) index"
        using True skip by simp
      also have "\<dots> = (if unat index - (unat cur + ?k) < length (usable_pages es)
           then usable_pages es ! (unat index - (unat cur + ?k)) else UINT64_MAX)"
        using Cons.IH [OF wf(1) skip] k(2) u by simp
      moreover have "unat cur + ?k \<le> unat index" using skip u by (simp add: word_le_nat_alt)
      ultimately show ?thesis
        using True by (auto simp: nth_append length_entry_pages)
    next
      case False
      have "unat cur \<le> unat index" using Cons.prems(2) by (simp add: word_le_nat_alt)
      moreover have i: "unat index - unat cur < ?k"
        using False u Cons.prems(2) by (simp add: word_le_nat_alt)
      ultimately have "0x1000 * (index - cur) = 0x1000 * of_nat (unat index - unat cur)"
        by (simp add: of_nat_diff)
      then show ?thesis
        using True False i by (simp add: nth_append length_entry_pages entry_pages_nth)
    qed
  qed
qed

lemma unat_entry_end:
  "wf_entry e \<Longrightarrow> unat (me_base e + me_length e) = unat (me_base e) + unat (me_length e)"
  using unat_add_lem [of "me_base e" "me_length e"] by (simp add: wf_entry_def)

lemma entry_contains_iff:
  assumes "wf_entry e"
  shows "me_base e \<le> a \<and> a < me_base e + me_length e \<longleftrightarrow>
    unat (me_base e) \<le> unat a \<and> unat a < unat (me_base e) + unat (me_length e)"
  by (simp add: word_le_nat_alt word_less_nat_alt unat_entry_end [OF assms])

lemma entry_index_of:
  assumes "wf_entry e" "i < unat (me_length e) div 4096" "unat off < 4096"
  shows "(entry_pages e ! i + off - me_base e) div 0x1000 = of_nat i"
proof -
  let ?p = "entry_pages e ! i"
  have p: "?p \<in> set (entry_pages e)" using assms(2) by (simp add: length_entry_pages)
  have u: "unat ?p = unat (me_base e) + 4096 * i"
    using assms(1,2) by (simp add: entry_pages_nth unat_entry_page)
  moreover have "unat (?p + off) = unat ?p + unat off"
    using in_entry_pages(1) [OF assms(1) p] assms(3) by (rule page_aligned_unat_add)
  ultimately have "unat (?p + off - me_base e) = 4096 * i + unat off"
    by (simp add: unat_diff_ge)
  then have "unat ((?p + off - me_base e) div 0x1000) = i" using assms(3) by simp
  then show ?thesis by (rule unat_eq_of_nat)
qed

lemma index_by_address_page:
  assumes "wf_memmap es" "i < length (usable_pages es)" "unat off < 4096"
  shows "index_by_address es cur (usable_pages es ! i + off) = cur + of_nat i"
  using assms(1,2)
proof (induction es arbitrary: cur i)
  case Nil
  then show ?case by simp
next
  case (Cons e es)
  note wf = wf_memmap_Cons [OF Cons.prems(1)]
  show ?case
  proof (cases "me_type e = MEMMAP_USABLE")
    case False
    with Cons wf(1) show ?thesis by simp
  next
    case True
    let ?k = "unat (me_length e) div 4096"
    note wfe = wf(2) [OF True]
    define p where "p = usable_pages (e # es) ! i"
    have "p \<in> set (usable_pages (e # es))" unfolding p_def using Cons.prems(2) by (rule nth_mem)
    with Cons.prems(1) have "page_aligned p" by (rule usable_pages_aligned)
    then have up: "unat (p + off) = unat p + unat off" using assms(3) by (rule page_aligned_unat_add)
    show ?thesis
    proof (cases "i < ?k")
      case here: True
      then have p: "p = entry_pages e ! i"
        using True by (simp add: p_def nth_append length_entry_pages)
      then have "p \<in> set (entry_pages e)" using here by (simp add: length_entry_pages)
      from in_entry_pages(2,3) [OF wfe this] up assms(3)
      have "me_base e \<le> p + off \<and> p + off < me_base e + me_length e"
        by (simp add: entry_contains_iff [OF wfe])
      with True entry_index_of [OF wfe here assms(3)] show ?thesis
        unfolding p_def [symmetric] p [symmetric] by simp
    next
      case False
      have i': "i - ?k < length (usable_pages es)"
        using False Cons.prems(2) True by (simp add: length_entry_pages)
      have p: "p = usable_pages es ! (i - ?k)"
        using False True by (simp add: p_def nth_append length_entry_pages)
      then obtain e' where e': "e' \<in> set es" "me_type e' = MEMMAP_USABLE" "wf_entry e'"
        "p \<in> set (entry_pages e')"
        using usable_pages_entry [OF wf(1)] i' nth_mem by blast
      have "entries_disjoint e e'" using Cons.prems(1) e' True by (auto simp: wf_memmap_def)
      then have out: "\<not> (me_base e \<le> p + off \<and> p + off < me_base e + me_length e)"
        using in_entry_pages(2,3) [OF e'(3,4)] up assms(3)
        unfolding entry_contains_iff [OF wfe] entries_disjoint_def by linarith
      have "me_length e div 0x1000 = of_nat ?k" by (rule unat_eq_of_nat) simp
      then have "cur + me_length e div 0x1000 + of_nat (i - ?k) = cur + of_nat i"
        using False by (simp add: of_nat_diff)
      moreover have "index_by_address (e # es) cur (p + off) =
          index_by_address es (cur + me_length e div 0x1000) (p + off)"
        using out True by auto
      ultimately show ?thesis
        using Cons.IH [OF wf(1) i'] unfolding p_def [symmetric] p [symmetric] by simp
    qed
  qed
qed

lemma index_by_address_outside:
  assumes "wf_memmap es" "\<And>p. p \<in> set (usable_pages es) \<Longrightarrow> \<not> in_range a p 4096"
  shows "index_by_address es cur a = UINT64_MAX"
  using assms
proof (induction es arbitrary: cur)
  case Nil
  then show ?case by simp
next
  case (Cons e es)
  note wf = wf_memmap_Cons [OF Cons.prems(1)]
  show ?case
  proof (cases "me_type e = MEMMAP_USABLE")
    case False
    with Cons wf(1) show ?thesis by simp
  next
    case True
    note wfe = wf(2) [OF True]
    note end_ = unat_entry_end [OF wfe]
    have "\<not> (a \<ge> me_base e \<and> a < me_base e + me_length e)"
    proof
      assume h: "a \<ge> me_base e \<and> a < me_base e + me_length e"
      define i where "i = (unat a - unat (me_base e)) div 4096"
      have lt: "unat a - unat (me_base e) < unat (me_length e)"
        using h end_ unfolding word_le_nat_alt word_less_nat_alt by linarith
      moreover have "unat (me_length e) mod 4096 = 0" using wfe by (simp add: wf_entry_def)
      ultimately have i: "i < unat (me_length e) div 4096"
        unfolding i_def by (metis div_less_iff_less_mult div_mult_mod_eq add_0_right zero_less_numeral)
      let ?p = "me_base e + 0x1000 * of_nat i"
      have "?p \<in> set (entry_pages e)" using i by (auto simp: entry_pages_def)
      moreover have u: "unat ?p = unat (me_base e) + 4096 * i" using wfe i by (rule unat_entry_page)
      have "unat ?p \<le> unat a" "unat a - unat ?p < 4096"
        using u h unfolding i_def by (simp_all add: word_le_nat_alt) (use mod_less_divisor in linarith)+
      then have "in_range a ?p 4096" by (simp add: in_range_def unat_diff_ge)
      ultimately show False using Cons.prems(2) True by auto
    qed
    then have "index_by_address (e # es) cur a = index_by_address es (cur + me_length e div 0x1000) a"
      using True by auto
    with True Cons.IH [OF wf(1)] Cons.prems(2) show ?thesis by simp
  qed
qed

section \<open>The bitmap\<close>

abbreviation pages :: "'a pmm_scheme \<Rightarrow> u64 list" where
  "pages s \<equiv> usable_pages (memmap_entries s)"

text \<open>The byte of the bitmap that holds the bit of a page index.\<close>

definition bit_addr :: "'a pmm_scheme \<Rightarrow> u64 \<Rightarrow> u64" where
  "bit_addr s i = pages s ! (unat i div 32768) + higher_half_offset s + (i mod 0x8000) div 8"

definition bitmap_ok :: "'a pmm_scheme \<Rightarrow> bool" where
  "bitmap_ok s \<longleftrightarrow> wf_memmap (memmap_entries s) \<and> unat (pmm_bitmap_pages s) \<le> length (pages s)"

definition in_bitmap :: "'a pmm_scheme \<Rightarrow> u64 \<Rightarrow> bool" where
  "in_bitmap s i \<longleftrightarrow> unat i div 32768 < unat (pmm_bitmap_pages s)"

lemma get_address_by_index:
  "wf_memmap (memmap_entries s) \<Longrightarrow> pmm_get_address_by_index s i =
    (if unat i < length (pages s) then pages s ! unat i else UINT64_MAX)"
  using address_by_index_eq [of "memmap_entries s" 0 i] length_usable_pages [of "memmap_entries s"]
  by (simp add: pmm_get_address_by_index_def)

lemma unat_index_split:
  "unat (i - i div 0x8000 * 0x8000 :: u64) = unat i mod 32768"
  "i - i div 0x8000 * 0x8000 = (i mod 0x8000 :: u64)"
  "unat (i mod 0x8000 - 8 * (i mod 0x8000 div 8) :: u64) = unat i mod 8"
proof -
  show "i - i div 0x8000 * 0x8000 = (i mod 0x8000 :: u64)"
    by (rule minus_div_mult_eq_mod)
  then show "unat (i - i div 0x8000 * 0x8000) = unat i mod 32768" by (simp add: unat_mod)
  have "i mod 0x8000 - 8 * (i mod 0x8000 div 8) = (i mod 0x8000) mod 8"
    by (rule minus_mult_div_eq_mod)
  then show "unat (i mod 0x8000 - 8 * (i mod 0x8000 div 8)) = unat i mod 8"
    by (simp add: unat_mod mod_mod_cancel)
qed

lemma bit_of_byte [simp]:
  "unat (ucast (i mod 0x8000 - 8 * (i mod 0x8000 div 8) :: u64) :: u8) = unat i mod 8"
  "unat (ucast (i mod 0x8000 - (i mod 0x8000 div 8) * 8 :: u64) :: u8) = unat i mod 8"
  by (simp_all add: unsigned_ucast_eq unat_index_split mult.commute take_bit_nat_eq_self)

lemma bitmap_page_address:
  assumes "bitmap_ok s" "in_bitmap s i"
  shows "pmm_get_address_by_index s (i div 0x8000) = pages s ! (unat i div 32768)"
    and "pages s ! (unat i div 32768) \<noteq> UINT64_MAX"
proof -
  have i: "unat (i div 0x8000) = unat i div 32768" by (simp add: unat_div)
  have l: "unat i div 32768 < length (pages s)"
    using assms by (simp add: bitmap_ok_def in_bitmap_def)
  with assms(1) i show "pmm_get_address_by_index s (i div 0x8000) = pages s ! (unat i div 32768)"
    by (simp add: get_address_by_index bitmap_ok_def)
  show "pages s ! (unat i div 32768) \<noteq> UINT64_MAX"
    using assms(1) l by (intro page_aligned_neq_MAX) (auto simp: bitmap_ok_def intro: usable_pages_aligned)
qed

lemma is_allocated_eq:
  assumes "bitmap_ok s" "in_bitmap s i"
  shows "pmm_is_usable_page_allocated_by_index s i \<longleftrightarrow> bit (mem s (bit_addr s i)) (unat i mod 8)"
  using bitmap_page_address [OF assms]
  by (simp add: pmm_is_usable_page_allocated_by_index_def Let_def unat_index_split(2)
      and_exp_eq_0_iff_not_bit push_bit_of_1 pmm_phys_to_virt_def bit_addr_def)

lemma set_bit_same:
  assumes "k < 8"
  shows "set_bit k b = b \<longleftrightarrow> bit (b :: u8) k"
proof
  assume "set_bit k b = b"
  moreover have "bit (set_bit k b) k" using assms by (simp add: bit_set_bit_iff)
  ultimately show "bit b k" by simp
next
  assume "bit b k"
  then show "set_bit k b = b" by (intro bit_word_eqI) (auto simp: bit_set_bit_iff)
qed

lemma unset_bit_same: "unset_bit k b = b \<longleftrightarrow> \<not> bit (b :: u8) k"
proof
  assume "unset_bit k b = b"
  moreover have "\<not> bit (unset_bit k b) k" by (simp add: bit_unset_bit_iff)
  ultimately show "\<not> bit b k" by simp
next
  assume "\<not> bit b k"
  then show "unset_bit k b = b" by (intro bit_word_eqI) (auto simp: bit_unset_bit_iff)
qed

lemma set_allocated_eq:
  assumes "bitmap_ok s" "in_bitmap s i"
  shows "pmm_set_usable_page_allocated_by_index i b s =
    s\<lparr>pmm_num_allocated_pages := pmm_num_allocated_pages s +
         (if b = bit (mem s (bit_addr s i)) (unat i mod 8) then 0 else if b then 1 else -1),
      mem := (mem s)(bit_addr s i :=
         (if b then set_bit else unset_bit) (unat i mod 8) (mem s (bit_addr s i)))\<rparr>"
proof -
  let ?B = "mem s (bit_addr s i)" and ?k = "unat i mod 8"
  have s: "set_bit ?k ?B = ?B \<longleftrightarrow> bit ?B ?k" "unset_bit ?k ?B = ?B \<longleftrightarrow> \<not> bit ?B ?k"
    by (simp_all add: set_bit_same unset_bit_same)
  show ?thesis
    using bitmap_page_address [OF assms] s
    by (auto simp: pmm_set_usable_page_allocated_by_index_def Let_def unat_index_split(2)
      push_bit_of_1 pmm_phys_to_virt_def bit_addr_def set_bit_eq_or unset_bit_eq_and_not)
qed

text \<open>Two indices share a bit of memory only if they are equal.\<close>

lemma bit_addr_less: "unat ((i mod 0x8000) div 8 :: u64) < 4096"
proof -
  have "unat i mod 32768 < 32768" by simp
  then show ?thesis by (simp add: unat_div unat_mod del: mod_less_divisor)
qed

lemma bitmap_page_in_pages:
  assumes "bitmap_ok s" "in_bitmap s i"
  shows "unat i div 32768 < length (pages s)" "page_aligned (pages s ! (unat i div 32768))"
proof -
  show *: "unat i div 32768 < length (pages s)"
    using assms by (simp add: bitmap_ok_def in_bitmap_def)
  with assms(1) show "page_aligned (pages s ! (unat i div 32768))"
    by (auto simp: bitmap_ok_def intro: usable_pages_aligned)
qed

lemma split_index: "(i::nat) div 32768 = i div 8 div 4096" "i mod 32768 div 8 = i div 8 mod 4096"
proof -
  show "i div 32768 = i div 8 div 4096" by (simp add: div_mult2_eq [symmetric])
  have "i mod (8 * 4096) = 8 * (i div 8 mod 4096) + i mod 8" by (rule mod_mult2_eq)
  then have "i mod 32768 = 8 * (i div 8 mod 4096) + i mod 8" by simp
  then show "i mod 32768 div 8 = i div 8 mod 4096" by simp
qed

lemma bit_addr_eq_iff:
  assumes "bitmap_ok s" "in_bitmap s i" "in_bitmap s j"
  shows "bit_addr s i = bit_addr s j \<longleftrightarrow> unat i div 8 = unat j div 8"
proof -
  let ?p = "pages s ! (unat i div 32768)" and ?q = "pages s ! (unat j div 32768)"
  let ?x = "(i mod 0x8000) div 8" and ?y = "(j mod 0x8000) div 8"
  note p = bitmap_page_in_pages [OF assms(1,2)] and q = bitmap_page_in_pages [OF assms(1,3)]
  have "bit_addr s i = bit_addr s j \<longleftrightarrow> ?p + ?x = ?q + ?y"
    by (simp add: bit_addr_def algebra_simps)
  also have "\<dots> \<longleftrightarrow> unat i div 32768 = unat j div 32768 \<and> ?x = ?y"
  proof
    assume eq: "?p + ?x = ?q + ?y"
    then have "in_range (?p + ?x) ?q 4096"
      using bit_addr_less [of j] by (simp add: in_range_def)
    then have "?p = ?q" using p(2) q(2) bit_addr_less by (simp add: in_range_page)
    moreover have "distinct (pages s)"
      using assms(1) by (simp add: bitmap_ok_def distinct_usable_pages)
    ultimately show "unat i div 32768 = unat j div 32768 \<and> ?x = ?y"
      using p(1) q(1) eq by (simp add: nth_eq_iff_index_eq)
  qed auto
  also have "?x = ?y \<longleftrightarrow> unat i mod 32768 div 8 = unat j mod 32768 div 8"
    by (simp add: word_unat_eq_iff unat_div unat_mod)
  also have "unat i div 32768 = unat j div 32768 \<and> unat i mod 32768 div 8 = unat j mod 32768 div 8
      \<longleftrightarrow> unat i div 8 = unat j div 8"
    unfolding split_index by (metis div_mult_mod_eq)
  finally show ?thesis .
qed

lemma memmap_set_allocated [simp]:
  "memmap_entries (pmm_set_usable_page_allocated_by_index i b s) = memmap_entries s"
  "higher_half_offset (pmm_set_usable_page_allocated_by_index i b s) = higher_half_offset s"
  "pmm_bitmap_pages (pmm_set_usable_page_allocated_by_index i b s) = pmm_bitmap_pages s"
  "pmm_usable_pages (pmm_set_usable_page_allocated_by_index i b s) = pmm_usable_pages s"
  "cpu_ops (pmm_set_usable_page_allocated_by_index i b s) = cpu_ops s"
  "pmm.more (pmm_set_usable_page_allocated_by_index i b s) = pmm.more s"
  by (simp_all add: pmm_set_usable_page_allocated_by_index_def Let_def)

lemma bitmap_ok_set_allocated [simp]:
  "bitmap_ok (pmm_set_usable_page_allocated_by_index i b s) \<longleftrightarrow> bitmap_ok s"
  "in_bitmap (pmm_set_usable_page_allocated_by_index i b s) j \<longleftrightarrow> in_bitmap s j"
  "bit_addr (pmm_set_usable_page_allocated_by_index i b s) j = bit_addr s j"
  by (simp_all add: bitmap_ok_def in_bitmap_def bit_addr_def)

lemma mem_set_allocated_eq:
  assumes "bitmap_ok s" "in_bitmap s i"
  shows "mem (pmm_set_usable_page_allocated_by_index i b s) = (mem s)(bit_addr s i :=
    (if b then set_bit else unset_bit) (unat i mod 8) (mem s (bit_addr s i)))"
  by (simp add: set_allocated_eq [OF assms])

lemma index_eq_iff:
  assumes "bitmap_ok s" "in_bitmap s i" "in_bitmap s j"
  shows "i = j \<longleftrightarrow> bit_addr s j = bit_addr s i \<and> unat i mod 8 = unat j mod 8"
proof -
  have "unat i = unat j \<longleftrightarrow> unat j div 8 = unat i div 8 \<and> unat i mod 8 = unat j mod 8"
    using div_mult_mod_eq [of "unat i" 8] div_mult_mod_eq [of "unat j" 8] by (metis (full_types))
  then have "i = j \<longleftrightarrow> unat j div 8 = unat i div 8 \<and> unat i mod 8 = unat j mod 8"
    by (simp only: word_unat_eq_iff)
  then show ?thesis by (simp only: bit_addr_eq_iff [OF assms(1,3,2)])
qed

lemma is_allocated_set:
  assumes "bitmap_ok s" "in_bitmap s i" "in_bitmap s j"
  shows "pmm_is_usable_page_allocated_by_index (pmm_set_usable_page_allocated_by_index i b s) j =
    (if i = j then b else pmm_is_usable_page_allocated_by_index s j)"
proof -
  have k: "unat j mod 8 < 8" by simp
  have "pmm_is_usable_page_allocated_by_index (pmm_set_usable_page_allocated_by_index i b s) j =
    bit (mem (pmm_set_usable_page_allocated_by_index i b s) (bit_addr s j)) (unat j mod 8)"
    using is_allocated_eq [of "pmm_set_usable_page_allocated_by_index i b s" j] assms(1,3)
    by (simp only: bitmap_ok_set_allocated simp_thms)
  also have "\<dots> = bit (if bit_addr s j = bit_addr s i
      then (if b then set_bit else unset_bit) (unat i mod 8) (mem s (bit_addr s i))
      else mem s (bit_addr s j)) (unat j mod 8)"
    by (simp only: mem_set_allocated_eq [OF assms(1,2)] fun_upd_apply)
  also have "\<dots> = (if i = j then b else bit (mem s (bit_addr s j)) (unat j mod 8))"
    unfolding index_eq_iff [OF assms] using k
    by (cases b) (simp_all add: bit_set_bit_iff bit_unset_bit_iff)
  finally show ?thesis by (simp only: is_allocated_eq [OF assms(1,3)])
qed

section \<open>The invariant and the free pages\<close>

text \<open>The indices whose bit is set, of those that are indices of pages.\<close>

definition allocated :: "'a pmm_scheme \<Rightarrow> nat set" where
  "allocated s = {i. i < length (pages s) \<and> pmm_is_usable_page_allocated_by_index s (of_nat i)}"

definition free_pages :: "'a pmm_scheme \<Rightarrow> u64 set" where
  "free_pages s = {pages s ! i | i. i < length (pages s) \<and> i \<notin> allocated s}"

text \<open>The sizes \<open>pmm_init\<close> computes, and then the contents of the bitmap and its counter.\<close>

definition pmm_layout :: "'a pmm_scheme \<Rightarrow> bool" where
  "pmm_layout s \<longleftrightarrow> bitmap_ok s \<and>
    unat (pmm_usable_pages s) = length (pages s) \<and>
    pmm_bitmap_pages s = pmm_usable_pages s div 0x8000 + 1"

definition pmm_inv :: "'a pmm_scheme \<Rightarrow> bool" where
  "pmm_inv s \<longleftrightarrow> pmm_layout s \<and>
    {..<unat (pmm_bitmap_pages s)} \<subseteq> allocated s \<and>
    pmm_num_allocated_pages s = of_nat (card (allocated s))"

text \<open>The bytes the allocator owns: the bitmap pages, at their addresses in the direct map.\<close>

definition bitmap_bytes :: "'a pmm_scheme \<Rightarrow> u64 set" where
  "bitmap_bytes s = {x. \<exists>b < unat (pmm_bitmap_pages s). in_range x (pages s ! b + higher_half_offset s) 4096}"

lemma pmm_layoutD:
  assumes "pmm_layout s"
  shows "bitmap_ok s" "wf_memmap (memmap_entries s)" "unat (pmm_usable_pages s) = length (pages s)"
    "unat (pmm_bitmap_pages s) \<le> length (pages s)"
    "unat (pmm_bitmap_pages s) = length (pages s) div 32768 + 1"
proof -
  have l: "length (pages s) \<le> 2 ^ 52"
    using assms length_usable_pages by (auto simp: pmm_layout_def bitmap_ok_def)
  have u: "unat (pmm_usable_pages s div 0x8000) = length (pages s) div 32768"
    using assms by (simp add: pmm_layout_def unat_div)
  with l have "unat (pmm_usable_pages s div 0x8000) + unat (1 :: u64) < 2 ^ 64"
    by simp
  then have "unat (pmm_usable_pages s div 0x8000 + 1) = unat (pmm_usable_pages s div 0x8000) + 1"
    using unat_add_lem [THEN iffD1, of "pmm_usable_pages s div 0x8000" 1] by simp
  with u assms show "unat (pmm_bitmap_pages s) = length (pages s) div 32768 + 1"
    by (simp add: pmm_layout_def)
qed (use assms in \<open>auto simp only: pmm_layout_def bitmap_ok_def\<close>)

lemma pmm_inv_layout: "pmm_inv s \<Longrightarrow> pmm_layout s"
  by (simp only: pmm_inv_def)

lemma pmm_invD:
  assumes "pmm_inv s"
  shows "bitmap_ok s" "wf_memmap (memmap_entries s)" "unat (pmm_usable_pages s) = length (pages s)"
    "unat (pmm_bitmap_pages s) \<le> length (pages s)" "{..<unat (pmm_bitmap_pages s)} \<subseteq> allocated s"
    "pmm_num_allocated_pages s = of_nat (card (allocated s))"
  using pmm_layoutD [OF pmm_inv_layout [OF assms]] assms by (auto simp only: pmm_inv_def)

lemma page_index:
  assumes "pmm_layout s" "i < length (pages s)"
  shows "unat (of_nat i :: u64) = i" "in_bitmap s (of_nat i)"
    "pmm_get_address_by_index s (of_nat i) = pages s ! i"
proof -
  have "length (pages s) \<le> 2 ^ 52" using pmm_layoutD(2) [OF assms(1)] by (rule length_usable_pages)
  with assms(2) have "i < 2 ^ 64" by simp
  then show u: "unat (of_nat i :: u64) = i" by (simp add: unat_of_nat take_bit_nat_eq_self)
  have "i div 32768 \<le> length (pages s) div 32768" using assms(2) by (simp add: div_le_mono)
  then show "in_bitmap s (of_nat i)"
    using u pmm_layoutD(5) [OF assms(1)] by (simp add: in_bitmap_def)
  show "pmm_get_address_by_index s (of_nat i) = pages s ! i"
    using u assms(2) pmm_layoutD(2) [OF assms(1)] by (simp add: get_address_by_index)
qed

lemma pmm_layout_set_allocated [simp]:
  "pmm_layout (pmm_set_usable_page_allocated_by_index i b s) \<longleftrightarrow> pmm_layout s"
  by (simp add: pmm_layout_def)

lemma bit_addr_in_bitmap_bytes:
  "in_bitmap s i \<Longrightarrow> bit_addr s i \<in> bitmap_bytes s"
  using bit_addr_less [of i] unfolding bitmap_bytes_def in_bitmap_def bit_addr_def in_range_def
  by auto

lemma finite_allocated [simp]: "finite (allocated s)"
  by (simp add: allocated_def)

lemma allocated_set:
  assumes "pmm_layout s" "i < length (pages s)"
  shows "allocated (pmm_set_usable_page_allocated_by_index (of_nat i) b s) =
    (if b then insert i (allocated s) else allocated s - {i})"
proof -
  have "pmm_is_usable_page_allocated_by_index (pmm_set_usable_page_allocated_by_index (of_nat i) b s) (of_nat j) =
      (if i = j then b else pmm_is_usable_page_allocated_by_index s (of_nat j))" if "j < length (pages s)" for j
    using that assms page_index [OF assms] page_index [OF assms(1) that] pmm_layoutD(1) [OF assms(1)]
    by (simp add: is_allocated_set) (metis)
  with assms(2) show ?thesis by (auto simp: allocated_def split: if_splits)
qed

lemma num_allocated_set:
  assumes "pmm_layout s" "i < length (pages s)"
    and num: "pmm_num_allocated_pages s = of_nat (card (allocated s))"
  shows "pmm_num_allocated_pages (pmm_set_usable_page_allocated_by_index (of_nat i) b s) =
    of_nat (card (if b then insert i (allocated s) else allocated s - {i}))"
proof -
  note d = pmm_layoutD [OF assms(1)] and ix = page_index [OF assms(1,2)]
  have is_i: "bit (mem s (bit_addr s (of_nat i))) (unat (of_nat i :: u64) mod 8) \<longleftrightarrow> i \<in> allocated s"
    using assms(2) is_allocated_eq [OF d(1) ix(2)] by (simp add: allocated_def)
  have "pmm_num_allocated_pages (pmm_set_usable_page_allocated_by_index (of_nat i) b s) =
    of_nat (card (allocated s)) + (if b = (i \<in> allocated s) then 0 else if b then 1 else -1)"
    unfolding set_allocated_eq [OF d(1) ix(2)] is_i num by simp
  also have "\<dots> = of_nat (card (if b then insert i (allocated s) else allocated s - {i}))"
  proof (cases "i \<in> allocated s")
    case True
    then have "0 < card (allocated s)" by (auto simp: card_gt_0_iff)
    with True show ?thesis by (auto simp: insert_absorb card_Diff_singleton of_nat_diff)
  next
    case False
    then show ?thesis by simp
  qed
  finally show ?thesis .
qed

lemma pmm_inv_set:
  assumes "pmm_inv s" "i < length (pages s)" "b \<or> unat (pmm_bitmap_pages s) \<le> i"
  shows "pmm_inv (pmm_set_usable_page_allocated_by_index (of_nat i) b s)"
proof -
  let ?s = "pmm_set_usable_page_allocated_by_index (of_nat i) b s"
  note d = pmm_invD [OF assms(1)] and lay = pmm_inv_layout [OF assms(1)]
  have num: "pmm_num_allocated_pages ?s = of_nat (card (allocated ?s))"
    by (simp add: num_allocated_set [OF lay assms(2) d(6)] allocated_set [OF lay assms(2)])
  have "{..<unat (pmm_bitmap_pages s)} \<subseteq> allocated ?s"
    using d(5) assms(3) by (auto simp: allocated_set [OF lay assms(2)])
  with num lay show ?thesis by (simp add: pmm_inv_def)
qed

lemma mem_set_allocated:
  assumes "pmm_layout s" "i < length (pages s)" "x \<notin> bitmap_bytes s"
  shows "mem (pmm_set_usable_page_allocated_by_index (of_nat i) b s) x = mem s x"
proof -
  note d = pmm_layoutD [OF assms(1)] and ix = page_index [OF assms(1,2)]
  have "x \<noteq> bit_addr s (of_nat i)" using assms(3) bit_addr_in_bitmap_bytes [OF ix(2)] by auto
  then show ?thesis by (simp add: set_allocated_eq [OF d(1) ix(2)])
qed

section \<open>Allocation\<close>

lemma alloc_phys_loop_eq:
  assumes "pmm_inv s" "unat i \<le> length (pages s)" "{..<unat i} \<subseteq> allocated s"
  shows "(allocated s = {..<length (pages s)} \<and> alloc_phys_loop i s = (0, s)) \<or>
    (\<exists>k < length (pages s). k \<notin> allocated s \<and> {..<k} \<subseteq> allocated s \<and>
      alloc_phys_loop i s = (pages s ! k, pmm_set_usable_page_allocated_by_index (of_nat k) True s))"
  using assms
proof (induction i s rule: alloc_phys_loop.induct)
  case (1 i s)
  note d = pmm_invD [OF "1.prems"(1)]
  show ?case
  proof (cases "i < pmm_usable_pages s")
    case False
    with "1.prems" d(3) have "allocated s = {..<length (pages s)}"
      by (auto simp: word_less_nat_alt allocated_def)
    with False show ?thesis by (subst alloc_phys_loop.simps) simp
  next
    case True
    then have k: "unat i < length (pages s)" using d(3) by (simp add: word_less_nat_alt)
    have i: "i = of_nat (unat i)" by (rule unat_eq_of_nat) (rule refl)
    have al: "pmm_is_usable_page_allocated_by_index s i \<longleftrightarrow> unat i \<in> allocated s"
      using k by (simp add: allocated_def)
    show ?thesis
    proof (cases "unat i \<in> allocated s")
      case free: False
      have "pages s ! unat i \<noteq> UINT64_MAX"
        using d(2) k by (intro page_aligned_neq_MAX) (auto intro: usable_pages_aligned)
      moreover have "pmm_get_address_by_index (pmm_set_usable_page_allocated_by_index i True s) i = pages s ! unat i"
        using k d(2) by (simp add: get_address_by_index)
      ultimately have "alloc_phys_loop i s =
          (pages s ! unat i, pmm_set_usable_page_allocated_by_index i True s)"
        using True al free by (subst alloc_phys_loop.simps) (simp add: Let_def)
      with k free "1.prems"(3) i show ?thesis by auto
    next
      case False: True
      have "alloc_phys_loop i s = alloc_phys_loop (i + 1) s"
        using True False al by (subst alloc_phys_loop.simps) simp
      moreover have "{..<unat (i + 1)} \<subseteq> allocated s"
        using "1.prems"(3) False u64_Suc [OF True] by (auto simp: less_Suc_eq)
      ultimately show ?thesis
        using "1.IH" [OF True] False al k "1.prems"(1) u64_Suc [OF True] by simp
    qed
  qed
qed

lemma pmm_alloc_phys_cases:
  assumes "pmm_inv s"
  obtains (full) "allocated s = {..<length (pages s)}" "pmm_alloc_phys s = (0, s)"
  | (page) k where "k < length (pages s)" "k \<notin> allocated s" "{..<k} \<subseteq> allocated s"
      "pmm_alloc_phys s = (pages s ! k, pmm_set_usable_page_allocated_by_index (of_nat k) True s)"
  using alloc_phys_loop_eq [OF assms, of 0] unfolding pmm_alloc_phys_def by auto

lemma free_pages_empty_iff:
  "free_pages s = {} \<longleftrightarrow> allocated s = {..<length (pages s)}"
  by (auto simp: free_pages_def allocated_def)

lemma free_pages_set_True:
  assumes "pmm_inv s" "k < length (pages s)"
  shows "free_pages (pmm_set_usable_page_allocated_by_index (of_nat k) True s) = free_pages s - {pages s ! k}"
  using assms(2) distinct_usable_pages [OF pmm_invD(2) [OF assms(1)]]
  by (auto simp: free_pages_def allocated_set [OF pmm_inv_layout [OF assms(1)]] nth_eq_iff_index_eq)

lemma free_pages_subset: "free_pages s \<subseteq> set (pages s)"
  by (auto simp: free_pages_def)

lemma free_pages_aligned: "pmm_inv s \<Longrightarrow> p \<in> free_pages s \<Longrightarrow> page_aligned p"
  using free_pages_subset [of s] by (blast dest: pmm_invD(2) intro: usable_pages_aligned)

lemma free_page_not_bitmap:
  assumes "pmm_inv s" "p \<in> free_pages s" "b < unat (pmm_bitmap_pages s)"
  shows "p \<noteq> pages s ! b"
  using assms pmm_invD [OF assms(1)] distinct_usable_pages [OF pmm_invD(2) [OF assms(1)]]
  by (auto simp: free_pages_def nth_eq_iff_index_eq)

lemma free_page_not_bitmap_bytes:
  assumes "pmm_inv s" "p \<in> free_pages s" "in_range x (p + higher_half_offset s) 4096"
  shows "x \<notin> bitmap_bytes s"
proof
  assume "x \<in> bitmap_bytes s"
  then obtain b where b: "b < unat (pmm_bitmap_pages s)"
    "in_range x (pages s ! b + higher_half_offset s) 4096"
    by (auto simp: bitmap_bytes_def)
  have al: "page_aligned p" "page_aligned (pages s ! b)"
    using free_pages_aligned [OF assms(1,2)] b(1) pmm_invD(2,4) [OF assms(1)]
    by (auto intro: usable_pages_aligned)
  have "p = pages s ! b"
    using pages_apart [OF al] assms(3) b(2) by blast
  with free_page_not_bitmap [OF assms(1,2) b(1)] show False by simp
qed

text \<open>An operation of the allocator changes the memory and the counter, and nothing else.\<close>

definition only_pmm :: "'a pmm_scheme \<Rightarrow> 'a pmm_scheme \<Rightarrow> bool" where
  "only_pmm s s' \<longleftrightarrow> s' = s\<lparr>pmm_num_allocated_pages := pmm_num_allocated_pages s', mem := mem s'\<rparr>"

lemma only_pmmI: "s' = s\<lparr>pmm_num_allocated_pages := n, mem := m\<rparr> \<Longrightarrow> only_pmm s s'"
  by (simp add: only_pmm_def)

lemma only_pmmE:
  assumes "only_pmm s s'"
  obtains n m where "s' = s\<lparr>pmm_num_allocated_pages := n, mem := m\<rparr>"
  using assms unfolding only_pmm_def by blast

lemma only_pmm_refl [simp]: "only_pmm s s"
  by (simp add: only_pmm_def)

lemma only_pmm_set [simp]: "only_pmm s (pmm_set_usable_page_allocated_by_index i b s)"
  unfolding pmm_set_usable_page_allocated_by_index_def Let_def only_pmm_def by simp

lemma only_pmm_mem: "only_pmm s s' \<Longrightarrow> only_pmm s (s'\<lparr>mem := m\<rparr>)"
  by (elim only_pmmE) (simp add: only_pmm_def)

lemma only_pmm_trans: "only_pmm s s' \<Longrightarrow> only_pmm s' s'' \<Longrightarrow> only_pmm s s''"
  by (elim only_pmmE) (simp add: only_pmm_def)

lemma only_pmm_alloc_phys: "pmm_inv s \<Longrightarrow> only_pmm s (snd (pmm_alloc_phys s))"
  by (erule pmm_alloc_phys_cases) auto

lemma only_pmm_fields:
  assumes "only_pmm s s'"
  shows "memmap_entries s' = memmap_entries s" "higher_half_offset s' = higher_half_offset s"
    "pmm_bitmap_pages s' = pmm_bitmap_pages s" "pmm_usable_pages s' = pmm_usable_pages s"
    "cpu_ops s' = cpu_ops s" "console s' = console s" "pmm.more s' = pmm.more s"
  using assms by (elim only_pmmE; simp)+

text \<open>The allocator reads nothing but its bitmap.\<close>

lemma allocated_mem_cong:
  assumes "pmm_layout s" "\<And>x. x \<in> bitmap_bytes s \<Longrightarrow> m x = mem s x"
  shows "allocated (s\<lparr>mem := m\<rparr>) = allocated s"
proof -
  have "pmm_is_usable_page_allocated_by_index (s\<lparr>mem := m\<rparr>) (of_nat i) =
      pmm_is_usable_page_allocated_by_index s (of_nat i)" if "i < length (pages s)" for i
  proof -
    note ix = page_index [OF assms(1) that]
    have b: "bitmap_ok (s\<lparr>mem := m\<rparr>)" "in_bitmap (s\<lparr>mem := m\<rparr>) (of_nat i)"
      using pmm_layoutD(1) [OF assms(1)] ix(2) by (simp_all add: bitmap_ok_def in_bitmap_def)
    have "m (bit_addr s (of_nat i)) = mem s (bit_addr s (of_nat i))"
      using ix(2) by (intro assms(2) bit_addr_in_bitmap_bytes)
    then show ?thesis
      using is_allocated_eq [OF b] is_allocated_eq [OF pmm_layoutD(1) [OF assms(1)] ix(2)]
      by (simp add: bit_addr_def)
  qed
  then show ?thesis by (auto simp: allocated_def)
qed

lemma pmm_layout_mem [simp]: "pmm_layout (s\<lparr>mem := m\<rparr>) \<longleftrightarrow> pmm_layout s"
  by (simp add: pmm_layout_def bitmap_ok_def)

lemma bitmap_bytes_mem [simp]: "bitmap_bytes (s\<lparr>mem := m\<rparr>) = bitmap_bytes s"
  by (simp add: bitmap_bytes_def)

lemma pmm_inv_mem:
  assumes "pmm_inv s" "\<And>x. x \<in> bitmap_bytes s \<Longrightarrow> m x = mem s x"
  shows "pmm_inv (s\<lparr>mem := m\<rparr>)" "free_pages (s\<lparr>mem := m\<rparr>) = free_pages s"
  using assms(1) allocated_mem_cong [OF pmm_inv_layout [OF assms(1)] assms(2)]
  by (simp_all add: pmm_inv_def free_pages_def)

lemma pmm_inv_mem_store64:
  assumes "pmm_inv s" "\<And>x. x \<in> bitmap_bytes s \<Longrightarrow> \<not> in_range x a 8"
  shows "pmm_inv (s\<lparr>mem := store64 (mem s) a v\<rparr>)"
    "free_pages (s\<lparr>mem := store64 (mem s) a v\<rparr>) = free_pages s"
  using assms by (auto intro!: pmm_inv_mem simp: cell64.wr_outside)

text \<open>The three ways to allocate a page meet the interface.\<close>

definition free_virt :: "'a pmm_scheme \<Rightarrow> u64 set" where
  "free_virt s = (\<lambda>p. p + higher_half_offset s) ` free_pages s"

lemma finite_free_pages [simp]: "finite (free_pages s)"
  by (rule finite_subset [OF free_pages_subset]) simp

lemma alloc_phys_page:
  assumes "pmm_inv s" "free_pages s \<noteq> {}"
  shows "fst (pmm_alloc_phys s) \<in> free_pages s"
    "free_pages (snd (pmm_alloc_phys s)) = free_pages s - {fst (pmm_alloc_phys s)}"
    "pmm_inv (snd (pmm_alloc_phys s))"
    "x \<notin> bitmap_bytes s \<Longrightarrow> mem (snd (pmm_alloc_phys s)) x = mem s x"
  using assms
  by (cases rule: pmm_alloc_phys_cases [OF assms(1)];
      auto simp: free_pages_empty_iff free_pages_set_True pmm_inv_set
        mem_set_allocated [OF pmm_inv_layout]; auto simp: free_pages_def)+

interpretation phys: page_allocator pmm_alloc_phys free_pages pmm_inv
  by unfold_locales (simp_all add: alloc_phys_page)

lemma pmm_alloc_eq:
  assumes "pmm_inv s"
  shows "pmm_alloc s = (fst (pmm_alloc_phys s) + higher_half_offset s, snd (pmm_alloc_phys s))"
  using only_pmm_fields(2) [OF only_pmm_alloc_phys [OF assms]]
  by (simp add: pmm_alloc_def pmm_phys_to_virt_def split_beta)

lemma free_virt_empty [simp]: "free_virt s = {} \<longleftrightarrow> free_pages s = {}"
  by (simp add: free_virt_def)

lemma free_virt_alloc:
  assumes "pmm_inv s" "free_pages s \<noteq> {}"
  shows "free_virt (snd (pmm_alloc_phys s)) = free_virt s - {fst (pmm_alloc_phys s) + higher_half_offset s}"
  unfolding free_virt_def only_pmm_fields(2) [OF only_pmm_alloc_phys [OF assms(1)]]
    alloc_phys_page(2) [OF assms]
  by auto

interpretation virt: page_allocator pmm_alloc free_virt pmm_inv
proof
  fix s :: "'a pmm_scheme"
  show "finite (free_virt s)" by (simp add: free_virt_def)
  assume s: "pmm_inv s" "free_virt s \<noteq> {}"
  then have ne: "free_pages s \<noteq> {}" by simp
  show "fst (pmm_alloc s) \<in> free_virt s"
    unfolding free_virt_def pmm_alloc_eq [OF s(1)] fst_conv
    by (rule imageI) (rule alloc_phys_page(1) [OF s(1) ne])
  show "free_virt (snd (pmm_alloc s)) = free_virt s - {fst (pmm_alloc s)}"
    unfolding pmm_alloc_eq [OF s(1)] fst_conv snd_conv by (rule free_virt_alloc [OF s(1) ne])
  show "pmm_inv (snd (pmm_alloc s))"
    unfolding pmm_alloc_eq [OF s(1)] snd_conv by (rule alloc_phys_page(3) [OF s(1) ne])
qed

lemma pmm_allocz_eq:
  assumes "pmm_inv s"
  shows "fst (pmm_allocz s) = fst (pmm_alloc_phys s) + higher_half_offset s"
    "snd (pmm_allocz s) = (snd (pmm_alloc_phys s))\<lparr>mem := (\<lambda>x.
       if in_range x (fst (pmm_allocz s)) 4096 then 0 else mem (snd (pmm_alloc_phys s)) x)\<rparr>"
  by (simp_all add: pmm_allocz_def split_beta pmm_alloc_eq [OF assms] memset_0_eq)

lemma allocz_inv:
  assumes "pmm_inv s" "free_pages s \<noteq> {}"
  shows "pmm_inv (snd (pmm_allocz s))" "free_pages (snd (pmm_allocz s)) = free_pages s - {fst (pmm_alloc_phys s)}"
proof -
  let ?s = "snd (pmm_alloc_phys s)"
  have bb: "bitmap_bytes ?s = bitmap_bytes s"
    using only_pmm_fields [OF only_pmm_alloc_phys [OF assms(1)]] by (simp add: bitmap_bytes_def)
  have "x \<in> bitmap_bytes ?s \<Longrightarrow> (if in_range x (fst (pmm_allocz s)) 4096 then 0 else mem ?s x) = mem ?s x" for x
    using free_page_not_bitmap_bytes [OF assms(1) alloc_phys_page(1) [OF assms], of x] bb
    by (auto simp: pmm_allocz_eq(1) [OF assms(1)])
  from pmm_inv_mem [OF alloc_phys_page(3) [OF assms] this]
  show "pmm_inv (snd (pmm_allocz s))" "free_pages (snd (pmm_allocz s)) = free_pages s - {fst (pmm_alloc_phys s)}"
    unfolding pmm_allocz_eq(2) [OF assms(1)] by (simp_all add: alloc_phys_page(2) [OF assms])
qed

lemma only_pmm_allocz: "pmm_inv s \<Longrightarrow> only_pmm s (snd (pmm_allocz s))"
  by (simp only: pmm_allocz_eq(2) only_pmm_mem only_pmm_alloc_phys)

lemma free_virt_apart:
  assumes "pmm_inv s" "p \<in> free_virt s" "q \<in> free_virt s" "in_range x p 4096" "in_range x q 4096"
  shows "p = q"
  using assms(2-) pages_apart [OF free_pages_aligned [OF assms(1)] free_pages_aligned [OF assms(1)]]
  unfolding free_virt_def by blast

interpretation allocz: zeroed_page_allocator pmm_allocz free_virt pmm_inv mem bitmap_bytes
proof
  fix s :: "'a pmm_scheme" and x p q
  show "finite (free_virt s)" by (simp add: free_virt_def)
  assume s: "pmm_inv s"
  show "p = q" if "p \<in> free_virt s" "q \<in> free_virt s" "in_range x p 4096" "in_range x q 4096"
    using s that by (rule free_virt_apart)
  show "x \<notin> bitmap_bytes s" if "p \<in> free_virt s" "in_range x p 4096"
    using that free_page_not_bitmap_bytes [OF s] by (auto simp: free_virt_def)
  assume "free_virt s \<noteq> {}"
  then have ne: "free_pages s \<noteq> {}" by simp
  show "fst (pmm_allocz s) \<in> free_virt s"
    unfolding free_virt_def pmm_allocz_eq(1) [OF s]
    by (rule imageI) (rule alloc_phys_page(1) [OF s ne])
  show "free_virt (snd (pmm_allocz s)) = free_virt s - {fst (pmm_allocz s)}"
    unfolding free_virt_def allocz_inv(2) [OF s ne] only_pmm_fields(2) [OF only_pmm_allocz [OF s]]
      pmm_allocz_eq(1) [OF s] by auto
  show "pmm_inv (snd (pmm_allocz s))" using s ne by (rule allocz_inv)
  show "mem (snd (pmm_allocz s)) x = 0" if "in_range x (fst (pmm_allocz s)) 4096"
    using that by (simp add: pmm_allocz_eq(2) [OF s])
  show "mem (snd (pmm_allocz s)) x = mem s x"
    if "x \<notin> bitmap_bytes s" "\<not> in_range x (fst (pmm_allocz s)) 4096"
    using that alloc_phys_page(4) [OF s ne] by (simp add: pmm_allocz_eq(2) [OF s])
  show "bitmap_bytes (snd (pmm_allocz s)) = bitmap_bytes s"
    using only_pmm_fields [OF only_pmm_allocz [OF s]] by (simp add: bitmap_bytes_def)
qed

end
