(* ===== verification/Vmm.thy ===== *)
theory Vmm
  imports Pmm
begin

text \<open>
  \<open>src/mem/vmm.c\<close>: the four-level page tables. A table is a page of 512 entries of eight
  bytes, an entry holds the physical address of the next table or of the mapped page, and
  the code reaches a table at physical address \<open>t\<close> through the direct map, at
  \<open>t + vmm_page_tables_offset\<close>. The hardware is present through the memory, through the value
  of \<open>cr3\<close> that \<open>vmm_init\<close> reads (an argument), and through the list of executed privileged
  instructions.

  The block that creates a missing table and the block that splits a large page occur once
  per level and function in the source; here each is one definition with the entry's
  address as its argument, and so is the descent to the last level that \<open>vmm_map_page_pml4\<close>
  and \<open>vmm_unmap_page\<close> share.
\<close>

record vmm = pmm +
  vmm_page_tables_offset :: u64
  pml4 :: u64
  vmm_initialised :: bool

section \<open>Indices, flags and entries\<close>

definition PML4_INDEX :: "u64 \<Rightarrow> u64" where "PML4_INDEX v = drop_bit 39 v AND 0x1FF"
definition PDPT_INDEX :: "u64 \<Rightarrow> u64" where "PDPT_INDEX v = drop_bit 30 v AND 0x1FF"
definition PD_INDEX :: "u64 \<Rightarrow> u64" where "PD_INDEX v = drop_bit 21 v AND 0x1FF"
definition PT_INDEX :: "u64 \<Rightarrow> u64" where "PT_INDEX v = drop_bit 12 v AND 0x1FF"

definition PT_ENTRY_PRESENT :: u64 where "PT_ENTRY_PRESENT = 0b1"
definition PT_ENTRY_READ_WRITE :: u64 where "PT_ENTRY_READ_WRITE = 0b10"
definition PT_ENTRY_USER_ACCESS :: u64 where "PT_ENTRY_USER_ACCESS = 0b100"
definition PT_ENTRY_WRITE_THROUGH :: u64 where "PT_ENTRY_WRITE_THROUGH = 0b1000"
definition PT_ENTRY_CACHE_DISABLED :: u64 where "PT_ENTRY_CACHE_DISABLED = 0b10000"
definition PT_ENTRY_ACCESSED :: u64 where "PT_ENTRY_ACCESSED = 0b100000"
definition PT_ENTRY_LARGER_PAGES :: u64 where "PT_ENTRY_LARGER_PAGES = 0b10000000"

lemmas index_defs = PML4_INDEX_def PDPT_INDEX_def PD_INDEX_def PT_INDEX_def
lemmas flag_defs = PT_ENTRY_PRESENT_def PT_ENTRY_READ_WRITE_def PT_ENTRY_LARGER_PAGES_def
  PT_ENTRY_USER_ACCESS_def PT_ENTRY_WRITE_THROUGH_def PT_ENTRY_CACHE_DISABLED_def
  PT_ENTRY_ACCESSED_def

text \<open>On the value of an entry; the code passes a pointer to it.\<close>

definition vmm_pt_entry_set_address :: "u64 \<Rightarrow> u64 \<Rightarrow> u64" where
  "vmm_pt_entry_set_address value address =
    (let address = address AND 0x000FFFFFFFFFFFFF;
         value = value AND 0xFFF0000000000FFF
     in value OR (address AND 0x000FFFFFFFFFF000))"

definition vmm_pt_entry_get_address :: "u64 \<Rightarrow> u64" where
  "vmm_pt_entry_get_address value = value AND 0x000FFFFFFFFFF000"

definition entry_value :: "'a vmm_scheme \<Rightarrow> u64 \<Rightarrow> u64" where
  "entry_value s entry = load64 (mem s) entry"

definition set_entry :: "u64 \<Rightarrow> u64 \<Rightarrow> 'a vmm_scheme \<Rightarrow> 'a vmm_scheme" where
  "set_entry entry value s = s\<lparr>mem := store64 (mem s) entry value\<rparr>"

text \<open>\<open>entry->value |= flag\<close> and \<open>vmm_pt_entry_set_address(entry, address)\<close> in memory.\<close>

definition or_entry :: "u64 \<Rightarrow> u64 \<Rightarrow> 'a vmm_scheme \<Rightarrow> 'a vmm_scheme" where
  "or_entry entry flag s = set_entry entry (entry_value s entry OR flag) s"

definition set_entry_address :: "u64 \<Rightarrow> u64 \<Rightarrow> 'a vmm_scheme \<Rightarrow> 'a vmm_scheme" where
  "set_entry_address entry address s =
    set_entry entry (vmm_pt_entry_set_address (entry_value s entry) address) s"

text \<open>\<open>&table->entries[i]\<close>, and the table an entry points to.\<close>

definition slot :: "u64 \<Rightarrow> u64 \<Rightarrow> u64" where
  "slot table i = table + 8 * i"

definition next_table :: "'a vmm_scheme \<Rightarrow> u64 \<Rightarrow> u64" where
  "next_table s entry = vmm_pt_entry_get_address (entry_value s entry) + vmm_page_tables_offset s"

section \<open>The operations\<close>

definition vmm_init :: "u64 \<Rightarrow> boot_data \<Rightarrow> 'a vmm_scheme \<Rightarrow> 'a vmm_scheme" where
  "vmm_init cr3 bootdata s =
    (let s = s\<lparr>vmm_page_tables_offset := hh_offset (higher_half bootdata)\<rparr>;
         cr3 = cr3 + vmm_page_tables_offset s;
         s = s\<lparr>pml4 := cr3\<rparr>;
         s = print (''%C[VMM]%C - VMM initialised'' @ newline)
               [PInt (ucast COLOUR_KERNEL_INFO), PInt (ucast COLOUR_PRINT)] s
     in s\<lparr>vmm_initialised := True\<rparr>)"

definition vmm_virt_to_phys :: "'a vmm_scheme \<Rightarrow> u64 \<Rightarrow> u64" where
  "vmm_virt_to_phys s virtual_address =
    (if \<not> vmm_initialised s then UINT64_MAX else
     let pml4_entry = slot (pml4 s) (PML4_INDEX virtual_address) in
     if entry_value s pml4_entry AND PT_ENTRY_PRESENT = 0 then UINT64_MAX else
     let pdpt_entry = slot (next_table s pml4_entry) (PDPT_INDEX virtual_address) in
     if entry_value s pdpt_entry AND PT_ENTRY_PRESENT = 0 then UINT64_MAX else
     if entry_value s pdpt_entry AND PT_ENTRY_LARGER_PAGES \<noteq> 0 then
       vmm_pt_entry_get_address (entry_value s pdpt_entry) + virtual_address mod (0x1000 * 512 * 512) else
     let pd_entry = slot (next_table s pdpt_entry) (PD_INDEX virtual_address) in
     if entry_value s pd_entry AND PT_ENTRY_PRESENT = 0 then UINT64_MAX else
     if entry_value s pd_entry AND PT_ENTRY_LARGER_PAGES \<noteq> 0 then
       vmm_pt_entry_get_address (entry_value s pd_entry) + virtual_address mod (0x1000 * 512) else
     let pt_entry = slot (next_table s pd_entry) (PT_INDEX virtual_address) in
     if entry_value s pt_entry AND PT_ENTRY_PRESENT = 0 then UINT64_MAX else
     vmm_pt_entry_get_address (entry_value s pt_entry))"

definition vmm_init_pt_entry :: "u64 \<Rightarrow> 'a vmm_scheme \<Rightarrow> 'a vmm_scheme" where
  "vmm_init_pt_entry entry s =
    (let (page, s) = pmm_allocz s in set_entry_address entry (page - vmm_page_tables_offset s) s)"

text \<open>A missing table (or, in \<open>vmm_map_pages_pml4\<close>, page) is allocated and entered.\<close>

definition ensure_present :: "u64 \<Rightarrow> 'a vmm_scheme \<Rightarrow> 'a vmm_scheme" where
  "ensure_present entry s =
    (if entry_value s entry AND PT_ENTRY_PRESENT = 0 then
       (let s = vmm_init_pt_entry entry s;
            s = or_entry entry PT_ENTRY_READ_WRITE s
        in or_entry entry PT_ENTRY_PRESENT s)
     else s)"

text \<open>The 512 entries of the table that replaces a large page, \<open>step\<close> bytes apart.\<close>

definition fill_table :: "u64 \<Rightarrow> u64 \<Rightarrow> u64 \<Rightarrow> 'a vmm_scheme \<Rightarrow> 'a vmm_scheme" where
  "fill_table table base_phys_addr step s =
    for_u64 0 512
      (\<lambda>i s. let next_entry = slot table i;
                 s = set_entry_address next_entry (base_phys_addr + i * step) s;
                 s = or_entry next_entry PT_ENTRY_READ_WRITE s
             in or_entry next_entry PT_ENTRY_PRESENT s) s"

definition split_large_page :: "u64 \<Rightarrow> u64 \<Rightarrow> 'a vmm_scheme \<Rightarrow> 'a vmm_scheme" where
  "split_large_page entry step s =
    (if entry_value s entry AND PT_ENTRY_LARGER_PAGES \<noteq> 0 then
       (let base_phys_addr = vmm_pt_entry_get_address (entry_value s entry);
            (page, s) = pmm_allocz s;
            new_entry_address = page - vmm_page_tables_offset s;
            new_entry_value = vmm_pt_entry_set_address 0 new_entry_address;
            new_entry_value = new_entry_value OR PT_ENTRY_READ_WRITE;
            new_entry_value = new_entry_value OR PT_ENTRY_PRESENT;
            new_table = new_entry_address + vmm_page_tables_offset s;
            s = fill_table new_table base_phys_addr step s
        in set_entry entry new_entry_value s)
     else s)"

definition split_pdpt_entry :: "u64 \<Rightarrow> 'a vmm_scheme \<Rightarrow> 'a vmm_scheme" where
  "split_pdpt_entry pdpt_entry s = split_large_page pdpt_entry (0x1000 * 512) s"

definition split_pd_entry :: "u64 \<Rightarrow> 'a vmm_scheme \<Rightarrow> 'a vmm_scheme" where
  "split_pd_entry pd_entry s = split_large_page pd_entry 0x1000 s"

text \<open>From the root table down to the page table of an address; its result is the table's address.\<close>

definition walk_create :: "u64 \<Rightarrow> u64 \<Rightarrow> 'a vmm_scheme \<Rightarrow> u64 \<times> 'a vmm_scheme" where
  "walk_create p_pml4 virtual_address s =
    (let pml4_entry = slot p_pml4 (PML4_INDEX virtual_address);
         s = ensure_present pml4_entry s;
         pdpt_entry = slot (next_table s pml4_entry) (PDPT_INDEX virtual_address);
         s = ensure_present pdpt_entry s;
         s = split_pdpt_entry pdpt_entry s;
         pd_entry = slot (next_table s pdpt_entry) (PD_INDEX virtual_address);
         s = ensure_present pd_entry s;
         s = split_pd_entry pd_entry s
     in (next_table s pd_entry, s))"

text \<open>The physical address a caller means, were it "un-knowingly" a virtual one.\<close>

definition convert_to_phys :: "'a vmm_scheme \<Rightarrow> u64 \<Rightarrow> u64" where
  "convert_to_phys s physical_address =
    (let converted_to_phys = vmm_virt_to_phys s physical_address
     in if converted_to_phys \<noteq> UINT64_MAX then converted_to_phys else physical_address)"

definition vmm_invlpg :: "u64 \<Rightarrow> 'a vmm_scheme \<Rightarrow> 'a vmm_scheme" where
  "vmm_invlpg address s = cpu (Invlpg address) s"

definition vmm_map_page_pml4 :: "u64 \<Rightarrow> u64 \<Rightarrow> u64 \<Rightarrow> u8 \<Rightarrow> 'a vmm_scheme \<Rightarrow> 'a vmm_scheme" where
  "vmm_map_page_pml4 p_pml4 physical_address virtual_address flags s =
    (let physical_address = convert_to_phys s physical_address;
         (pt, s) = walk_create p_pml4 virtual_address s;
         pt_entry = slot pt (PT_INDEX virtual_address);
         new_pt_entry_value = vmm_pt_entry_set_address 0 physical_address;
         new_pt_entry_value = new_pt_entry_value OR ucast flags;
         new_pt_entry_value = new_pt_entry_value OR PT_ENTRY_PRESENT;
         s = set_entry pt_entry new_pt_entry_value s;
         s = vmm_invlpg physical_address s
     in vmm_invlpg virtual_address s)"

definition vmm_map_page :: "u64 \<Rightarrow> u64 \<Rightarrow> 'a vmm_scheme \<Rightarrow> 'a vmm_scheme" where
  "vmm_map_page physical_address virtual_address s =
    vmm_map_page_pml4 (pml4 s) physical_address virtual_address (ucast PT_ENTRY_READ_WRITE) s"

definition vmm_map_page_flags :: "u64 \<Rightarrow> u64 \<Rightarrow> u8 \<Rightarrow> 'a vmm_scheme \<Rightarrow> 'a vmm_scheme" where
  "vmm_map_page_flags physical_address virtual_address flags s =
    vmm_map_page_pml4 (pml4 s) physical_address virtual_address flags s"

definition vmm_unmap_page :: "u64 \<Rightarrow> 'a vmm_scheme \<Rightarrow> 'a vmm_scheme" where
  "vmm_unmap_page virtual_address s =
    (let (pt, s) = walk_create (pml4 s) virtual_address s;
         pt_entry = slot pt (PT_INDEX virtual_address);
         s = vmm_invlpg (vmm_pt_entry_get_address (entry_value s pt_entry)) s;
         s = set_entry pt_entry 0 s
     in vmm_invlpg virtual_address s)"

definition vmm_set_pml4 :: "u64 \<Rightarrow> 'a vmm_scheme \<Rightarrow> 'a vmm_scheme" where
  "vmm_set_pml4 new_pml4 s =
    (let s = cpu (WriteCr3 (vmm_virt_to_phys s new_pml4)) s in s\<lparr>pml4 := new_pml4\<rparr>)"

definition vmm_has_initialised :: "'a vmm_scheme \<Rightarrow> bool" where
  "vmm_has_initialised s = vmm_initialised s"

end
