(* ===== verification/Vmm_Tables.thy ===== *)
theory Vmm_Tables
  imports Vmm
begin

text \<open>
  The page tables of \<open>Vmm\<close> as a tree. A path is a list of nine-bit indices; \<open>tab s root p\<close> is the
  table at the end of path \<open>p\<close>, and \<open>translate s root p\<close> the physical page that the address with
  the four indices \<open>p\<close> is mapped to, through pages of any size. The invariant says that
  no table is reached along two paths, that no table is a free page or a page of the
  allocator's bitmap, and that the entries of the upper levels are well-formed. The lemmas describe what one store to an
  entry and one installed table change.
\<close>

section \<open>Entries\<close>

definition present :: "u64 \<Rightarrow> bool" where "present e \<longleftrightarrow> e AND PT_ENTRY_PRESENT \<noteq> 0"
definition large :: "u64 \<Rightarrow> bool" where "large e \<longleftrightarrow> e AND PT_ENTRY_LARGER_PAGES \<noteq> 0"

declare bit_numeral_word_iff [simp del]

abbreviation addr :: "u64 \<Rightarrow> u64" where "addr \<equiv> vmm_pt_entry_get_address"

lemma present_bit: "present e \<longleftrightarrow> bit e 0"
  using and_exp_eq_0_iff_not_bit [of e 0] by (simp add: present_def PT_ENTRY_PRESENT_def)

lemma large_bit: "large e \<longleftrightarrow> bit e 7"
  using and_exp_eq_0_iff_not_bit [of e 7] by (simp add: large_def PT_ENTRY_LARGER_PAGES_def)

lemma addr_mask: "0x000FFFFFFFFFF000 = (mask 52 AND NOT (mask 12) :: u64)"
  by (simp add: mask_eq_exp_minus_1)

lemma bit_addr_mask: "bit (0x000FFFFFFFFFF000 :: u64) n \<longleftrightarrow> 12 \<le> n \<and> n < 52"
  unfolding addr_mask by (auto simp: bit_simps)

lemma bit_flags_mask: "bit (0xFFF0000000000FFF :: u64) n \<longleftrightarrow> n < 64 \<and> (n < 12 \<or> 52 \<le> n)"
proof -
  have m: "(0xFFF0000000000FFF :: u64) = NOT 0x000FFFFFFFFFF000" by simp
  show ?thesis unfolding m bit_not_iff bit_addr_mask by auto
qed

lemma bit_52_mask: "bit (0x000FFFFFFFFFFFFF :: u64) n \<longleftrightarrow> n < 52"
proof -
  have m: "(0x000FFFFFFFFFFFFF :: u64) = mask 52" by (simp add: mask_eq_exp_minus_1)
  show ?thesis unfolding m by (auto simp: bit_simps)
qed

lemma bit_addr: "bit (addr e) n \<longleftrightarrow> bit e n \<and> 12 \<le> n \<and> n < 52"
  by (simp add: vmm_pt_entry_get_address_def bit_and_iff bit_addr_mask)

lemma bit_set_address:
  "bit (vmm_pt_entry_set_address v a) n \<longleftrightarrow> (if 12 \<le> n \<and> n < 52 then bit a n else bit v n)"
  by (auto simp: vmm_pt_entry_set_address_def Let_def bit_and_iff bit_or_iff bit_addr_mask
      bit_flags_mask bit_52_mask dest: bit_imp_le_length)

lemma page_addr_iff: "addr p = p \<longleftrightarrow> page_aligned p \<and> unat p < 2 ^ 52"
proof -
  have "page_aligned p \<longleftrightarrow> (\<forall>n < 12. \<not> bit p n)"
  proof -
    have "page_aligned p \<longleftrightarrow> take_bit 12 p = 0"
      by (simp add: page_aligned_def take_bit_eq_mod word_unat_eq_iff unat_mod)
    also have "\<dots> \<longleftrightarrow> (\<forall>n < 12. \<not> bit p n)"
      by (auto simp: bit_eq_iff bit_take_bit_iff)
    finally show ?thesis .
  qed
  moreover have "unat p < 2 ^ 52 \<longleftrightarrow> (\<forall>n \<ge> 52. \<not> bit p n)"
  proof -
    have "unat p < 2 ^ 52 \<longleftrightarrow> take_bit 52 p = p"
      by (simp add: take_bit_eq_mod word_unat_eq_iff unat_mod)
        (metis mod_less mod_less_divisor zero_less_numeral)
    also have "\<dots> \<longleftrightarrow> (\<forall>n \<ge> 52. \<not> bit p n)"
      unfolding bit_eq_iff bit_take_bit_iff by (metis impossible_bit not_le)
    finally show ?thesis .
  qed
  moreover have "addr p = p \<longleftrightarrow> (\<forall>n. bit p n \<longrightarrow> 12 \<le> n \<and> n < 52)"
    unfolding bit_eq_iff bit_addr by (metis impossible_bit)
  ultimately show ?thesis by (metis not_le)
qed

lemma addr_addr [simp]: "addr (addr e) = addr e"
  by (rule bit_eqI) (simp add: bit_addr)

lemma addr_page: "page_aligned (addr e)" "unat (addr e) < 2 ^ 52"
  using page_addr_iff [of "addr e"] by simp_all

text \<open>Addresses and low flags do not interfere.\<close>

lemma addr_or_low: "unat f < 4096 \<Longrightarrow> addr (v OR f) = addr v"
proof (rule bit_eqI)
  fix n assume f: "unat f < 4096"
  then have "take_bit 12 f = f"
    by (simp add: take_bit_eq_mod word_unat_eq_iff unat_mod)
  then have "\<not> bit f n" if "12 \<le> n" using that by (metis bit_take_bit_iff not_less)
  then show "bit (addr (v OR f)) n = bit (addr v) n" by (auto simp: bit_addr bit_or_iff)
qed

lemma addr_set_address: "addr (vmm_pt_entry_set_address v a) = addr a"
  by (rule bit_eqI) (auto simp: bit_addr bit_set_address)

lemma set_address_flags [simp]:
  "present (vmm_pt_entry_set_address v a) = present v" "large (vmm_pt_entry_set_address v a) = large v"
  by (simp_all add: present_bit large_bit bit_set_address)

lemma or_flags [simp]: "present (v OR f) = (present v \<or> present f)" "large (v OR f) = (large v \<or> large f)"
  by (simp_all add: present_bit large_bit bit_or_iff)

lemma flags [simp]: "present PT_ENTRY_PRESENT" "\<not> present PT_ENTRY_READ_WRITE" "\<not> present 0"
  "\<not> large PT_ENTRY_PRESENT" "\<not> large PT_ENTRY_READ_WRITE" "\<not> large 0"
  by (simp_all add: present_def large_def flag_defs)

lemma addr_or_flags [simp]: "addr (v OR PT_ENTRY_READ_WRITE) = addr v" "addr (v OR PT_ENTRY_PRESENT) = addr v"
  by (rule addr_or_low; simp add: flag_defs)+

section \<open>Paths\<close>

type_synonym path = "9 word list"

definition path_of :: "u64 \<Rightarrow> path" where
  "path_of v = [ucast (drop_bit 39 v), ucast (drop_bit 30 v), ucast (drop_bit 21 v), ucast (drop_bit 12 v)]"

lemma ucast_index: "ucast (ucast x :: 9 word) = (x AND 0x1FF :: u64)"
proof -
  have m: "(0x1FF :: u64) = mask 9" by (simp add: mask_eq_exp_minus_1)
  show ?thesis unfolding m by (intro bit_word_eqI) (auto simp: bit_simps)
qed

lemma index_path:
  "PML4_INDEX v = ucast (path_of v ! 0)" "PDPT_INDEX v = ucast (path_of v ! 1)"
  "PD_INDEX v = ucast (path_of v ! 2)" "PT_INDEX v = ucast (path_of v ! 3)"
  by (simp_all add: path_of_def index_defs ucast_index)

lemma unat_index: "unat (ucast (i :: 9 word) :: u64) = unat i" "unat (i :: 9 word) < 512"
proof -
  show b: "unat i < 512" using unsigned_less [of i, where ?'a = nat] by simp
  then show "unat (ucast i :: u64) = unat i"
    by (simp add: unsigned_ucast_eq take_bit_nat_eq_self)
qed

lemma unat_slot8: "unat (8 * ucast (i :: 9 word) :: u64) = 8 * unat i" "8 * unat i + 8 \<le> 4096"
proof -
  show b: "8 * unat i + 8 \<le> 4096" using unat_index(2) [of i] by linarith
  then show "unat (8 * ucast (i :: 9 word) :: u64) = 8 * unat i"
    using cell64.unat_slot [of "ucast i"] by (simp add: unat_index(1))
qed

text \<open>The entry with index \<open>i\<close> of the table at physical address \<open>t\<close>.\<close>

definition entry_ptr :: "'a vmm_scheme \<Rightarrow> u64 \<Rightarrow> 9 word \<Rightarrow> u64" where
  "entry_ptr s t i = slot (t + vmm_page_tables_offset s) (ucast i)"

definition ent :: "'a vmm_scheme \<Rightarrow> u64 \<Rightarrow> 9 word \<Rightarrow> u64" where
  "ent s t i = entry_value s (entry_ptr s t i)"

lemma entry_ptr_eq: "entry_ptr s t i = t + 8 * ucast i + vmm_page_tables_offset s"
  by (simp add: entry_ptr_def slot_def)

lemma disj_entries:
  assumes "page_aligned t" "page_aligned u" "(t, i) \<noteq> (u, j)"
    "vmm_page_tables_offset s' = vmm_page_tables_offset s"
  shows "disj (entry_ptr s t i) 8 (entry_ptr s' u j) 8"
proof (cases "t = u")
  case True
  with assms(3) have "(ucast i :: u64) \<noteq> ucast j"
    by (auto simp: word_unat_eq_iff unat_index)
  then have "disj (t + of_nat 8 * ucast i) 8 (t + of_nat 8 * ucast j) 8"
    using unat_slot8(2) [of i] unat_slot8(2) [of j]
    by (intro cell64.disj_slots) (simp_all add: unat_index)
  with True show ?thesis by (simp add: entry_ptr_eq assms(4))
next
  case False
  then show ?thesis
    using assms(1,2) unat_slot8 [of i] unat_slot8 [of j]
    by (simp add: entry_ptr_eq assms(4) disj_pages)
qed

lemma ent_set_entry:
  assumes "page_aligned t" "page_aligned u"
  shows "ent (set_entry (entry_ptr s u j) v s) t i = (if t = u \<and> i = j then v else ent s t i)"
proof -
  have p: "entry_ptr (set_entry (entry_ptr s u j) v s) t i = entry_ptr s t i"
    by (simp add: set_entry_def entry_ptr_def)
  show ?thesis
    using disj_entries [OF assms, of i j s s]
    unfolding ent_def p entry_value_def by (auto simp: set_entry_def cell64.rd_wr cell64.rd_wr_disj)
qed

lemma entry_in_page:
  assumes "k < 8"
  shows "in_range (entry_ptr s t i + of_nat k) (t + vmm_page_tables_offset s) 4096"
proof -
  have "unat (of_nat k :: u64) = k" using assms by (simp add: unat_of_nat take_bit_nat_eq_self)
  then have "unat (8 * ucast i + of_nat k :: u64) = 8 * unat i + k"
    using unat_slot8 [of i] assms unat_add_lem [THEN iffD1, of "8 * ucast i :: u64" "of_nat k"] by simp
  moreover have "entry_ptr s t i + of_nat k - (t + vmm_page_tables_offset s) = 8 * ucast i + of_nat k"
    by (simp add: entry_ptr_eq)
  ultimately show ?thesis
    using unat_slot8(2) [of i] assms by (simp only: in_range_def)
qed

lemma ent_cong:
  assumes "vmm_page_tables_offset s' = vmm_page_tables_offset s"
    and "\<And>x. in_range x (t + vmm_page_tables_offset s) 4096 \<Longrightarrow> mem s' x = mem s x"
  shows "ent s' t i = ent s t i"
proof -
  have p: "entry_ptr s' t i = entry_ptr s t i" by (simp add: entry_ptr_def assms(1))
  show ?thesis
    unfolding ent_def p entry_value_def
    by (rule cell64.rd_cong) (intro assms(2) entry_in_page)
qed

section \<open>Tables along a path\<close>

definition is_table :: "u64 \<Rightarrow> bool" where
  "is_table e \<longleftrightarrow> present e \<and> \<not> large e"

fun tab :: "'a vmm_scheme \<Rightarrow> u64 \<Rightarrow> path \<Rightarrow> u64 option" where
  "tab s t [] = Some t"
| "tab s t (i # p) = (if is_table (ent s t i) then tab s (addr (ent s t i)) p else None)"

text \<open>The page a path leads to; a large page ends the walk early, and the rest of the path selects a page within it.\<close>

definition page_in_large :: "path \<Rightarrow> u64" where
  "page_in_large p = 0x1000 * foldl (\<lambda>n i. 512 * n + ucast i) 0 p"

fun translate :: "'a vmm_scheme \<Rightarrow> u64 \<Rightarrow> path \<Rightarrow> u64 option" where
  "translate s t [] = Some t"
| "translate s t (i # p) =
    (let e = ent s t i in
     if \<not> present e then None
     else if large e \<and> p \<noteq> [] then Some (addr e + page_in_large p)
     else translate s (addr e) p)"

lemma tab_append: "tab s t (p @ q) = (case tab s t p of None \<Rightarrow> None | Some u \<Rightarrow> tab s u q)"
  by (induction p arbitrary: t) auto

lemma tab_snoc:
  "tab s t (p @ [i]) = (case tab s t p of None \<Rightarrow> None
    | Some u \<Rightarrow> if is_table (ent s u i) then Some (addr (ent s u i)) else None)"
  by (simp add: tab_append split: option.splits)

lemma translate_append:
  "tab s t p = Some u \<Longrightarrow> q \<noteq> [] \<Longrightarrow> translate s t (p @ q) = translate s u q"
  by (induction p arbitrary: t) (auto simp: is_table_def Let_def split: if_splits)

lemma translate_cong:
  assumes "\<And>p i q' u. q = p @ i # q' \<Longrightarrow> tab s t p = Some u \<Longrightarrow> ent s' u i = ent s u i"
  shows "translate s' t q = translate s t q"
  using assms
proof (induction q arbitrary: t)
  case Nil
  then show ?case by simp
next
  case (Cons i q)
  have here: "ent s' t i = ent s t i" using Cons.prems [of "[]" i q t] by simp
  have "translate s' (addr (ent s t i)) q = translate s (addr (ent s t i)) q"
    if "present (ent s t i)" "\<not> (large (ent s t i) \<and> q \<noteq> [])"
  proof (cases q)
    case Nil
    then show ?thesis by simp
  next
    case (Cons j r)
    show ?thesis
    proof (rule Cons.IH)
      fix p i' q' u assume "q = p @ i' # q'" "tab s (addr (ent s t i)) p = Some u"
      then show "ent s' u i' = ent s u i'"
        using Cons.prems [of "i # p" i' q' u] that Cons by (simp add: is_table_def)
    qed
  qed
  then show ?case by (auto simp: Let_def here)
qed

section \<open>The invariant\<close>

definition vmm_base :: "'a vmm_scheme \<Rightarrow> bool" where
  "vmm_base s \<longleftrightarrow> pmm_inv s \<and> vmm_page_tables_offset s = higher_half_offset s \<and>
    (\<forall>p \<in> set (pages s). unat p < 2 ^ 52)"

text \<open>A page that is a table: neither free nor part of the allocator's bitmap.\<close>

definition table_page :: "'a vmm_scheme \<Rightarrow> u64 \<Rightarrow> bool" where
  "table_page s t \<longleftrightarrow> page_aligned t \<and> t \<notin> free_pages s \<and>
    (\<forall>x. in_range x (t + vmm_page_tables_offset s) 4096 \<longrightarrow> x \<notin> bitmap_bytes s)"

text \<open>
  \<open>k\<close> is the level, 0 for the root. A larger-pages flag without the present flag would come alive
  in \<open>ensure_present\<close>, and large pages are aligned to their size.
\<close>

definition entry_ok :: "nat \<Rightarrow> u64 \<Rightarrow> bool" where
  "entry_ok k e \<longleftrightarrow> (large e \<longrightarrow> present e \<and> k \<noteq> 0 \<and> unat (addr e) mod (4096 * 512 ^ (3 - k)) = 0)"

definition vmm_inv :: "'a vmm_scheme \<Rightarrow> u64 \<Rightarrow> bool" where
  "vmm_inv s root \<longleftrightarrow> vmm_base s \<and>
    (\<forall>p t. length p \<le> 3 \<and> tab s root p = Some t \<longrightarrow> table_page s t \<and>
      (\<forall>q. length q \<le> 3 \<and> tab s root q = Some t \<longrightarrow> q = p)) \<and>
    (\<forall>p t i. length p \<le> 2 \<and> tab s root p = Some t \<longrightarrow> entry_ok (length p) (ent s t i))"

lemma vmm_invD:
  assumes "vmm_inv s root"
  shows "vmm_base s" "pmm_inv s" "vmm_page_tables_offset s = higher_half_offset s"
    and "length p \<le> 3 \<Longrightarrow> tab s root p = Some t \<Longrightarrow> table_page s t"
    and "length p \<le> 3 \<Longrightarrow> tab s root p = Some t \<Longrightarrow> length q \<le> 3 \<Longrightarrow> tab s root q = Some t \<Longrightarrow> q = p"
    and "length p \<le> 2 \<Longrightarrow> tab s root p = Some t \<Longrightarrow> entry_ok (length p) (ent s t i)"
  using assms unfolding vmm_inv_def vmm_base_def by blast+

lemma free_page_addr: "vmm_base s \<Longrightarrow> p \<in> free_pages s \<Longrightarrow> addr p = p"
  using free_pages_aligned [of s p] free_pages_subset [of s] by (auto simp: vmm_base_def page_addr_iff)

lemma table_page_aligned: "table_page s t \<Longrightarrow> page_aligned t"
  by (simp add: table_page_def)

text \<open>
  The bytes the page tables may write: the bitmap, the free pages and the tables.
\<close>

definition vmm_bytes :: "'a vmm_scheme \<Rightarrow> u64 \<Rightarrow> u64 set" where
  "vmm_bytes s root = bitmap_bytes s \<union> {x. \<exists>p \<in> free_virt s. in_range x p 4096} \<union>
    {x. \<exists>p t. length p \<le> 3 \<and> tab s root p = Some t \<and> in_range x (t + vmm_page_tables_offset s) 4096}"

text \<open>
  \<open>s'\<close> has the tables of \<open>s\<close> and at most \<open>n\<close> more, in formerly free pages, and maps every
  address as \<open>s\<close> does.
\<close>

definition grows :: "nat \<Rightarrow> u64 \<Rightarrow> 'a vmm_scheme \<Rightarrow> 'a vmm_scheme \<Rightarrow> bool" where
  "grows n root s s' \<longleftrightarrow> vmm_inv s' root \<and> only_pmm s s' \<and>
    (\<forall>p. length p = 4 \<longrightarrow> translate s' root p = translate s root p) \<and>
    (\<forall>p t. length p \<le> 3 \<longrightarrow> tab s root p = Some t \<longrightarrow> tab s' root p = Some t) \<and>
    (\<forall>p t i. length p \<le> 2 \<longrightarrow> tab s' root p = Some t \<longrightarrow> large (ent s' t i) \<longrightarrow>
      tab s root p = Some t \<and> large (ent s t i)) \<and>
    card (free_pages s) \<le> card (free_pages s') + n \<and> free_pages s' \<subseteq> free_pages s \<and>
    (\<forall>p t. length p \<le> 3 \<longrightarrow> tab s' root p = Some t \<longrightarrow> tab s root p = Some t \<or> t \<in> free_pages s) \<and>
    vmm_bytes s' root \<subseteq> vmm_bytes s root \<and>
    (\<forall>x. x \<notin> vmm_bytes s root \<longrightarrow> mem s' x = mem s x)"

lemma grows_refl: "vmm_inv s root \<Longrightarrow> grows n root s s"
  by (simp add: grows_def)

lemma growsD:
  assumes "grows n root s s'"
  shows "vmm_inv s' root" "only_pmm s s'"
    "length p = 4 \<Longrightarrow> translate s' root p = translate s root p"
    "length p \<le> 3 \<Longrightarrow> tab s root p = Some t \<Longrightarrow> tab s' root p = Some t"
    "length p \<le> 2 \<Longrightarrow> tab s' root p = Some t \<Longrightarrow> large (ent s' t i) \<Longrightarrow> tab s root p = Some t \<and> large (ent s t i)"
    "card (free_pages s) \<le> card (free_pages s') + n"
    "x \<notin> vmm_bytes s root \<Longrightarrow> mem s' x = mem s x"
    "vmm_bytes s' root \<subseteq> vmm_bytes s root" "free_pages s' \<subseteq> free_pages s"
    "length p \<le> 3 \<Longrightarrow> tab s' root p = Some t \<Longrightarrow> tab s root p = Some t \<or> t \<in> free_pages s"
  using assms unfolding grows_def by blast+

lemma grows_trans:
  assumes "grows n root s s'" "grows k root s' s''"
  shows "grows (n + k) root s s''"
proof -
  note D = growsD [OF assms(1)] and E = growsD [OF assms(2)]
  show ?thesis
    unfolding grows_def
  proof (intro conjI allI impI)
    show "vmm_inv s'' root" by (rule E(1))
    show "only_pmm s s''" using D(2) E(2) by (rule only_pmm_trans)
    show "card (free_pages s) \<le> card (free_pages s'') + (n + k)" using D(6) E(6) by simp
    show "vmm_bytes s'' root \<subseteq> vmm_bytes s root" using D(8) E(8) by blast
    show "free_pages s'' \<subseteq> free_pages s" using D(9) E(9) by blast
    show "tab s root p = Some t \<or> t \<in> free_pages s" if "length p \<le> 3" "tab s'' root p = Some t" for p t
      using D(10) [OF that(1)] E(10) [OF that] D(9) by blast
    show "mem s'' x = mem s x" if "x \<notin> vmm_bytes s root" for x
      using that D(7,8) E(7) by (metis subsetD)
    show "translate s'' root p = translate s root p" if "length p = 4" for p
      using that D(3) E(3) by metis
    show "tab s'' root p = Some t" if "length p \<le> 3" "tab s root p = Some t" for p t
      using that D(4) E(4) by metis
    show "tab s root p = Some t" "large (ent s t i)"
      if "length p \<le> 2" "tab s'' root p = Some t" "large (ent s'' t i)" for p t i
      using D(5) [OF that(1)] E(5) [OF that] by metis+
  qed
qed

section \<open>Installing a table\<close>

text \<open>
  What \<open>ensure_present\<close> and \<open>split_large_page\<close> have in common: the entry \<open>i\<close> of table \<open>t\<close>
  comes to point to the page \<open>n\<close>, taken from the free ones, and no other table changes.
\<close>

definition installs :: "u64 \<Rightarrow> 9 word \<Rightarrow> u64 \<Rightarrow> 'a vmm_scheme \<Rightarrow> 'a vmm_scheme \<Rightarrow> bool" where
  "installs t i n s s' \<longleftrightarrow> vmm_base s' \<and> only_pmm s s' \<and> n \<in> free_pages s \<and>
    free_pages s' = free_pages s - {n} \<and>
    is_table (ent s' t i) \<and> addr (ent s' t i) = n \<and>
    (\<forall>u j. table_page s u \<and> (u, j) \<noteq> (t, i) \<longrightarrow> ent s' u j = ent s u j) \<and>
    (\<forall>x. x \<notin> bitmap_bytes s \<and> \<not> in_range x (n + vmm_page_tables_offset s) 4096 \<and>
      \<not> in_range x (t + vmm_page_tables_offset s) 4096 \<longrightarrow> mem s' x = mem s x)"

lemma only_pmm_vmm:
  assumes "only_pmm s s'"
  shows "vmm_page_tables_offset s' = vmm_page_tables_offset s" "pml4 s' = pml4 s"
    "vmm_initialised s' = vmm_initialised s" "bitmap_bytes s' = bitmap_bytes s" "pages s' = pages s"
  using assms by (elim only_pmmE; simp add: bitmap_bytes_def)+

lemma free_table_page:
  assumes "vmm_base s" "n \<in> free_pages s" "free_pages s' = free_pages s - {n}" "only_pmm s s'"
  shows "table_page s' n"
  unfolding table_page_def only_pmm_vmm [OF assms(4)]
  using assms free_pages_aligned [of s n] free_page_not_bitmap_bytes [of s n] by (simp add: vmm_base_def)

definition table_install ::
    "'a vmm_scheme \<Rightarrow> 'a vmm_scheme \<Rightarrow> u64 \<Rightarrow> u64 \<Rightarrow> u64 \<Rightarrow> path \<Rightarrow> 9 word \<Rightarrow> bool" where
  "table_install s s' root t n p i \<longleftrightarrow> vmm_inv s root \<and> tab s root p = Some t \<and> length p \<le> 2 \<and>
    \<not> is_table (ent s t i) \<and> installs t i n s s' \<and> (length p \<le> 1 \<longrightarrow> (\<forall>j. ent s' n j = 0))"

lemma install_at:
  assumes "table_install s s' root t n p i"
  shows "tab s root p = Some t" "length p \<le> 2"
  using assms by (simp_all add: table_install_def)

lemma install_old: "table_install s s' root t n p i \<Longrightarrow> \<not> is_table (ent s t i)"
  by (simp add: table_install_def)

lemma install_new_entries: "table_install s s' root t n p i \<Longrightarrow> length p \<le> 1 \<Longrightarrow> ent s' n j = 0"
  by (simp add: table_install_def)

lemma install_inv: "table_install s s' root t n p i \<Longrightarrow> vmm_inv s root"
  by (simp add: table_install_def)

lemmas install_vmm = vmm_invD [OF install_inv]

lemma installD:
  assumes T: "table_install s s' root t n p i"
  shows "vmm_base s'" "only_pmm s s'" "n \<in> free_pages s" "free_pages s' = free_pages s - {n}"
  "is_table (ent s' t i)" "addr (ent s' t i) = n"
  "table_page s u \<Longrightarrow> (u, j) \<noteq> (t, i) \<Longrightarrow> ent s' u j = ent s u j"
  "x \<notin> bitmap_bytes s \<Longrightarrow> \<not> in_range x (n + vmm_page_tables_offset s) 4096 \<Longrightarrow>
    \<not> in_range x (t + vmm_page_tables_offset s) 4096 \<Longrightarrow> mem s' x = mem s x"
  using T unfolding table_install_def installs_def by blast+

lemma install_same:
  assumes T: "table_install s s' root t n p i"
  shows "vmm_page_tables_offset s' = vmm_page_tables_offset s" "bitmap_bytes s' = bitmap_bytes s"
  using only_pmm_vmm [OF installD(2) [OF T]] by simp_all

lemma install_not_below:
  assumes T: "table_install s s' root t n p i"
  shows "tab s root (p @ [i] @ q) = None"
  using install_at(1) [OF T] install_old [OF T] by (simp add: tab_append)

lemma install_new_free:
  assumes T: "table_install s s' root t n p i"
  shows "length q \<le> 3 \<Longrightarrow> tab s root q = Some u \<Longrightarrow> u \<noteq> n"
  using install_vmm(4) [OF T, of q u] installD(3) [OF T] by (auto simp: table_page_def)

lemma install_ent_other:
  assumes T: "table_install s s' root t n p i"
    and "length q \<le> 3" "tab s root q = Some u" "q \<noteq> p \<or> j \<noteq> i"
  shows "ent s' u j = ent s u j"
proof (rule installD(7) [OF T])
  show "table_page s u" using assms(2,3) by (rule install_vmm(4) [OF T])
  show "(u, j) \<noteq> (t, i)" using assms(2-) install_vmm(5) [OF T assms(2,3), of p] install_at [OF T] by auto
qed

lemma tab_install:
  assumes T: "table_install s s' root t n p i"
  shows "length q \<le> 3 \<Longrightarrow> tab s' root q = (if q = p @ [i] then Some n else tab s root q)"
proof (induction q rule: rev_induct)
  case Nil
  then show ?case by simp
next
  case (snoc j q)
  then have IH: "tab s' root q = (if q = p @ [i] then Some n else tab s root q)" and l: "length q \<le> 2"
    by auto
  show ?case
  proof (cases "q = p @ [i]")
    case True
    with l have "ent s' n j = 0" by (intro install_new_entries [OF T]) simp
    moreover from IH True have "tab s' root q = Some n" by simp
    ultimately have "tab s' root (q @ [j]) = None" by (simp add: tab_snoc is_table_def)
    with True install_not_below [OF T, of "[j]"] show ?thesis by simp
  next
    case False
    with IH have "tab s' root q = tab s root q" by simp
    moreover have "tab s root q = Some u \<Longrightarrow> q \<noteq> p \<or> j \<noteq> i \<Longrightarrow> ent s' u j = ent s u j" for u
      using l by (intro install_ent_other [OF T]) simp_all
    ultimately show ?thesis
      using install_at [OF T] installD(5,6) [OF T] by (cases "tab s root q") (auto simp: tab_snoc)
  qed
qed

lemma tab_install_cases:
  assumes T: "table_install s s' root t n p i"
    and "length q \<le> 3" "tab s' root q = Some u"
  shows "q = p @ [i] \<and> u = n \<or> q \<noteq> p @ [i] \<and> tab s root q = Some u \<and> u \<noteq> n"
proof (cases "q = p @ [i]")
  case True
  with assms(3) tab_install [OF T assms(2)] show ?thesis by simp
next
  case False
  with assms(3) tab_install [OF T assms(2)] install_new_free [OF T assms(2), of u] show ?thesis by simp
qed

lemma install_new_page:
  assumes T: "table_install s s' root t n p i"
  shows "table_page s' n"
  using install_vmm(1) [OF T] installD(2-4) [OF T] by (intro free_table_page [of s])

lemma install_old_page:
  assumes T: "table_install s s' root t n p i"
  shows "length q \<le> 3 \<Longrightarrow> tab s root q = Some u \<Longrightarrow> table_page s' u"
  using install_vmm(4) [OF T, of q u] installD(4) [OF T] by (simp add: table_page_def install_same [OF T])

lemma entry_ok_install:
  assumes T: "table_install s s' root t n p i"
    and "length q \<le> 2" "tab s' root q = Some u"
  shows "entry_ok (length q) (ent s' u j)"
proof (cases "q = p @ [i]")
  case True
  with assms(2-) have "u = n" "length p \<le> 1" by (auto simp: tab_install [OF T])
  then show ?thesis by (simp add: install_new_entries [OF T] entry_ok_def)
next
  case False
  with assms(2-) have u: "tab s root q = Some u" by (simp add: tab_install [OF T])
  show ?thesis
  proof (cases "q = p \<and> j = i")
    case True
    with u install_at [OF T] installD(5) [OF T] show ?thesis by (simp add: is_table_def entry_ok_def)
  next
    case False
    with assms(2-) u have "ent s' u j = ent s u j" by (intro install_ent_other [OF T]) auto
    then show ?thesis using install_vmm(6) [OF T assms(2) u] by simp
  qed
qed

lemma install_inv':
  assumes T: "table_install s s' root t n p i"
  shows "vmm_inv s' root"
  unfolding vmm_inv_def
proof (intro conjI allI impI)
  show "vmm_base s'" by (rule installD(1) [OF T])
next
  fix q u assume q: "length q \<le> 3 \<and> tab s' root q = Some u"
  then show "table_page s' u"
    using install_new_page [OF T] install_old_page [OF T, of q u] by (auto simp: tab_install [OF T] split: if_splits)
  fix r assume r: "length r \<le> 3 \<and> tab s' root r = Some u"
  have "q = p @ [i] \<and> u = n \<or> q \<noteq> p @ [i] \<and> tab s root q = Some u \<and> u \<noteq> n"
    "r = p @ [i] \<and> u = n \<or> r \<noteq> p @ [i] \<and> tab s root r = Some u \<and> u \<noteq> n"
    using q r tab_install_cases [OF T, of q u] tab_install_cases [OF T, of r u] by blast+
  then show "r = q" using install_vmm(5) [OF T, of q u r] q r by blast
next
  fix q u j assume "length q \<le> 2 \<and> tab s' root q = Some u"
  then show "entry_ok (length q) (ent s' u j)" by (simp add: entry_ok_install [OF T])
qed

lemma install_tab_mono:
  assumes T: "table_install s s' root t n p i"
  shows "length q \<le> 3 \<Longrightarrow> tab s root q = Some u \<Longrightarrow> tab s' root q = Some u"
  using install_not_below [OF T, of "[]"] by (auto simp: tab_install [OF T])

lemma install_large_mono:
  assumes T: "table_install s s' root t n p i"
    and "length q \<le> 2" "tab s' root q = Some u" "large (ent s' u j)"
  shows "tab s root q = Some u \<and> large (ent s u j)"
proof -
  have "q \<noteq> p @ [i]"
  proof
    assume q: "q = p @ [i]"
    with assms(2,3) have "u = n" "length p \<le> 1" by (simp_all add: tab_install [OF T])
    with assms(4) install_new_entries [OF T, of j] show False by simp
  qed
  with assms(2-) have u: "tab s root q = Some u" by (simp add: tab_install [OF T])
  moreover have "ent s' u j = ent s u j"
    using assms(2-) u installD(5) [OF T] install_at [OF T] by (intro install_ent_other [OF T]) (auto simp: is_table_def)
  ultimately show ?thesis using assms(2-) by simp
qed

lemma install_translate_elsewhere:
  assumes T: "table_install s s' root t n p i"
    and "length q = 4" "\<And>r. q \<noteq> p @ i # r"
  shows "translate s' root q = translate s root q"
proof (rule translate_cong)
  fix r j q' u assume "q = r @ j # q'" "tab s root r = Some u"
  with assms(2-) show "ent s' u j = ent s u j" by (intro install_ent_other [OF T]) auto
qed

lemma install_bytes_mono:
  assumes T: "table_install s s' root t n p i"
  shows "vmm_bytes s' root \<subseteq> vmm_bytes s root"
proof -
  have fv: "free_virt s' \<subseteq> free_virt s" "n + vmm_page_tables_offset s \<in> free_virt s"
    using installD(3,4) [OF T] install_vmm(3) [OF T] only_pmm_fields(2) [OF installD(2) [OF T]] unfolding free_virt_def by auto
  show ?thesis
    unfolding vmm_bytes_def install_same [OF T] using fv by (auto simp: tab_install [OF T] split: if_splits)
qed

lemma install_mem_outside:
  assumes T: "table_install s s' root t n p i"
  shows "x \<notin> vmm_bytes s root \<Longrightarrow> mem s' x = mem s x"
proof (rule installD(8) [OF T])
  assume x: "x \<notin> vmm_bytes s root"
  then show "x \<notin> bitmap_bytes s" by (simp add: vmm_bytes_def)
  show "\<not> in_range x (n + vmm_page_tables_offset s) 4096"
    using x installD(3) [OF T] install_vmm(3) [OF T] unfolding vmm_bytes_def free_virt_def by auto
  have "length p \<le> 3" using install_at [OF T] by simp
  with x install_at(1) [OF T] show "\<not> in_range x (t + vmm_page_tables_offset s) 4096"
    unfolding vmm_bytes_def by blast
qed

lemma install_translate_below:
  assumes T: "table_install s s' root t n p i"
    and "r \<noteq> []"
  shows "translate s root (p @ i # r) = translate s t (i # r)"
    "translate s' root (p @ i # r) = translate s' n r"
proof -
  show "translate s root (p @ i # r) = translate s t (i # r)"
    using translate_append [OF install_at(1) [OF T], of "i # r"] by simp
  have "tab s' root (p @ [i]) = Some n" using install_at(2) [OF T] by (simp add: tab_install [OF T])
  from translate_append [OF this assms(2-)] show "translate s' root (p @ i # r) = translate s' n r"
    by simp
qed

lemma grows_install:
  assumes T: "table_install s s' root t n p i"
    and "\<And>r. r \<noteq> [] \<Longrightarrow> length p + length r = 3 \<Longrightarrow> translate s t (i # r) = translate s' n r"
  shows "grows 1 root s s'"
  unfolding grows_def
proof (intro conjI allI impI)
  show "vmm_inv s' root" by (rule install_inv' [OF T])
  show "only_pmm s s'" by (rule installD(2) [OF T])
  show "card (free_pages s) \<le> card (free_pages s') + 1"
    using installD(3,4) [OF T] by (simp add: card_Diff_singleton)
  show "free_pages s' \<subseteq> free_pages s" using installD(4) [OF T] by auto
  show "tab s root q = Some u \<or> u \<in> free_pages s" if "length q \<le> 3" "tab s' root q = Some u" for q u
    using tab_install_cases [OF T that] installD(3) [OF T] by auto
  show "vmm_bytes s' root \<subseteq> vmm_bytes s root" by (rule install_bytes_mono [OF T])
  show "mem s' x = mem s x" if "x \<notin> vmm_bytes s root" for x
    using that by (rule install_mem_outside [OF T])
  show "tab s' root q = Some u" if "length q \<le> 3" "tab s root q = Some u" for q u
    using that by (rule install_tab_mono [OF T])
  show "tab s root q = Some u" "large (ent s u j)"
    if "length q \<le> 2" "tab s' root q = Some u" "large (ent s' u j)" for q u j
    using install_large_mono [OF T that] by simp_all
  show "translate s' root q = translate s root q" if "length q = 4" for q
  proof (cases "\<exists>r. q = p @ i # r")
    case True
    then obtain r where r: "q = p @ i # r" by blast
    with that install_at(2) [OF T] have "r \<noteq> []" "length p + length r = 3" by auto
    with assms(2-) [of r] install_translate_below [OF T, of r] r show ?thesis by simp
  next
    case False
    with that show ?thesis by (intro install_translate_elsewhere [OF T]) auto
  qed
qed

end
