(* ===== verification/Vmm_Walk.thy ===== *)
theory Vmm_Walk
  imports Vmm_Tables
begin

text \<open>
  The descent through the page tables. \<open>ensure_present\<close> and \<open>split_pd_entry\<close> meet one interface,
  \<open>table_installer\<close>: at most one table is installed and no address is mapped differently. From
  it follow the behaviour of \<open>walk_create\<close> and what the final store of \<open>vmm_map_page_pml4\<close> and
  \<open>vmm_unmap_page\<close> changes.
\<close>

section \<open>Writing the entries of one table\<close>

definition wrote :: "u64 \<Rightarrow> 'a vmm_scheme \<Rightarrow> 'a vmm_scheme \<Rightarrow> bool" where
  "wrote t s s' \<longleftrightarrow> vmm_base s' \<and> only_pmm s s' \<and> free_pages s' = free_pages s \<and>
    (\<forall>u j. page_aligned u \<and> u \<noteq> t \<longrightarrow> ent s' u j = ent s u j) \<and>
    (\<forall>x. \<not> in_range x (t + vmm_page_tables_offset s) 4096 \<longrightarrow> mem s' x = mem s x)"

lemma wroteD:
  assumes "wrote t s s'"
  shows "vmm_base s'" "only_pmm s s'" "free_pages s' = free_pages s"
    "page_aligned u \<Longrightarrow> u \<noteq> t \<Longrightarrow> ent s' u j = ent s u j"
    "\<not> in_range x (t + vmm_page_tables_offset s) 4096 \<Longrightarrow> mem s' x = mem s x"
    "vmm_page_tables_offset s' = vmm_page_tables_offset s" "bitmap_bytes s' = bitmap_bytes s"
    "table_page s' u = table_page s u" "entry_ptr s' u j = entry_ptr s u j"
  using assms only_pmm_vmm [of s s']
  by (auto simp: wrote_def table_page_def entry_ptr_def)

lemma wrote_refl: "vmm_base s \<Longrightarrow> wrote t s s"
  by (simp add: wrote_def)

lemma wrote_trans: "wrote t s s' \<Longrightarrow> wrote t s' s'' \<Longrightarrow> wrote t s s''"
  using wroteD(6) [of t s s'] unfolding wrote_def by (auto intro: only_pmm_trans)

lemma entry_range_in_page:
  assumes "in_range x (entry_ptr s t i) 8"
  shows "in_range x (t + vmm_page_tables_offset s) 4096"
proof -
  let ?k = "unat (x - entry_ptr s t i)"
  have "x = entry_ptr s t i + of_nat ?k" by simp
  moreover have "?k < 8" using assms by (simp add: in_range_def)
  ultimately show ?thesis using entry_in_page [of ?k s t i] by simp
qed

lemma wrote_set_entry:
  assumes "vmm_base s" "table_page s t"
  shows "wrote t s (set_entry (entry_ptr s t i) v s)"
proof -
  have "\<not> in_range x (entry_ptr s t i) 8" if "x \<in> bitmap_bytes s" for x
    using that assms(2) entry_range_in_page [of x s t i] by (auto simp: table_page_def)
  note inv = pmm_inv_mem_store64 [of s "entry_ptr s t i" v, OF _ this]
  have "vmm_base (set_entry (entry_ptr s t i) v s)"
    using assms(1) inv(1) by (simp add: vmm_base_def set_entry_def)
  moreover have "free_pages (set_entry (entry_ptr s t i) v s) = free_pages s"
    using assms(1) inv(2) by (simp add: vmm_base_def set_entry_def)
  moreover have "mem (set_entry (entry_ptr s t i) v s) x = mem s x"
    if "\<not> in_range x (t + vmm_page_tables_offset s) 4096" for x
  proof -
    have "\<not> in_range x (entry_ptr s t i) 8" using that entry_range_in_page [of x s t i] by blast
    then show ?thesis by (simp add: set_entry_def cell64.wr_outside)
  qed
  ultimately show ?thesis
    using assms(2) by (simp add: wrote_def ent_set_entry table_page_def) (simp add: set_entry_def only_pmm_def)
qed

lemma ent_set [simp]:
  "page_aligned t \<Longrightarrow> ent (set_entry (entry_ptr s t i) v s) t i = v"
  by (simp add: ent_set_entry)

lemma entry_ptr_set [simp]: "entry_ptr (set_entry a v s) t i = entry_ptr s t i"
  by (simp add: entry_ptr_def set_entry_def)

lemma wrote_set_entries:
  assumes "vmm_base s" "table_page s t"
  shows "wrote t s (set_entry (entry_ptr s t i) w (set_entry (entry_ptr s t i) v s))"
proof -
  let ?s = "set_entry (entry_ptr s t i) v s"
  note w = wrote_set_entry [OF assms, of i v]
  have "wrote t ?s (set_entry (entry_ptr ?s t i) w ?s)"
    using wroteD(1) [OF w] wroteD(8) [OF w] assms(2) by (intro wrote_set_entry) simp_all
  with w show ?thesis by (simp add: wrote_trans)
qed

text \<open>Setting the address, then the read/write and the present flag.\<close>

definition point_entry :: "u64 \<Rightarrow> u64 \<Rightarrow> 'a vmm_scheme \<Rightarrow> 'a vmm_scheme" where
  "point_entry entry a s =
    or_entry entry PT_ENTRY_PRESENT (or_entry entry PT_ENTRY_READ_WRITE (set_entry_address entry a s))"

definition pointed :: "u64 \<Rightarrow> u64 \<Rightarrow> u64" where
  "pointed v a = (vmm_pt_entry_set_address v a OR PT_ENTRY_READ_WRITE) OR PT_ENTRY_PRESENT"

lemma pointed_simps [simp]: "addr (pointed v a) = addr a" "present (pointed v a)" "large (pointed v a) = large v"
  by (simp_all add: pointed_def addr_set_address)

lemma point_entry:
  assumes "vmm_base s" "table_page s t"
  shows "wrote t s (point_entry (entry_ptr s t i) a s)"
    "ent (point_entry (entry_ptr s t i) a s) t j = (if j = i then pointed (ent s t i) a else ent s t j)"
proof -
  have al: "page_aligned t" using assms(2) by (rule table_page_aligned)
  let ?p = "entry_ptr s t i"
  define v where "v = vmm_pt_entry_set_address (ent s t i) a"
  let ?s = "set_entry ?p (v OR PT_ENTRY_READ_WRITE) (set_entry ?p v s)"
  have val: "entry_value (set_entry ?p w s') ?p = w" for w s'
    by (simp add: entry_value_def set_entry_def cell64.rd_wr)
  have eq: "point_entry ?p a s = set_entry ?p (pointed (ent s t i) a) ?s"
    by (simp add: point_entry_def or_entry_def set_entry_address_def val v_def pointed_def ent_def)
  note w = wrote_set_entries [OF assms, of i "v OR PT_ENTRY_READ_WRITE" v]
  have "wrote t ?s (set_entry (entry_ptr ?s t i) (pointed (ent s t i) a) ?s)"
    using wroteD(1) [OF w] wroteD(8) [OF w] assms(2) by (intro wrote_set_entry) simp_all
  with w show "wrote t s (point_entry ?p a s)" by (simp add: eq wrote_trans)
  have e: "ent (set_entry ?p w s') t j = (if j = i then w else ent s' t j)"
    if "entry_ptr s' t i = ?p" for w s'
    using ent_set_entry [OF al al, of s' i w j] that by auto
  show "ent (point_entry ?p a s) t j = (if j = i then pointed (ent s t i) a else ent s t j)"
    by (simp add: eq e)
qed

section \<open>The page a new table lives in\<close>

lemma allocz_page:
  assumes "vmm_base s" "free_pages s \<noteq> {}" and n: "n = fst (pmm_alloc_phys s)"
  shows "fst (pmm_allocz s) = n + vmm_page_tables_offset s" "n \<in> free_pages s" "addr n = n"
    "free_pages (snd (pmm_allocz s)) = free_pages s - {n}" "only_pmm s (snd (pmm_allocz s))"
    "vmm_base (snd (pmm_allocz s))" "table_page (snd (pmm_allocz s)) n"
    "table_page s u \<Longrightarrow> table_page (snd (pmm_allocz s)) u \<and> u \<noteq> n"
    "table_page s u \<Longrightarrow> ent (snd (pmm_allocz s)) u j = ent s u j"
    "ent (snd (pmm_allocz s)) n j = 0"
    "x \<notin> bitmap_bytes s \<Longrightarrow> \<not> in_range x (n + vmm_page_tables_offset s) 4096 \<Longrightarrow>
      mem (snd (pmm_allocz s)) x = mem s x"
proof -
  let ?s = "snd (pmm_allocz s)"
  have inv: "pmm_inv s" and off: "vmm_page_tables_offset s = higher_half_offset s"
    using assms(1) by (simp_all add: vmm_base_def)
  have fv: "free_virt s \<noteq> {}" using assms(2) by simp
  show f: "fst (pmm_allocz s) = n + vmm_page_tables_offset s"
    by (simp add: n pmm_allocz_eq(1) [OF inv] off)
  show nf: "n \<in> free_pages s" unfolding n using inv assms(2) by (rule alloc_phys_page)
  then show "addr n = n" by (rule free_page_addr [OF assms(1)])
  show fr: "free_pages ?s = free_pages s - {n}" unfolding n using inv assms(2) by (rule allocz_inv)
  show o: "only_pmm s ?s" using inv by (rule only_pmm_allocz)
  note same = only_pmm_vmm [OF o] only_pmm_fields [OF o]
  show b: "vmm_base ?s"
    using assms(1) allocz_inv(1) [OF inv assms(2)] by (simp add: vmm_base_def same)
  show "table_page ?s n" using assms(1) nf fr o by (rule free_table_page)
  show tp: "table_page ?s u \<and> u \<noteq> n" if "table_page s u" for u
    using that nf fr by (auto simp: table_page_def same)
  show m: "mem ?s x = mem s x"
    if "x \<notin> bitmap_bytes s" "\<not> in_range x (n + vmm_page_tables_offset s) 4096" for x
    using allocz.frame [OF inv fv that(1)] that(2) f by simp
  show "ent ?s u j = ent s u j" if u: "table_page s u" for u j
  proof (rule ent_cong)
    fix x assume x: "in_range x (u + vmm_page_tables_offset s) 4096"
    have "\<not> in_range x (n + vmm_page_tables_offset s) 4096"
      using pages_apart [OF table_page_aligned [OF u] free_pages_aligned [OF inv nf] x] tp [OF u] by blast
    then show "mem ?s x = mem s x" using u x by (intro m) (simp_all add: table_page_def)
  qed (rule same)
  have z: "load64 (\<lambda>_. 0) a = 0" for a
  proof -
    have "load_le k (\<lambda>_. 0) a = 0" for k a by (induction k arbitrary: a) simp_all
    then show ?thesis by (simp add: load64_def)
  qed
  have "load64 (mem ?s) (entry_ptr ?s n j) = load64 (\<lambda>_. 0) (entry_ptr ?s n j)"
  proof (rule cell64.rd_cong)
    fix k :: nat assume "k < 8"
    from entry_in_page [OF this, of ?s n j]
    show "mem ?s (entry_ptr ?s n j + of_nat k) = 0"
      by (intro allocz.zeroed [OF inv fv]) (simp only: same f)
  qed
  then show "ent ?s n j = 0" by (simp add: ent_def entry_value_def z)
qed

end
