(* ===== verification/Vmm_Install.thy ===== *)
theory Vmm_Install
  imports Vmm_Walk
begin

text \<open>
  The interface of the two operations that put a new table behind an entry, and the
  descent built from them.
\<close>

text \<open>
  \<open>spends q root s s'\<close>: a page that is free in \<open>s\<close> and no longer in \<open>s'\<close> has become one of the tables on the path \<open>q\<close>.
\<close>

definition spends :: "path \<Rightarrow> u64 \<Rightarrow> 'a vmm_scheme \<Rightarrow> 'a vmm_scheme \<Rightarrow> bool" where
  "spends q root s s' \<longleftrightarrow>
    (\<forall>a \<in> free_pages s. a \<in> free_pages s' \<or> (\<exists>n \<le> 3. tab s' root (take n q) = Some a))"

lemma spends_refl [simp]: "spends q root s s"
  by (simp add: spends_def)

lemma spends_trans:
  assumes "spends q root s s1" "spends q root s1 s2" "grows n root s1 s2"
  shows "spends q root s s2"
proof -
  have "tab s2 root (take k q) = Some a" if "k \<le> 3" "tab s1 root (take k q) = Some a" for k a
    using growsD(4) [OF assms(3) _ that(2)] that(1) by simp
  then show ?thesis using assms(1,2) unfolding spends_def by blast
qed

locale table_installer =
  fixes install :: "u64 \<Rightarrow> 'a vmm_scheme \<Rightarrow> 'a vmm_scheme"
    and levels :: "nat set"
    and applies :: "u64 \<Rightarrow> bool"
  assumes levels: "k \<in> levels \<Longrightarrow> k \<le> 2"
    and applies: "applies e \<Longrightarrow> \<not> is_table e"
    and skips: "\<not> applies (ent s t i) \<Longrightarrow> install (entry_ptr s t i) s = s"
    and installs: "vmm_base s \<Longrightarrow> free_pages s \<noteq> {} \<Longrightarrow> table_page s t \<Longrightarrow> k \<in> levels \<Longrightarrow>
      applies (ent s t i) \<Longrightarrow> entry_ok k (ent s t i) \<Longrightarrow>
      installs t i (fst (pmm_alloc_phys s)) s (install (entry_ptr s t i) s)"
    and cleared: "vmm_base s \<Longrightarrow> free_pages s \<noteq> {} \<Longrightarrow> table_page s t \<Longrightarrow> k \<in> levels \<Longrightarrow>
      applies (ent s t i) \<Longrightarrow> entry_ok k (ent s t i) \<Longrightarrow> k \<le> 1 \<Longrightarrow>
      ent (install (entry_ptr s t i) s) (fst (pmm_alloc_phys s)) j = 0"
    and translates: "vmm_base s \<Longrightarrow> free_pages s \<noteq> {} \<Longrightarrow> table_page s t \<Longrightarrow> k \<in> levels \<Longrightarrow>
      applies (ent s t i) \<Longrightarrow> entry_ok k (ent s t i) \<Longrightarrow> r \<noteq> [] \<Longrightarrow> k + length r = 3 \<Longrightarrow>
      translate (install (entry_ptr s t i) s) (fst (pmm_alloc_phys s)) r = translate s t (i # r)"
begin

lemma table_install:
  assumes "vmm_inv s root" "tab s root p = Some t" "length p \<in> levels" "free_pages s \<noteq> {}"
    "applies (ent s t i)"
  shows "table_install s (install (entry_ptr s t i) s) root t (fst (pmm_alloc_phys s)) p i"
proof -
  note D = vmm_invD [OF assms(1)]
  have l: "length p \<le> 2" using assms(3) by (rule levels)
  then have t: "table_page s t" by (intro D(4) [OF _ assms(2)]) simp
  show ?thesis
    unfolding table_install_def
    using assms(1,2) l applies [OF assms(5)] installs [OF D(1) assms(4) t assms(3,5) D(6) [OF l assms(2)]]
      cleared [OF D(1) assms(4) t assms(3,5) D(6) [OF l assms(2)]] by blast
qed

lemma install_grows:
  assumes "vmm_inv s root" "tab s root p = Some t" "length p \<in> levels" "free_pages s \<noteq> {}"
  shows "grows 1 root s (install (entry_ptr s t i) s)"
proof (cases "applies (ent s t i)")
  case False
  with assms(1) show ?thesis by (simp add: skips grows_refl)
next
  case True
  note D = vmm_invD [OF assms(1)]
  have l: "length p \<le> 2" using assms(3) by (rule levels)
  then have t: "table_page s t" by (intro D(4) [OF _ assms(2)]) simp
  from table_install [OF assms True] show ?thesis
  proof (rule grows_install)
    fix r :: path assume "r \<noteq> []" "length p + length r = 3"
    with translates [OF D(1) assms(4) t assms(3) True D(6) [OF l assms(2)]]
    show "translate s t (i # r) = translate (install (entry_ptr s t i) s) (fst (pmm_alloc_phys s)) r"
      by simp
  qed
qed

lemma install_spends:
  assumes "vmm_inv s root" "tab s root p = Some t" "length p \<in> levels" "free_pages s \<noteq> {}"
    and q: "take (Suc (length p)) q = p @ [i]"
  shows "spends q root s (install (entry_ptr s t i) s)"
proof (cases "applies (ent s t i)")
  case False
  then show ?thesis by (simp add: skips)
next
  case True
  note T = table_install [OF assms(1-4) True]
  have l: "Suc (length p) \<le> 3" using levels [OF assms(3)] by simp
  have "tab (install (entry_ptr s t i) s) root (p @ [i]) = Some (fst (pmm_alloc_phys s))"
    using tab_install [OF T, of "p @ [i]"] l by simp
  then show ?thesis using installD(4) [OF T] l unfolding spends_def q [symmetric] by auto
qed

lemma install_entry:
  assumes "vmm_inv s root" "tab s root p = Some t" "length p \<in> levels" "free_pages s \<noteq> {}"
  shows "if applies (ent s t i) then is_table (ent (install (entry_ptr s t i) s) t i)
    else ent (install (entry_ptr s t i) s) t i = ent s t i"
  using installD(5) [OF table_install [OF assms]] by (auto simp: skips)

end

section \<open>\<open>ensure_present\<close>\<close>

lemma ensure_present_eq:
  assumes "vmm_base s" "free_pages s \<noteq> {}" "\<not> present (ent s t i)"
  shows "ensure_present (entry_ptr s t i) s =
    point_entry (entry_ptr s t i) (fst (pmm_alloc_phys s)) (snd (pmm_allocz s))"
  using assms allocz_page(1) [OF assms(1,2) refl] only_pmm_vmm(1) [OF allocz_page(5) [OF assms(1,2) refl]]
  by (simp add: ensure_present_def ent_def present_def vmm_init_pt_entry_def point_entry_def
      split_beta Let_def)

lemma installs_pointed:
  assumes b: "vmm_base s" "free_pages s \<noteq> {}" "table_page s t" and n: "n = fst (pmm_alloc_phys s)"
    and w1: "wrote n (snd (pmm_allocz s)) s1" and w2: "wrote t s1 s2"
    and e: "is_table (ent s2 t i)" "addr (ent s2 t i) = n" "\<And>j. j \<noteq> i \<Longrightarrow> ent s2 t j = ent s1 t j"
  shows "installs t i n s s2"
proof -
  note A = allocz_page [OF b(1,2) n] and W1 = wroteD [OF w1] and W2 = wroteD [OF w2]
  note same = only_pmm_vmm [OF A(5)]
  show ?thesis
    unfolding installs_def
  proof (intro conjI allI impI)
    show "only_pmm s s2" using A(5) W1(2) W2(2) by (blast intro: only_pmm_trans)
    show "free_pages s2 = free_pages s - {n}" using A(4) W1(3) W2(3) by simp
    fix u j assume u: "table_page s u \<and> (u, j) \<noteq> (t, i)"
    have "ent s1 u j = ent s u j"
      using A(8,9) [of u] u W1(4) [of u j] table_page_aligned [of s u] by simp
    moreover have "ent s2 u j = ent s1 u j"
      using u e(3) W2(4) [of u j] table_page_aligned [of s u] by (cases "u = t") auto
    ultimately show "ent s2 u j = ent s u j" by simp
  next
    fix x assume x: "x \<notin> bitmap_bytes s \<and> \<not> in_range x (n + vmm_page_tables_offset s) 4096 \<and>
      \<not> in_range x (t + vmm_page_tables_offset s) 4096"
    then show "mem s2 x = mem s x"
      using A(11) [of x] W1(5) [of x] W2(5) [of x] by (simp add: same W1(6))
  qed (use A(2) W2(1) e in auto)
qed

lemma ensure_present_ents:
  assumes "vmm_base s" "free_pages s \<noteq> {}" "table_page s t" "\<not> present (ent s t i)" "\<not> large (ent s t i)"
  shows "installs t i (fst (pmm_alloc_phys s)) s (ensure_present (entry_ptr s t i) s)"
    "ent (ensure_present (entry_ptr s t i) s) (fst (pmm_alloc_phys s)) j = 0"
proof -
  define n where n: "n = fst (pmm_alloc_phys s)"
  let ?s = "snd (pmm_allocz s)" and ?s' = "ensure_present (entry_ptr s t i) s"
  note A = allocz_page [OF assms(1,2) n]
  have t: "table_page ?s t" "t \<noteq> n" using A(8) assms(3) by simp_all
  have p: "entry_ptr ?s t i = entry_ptr s t i" by (simp add: entry_ptr_def only_pmm_vmm [OF A(5)])
  note P = point_entry [OF A(6) t(1), of i n, unfolded p, folded n]
  have eq: "?s' = point_entry (entry_ptr s t i) n ?s"
    unfolding n using assms(1,2,4) by (rule ensure_present_eq)
  have "is_table (ent ?s' t i)" "addr (ent ?s' t i) = n"
    using assms(5) A(9) [OF assms(3)] by (simp_all add: eq P is_table_def A(3))
  moreover have "ent ?s' t j = ent ?s t j" if "j \<noteq> i" for j using that by (simp add: eq P)
  ultimately show "installs t i (fst (pmm_alloc_phys s)) s ?s'"
    unfolding n [symmetric] using assms n P(1) wrote_refl [OF A(6)]
    by (intro installs_pointed [of s t n ?s ?s' i]) (simp_all add: eq)
  show "ent ?s' (fst (pmm_alloc_phys s)) j = 0"
    unfolding n [symmetric] eq using wroteD(4) [OF P(1), of n j] t A(7,10) by (simp add: table_page_aligned)
qed

interpretation ensure: table_installer ensure_present "{0, 1, 2}" "\<lambda>e. \<not> present e"
proof
  fix s :: "'a vmm_scheme" and t i k j r
  show "ensure_present (entry_ptr s t i) s = s" if "\<not> \<not> present (ent s t i)"
    using that by (simp add: ensure_present_def present_def ent_def)
  assume s: "vmm_base s" "free_pages s \<noteq> {}" "table_page s t" "\<not> present (ent s t i)" "entry_ok k (ent s t i)"
  then have l: "\<not> large (ent s t i)" by (simp add: entry_ok_def)
  note E = ensure_present_ents [OF s(1-4) l]
  show "installs t i (fst (pmm_alloc_phys s)) s (ensure_present (entry_ptr s t i) s)" by (rule E(1))
  show "ent (ensure_present (entry_ptr s t i) s) (fst (pmm_alloc_phys s)) j = 0" by (rule E(2))
  show "translate (ensure_present (entry_ptr s t i) s) (fst (pmm_alloc_phys s)) r = translate s t (i # r)"
    if "r \<noteq> []" using that s(4) E(2) by (cases r) simp_all
qed (auto simp: is_table_def)

section \<open>Splitting a large page\<close>

lemma for_u64_invariant0:
  assumes "P 0 s" and "\<And>j s. j < n \<Longrightarrow> P (unat j) s \<Longrightarrow> P (Suc (unat j)) (body j s)"
  shows "P (unat n) (for_u64 0 n body s)"
  using assms for_u64_invariant [of P 0 s n body] by simp

lemma fill_table:
  assumes "vmm_base s" "table_page s n" "b = n + vmm_page_tables_offset s"
  shows "wrote n s (fill_table b base step s) \<and>
    (\<forall>j. ent (fill_table b base step s) n j = pointed (ent s n j) (base + ucast j * step))"
proof -
  define P where "P k s' \<longleftrightarrow> wrote n s s' \<and> (\<forall>j. ent s' n j =
    (if unat j < k then pointed (ent s n j) (base + ucast j * step) else ent s n j))" for k s'
  have "P (unat (512 :: u64)) (fill_table b base step s)"
    unfolding fill_table_def
  proof (rule for_u64_invariant0)
    show "P 0 s" using assms(1) by (simp add: P_def wrote_refl)
  next
    fix i :: u64 and s' assume i: "i < 512" and P: "P (unat i) s'"
    define i9 where "i9 = (ucast i :: 9 word)"
    have u9: "unat i9 = unat i"
    proof -
      have "unat i < 512" using i by (simp add: word_less_nat_alt)
      then show ?thesis by (simp add: i9_def unsigned_ucast_eq take_bit_nat_eq_self)
    qed
    then have i9: "ucast i9 = i" by (simp add: word_unat_eq_iff unat_index)
    from P have w: "wrote n s s'" by (simp add: P_def)
    note W = wroteD [OF w]
    have n': "table_page s' n" using assms(2) by (simp add: W)
    have sl: "slot b i = entry_ptr s' n i9" by (simp add: entry_ptr_def W(6) assms(3) i9)
    note Q = point_entry [OF W(1) n', of i9 "base + i * step"]
    have "P (Suc (unat i)) (point_entry (entry_ptr s' n i9) (base + i * step) s')"
      unfolding P_def
    proof (intro conjI allI)
      show "wrote n s (point_entry (entry_ptr s' n i9) (base + i * step) s')"
        using w Q(1) by (rule wrote_trans)
      fix j
      have "unat j < Suc (unat i) \<longleftrightarrow> unat j < unat i \<or> j = i9"
        using u9 by (auto simp: less_Suc_eq word_unat_eq_iff)
      then show "ent (point_entry (entry_ptr s' n i9) (base + i * step) s') n j =
          (if unat j < Suc (unat i) then pointed (ent s n j) (base + ucast j * step) else ent s n j)"
        using P u9 by (simp add: Q P_def i9)
    qed
    then show "P (Suc (unat i)) (let next_entry = slot b i;
        s = set_entry_address next_entry (base + i * step) s';
        s = or_entry next_entry PT_ENTRY_READ_WRITE s in or_entry next_entry PT_ENTRY_PRESENT s)"
      by (simp add: point_entry_def sl Let_def)
  qed
  then show ?thesis using unat_index(2) by (simp add: P_def)
qed

lemma split_large_page_ents:
  fixes s :: "'a vmm_scheme"
  assumes "vmm_base s" "free_pages s \<noteq> {}" "table_page s t" "large (ent s t i)"
  shows "installs t i (fst (pmm_alloc_phys s)) s (split_large_page (entry_ptr s t i) step s)"
    "ent (split_large_page (entry_ptr s t i) step s) (fst (pmm_alloc_phys s)) j =
      pointed 0 (addr (ent s t i) + ucast j * step)"
proof -
  define n where n: "n = fst (pmm_alloc_phys s)"
  let ?s = "snd (pmm_allocz s)" and ?s' = "split_large_page (entry_ptr s t i) step s"
  note A = allocz_page [OF assms(1,2) n]
  have t: "table_page ?s t" "t \<noteq> n" using A(8) assms(3) by simp_all
  have off: "vmm_page_tables_offset ?s = vmm_page_tables_offset s"
    by (simp add: only_pmm_vmm [OF A(5)])
  let ?f = "fill_table (n + vmm_page_tables_offset s) (addr (ent s t i)) step ?s"
  have F: "wrote n ?s ?f" "ent ?f n j = pointed 0 (addr (ent s t i) + ucast j * step)" for j
    using fill_table [OF A(6,7), of "n + vmm_page_tables_offset s" "addr (ent s t i)" step]
    by (simp_all add: off A(10))
  note W = wroteD [OF F(1)]
  have p: "entry_ptr ?f t i = entry_ptr s t i" by (simp add: W(9)) (simp add: entry_ptr_def off)
  have eq: "?s' = set_entry (entry_ptr s t i) (pointed 0 n) ?f"
    using assms(4) A(1)
    by (simp add: split_large_page_def split_beta Let_def off large_def ent_def pointed_def)
  have t': "table_page ?f t" using t(1) by (simp add: W)
  have al: "page_aligned t" "page_aligned n" using t(1) A(7) by (simp_all add: table_page_aligned)
  have ents: "ent ?s' u j = (if u = t \<and> j = i then pointed 0 n else ent ?f u j)"
    if "page_aligned u" for u j
    using ent_set_entry [OF that al(1), of ?f i "pointed 0 n" j] by (simp add: p eq)
  have "wrote t ?f ?s'"
    using wrote_set_entry [OF W(1) t', of i "pointed 0 n"] by (simp add: eq p)
  then show "installs t i (fst (pmm_alloc_phys s)) s ?s'"
    unfolding n [symmetric] using assms n F(1) A(3) al
    by (intro installs_pointed [of s t n ?f ?s' i]) (simp_all add: ents is_table_def)
  show "ent ?s' (fst (pmm_alloc_phys s)) j = pointed 0 (addr (ent s t i) + ucast j * step)"
    unfolding n [symmetric] using F(2) [of j] t(2) by (simp add: ents al)
qed

text \<open>The pages of a page of 2 MiB.\<close>

lemma page_in_large_page:
  assumes "unat (addr e) mod (4096 * 512) = 0"
  shows "addr (addr e + ucast (j :: 9 word) * 0x1000) = addr e + ucast j * 0x1000"
proof -
  obtain q where q: "unat (addr e) = 2097152 * q"
    using assms by (auto elim: dvdE simp: mod_eq_0_iff_dvd)
  have j: "unat (ucast j * 0x1000 :: u64) = unat j * 4096"
    using unat_index [of j] unat_mult_lem [THEN iffD1, of "ucast j :: u64" "0x1000"] by simp
  have "2097152 * q < 2097152 * 2147483648" using addr_page(2) [of e] q by simp
  then have q': "q < 2147483648" by (simp only: mult_less_cancel1)
  have b: "unat (addr e) + unat j * 4096 < 2 ^ 52" using q q' unat_index(2) [of j] by simp
  then have u: "unat (addr e + ucast j * 0x1000) = unat (addr e) + unat j * 4096"
    using j unat_add_lem [THEN iffD1, of "addr e" "ucast j * 0x1000"] by simp
  have "page_aligned (addr e + ucast j * 0x1000)"
    unfolding page_aligned_def u q using mod_mult_self1 [of "unat j * 4096" "512 * q" 4096] by simp
  with b show ?thesis unfolding page_addr_iff u by simp
qed

interpretation split_pd: table_installer split_pd_entry "{2}" large
proof
  fix s :: "'a vmm_scheme" and t i k and r :: path
  show "split_pd_entry (entry_ptr s t i) s = s" if "\<not> large (ent s t i)"
    using that by (simp add: split_pd_entry_def split_large_page_def large_def ent_def)
  assume s: "vmm_base s" "free_pages s \<noteq> {}" "table_page s t" "large (ent s t i)"
  note E = split_large_page_ents [OF s, of "0x1000", folded split_pd_entry_def]
  show "installs t i (fst (pmm_alloc_phys s)) s (split_pd_entry (entry_ptr s t i) s)" by (rule E(1))
  assume k: "k \<in> {2 :: nat}" "entry_ok k (ent s t i)"
  then have e: "present (ent s t i)" "unat (addr (ent s t i)) mod (4096 * 512) = 0"
    using s(4) by (simp_all add: entry_ok_def)
  show "translate (split_pd_entry (entry_ptr s t i) s) (fst (pmm_alloc_phys s)) r = translate s t (i # r)"
    if "r \<noteq> []" "k + length r = 3"
  proof -
    from that k obtain j where r: "r = [j]" by (cases r) auto
    show ?thesis
      using s(4) e page_in_large_page [OF e(2), of j]
      by (simp add: r E(2) page_in_large_def mult.commute)
  qed
qed (auto simp: is_table_def)

section \<open>The descent\<close>

lemma next_table_ptr: "next_table s (entry_ptr s t i) = addr (ent s t i) + vmm_page_tables_offset s"
  by (simp add: next_table_def ent_def)

lemma grows_same:
  assumes "grows n root s s'"
  shows "vmm_page_tables_offset s' = vmm_page_tables_offset s" "entry_ptr s' t i = entry_ptr s t i"
    "cpu_ops s' = cpu_ops s" "pml4 s' = pml4 s" "vmm_initialised s' = vmm_initialised s"
  using only_pmm_vmm [OF growsD(2) [OF assms]] only_pmm_fields [OF growsD(2) [OF assms]]
  by (simp_all add: entry_ptr_def)

lemma card_free_nonempty: "0 < card (free_pages s) \<Longrightarrow> free_pages s \<noteq> {}"
  by auto

text \<open>One level whose entry is not a large page.\<close>

lemma descend_level:
  fixes s :: "'a vmm_scheme"
  assumes "vmm_inv s root" "tab s root p = Some t" "length p \<le> 2" "0 < card (free_pages s)"
    and "\<not> large (ent s t i)"
  shows "grows 1 root s (ensure_present (entry_ptr s t i) s)"
    "tab (ensure_present (entry_ptr s t i) s) root (p @ [i]) = Some (addr (ent (ensure_present (entry_ptr s t i) s) t i))"
    "\<not> large (ent (ensure_present (entry_ptr s t i) s) t i)"
    "take (Suc (length p)) q = p @ [i] \<Longrightarrow> spends q root s (ensure_present (entry_ptr s t i) s)"
proof -
  let ?s = "ensure_present (entry_ptr s t i) s"
  have lv: "length p \<in> {0, 1, 2}" using assms(3) unfolding insert_iff empty_iff by linarith
  note G = ensure.install_grows [OF assms(1,2) lv card_free_nonempty [OF assms(4)], of i]
  have t: "is_table (ent ?s t i)"
    using ensure.install_entry [OF assms(1,2) lv card_free_nonempty [OF assms(4)], of i] assms(5)
    by (auto simp: is_table_def split: if_splits)
  show "grows 1 root s ?s" by (rule G)
  have "tab ?s root p = Some t" using growsD(4) [OF G _ assms(2)] assms(3) by simp
  with t show "tab ?s root (p @ [i]) = Some (addr (ent ?s t i))" by (simp add: tab_snoc)
  from t show "\<not> large (ent ?s t i)" by (simp add: is_table_def)
  show "spends q root s ?s" if "take (Suc (length p)) q = p @ [i]"
    using ensure.install_spends [OF assms(1,2) lv card_free_nonempty [OF assms(4)] that] .
qed

text \<open>The page directory level, where a large page may have to be split.\<close>

lemma descend_pd:
  fixes s :: "'a vmm_scheme"
  defines "s1 \<equiv> \<lambda>t i. ensure_present (entry_ptr s t i) s"
  assumes "vmm_inv s root" "tab s root p = Some t" "length p = 2" "0 < card (free_pages s)"
  shows "grows 1 root s (split_pd_entry (entry_ptr s t i) (s1 t i))"
    "tab (split_pd_entry (entry_ptr s t i) (s1 t i)) root (p @ [i]) =
      Some (addr (ent (split_pd_entry (entry_ptr s t i) (s1 t i)) t i))"
    "take 3 q = p @ [i] \<Longrightarrow> spends q root s (split_pd_entry (entry_ptr s t i) (s1 t i))"
proof -
  let ?s = "ensure_present (entry_ptr s t i) s"
  let ?s' = "split_pd_entry (entry_ptr s t i) ?s"
  have fr: "free_pages s \<noteq> {}" using assms(5) by (rule card_free_nonempty)
  have "grows 1 root s ?s' \<and> is_table (ent ?s' t i) \<and> (take (Suc (length p)) q = p @ [i] \<longrightarrow> spends q root s ?s')" for q
  proof (cases "large (ent s t i)")
    case False
    note L = descend_level [OF assms(2,3) _ assms(5) False]
    have G: "grows 1 root s ?s" using assms(4) by (intro L) simp
    have nl: "\<not> large (ent ?s t i)" using assms(4) by (intro L) simp
    have "?s' = ?s"
      using split_pd.skips [OF nl] by (simp add: grows_same [OF G])
    moreover have "is_table (ent ?s t i)"
      using ensure.install_entry [OF assms(2,3) _ fr, of i] assms(4) False
      by (auto simp: is_table_def split: if_splits)
    moreover have "spends q root s ?s" if "take (Suc (length p)) q = p @ [i]" using assms(4) that by (intro L) simp_all
    ultimately show ?thesis using G by simp
  next
    case True
    then have "present (ent s t i)"
      using vmm_invD(6) [OF assms(2) _ assms(3), of i] assms(4) by (simp add: entry_ok_def)
    then have "?s = s" by (simp add: ensure.skips)
    then show ?thesis
      using split_pd.install_grows [OF assms(2,3) _ fr, of i] split_pd.install_entry [OF assms(2,3) _ fr, of i]
        split_pd.install_spends [OF assms(2,3) _ fr, of q i] assms(4) True by simp
  qed
  then have G: "grows 1 root s ?s'" and t: "is_table (ent ?s' t i)"
    and sp: "take (Suc (length p)) q = p @ [i] \<Longrightarrow> spends q root s ?s'" for q by blast+
  show "spends q root s (split_pd_entry (entry_ptr s t i) (s1 t i))" if "take 3 q = p @ [i]"
    using sp [of q] that assms(4) by (simp add: s1_def numeral_3_eq_3)
  from G show "grows 1 root s (split_pd_entry (entry_ptr s t i) (s1 t i))" by (simp add: s1_def)
  have "tab ?s' root p = Some t" using growsD(4) [OF G _ assms(3)] assms(4) by simp
  with t show "tab (split_pd_entry (entry_ptr s t i) (s1 t i)) root (p @ [i]) =
      Some (addr (ent (split_pd_entry (entry_ptr s t i) (s1 t i)) t i))"
    by (simp add: tab_snoc s1_def)
qed

text \<open>No page of 1 GiB on the way to an address.\<close>

definition no_huge_page :: "'a vmm_scheme \<Rightarrow> u64 \<Rightarrow> u64 \<Rightarrow> bool" where
  "no_huge_page s root v \<longleftrightarrow>
    (case tab s root [path_of v ! 0] of None \<Rightarrow> True | Some t \<Rightarrow> \<not> large (ent s t (path_of v ! 1)))"

lemma path_split: "path_of v = [path_of v ! 0, path_of v ! 1, path_of v ! 2, path_of v ! 3]"
  by (simp add: path_of_def)

lemma walk_create:
  fixes s :: "'a vmm_scheme"
  assumes "vmm_inv s root" "3 \<le> card (free_pages s)" "no_huge_page s root v"
    and "walk_create (root + vmm_page_tables_offset s) v s = (pt, s')"
  obtains t where "grows 3 root s s'" "tab s' root (take 3 (path_of v)) = Some t"
    "pt = t + vmm_page_tables_offset s" "spends (path_of v) root s s'"
proof -
  obtain i1 i2 i3 i4 where pv: "path_of v = [i1, i2, i3, i4]" using path_split by blast
  note ix = index_path [of v, unfolded pv]
  define s1 where "s1 = ensure_present (entry_ptr s root i1) s"
  define t1 where "t1 = addr (ent s1 root i1)"
  have nl: "\<not> large (ent s root i1)" using vmm_invD(6) [OF assms(1), of "[]" root i1] by (simp add: entry_ok_def)
  note L1 = descend_level [OF assms(1), where p = "[]" and t = root and i = i1, folded s1_def, folded t1_def]
  have G1: "grows 1 root s s1" and T1: "tab s1 root [i1] = Some t1" and P1: "spends (path_of v) root s s1"
    using L1 assms(2) nl by (simp_all add: pv)
  note S1 = grows_same [OF G1]
  define s2 where "s2 = ensure_present (entry_ptr s1 t1 i2) s1"
  define t2 where "t2 = addr (ent s2 t1 i2)"
  have nl2: "\<not> large (ent s1 t1 i2)"
    using assms(3) growsD(5) [OF G1 _ T1, of i2] by (auto simp: no_huge_page_def pv)
  have c1: "2 \<le> card (free_pages s1)" using growsD(6) [OF G1] assms(2) by simp
  note L2 = descend_level [OF growsD(1) [OF G1] T1, where i = i2, folded s2_def, folded t2_def]
  have G2: "grows 1 root s1 s2" and T2: "tab s2 root [i1, i2] = Some t2" and nl2': "\<not> large (ent s2 t1 i2)"
    and P2: "spends (path_of v) root s1 s2"
    using L2 c1 nl2 by (simp_all add: pv)
  note S2 = grows_same [OF G2]
  have c2: "1 \<le> card (free_pages s2)" using growsD(6) [OF G2] c1 by simp
  have sp: "split_pdpt_entry (entry_ptr s1 t1 i2) s2 = s2"
    using nl2' by (simp add: split_pdpt_entry_def split_large_page_def large_def ent_def S2)
  define s3 where "s3 = split_pd_entry (entry_ptr s2 t2 i3) (ensure_present (entry_ptr s2 t2 i3) s2)"
  define t3 where "t3 = addr (ent s3 t2 i3)"
  note L3 = descend_pd [OF growsD(1) [OF G2] T2, where i = i3, folded s3_def, folded t3_def]
  have G3: "grows 1 root s2 s3" and T3: "tab s3 root [i1, i2, i3] = Some t3" and P3: "spends (path_of v) root s2 s3"
    using L3 c2 by (simp_all add: pv)
  note S3 = grows_same [OF G3]
  have ptr: "slot (root + vmm_page_tables_offset s) (PML4_INDEX v) = entry_ptr s root i1"
    "slot (t1 + vmm_page_tables_offset s) (PDPT_INDEX v) = entry_ptr s t1 i2"
    "slot (t2 + vmm_page_tables_offset s) (PD_INDEX v) = entry_ptr s t2 i3"
    by (simp_all add: entry_ptr_def ix)
  have n1: "next_table s1 (entry_ptr s root i1) = t1 + vmm_page_tables_offset s"
    using next_table_ptr [of s1 root i1] by (simp add: S1 t1_def)
  have n2: "next_table s2 (entry_ptr s t1 i2) = t2 + vmm_page_tables_offset s"
    using next_table_ptr [of s2 t1 i2] by (simp add: S1 S2 t2_def)
  have n3: "next_table s3 (entry_ptr s t2 i3) = t3 + vmm_page_tables_offset s"
    using next_table_ptr [of s3 t2 i3] by (simp add: S1 S2 S3 t3_def)
  have "walk_create (root + vmm_page_tables_offset s) v s = (t3 + vmm_page_tables_offset s, s3)"
    using sp by (simp add: walk_create_def Let_def ptr s1_def [symmetric] n1 S1 s2_def [unfolded S1, symmetric]
        n2 s3_def [unfolded S2 S1, symmetric] n3)
  moreover have "grows 3 root s s3"
    using grows_trans [OF grows_trans [OF G1 G2] G3] by (simp add: numeral_3_eq_3)
  moreover have "spends (path_of v) root s s3" by (rule spends_trans [OF spends_trans [OF P1 P2 G2] P3 G3])
  ultimately show thesis
    using that T3 assms(4) by (simp add: pv)
qed

end
