(* ===== verification/Vmm_Map.thy ===== *)
theory Vmm_Map
  imports Vmm_Install
begin

text \<open>
  The operations of \<open>vmm.c\<close> as updates of the translation function: what a store to an entry of
  the last level changes, and with the descent of \<open>Vmm_Install\<close> the behaviour of
  \<open>vmm_map_page_pml4\<close>, \<open>vmm_unmap_page\<close> and \<open>vmm_virt_to_phys\<close>.
\<close>

section \<open>What the invariants read\<close>

lemma pmm_inv_cong:
  fixes s :: "'a pmm_scheme" and s' :: "'b pmm_scheme"
  assumes "mem s' = mem s" "memmap_entries s' = memmap_entries s"
    "higher_half_offset s' = higher_half_offset s" "pmm_usable_pages s' = pmm_usable_pages s"
    "pmm_bitmap_pages s' = pmm_bitmap_pages s" "pmm_num_allocated_pages s' = pmm_num_allocated_pages s"
  shows "pmm_inv s' = pmm_inv s" "free_pages s' = free_pages s" "free_virt s' = free_virt s"
    "bitmap_bytes s' = bitmap_bytes s" "allocated s' = allocated s"
proof -
  have al: "pmm_is_usable_page_allocated_by_index s' i = pmm_is_usable_page_allocated_by_index s i" for i
    by (simp add: pmm_is_usable_page_allocated_by_index_def pmm_get_address_by_index_def pmm_phys_to_virt_def assms)
  show a: "allocated s' = allocated s" by (simp add: allocated_def al assms)
  show "pmm_inv s' = pmm_inv s" "free_pages s' = free_pages s" "bitmap_bytes s' = bitmap_bytes s"
    by (simp_all add: pmm_inv_def pmm_layout_def bitmap_ok_def free_pages_def bitmap_bytes_def assms a)
  then show "free_virt s' = free_virt s" by (simp add: free_virt_def assms)
qed

lemma tab_cong:
  assumes "mem s' = mem s" "vmm_page_tables_offset s' = vmm_page_tables_offset s"
  shows "ent s' t i = ent s t i" "tab s' t p = tab s t p" "translate s' t p = translate s t p"
proof -
  show e: "ent s' t i = ent s t i" for t i
    by (simp add: ent_def entry_value_def entry_ptr_def assms)
  show "tab s' t p = tab s t p" by (induction p arbitrary: t) (simp_all add: e)
  show "translate s' t p = translate s t p" by (induction p arbitrary: t) (simp_all add: e Let_def)
qed

text \<open>Everything but the instructions executed, the console, \<open>pml4\<close> and \<open>vmm_initialised\<close>.\<close>

definition same_tables :: "'a vmm_scheme \<Rightarrow> 'a vmm_scheme \<Rightarrow> bool" where
  "same_tables s s' \<longleftrightarrow> mem s' = mem s \<and> memmap_entries s' = memmap_entries s \<and>
    higher_half_offset s' = higher_half_offset s \<and> pmm_usable_pages s' = pmm_usable_pages s \<and>
    pmm_bitmap_pages s' = pmm_bitmap_pages s \<and> pmm_num_allocated_pages s' = pmm_num_allocated_pages s \<and>
    vmm_page_tables_offset s' = vmm_page_tables_offset s"

lemma same_tables_simps [simp]:
  "same_tables s (cpu c s)" "same_tables s (vmm_invlpg a s)" "same_tables s (print f as s)"
  "same_tables s (s\<lparr>pml4 := x\<rparr>)"
  by (simp_all add: same_tables_def cpu_def print_def vmm_invlpg_def)

lemma same_tables:
  fixes s s' :: "'a vmm_scheme"
  assumes "same_tables s s'"
  shows "vmm_inv s' root = vmm_inv s root" "translate s' root p = translate s root p"
    "tab s' root p = tab s root p" "ent s' t i = ent s t i" "free_pages s' = free_pages s"
    "vmm_base s' = vmm_base s" "mem s' = mem s" "vmm_bytes s' root = vmm_bytes s root"
    "bitmap_bytes s' = bitmap_bytes s" "vmm_page_tables_offset s' = vmm_page_tables_offset s"
proof -
  have off: "vmm_page_tables_offset s' = vmm_page_tables_offset s" and m: "mem s' = mem s"
    and hh: "higher_half_offset s' = higher_half_offset s" "memmap_entries s' = memmap_entries s"
    using assms by (simp_all add: same_tables_def)
  have P: "pmm_inv s' = pmm_inv s" "free_pages s' = free_pages s" "free_virt s' = free_virt s"
      "bitmap_bytes s' = bitmap_bytes s"
    using assms unfolding same_tables_def by (intro pmm_inv_cong; simp)+
  note T = tab_cong [OF m off]
  have b: "vmm_base s' = vmm_base s" by (simp add: vmm_base_def P off hh)
  have tp: "table_page s' t = table_page s t" for t by (simp add: table_page_def P off)
  show "vmm_inv s' root = vmm_inv s root" by (simp add: vmm_inv_def b T tp)
  show "vmm_bytes s' root = vmm_bytes s root" by (simp add: vmm_bytes_def P T off)
  show "translate s' root p = translate s root p" "tab s' root p = tab s root p" "ent s' t i = ent s t i"
    by (rule T)+
  show "free_pages s' = free_pages s" "bitmap_bytes s' = bitmap_bytes s" by (rule P)+
  show "vmm_base s' = vmm_base s" "mem s' = mem s" "vmm_page_tables_offset s' = vmm_page_tables_offset s"
    by (rule b m off)+
qed

section \<open>Changes that leave the tables alone\<close>

lemma vmm_inv_upper:
  assumes "vmm_inv s root" "vmm_base s1"
    and tp: "\<And>q u. length q \<le> 3 \<Longrightarrow> tab s root q = Some u \<Longrightarrow> table_page s1 u"
    and e: "\<And>q u j. length q \<le> 2 \<Longrightarrow> tab s root q = Some u \<Longrightarrow> ent s1 u j = ent s u j"
  shows "vmm_inv s1 root" "length q \<le> 3 \<Longrightarrow> tab s1 root q = tab s root q"
proof -
  note D = vmm_invD [OF assms(1)]
  show tabs: "tab s1 root q = tab s root q" if "length q \<le> 3" for q
    using that
  proof (induction q rule: rev_induct)
    case (snoc j q)
    then have "tab s1 root q = tab s root q" "length q \<le> 2" by auto
    then show ?case using e by (simp add: tab_snoc split: option.split)
  qed simp
  show "vmm_inv s1 root"
    unfolding vmm_inv_def
  proof (intro conjI allI impI)
    show "vmm_base s1" by (rule assms(2))
    show "table_page s1 u" if "length q \<le> 3 \<and> tab s1 root q = Some u" for q u
      using that tp [of q u] tabs [OF conjunct1 [OF that]] by simp
    show "r = q" if "length q \<le> 3 \<and> tab s1 root q = Some u" "length r \<le> 3 \<and> tab s1 root r = Some u" for q r u
      using that D(5) [of q u r] unfolding tabs [OF conjunct1 [OF that(1)]] tabs [OF conjunct1 [OF that(2)]]
      by blast
    show "entry_ok (length q) (ent s1 u j)" if "length q \<le> 2 \<and> tab s1 root q = Some u" for q u j
    proof -
      have q: "tab s root q = Some u" "length q \<le> 2" using that tabs [of q] by simp_all
      then show ?thesis using D(6) [OF q(2,1)] e [OF q(2,1)] by simp
    qed
  qed
qed

lemma vmm_inv_keep:
  assumes "vmm_inv s root" "vmm_base s1" "only_pmm s s1"
    and tp: "\<And>q u. length q \<le> 3 \<Longrightarrow> tab s root q = Some u \<Longrightarrow> table_page s1 u"
    and e: "\<And>q u j. length q \<le> 3 \<Longrightarrow> tab s root q = Some u \<Longrightarrow> ent s1 u j = ent s u j"
  shows "vmm_inv s1 root" "length q = 4 \<Longrightarrow> translate s1 root q = translate s root q"
    "length q \<le> 3 \<Longrightarrow> tab s1 root q = tab s root q"
proof -
  have "ent s1 u j = ent s u j" if "length q \<le> 2" "tab s root q = Some u" for q u j
    using that by (intro e [of q]) simp_all
  note K = vmm_inv_upper [OF assms(1,2) tp this]
  show "vmm_inv s1 root" by (rule K)
  show "length q \<le> 3 \<Longrightarrow> tab s1 root q = tab s root q" by (rule K)
  show "translate s1 root q = translate s root q" if "length q = 4"
  proof (rule translate_cong)
    fix r j q' u assume "q = r @ j # q'" "tab s root r = Some u"
    with that show "ent s1 u j = ent s u j" by (intro e [of r]) simp_all
  qed
qed

lemma vmm_bytes_keep:
  assumes "only_pmm s s1" "free_pages s1 \<subseteq> free_pages s" "\<And>q. length q \<le> 3 \<Longrightarrow> tab s1 root q = tab s root q"
  shows "vmm_bytes s1 root \<subseteq> vmm_bytes s root"
proof -
  have "free_virt s1 \<subseteq> free_virt s"
    using assms(2) only_pmm_fields(2) [OF assms(1)] by (auto simp: free_virt_def)
  then show ?thesis
    using assms(3) unfolding vmm_bytes_def only_pmm_vmm [OF assms(1)] by auto
qed

text \<open>Allocating a page for something else than a table.\<close>

lemma vmm_inv_allocz:
  assumes "vmm_inv s root" "free_pages s \<noteq> {}"
  defines "s1 \<equiv> snd (pmm_allocz s)"
  shows "vmm_inv s1 root" "only_pmm s s1" "card (free_pages s) \<le> card (free_pages s1) + 1"
    "vmm_bytes s1 root \<subseteq> vmm_bytes s root" "x \<notin> vmm_bytes s root \<Longrightarrow> mem s1 x = mem s x"
    "length q \<le> 3 \<Longrightarrow> tab s1 root q = tab s root q" "length q = 4 \<Longrightarrow> translate s1 root q = translate s root q"
    "no_huge_page s root v \<Longrightarrow> no_huge_page s1 root v"
proof -
  note D = vmm_invD [OF assms(1)]
  note A = allocz_page [OF D(1) assms(2) refl, folded s1_def]
  show o: "only_pmm s s1" by (rule A(5))
  have tp: "table_page s1 u" "ent s1 u j = ent s u j" if "length q \<le> 3" "tab s root q = Some u" for q u j
    using A(8,9) [OF D(4) [OF that]] by simp_all
  note K = vmm_inv_keep [OF assms(1) A(6) o]
  show "vmm_inv s1 root" using K(1) tp by blast
  show t: "tab s1 root q = tab s root q" if "length q \<le> 3" for q using K(3) [OF _ _ that] tp by blast
  show "translate s1 root q = translate s root q" if "length q = 4" for q using K(2) [OF _ _ that] tp by blast
  show "card (free_pages s) \<le> card (free_pages s1) + 1"
    using A(2) by (simp add: A(4) card_Diff_singleton)
  have sub: "free_pages s1 \<subseteq> free_pages s" using A(4) by auto
  show "vmm_bytes s1 root \<subseteq> vmm_bytes s root" using o sub t by (rule vmm_bytes_keep)
  show "mem s1 x = mem s x" if "x \<notin> vmm_bytes s root" for x
    using that A(2,11) D(3) unfolding vmm_bytes_def free_virt_def by auto
  show "no_huge_page s1 root v" if n: "no_huge_page s root v" for v
  proof (cases "tab s root [path_of v ! 0]")
    case None
    then show ?thesis using t [of "[path_of v ! 0]"] by (simp add: no_huge_page_def del: tab.simps)
  next
    case (Some u)
    have "ent s1 u j = ent s u j" for j using Some by (intro A(9) D(4) [of "[path_of v ! 0]"]) simp_all
    then show ?thesis using t [of "[path_of v ! 0]"] Some n by (simp add: no_huge_page_def del: tab.simps)
  qed
qed

text \<open>Writes to memory that belongs to neither the tables nor the allocator.\<close>

lemma vmm_inv_mem:
  assumes "vmm_inv s root" "\<And>x. x \<in> vmm_bytes s root \<Longrightarrow> m x = mem s x"
  defines "s1 \<equiv> s\<lparr>mem := m\<rparr>"
  shows "vmm_inv s1 root" "free_pages s1 = free_pages s" "vmm_bytes s1 root \<subseteq> vmm_bytes s root"
    "length q \<le> 3 \<Longrightarrow> tab s1 root q = tab s root q" "length q = 4 \<Longrightarrow> translate s1 root q = translate s root q"
    "no_huge_page s root v \<Longrightarrow> no_huge_page s1 root v"
proof -
  note D = vmm_invD [OF assms(1)]
  have bm: "m x = mem s x" if "x \<in> bitmap_bytes s" for x using that by (intro assms(2)) (simp add: vmm_bytes_def)
  note P = pmm_inv_mem [OF D(2) bm, folded s1_def]
  show fr: "free_pages s1 = free_pages s" by (rule P(2))
  have o: "only_pmm s s1" by (simp add: s1_def only_pmm_def)
  have b: "vmm_base s1" using D(1) P(1) by (simp add: vmm_base_def s1_def)
  have tp: "table_page s1 u" if "length q \<le> 3" "tab s root q = Some u" for q u
    using D(4) [OF that] fr by (simp add: table_page_def s1_def)
  have e: "ent s1 u j = ent s u j" if "length q \<le> 3" "tab s root q = Some u" for q u j
  proof (rule ent_cong)
    fix x assume "in_range x (u + vmm_page_tables_offset s) 4096"
    with that have "x \<in> vmm_bytes s root" unfolding vmm_bytes_def by blast
    then show "mem s1 x = mem s x" by (simp add: s1_def assms(2))
  qed (simp add: s1_def)
  note K = vmm_inv_keep [OF assms(1) b o]
  show "vmm_inv s1 root" using K(1) tp e by blast
  show t: "tab s1 root q = tab s root q" if "length q \<le> 3" for q using K(3) [OF _ _ that] tp e by blast
  show "translate s1 root q = translate s root q" if "length q = 4" for q using K(2) [OF _ _ that] tp e by blast
  show "vmm_bytes s1 root \<subseteq> vmm_bytes s root" using vmm_bytes_keep [OF o, of root] t fr by blast
  show "no_huge_page s1 root v" if n: "no_huge_page s root v" for v
    using t [of "[path_of v ! 0]"] n e [of "[path_of v ! 0]"]
    by (auto simp: no_huge_page_def simp del: tab.simps split: option.splits)
qed

section \<open>A store to a page table\<close>

lemma store_leaf:
  fixes s :: "'a vmm_scheme" and i :: "9 word" and v :: u64
  assumes "vmm_inv s root" "tab s root p = Some t" "length p = 3"
  defines "s' \<equiv> set_entry (entry_ptr s t i) v s"
  shows "vmm_inv s' root" "only_pmm s s'"
    "length q = 4 \<Longrightarrow> translate s' root q =
      (if q = p @ [i] then (if present v then Some (addr v) else None) else translate s root q)"
    "x \<notin> vmm_bytes s root \<Longrightarrow> mem s' x = mem s x" "free_pages s' = free_pages s"
    "length q \<le> 3 \<Longrightarrow> tab s' root q = tab s root q"
    "length q \<le> 2 \<Longrightarrow> tab s root q = Some u \<Longrightarrow> ent s' u j = ent s u j"
proof -
  note D = vmm_invD [OF assms(1)]
  have t: "table_page s t" using assms(3) by (intro D(4) [OF _ assms(2)]) simp
  have w: "wrote t s s'" unfolding s'_def using D(1) t by (rule wrote_set_entry)
  note W = wroteD [OF w]
  have at: "u = t \<Longrightarrow> q = p" if "length q \<le> 3" "tab s root q = Some u" for q u
    using D(5) [OF _ assms(2), of q] that assms(3) by simp
  have e: "ent s' u j = ent s u j" if "length q \<le> 3" "tab s root q = Some u" "q \<noteq> p \<or> j \<noteq> i" for q u j
  proof -
    have "page_aligned u" using D(4) [OF that(1,2)] by (rule table_page_aligned)
    moreover have "\<not> (u = t \<and> j = i)" using at [OF that(1,2)] that(3) by blast
    ultimately show ?thesis
      using ent_set_entry [of u t s i v j] table_page_aligned [OF t] by (auto simp: s'_def)
  qed
  show upper: "ent s' u j = ent s u j" if "length q \<le> 2" "tab s root q = Some u" for q u j
    using that assms(3) by (intro e [of q]) auto
  have "table_page s' u" if "length q \<le> 3" "tab s root q = Some u" for q u using D(4) [OF that] by (simp add: W(8))
  note K = vmm_inv_upper [OF assms(1) W(1) this upper]
  show "vmm_inv s' root" by (rule K)
  show tabs: "length q \<le> 3 \<Longrightarrow> tab s' root q = tab s root q" for q by (rule K)
  show "only_pmm s s'" by (rule W(2))
  show "free_pages s' = free_pages s" by (rule W(3))
  show "mem s' x = mem s x" if "x \<notin> vmm_bytes s root"
  proof (rule W(5))
    have "length p \<le> 3" using assms(3) by simp
    with that assms(2) show "\<not> in_range x (t + vmm_page_tables_offset s) 4096"
      unfolding vmm_bytes_def by blast
  qed
  show "translate s' root q =
      (if q = p @ [i] then (if present v then Some (addr v) else None) else translate s root q)"
    if q: "length q = 4"
  proof (cases "q = p @ [i]")
    case True
    have "tab s' root p = Some t" using tabs [of p] assms(2,3) by simp
    from translate_append [OF this, of "[i]"] show ?thesis
      using True table_page_aligned [OF t] by (simp add: s'_def)
  next
    case False
    have "translate s' root q = translate s root q"
    proof (rule translate_cong)
      fix r j q' u assume r: "q = r @ j # q'" "tab s root r = Some u"
      then have "length r \<le> 3" using q by simp
      moreover have "r \<noteq> p \<or> j \<noteq> i" using r q False assms(3) by auto
      ultimately show "ent s' u j = ent s u j" using e r(2) by simp
    qed
    with False show ?thesis by simp
  qed
qed

section \<open>Mapping and unmapping\<close>

text \<open>Unfolded once: the descent, one store to the entry of the address, two flushes.\<close>

lemma map_page_eq:
  assumes "vmm_inv s root" "3 \<le> card (free_pages s)" "no_huge_page s root v"
  obtains t s1 where "grows 3 root s s1" "tab s1 root (take 3 (path_of v)) = Some t" "spends (path_of v) root s s1"
    "vmm_map_page_pml4 (root + vmm_page_tables_offset s) a v f s =
      vmm_invlpg v (vmm_invlpg (convert_to_phys s a)
        (set_entry (entry_ptr s1 t (path_of v ! 3))
          ((vmm_pt_entry_set_address 0 (convert_to_phys s a) OR ucast f) OR PT_ENTRY_PRESENT) s1))"
proof -
  obtain pt s1 where w: "walk_create (root + vmm_page_tables_offset s) v s = (pt, s1)" by force
  from walk_create [OF assms w] obtain t where t: "grows 3 root s s1"
    "tab s1 root (take 3 (path_of v)) = Some t" "pt = t + vmm_page_tables_offset s" "spends (path_of v) root s s1" .
  have "slot pt (PT_INDEX v) = entry_ptr s1 t (path_of v ! 3)"
    by (simp add: entry_ptr_def grows_same [OF t(1)] t(3) index_path)
  then show thesis
    by (intro that [OF t(1,2,4)]) (simp add: vmm_map_page_pml4_def Let_def w)
qed

lemma unmap_page_eq:
  assumes "vmm_inv s root" "3 \<le> card (free_pages s)" "no_huge_page s root v"
    "pml4 s = root + vmm_page_tables_offset s"
  obtains t s1 where "grows 3 root s s1" "tab s1 root (take 3 (path_of v)) = Some t"
    "vmm_unmap_page v s = vmm_invlpg v
      (set_entry (entry_ptr s1 t (path_of v ! 3)) 0 (vmm_invlpg (addr (ent s1 t (path_of v ! 3))) s1))"
proof -
  obtain pt s1 where w: "walk_create (root + vmm_page_tables_offset s) v s = (pt, s1)" by force
  from walk_create [OF assms(1-3) w] obtain t where t: "grows 3 root s s1"
    "tab s1 root (take 3 (path_of v)) = Some t" "pt = t + vmm_page_tables_offset s" "spends (path_of v) root s s1" .
  have "slot pt (PT_INDEX v) = entry_ptr s1 t (path_of v ! 3)"
    by (simp add: entry_ptr_def grows_same [OF t(1)] t(3) index_path)
  then show thesis
    by (intro that [OF t(1,2)]) (simp add: vmm_unmap_page_def Let_def assms(4) w ent_def)
qed

lemma path_take: "take 3 (path_of v) @ [path_of v ! 3] = path_of v" "length (path_of v) = 4"
  by (simp_all add: path_of_def)

lemma mapped_entry:
  "present ((vmm_pt_entry_set_address 0 a OR ucast (f :: u8)) OR PT_ENTRY_PRESENT)"
  "addr ((vmm_pt_entry_set_address 0 a OR ucast (f :: u8)) OR PT_ENTRY_PRESENT) = addr a"
proof -
  have "unat (ucast f :: u64) < 4096"
    using unsigned_less [of f, where ?'a = nat] by (simp add: unsigned_ucast_eq take_bit_nat_eq_self)
  then show "addr ((vmm_pt_entry_set_address 0 a OR ucast f) OR PT_ENTRY_PRESENT) = addr a"
    by (simp add: addr_or_low addr_set_address)
qed simp

text \<open>What both may change of the state, the executed instructions included.\<close>

definition only_vmm :: "'a vmm_scheme \<Rightarrow> 'a vmm_scheme \<Rightarrow> bool" where
  "only_vmm s s' \<longleftrightarrow> s' = s\<lparr>pmm_num_allocated_pages := pmm_num_allocated_pages s', mem := mem s',
    cpu_ops := cpu_ops s'\<rparr>"

lemma only_vmmE:
  assumes "only_vmm s s'"
  obtains n m c where "s' = s\<lparr>pmm_num_allocated_pages := n, mem := m, cpu_ops := c\<rparr>"
  using assms unfolding only_vmm_def by blast

lemma only_vmm_trans: "only_vmm s s' \<Longrightarrow> only_vmm s' s'' \<Longrightarrow> only_vmm s s''"
  by (elim only_vmmE) (simp add: only_vmm_def)

lemma only_pmm_only_vmm: "only_pmm s s' \<Longrightarrow> only_vmm s s'"
  by (elim only_pmmE) (simp add: only_vmm_def)

lemma only_vmm_fields:
  assumes "only_vmm s s'"
  shows "memmap_entries s' = memmap_entries s" "higher_half_offset s' = higher_half_offset s"
    "pmm_bitmap_pages s' = pmm_bitmap_pages s" "pmm_usable_pages s' = pmm_usable_pages s"
    "console s' = console s" "vmm.more s' = vmm.more s" "pml4 s' = pml4 s"
    "vmm_page_tables_offset s' = vmm_page_tables_offset s" "vmm_initialised s' = vmm_initialised s"
    "bitmap_bytes s' = bitmap_bytes s"
  using assms by (elim only_vmmE; simp add: bitmap_bytes_def)+

lemma only_vmm_step [simp]: "only_vmm s (cpu c s)" "only_vmm s (set_entry a v s)" "only_vmm s (vmm_invlpg a s)"
  by (simp_all add: only_vmm_def cpu_def set_entry_def vmm_invlpg_def)

text \<open>The effect of both on a well-formed address space.\<close>

definition maps_to :: "u64 \<Rightarrow> u64 \<Rightarrow> u64 option \<Rightarrow> 'a vmm_scheme \<Rightarrow> 'a vmm_scheme \<Rightarrow> bool" where
  "maps_to root v a s s' \<longleftrightarrow> vmm_inv s' root \<and>
    (\<forall>p. length p = 4 \<longrightarrow> translate s' root p = (if p = path_of v then a else translate s root p)) \<and>
    (\<forall>x. x \<notin> vmm_bytes s root \<longrightarrow> mem s' x = mem s x) \<and>
    (\<forall>p t. length p \<le> 3 \<and> tab s' root p = Some t \<longrightarrow> tab s root p = Some t \<or> t \<in> free_pages s) \<and>
    (\<forall>p t i. length p \<le> 2 \<and> tab s' root p = Some t \<and> large (ent s' t i) \<longrightarrow>
      tab s root p = Some t \<and> large (ent s t i)) \<and>
    card (free_pages s) \<le> card (free_pages s') + 3 \<and> free_pages s' \<subseteq> free_pages s \<and>
    vmm_bytes s' root \<subseteq> vmm_bytes s root \<and> pml4 s' = pml4 s"

lemma maps_to_store:
  assumes "grows 3 root s s1" "tab s1 root (take 3 (path_of v)) = Some t"
    and s': "same_tables (set_entry (entry_ptr s1 t (path_of v ! 3)) e s1) s'" "pml4 s' = pml4 s1"
    and a: "a = (if present e then Some (addr e) else None)"
  shows "maps_to root v a s s'"
proof -
  note G = growsD [OF assms(1)] and S = same_tables [OF s'(1)]
  have l: "length (take 3 (path_of v)) = 3" by (simp add: path_of_def)
  note L = store_leaf [OF G(1) assms(2) l, where i = "path_of v ! 3" and v = e, folded S, unfolded path_take]
  show ?thesis
    unfolding maps_to_def
  proof (intro conjI allI impI)
    show "vmm_inv s' root" by (rule L(1))
    show "translate s' root p = (if p = path_of v then a else translate s root p)" if "length p = 4" for p
      using L(3) [OF that] G(3) [OF that] by (simp add: a)
    show "mem s' x = mem s x" if "x \<notin> vmm_bytes s root" for x
      using that L(4) G(7,8) by (metis subsetD)
    show "card (free_pages s) \<le> card (free_pages s') + 3" using G(6) L(5) by simp
    show "free_pages s' \<subseteq> free_pages s" using G(9) L(5) by simp
    have "vmm_bytes s' root \<subseteq> vmm_bytes s1 root"
      unfolding S(8) using L(2,5,6) S(3,5) by (intro vmm_bytes_keep) simp_all
    with G(8) show "vmm_bytes s' root \<subseteq> vmm_bytes s root" by blast
    show "tab s root p = Some u \<or> u \<in> free_pages s" if "length p \<le> 3 \<and> tab s' root p = Some u" for p u
      using that G(10) [of p u] L(6) [of p] by simp
    show "tab s root p = Some u" "large (ent s u i)"
      if "length p \<le> 2 \<and> tab s' root p = Some u \<and> large (ent s' u i)" for p u i
      using that G(5) [of p u i] L(6) [of p] L(7) [of p u i] by auto
    show "pml4 s' = pml4 s" using s'(2) grows_same(4) [OF assms(1)] by simp
  qed
qed

lemma maps_to_no_huge:
  assumes "maps_to root v a s s'" "no_huge_page s root w"
  shows "no_huge_page s' root w"
proof (cases "tab s' root [path_of w ! 0]")
  case None
  then show ?thesis by (simp only: no_huge_page_def option.case)
next
  case (Some t)
  have "length [path_of w ! 0] \<le> 2" by simp
  then have "large (ent s' t (path_of w ! 1)) \<longrightarrow>
      tab s root [path_of w ! 0] = Some t \<and> large (ent s t (path_of w ! 1))"
    using assms(1) Some unfolding maps_to_def by blast
  then have "\<not> large (ent s' t (path_of w ! 1))"
    using assms(2) by (auto simp only: no_huge_page_def option.case simp_thms)
  with Some show ?thesis by (simp only: no_huge_page_def option.case simp_thms)
qed

lemma map_page_maps:
  assumes "vmm_inv s root" "3 \<le> card (free_pages s)" "no_huge_page s root v"
  shows "maps_to root v (Some (addr (convert_to_phys s a))) s
      (vmm_map_page_pml4 (root + vmm_page_tables_offset s) a v f s)"
    "cpu_ops (vmm_map_page_pml4 (root + vmm_page_tables_offset s) a v f s) =
      cpu_ops s @ [Invlpg (convert_to_phys s a), Invlpg v]"
    "only_vmm s (vmm_map_page_pml4 (root + vmm_page_tables_offset s) a v f s)"
proof -
  from map_page_eq [OF assms, of a f] obtain t s1 where t: "grows 3 root s s1"
    "tab s1 root (take 3 (path_of v)) = Some t" "spends (path_of v) root s s1"
    and eq: "vmm_map_page_pml4 (root + vmm_page_tables_offset s) a v f s =
      vmm_invlpg v (vmm_invlpg (convert_to_phys s a)
        (set_entry (entry_ptr s1 t (path_of v ! 3))
          ((vmm_pt_entry_set_address 0 (convert_to_phys s a) OR ucast f) OR PT_ENTRY_PRESENT) s1))" .
  note S = grows_same [OF t(1)]
  show "maps_to root v (Some (addr (convert_to_phys s a))) s
      (vmm_map_page_pml4 (root + vmm_page_tables_offset s) a v f s)"
    unfolding eq using mapped_entry [of "convert_to_phys s a" f]
    by (intro maps_to_store [OF t(1,2), where
          e = "(vmm_pt_entry_set_address 0 (convert_to_phys s a) OR ucast f) OR PT_ENTRY_PRESENT"])
      (simp_all add: same_tables_def vmm_invlpg_def cpu_def, simp add: set_entry_def)
  show "cpu_ops (vmm_map_page_pml4 (root + vmm_page_tables_offset s) a v f s) =
      cpu_ops s @ [Invlpg (convert_to_phys s a), Invlpg v]"
    unfolding eq by (simp add: vmm_invlpg_def cpu_def set_entry_def S)
  show "only_vmm s (vmm_map_page_pml4 (root + vmm_page_tables_offset s) a v f s)"
    unfolding eq by (meson only_vmm_step only_vmm_trans only_pmm_only_vmm growsD(2) [OF t(1)])
qed

text \<open>The tables it leaves: the old ones are kept, and pages are taken for the path of the address only.\<close>

lemma map_page_tables:
  assumes "vmm_inv s root" "3 \<le> card (free_pages s)" "no_huge_page s root v"
  shows "spends (path_of v) root s (vmm_map_page_pml4 (root + vmm_page_tables_offset s) a v f s)"
    "length q \<le> 3 \<Longrightarrow> tab s root q = Some u \<Longrightarrow>
      tab (vmm_map_page_pml4 (root + vmm_page_tables_offset s) a v f s) root q = Some u"
    "\<exists>t. tab (vmm_map_page_pml4 (root + vmm_page_tables_offset s) a v f s) root (take 3 (path_of v)) = Some t"
proof -
  from map_page_eq [OF assms, of a f] obtain t s1 where t: "grows 3 root s s1"
    "tab s1 root (take 3 (path_of v)) = Some t" "spends (path_of v) root s s1"
    and eq: "vmm_map_page_pml4 (root + vmm_page_tables_offset s) a v f s =
      vmm_invlpg v (vmm_invlpg (convert_to_phys s a)
        (set_entry (entry_ptr s1 t (path_of v ! 3))
          ((vmm_pt_entry_set_address 0 (convert_to_phys s a) OR ucast f) OR PT_ENTRY_PRESENT) s1))" .
  let ?e = "(vmm_pt_entry_set_address 0 (convert_to_phys s a) OR ucast f) OR PT_ENTRY_PRESENT"
  let ?s = "set_entry (entry_ptr s1 t (path_of v ! 3)) ?e s1"
  have l: "length (take 3 (path_of v)) = 3" by (simp add: path_of_def)
  note L = store_leaf [OF growsD(1) [OF t(1)] t(2) l, where i = "path_of v ! 3" and v = ?e]
  have st: "same_tables ?s (vmm_invlpg v (vmm_invlpg (convert_to_phys s a) ?s))"
    by (simp add: same_tables_def vmm_invlpg_def cpu_def)
  have eqs: "free_pages (vmm_map_page_pml4 (root + vmm_page_tables_offset s) a v f s) = free_pages s1"
    "length q \<le> 3 \<Longrightarrow> tab (vmm_map_page_pml4 (root + vmm_page_tables_offset s) a v f s) root q = tab s1 root q" for q
    unfolding eq same_tables [OF st] using L(5,6) by simp_all
  have "tab (vmm_map_page_pml4 (root + vmm_page_tables_offset s) a v f s) root (take n (path_of v)) =
    tab s1 root (take n (path_of v))" if "n \<le> 3" for n
    using that by (intro eqs(2)) simp
  with eqs(1) t(3) show "spends (path_of v) root s (vmm_map_page_pml4 (root + vmm_page_tables_offset s) a v f s)"
    unfolding spends_def by metis
  show "tab (vmm_map_page_pml4 (root + vmm_page_tables_offset s) a v f s) root q = Some u"
    if "length q \<le> 3" "tab s root q = Some u"
    using eqs(2) [OF that(1)] growsD(4) [OF t(1) that] by simp
  show "\<exists>t. tab (vmm_map_page_pml4 (root + vmm_page_tables_offset s) a v f s) root (take 3 (path_of v)) = Some t"
    using eqs(2) [of "take 3 (path_of v)"] t(2) l by simp
qed

lemma unmap_page_maps:
  assumes "vmm_inv s root" "3 \<le> card (free_pages s)" "no_huge_page s root v"
    "pml4 s = root + vmm_page_tables_offset s"
  shows "maps_to root v None s (vmm_unmap_page v s)"
    "\<exists>a. cpu_ops (vmm_unmap_page v s) = cpu_ops s @ [Invlpg a, Invlpg v]"
proof -
  from unmap_page_eq [OF assms] obtain t s1 where t: "grows 3 root s s1"
    "tab s1 root (take 3 (path_of v)) = Some t"
    and eq: "vmm_unmap_page v s = vmm_invlpg v
      (set_entry (entry_ptr s1 t (path_of v ! 3)) 0 (vmm_invlpg (addr (ent s1 t (path_of v ! 3))) s1))" .
  show "maps_to root v None s (vmm_unmap_page v s)"
    unfolding eq
    by (intro maps_to_store [OF t, where e = 0])
      (simp_all add: same_tables_def vmm_invlpg_def cpu_def set_entry_def entry_ptr_def)
  show "\<exists>a. cpu_ops (vmm_unmap_page v s) = cpu_ops s @ [Invlpg a, Invlpg v]"
    unfolding eq by (simp add: vmm_invlpg_def cpu_def set_entry_def grows_same [OF t(1)])
qed

end
