(* ===== verification/Pmm_Correct.thy ===== *)
theory Pmm_Correct
  imports Pmm
begin

text \<open>
  What the page allocator promises: \<open>pmm_init\<close> establishes its invariant, page numbering
  is a bijection, the bitmap is a set, allocation returns a free page and changes nothing
  else, and the free-memory counter is exact. The last part shows what the code does when
  no page is left.
\<close>

section \<open>\<open>pmm_init\<close>\<close>

lemma count_usable_eq: "count_usable es n = n + of_nat (length (usable_pages es))"
proof (induction es arbitrary: n)
  case Nil
  then show ?case by (simp add: count_usable_def)
next
  case (Cons e es)
  have "me_length e div 0x1000 = of_nat (unat (me_length e) div 4096)"
    by (rule unat_eq_of_nat) simp
  with Cons show ?case
    by (simp add: count_usable_def length_entry_pages)
qed

lemma clear_bitmap_loop:
  fixes s :: "'a pmm_scheme"
  assumes "pmm_layout s"
  shows "\<exists>m. for_u64 0 (pmm_bitmap_pages s)
      (\<lambda>i s. s\<lparr>mem := memset (pmm_phys_to_virt s (pmm_get_address_by_index s i)) 0 0x1000 (mem s)\<rparr>) s
      = s\<lparr>mem := m\<rparr> \<and> (\<forall>x \<in> bitmap_bytes s. m x = 0) \<and> (\<forall>x. x \<notin> bitmap_bytes s \<longrightarrow> m x = mem s x)"
    (is "\<exists>m. for_u64 0 _ ?body s = _ \<and> _")
proof -
  let ?n = "pmm_bitmap_pages s" and ?off = "higher_half_offset s"
  let ?P = "\<lambda>k t. \<exists>m. t = s\<lparr>mem := m\<rparr> \<and>
    (\<forall>b < k. \<forall>x. in_range x (pages s ! b + ?off) 4096 \<longrightarrow> m x = 0) \<and>
    (\<forall>x. x \<notin> bitmap_bytes s \<longrightarrow> m x = mem s x)"
  note d = pmm_layoutD [OF assms]
  have "?P (unat ?n) (for_u64 0 ?n ?body s)"
  proof (rule for_u64_invariant)
    show "?P (unat (0 :: u64)) s" by (rule exI [of _ "mem s"]) simp
    fix j and t :: "'a pmm_scheme"
    assume j: "j < ?n" and "?P (unat j) t"
    then obtain m where t: "t = s\<lparr>mem := m\<rparr>"
      and z: "\<And>b x. b < unat j \<Longrightarrow> in_range x (pages s ! b + ?off) 4096 \<Longrightarrow> m x = 0"
      and f: "\<And>x. x \<notin> bitmap_bytes s \<Longrightarrow> m x = mem s x"
      by blast
    have jn: "unat j < unat ?n" using j by (simp add: word_less_nat_alt)
    then have "pmm_get_address_by_index s j = pages s ! unat j"
      using d(2,4) by (simp add: get_address_by_index)
    then have body: "?body j t = s\<lparr>mem := \<lambda>x. if in_range x (pages s ! unat j + ?off) 4096 then 0 else m x\<rparr>"
      using t by (simp add: memset_0_eq pmm_phys_to_virt_def pmm_get_address_by_index_def)
    show "?P (Suc (unat j)) (?body j t)"
      unfolding body
    proof (intro exI conjI allI impI)
      show "(if in_range x (pages s ! unat j + ?off) 4096 then 0 else m x) = 0"
        if "b < Suc (unat j)" "in_range x (pages s ! b + ?off) 4096" for b x
        using that z [of b x] by (auto simp: less_Suc_eq)
      show "(if in_range x (pages s ! unat j + ?off) 4096 then 0 else m x) = mem s x"
        if "x \<notin> bitmap_bytes s" for x
        using that f [of x] jn by (auto simp: bitmap_bytes_def)
    qed simp
  qed simp
  then obtain m where m: "for_u64 0 ?n ?body s = s\<lparr>mem := m\<rparr>"
    and z: "\<forall>b < unat ?n. \<forall>x. in_range x (pages s ! b + ?off) 4096 \<longrightarrow> m x = 0"
    and f: "\<forall>x. x \<notin> bitmap_bytes s \<longrightarrow> m x = mem s x"
    by blast
  have "\<forall>x \<in> bitmap_bytes s. m x = 0" using z unfolding bitmap_bytes_def by blast
  with m f show ?thesis by blast
qed

lemma allocated_clear:
  assumes "pmm_layout s" "\<And>x. x \<in> bitmap_bytes s \<Longrightarrow> mem s x = 0"
  shows "allocated s = {}"
proof -
  have "\<not> pmm_is_usable_page_allocated_by_index s (of_nat i)" if "i < length (pages s)" for i
    using page_index [OF assms(1) that] is_allocated_eq [OF pmm_layoutD(1) [OF assms(1)], of "of_nat i"]
      assms(2) [OF bit_addr_in_bitmap_bytes]
    by simp
  then show ?thesis by (auto simp: allocated_def)
qed

lemma mark_bitmap_loop:
  fixes s :: "'a pmm_scheme"
  assumes "pmm_layout s" "allocated s = {}" "pmm_num_allocated_pages s = 0"
  defines "t \<equiv> for_u64 0 (pmm_bitmap_pages s)
      (\<lambda>i s. pmm_set_usable_page_allocated_by_index i True s) s"
  shows "pmm_layout t \<and> only_pmm s t \<and> allocated t = {..<unat (pmm_bitmap_pages s)} \<and>
    pmm_num_allocated_pages t = pmm_bitmap_pages s \<and> (\<forall>x. x \<notin> bitmap_bytes s \<longrightarrow> mem t x = mem s x)"
proof -
  let ?n = "pmm_bitmap_pages s"
  let ?P = "\<lambda>k t. pmm_layout t \<and> only_pmm s t \<and> allocated t = {..<k} \<and>
    pmm_num_allocated_pages t = of_nat k \<and> (\<forall>x. x \<notin> bitmap_bytes s \<longrightarrow> mem t x = mem s x)"
  have "?P (unat ?n) t"
    unfolding t_def
  proof (rule for_u64_invariant)
    show "?P (unat (0 :: u64)) s" using assms by simp
    fix j and t :: "'a pmm_scheme"
    assume j: "j < ?n" and t: "?P (unat j) t"
    have j': "j = of_nat (unat j)" by (rule unat_eq_of_nat) (rule refl)
    have eq: "pages t = pages s" "bitmap_bytes t = bitmap_bytes s"
      using t by (auto simp: only_pmm_fields bitmap_bytes_def)
    have lt: "unat j < length (pages t)"
      using j pmm_layoutD(4) [OF assms(1)] eq by (simp add: word_less_nat_alt)
    have "allocated (pmm_set_usable_page_allocated_by_index j True t) = {..<Suc (unat j)}"
      using allocated_set [OF _ lt, of True] t j' by (auto simp: lessThan_Suc)
    moreover have "pmm_num_allocated_pages (pmm_set_usable_page_allocated_by_index j True t) = of_nat (Suc (unat j))"
      using num_allocated_set [OF _ lt, of True] t j' by (simp add: lessThan_Suc)
    moreover have "mem (pmm_set_usable_page_allocated_by_index j True t) x = mem s x"
      if "x \<notin> bitmap_bytes s" for x
      using mem_set_allocated [OF _ lt, of x True] t j' that eq by simp
    ultimately show "?P (Suc (unat j)) (pmm_set_usable_page_allocated_by_index j True t)"
      using t only_pmm_trans [of s t] by simp
  qed simp
  then show ?thesis by simp
qed

lemma bitmap_pages_le:
  fixes n :: nat
  shows "0 < n \<Longrightarrow> n div 32768 + 1 \<le> n"
  by (cases "n = 1") auto

lemma pmm_init_layout:
  assumes "wf_memmap (mm_entries (memmap b))" "usable_pages (mm_entries (memmap b)) \<noteq> []"
    and "pmm_usable_pages s = 0"
  defines "u \<equiv> count_usable (mm_entries (memmap b)) (pmm_usable_pages s)"
  shows "pmm_layout (s\<lparr>higher_half_offset := h, memmap_entries := mm_entries (memmap b),
    pmm_usable_pages := u, pmm_bitmap_pages := u div (0x1000 * 8) + 1\<rparr>)"
proof -
  let ?n = "length (usable_pages (mm_entries (memmap b)))"
  have n: "?n \<le> 2 ^ 52" "0 < ?n" using length_usable_pages [OF assms(1)] assms(2) by auto
  have u: "unat u = ?n"
    unfolding u_def count_usable_eq using assms(3) n by (simp add: unat_of_nat take_bit_nat_eq_self)
  have d: "unat (u div 0x8000) = ?n div 32768" by (simp add: unat_div u)
  then have "unat (u div 0x8000) + unat (1 :: u64) < 2 ^ 64" using n by simp
  then have "unat (u div 0x8000 + 1) = ?n div 32768 + 1"
    using unat_add_lem [THEN iffD1, of "u div 0x8000" 1] d by simp
  moreover have "?n div 32768 + 1 \<le> ?n" using n(2) by (rule bitmap_pages_le)
  ultimately show ?thesis using assms(1) u by (simp add: pmm_layout_def bitmap_ok_def)
qed

lemma bitmap_bytes_cong:
  "memmap_entries t = memmap_entries s \<Longrightarrow> higher_half_offset t = higher_half_offset s \<Longrightarrow>
   pmm_bitmap_pages t = pmm_bitmap_pages s \<Longrightarrow> bitmap_bytes t = bitmap_bytes s"
  by (simp add: bitmap_bytes_def)

lemma pmm_inv_print [simp]:
  "pmm_inv (print f a s) = pmm_inv s" "allocated (print f a s) = allocated s"
  "bitmap_bytes (print f a s) = bitmap_bytes s" "memmap_entries (print f a s) = memmap_entries s"
proof -
  have "pmm_is_usable_page_allocated_by_index (print f a s) i = pmm_is_usable_page_allocated_by_index s i" for i
    by (simp add: pmm_is_usable_page_allocated_by_index_def pmm_get_address_by_index_def
        pmm_phys_to_virt_def print_def)
  then show *: "allocated (print f a s) = allocated s" by (simp add: allocated_def print_def)
  show "pmm_inv (print f a s) = pmm_inv s"
    unfolding pmm_inv_def * by (simp add: pmm_layout_def bitmap_ok_def print_def)
qed (simp_all add: print_def bitmap_bytes_def)

lemma pmm_init_inv:
  fixes s :: "'a pmm_scheme"
  assumes wf: "wf_memmap (mm_entries (memmap b))" and ne: "usable_pages (mm_entries (memmap b)) \<noteq> []"
    and fresh: "pmm_usable_pages s = 0" "pmm_num_allocated_pages s = 0"
  shows "pmm_inv (pmm_init b s)"
    and "memmap_entries (pmm_init b s) = mm_entries (memmap b)"
    and "higher_half_offset (pmm_init b s) = hh_offset (higher_half b)"
    and "allocated (pmm_init b s) = {..<length (usable_pages (mm_entries (memmap b))) div 32768 + 1}"
    and "x \<notin> bitmap_bytes (pmm_init b s) \<Longrightarrow> mem (pmm_init b s) x = mem s x"
proof -
  define u where "u = count_usable (mm_entries (memmap b)) (pmm_usable_pages s)"
  define s1 where "s1 = s\<lparr>higher_half_offset := hh_offset (higher_half b),
    memmap_entries := mm_entries (memmap b), pmm_usable_pages := u,
    pmm_bitmap_pages := u div (0x1000 * 8) + 1\<rparr>"
  have lay: "pmm_layout s1" unfolding s1_def u_def using wf ne fresh(1) by (rule pmm_init_layout)
  obtain m where m: "for_u64 0 (pmm_bitmap_pages s1)
      (\<lambda>i s. s\<lparr>mem := memset (pmm_phys_to_virt s (pmm_get_address_by_index s i)) 0 0x1000 (mem s)\<rparr>) s1
      = s1\<lparr>mem := m\<rparr>" "\<forall>x \<in> bitmap_bytes s1. m x = 0" "\<forall>x. x \<notin> bitmap_bytes s1 \<longrightarrow> m x = mem s1 x"
    using clear_bitmap_loop [OF lay] by blast
  define s2 where "s2 = s1\<lparr>mem := m\<rparr>"
  have lay2: "pmm_layout s2" using lay by (simp add: s2_def)
  have a2: "allocated s2 = {}" using lay2 m(2) by (intro allocated_clear) (simp_all add: s2_def)
  have n2: "pmm_num_allocated_pages s2 = 0" using fresh(2) by (simp add: s2_def s1_def)
  define t where "t = for_u64 0 (pmm_bitmap_pages s2)
      (\<lambda>i s. pmm_set_usable_page_allocated_by_index i True s) s2"
  note T = mark_bitmap_loop [OF lay2 a2 n2, folded t_def]
  have init: "pmm_init b s = print (''%C[PMM]%C - PMM initialised, usable memory: %X bytes'' @ newline)
      [PInt (ucast COLOUR_KERNEL_INFO), PInt (ucast COLOUR_PRINT),
       PInt (pmm_get_total_usable_memory t)] t"
    unfolding t_def s2_def m(1) [symmetric] by (simp add: pmm_init_def Let_def s1_def u_def)
  have sel: "memmap_entries t = mm_entries (memmap b)" "higher_half_offset t = hh_offset (higher_half b)"
    "pmm_bitmap_pages t = pmm_bitmap_pages s1" "pmm_bitmap_pages s2 = pmm_bitmap_pages s1"
    "bitmap_bytes t = bitmap_bytes s1"
    using T by (auto simp: only_pmm_fields s2_def s1_def bitmap_bytes_def)
  have bp: "unat (pmm_bitmap_pages s1) = length (usable_pages (mm_entries (memmap b))) div 32768 + 1"
    using pmm_layoutD(5) [OF lay] by (simp add: s1_def)
  have "pmm_inv t" using T sel by (simp add: pmm_inv_def)
  then show "pmm_inv (pmm_init b s)" by (simp add: init)
  show "memmap_entries (pmm_init b s) = mm_entries (memmap b)" by (simp add: init sel)
  show "higher_half_offset (pmm_init b s) = hh_offset (higher_half b)" using sel by (simp add: init print_def)
  show "allocated (pmm_init b s) = {..<length (usable_pages (mm_entries (memmap b))) div 32768 + 1}"
    using T sel bp by (simp add: init)
  show "mem (pmm_init b s) x = mem s x" if "x \<notin> bitmap_bytes (pmm_init b s)"
    using that T m(3) sel by (simp add: init s2_def s1_def)
qed

section \<open>A small machine\<close>

text \<open>
  A memory map with allteen usable pages in two entries, around reserved and boot loader
  memory: the concrete inputs of the witnesses below.
\<close>

definition demo_memmap :: "memmap_entry list" where
  "demo_memmap =
    [\<lparr>me_base = 0, me_length = 0x1000, me_type = MEMMAP_RESERVED\<rparr>,
     \<lparr>me_base = 0x1000, me_length = 0x4000, me_type = MEMMAP_USABLE\<rparr>,
     \<lparr>me_base = 0x5000, me_length = 0x8000, me_type = MEMMAP_BOOTLOADER_RECLAIMABLE\<rparr>,
     \<lparr>me_base = 0x10000, me_length = 0xC000, me_type = MEMMAP_USABLE\<rparr>]"

definition demo_boot :: boot_data where
  "demo_boot =
    \<lparr>bootloader = \<lparr>bl_exists = False, bl_name = 0, bl_version = 0\<rparr>,
     firmware = \<lparr>fw_exists = False, fw_type = 0\<rparr>,
     higher_half = \<lparr>hh_exists = True, hh_offset = 0xFFFF800000000000,
       hh_kernel_start = 0xFFFFFFFF80000000, hh_kernel_end = 0xFFFFFFFF80003000\<rparr>,
     framebuffer = \<lparr>fb_buffer = 0, fb_width = 0, fb_height = 0, fb_pitch = 0\<rparr>,
     memmap = \<lparr>mm_exists = True, mm_entries = demo_memmap\<rparr>,
     rsdp = \<lparr>rsdp_exists = False, rsdp_address = 0\<rparr>\<rparr>"

definition blank_pmm :: pmm where
  "blank_pmm = \<lparr>mem = (\<lambda>_. 0xAA), cpu_ops = [], console = [], higher_half_offset = 0,
    memmap_entries = [], pmm_usable_pages = 0, pmm_bitmap_pages = 0, pmm_num_allocated_pages = 0\<rparr>"

definition demo_pmm :: pmm where
  "demo_pmm = pmm_init demo_boot blank_pmm"

lemma demo_pages:
  "usable_pages demo_memmap = [0x1000, 0x2000, 0x3000, 0x4000, 0x10000, 0x11000, 0x12000, 0x13000, 0x14000, 0x15000, 0x16000, 0x17000, 0x18000, 0x19000, 0x1A000, 0x1B000]"
  by (simp add: demo_memmap_def memmap_types entry_pages_def upt_rec)

lemma demo_wf: "wf_memmap demo_memmap"
  by (simp add: wf_memmap_def demo_memmap_def memmap_types wf_entry_def entries_disjoint_def)

lemma demo_boot_memmap [simp]:
  "mm_entries (memmap demo_boot) = demo_memmap" "hh_offset (higher_half demo_boot) = 0xFFFF800000000000"
  by (simp_all add: demo_boot_def)

lemma blank_pmm_fresh: "pmm_usable_pages blank_pmm = 0" "pmm_num_allocated_pages blank_pmm = 0"
  by (simp_all add: blank_pmm_def)

lemma demo_pmm_inv:
  "pmm_inv demo_pmm" "memmap_entries demo_pmm = demo_memmap"
  "higher_half_offset demo_pmm = 0xFFFF800000000000" "allocated demo_pmm = {0}"
  using pmm_init_inv(1-4) [of demo_boot blank_pmm] demo_wf blank_pmm_fresh
  by (simp_all add: demo_pmm_def demo_pages lessThan_Suc)

lemma free_pages_image: "free_pages s = (\<lambda>i. pages s ! i) ` ({..<length (pages s)} - allocated s)"
  by (auto simp: free_pages_def)

lemma demo_length: "length (usable_pages demo_memmap) = 16"
  by (simp add: demo_pages)

lemma demo_indices: "{..<16} - {0 :: nat} = set [1..<16]"
  by auto

lemma demo_free_pages: "free_pages demo_pmm = {0x2000, 0x3000, 0x4000, 0x10000, 0x11000, 0x12000, 0x13000, 0x14000, 0x15000, 0x16000, 0x17000, 0x18000, 0x19000, 0x1A000, 0x1B000}"
proof -
  have "free_pages demo_pmm = (\<lambda>i. pages demo_pmm ! i) ` set [1..<16]"
    unfolding free_pages_image demo_pmm_inv demo_length demo_indices ..
  then show ?thesis by (simp add: demo_pmm_inv demo_pages upt_rec)
qed

section \<open>Properties\<close>

text \<open>
  C14. \<open>pmm_init\<close>, run once on cleared counters with a well-formed memory map that has a usable page,
  establishes the invariant of the allocator: the bitmap fits in the first usable pages,
  exactly the pages of the bitmap itself are marked allocated, and no byte outside the bitmap
  changes.
\<close>

theorem pmm_init_correct:
  fixes s :: "'a pmm_scheme"
  assumes "wf_memmap (mm_entries (memmap b))" and "usable_pages (mm_entries (memmap b)) \<noteq> []"
    and "pmm_usable_pages s = 0" and "pmm_num_allocated_pages s = 0"
  shows "pmm_inv (pmm_init b s) \<and>
    pages (pmm_init b s) = usable_pages (mm_entries (memmap b)) \<and>
    allocated (pmm_init b s) = {..<length (pages (pmm_init b s)) div 32768 + 1} \<and>
    (\<forall>x. x \<notin> bitmap_bytes (pmm_init b s) \<longrightarrow> mem (pmm_init b s) x = mem s x)"
  using pmm_init_inv [OF assms] by simp

theorem pmm_init_correct_witness:
  "pmm_inv (pmm_init demo_boot blank_pmm) \<and> allocated (pmm_init demo_boot blank_pmm) = {0}"
  using pmm_init_correct [of demo_boot blank_pmm] demo_wf blank_pmm_fresh by (auto simp: demo_pages)

text \<open>
  \<open>pmm_get_address_by_index\<close> is lookup in the list of the usable pages, \<open>UINT64_MAX\<close>
  past its end; the pages listed are page aligned and no page has two indices.
\<close>

theorem pmm_address_index_refines:
  fixes s :: "'a pmm_scheme"
  assumes "wf_memmap (memmap_entries s)"
  shows "pmm_get_address_by_index s i =
      (if unat i < length (pages s) then pages s ! unat i else UINT64_MAX) \<and>
    distinct (pages s) \<and> list_all page_aligned (pages s)"
  using assms by (simp add: get_address_by_index distinct_usable_pages list_all_iff usable_pages_aligned)

theorem pmm_address_index_refines_witness:
  "pmm_get_address_by_index demo_pmm 4 = 0x10000 \<and> pmm_get_address_by_index demo_pmm 16 = UINT64_MAX"
  using pmm_address_index_refines [of demo_pmm 4] pmm_address_index_refines [of demo_pmm 16]
  by (simp add: demo_pmm_inv demo_wf demo_pages)

text \<open>
  C30. Index to address and back: any address inside the page with index \<open>i\<close> has index \<open>i\<close>, and an
  address in no usable page has the index \<open>UINT64_MAX\<close>.
\<close>

theorem pmm_index_roundtrip:
  fixes s :: "'a pmm_scheme"
  assumes "wf_memmap (memmap_entries s)"
  shows "(unat i < length (pages s) \<and> unat off < 4096 \<longrightarrow>
      pmm_get_index_by_address s (pmm_get_address_by_index s i + off) = i) \<and>
    ((\<forall>p \<in> set (pages s). \<not> in_range a p 4096) \<longrightarrow> pmm_get_index_by_address s a = UINT64_MAX)"
  using assms index_by_address_page [OF assms, of "unat i" off 0]
    index_by_address_outside [OF assms, of a 0]
  by (simp add: get_address_by_index pmm_get_index_by_address_def)

theorem pmm_index_roundtrip_witness:
  "pmm_get_index_by_address demo_pmm (pmm_get_address_by_index demo_pmm 5 + 0x7FF) = 5 \<and>
   pmm_get_index_by_address demo_pmm 0x6000 = UINT64_MAX"
  using pmm_index_roundtrip [of demo_pmm 5 "0x7FF" "0x6000"]
  by (simp add: demo_pmm_inv demo_wf demo_pages in_range_def)

text \<open>
  The bitmap is a set of page indices: after \<open>pmm_set_usable_page_allocated_by_index\<close> the bit of
  that index reads as written and the bit of every other page is as before, however the
  pages of the bitmap lie in memory.
\<close>

theorem pmm_bitmap_get_set:
  fixes s :: "'a pmm_scheme"
  assumes "pmm_layout s" and "unat i < length (pages s)" and "unat j < length (pages s)"
  shows "pmm_is_usable_page_allocated_by_index (pmm_set_usable_page_allocated_by_index i b s) j =
    (if i = j then b else pmm_is_usable_page_allocated_by_index s j)"
proof -
  have "in_bitmap s i" "in_bitmap s j"
    using page_index(2) [OF assms(1,2)] page_index(2) [OF assms(1,3)] by simp_all
  with pmm_layoutD(1) [OF assms(1)] show ?thesis by (rule is_allocated_set)
qed

theorem pmm_bitmap_get_set_witness:
  "pmm_is_usable_page_allocated_by_index (pmm_set_usable_page_allocated_by_index 3 True demo_pmm) 3 \<and>
   \<not> pmm_is_usable_page_allocated_by_index (pmm_set_usable_page_allocated_by_index 3 True demo_pmm) 4"
proof -
  have "\<not> pmm_is_usable_page_allocated_by_index demo_pmm 4"
    using demo_pmm_inv(4) unfolding allocated_def
    by (auto simp: demo_pmm_inv demo_pages dest!: equalityD1 subsetD [of _ _ 4])
  then show ?thesis
    using pmm_bitmap_get_set [of demo_pmm 3 3 True] pmm_bitmap_get_set [of demo_pmm 3 4 True]
      pmm_inv_layout [OF demo_pmm_inv(1)]
    by (simp add: demo_pmm_inv demo_pages)
qed

text \<open>
  C15. \<open>pmm_alloc_phys\<close> returns the free page with the least index, marks exactly that page, keeps the
  invariant and changes no byte outside the bitmap; it returns 0 and changes nothing only
  when every page is allocated.
\<close>

theorem pmm_alloc_phys_correct:
  fixes s :: "'a pmm_scheme"
  assumes "pmm_inv s"
  shows "(\<exists>k < length (pages s). k \<notin> allocated s \<and> {..<k} \<subseteq> allocated s \<and>
      fst (pmm_alloc_phys s) = pages s ! k \<and>
      allocated (snd (pmm_alloc_phys s)) = insert k (allocated s) \<and>
      pmm_inv (snd (pmm_alloc_phys s)) \<and> only_pmm s (snd (pmm_alloc_phys s)) \<and>
      (\<forall>x. x \<notin> bitmap_bytes s \<longrightarrow> mem (snd (pmm_alloc_phys s)) x = mem s x)) \<or>
    (allocated s = {..<length (pages s)} \<and> pmm_alloc_phys s = (0, s))"
proof (rule pmm_alloc_phys_cases [OF assms])
  assume "allocated s = {..<length (pages s)}" "pmm_alloc_phys s = (0, s)"
  then show ?thesis by simp
next
  fix k assume k: "k < length (pages s)" "k \<notin> allocated s" "{..<k} \<subseteq> allocated s"
    "pmm_alloc_phys s = (pages s ! k, pmm_set_usable_page_allocated_by_index (of_nat k) True s)"
  then show ?thesis
    using allocated_set [OF pmm_inv_layout [OF assms] k(1), of True] pmm_inv_set [OF assms k(1), of True]
      mem_set_allocated [OF pmm_inv_layout [OF assms] k(1), of _ True]
    by (intro disjI1 exI [of _ k]) simp
qed

theorem pmm_alloc_phys_correct_witness:
  "fst (pmm_alloc_phys demo_pmm) = 0x2000 \<and> pmm_inv (snd (pmm_alloc_phys demo_pmm))"
  using pmm_alloc_phys_correct [OF demo_pmm_inv(1)]
proof (elim disjE exE conjE)
  fix k assume k: "k < length (pages demo_pmm)" "k \<notin> allocated demo_pmm"
    "{..<k} \<subseteq> allocated demo_pmm" "fst (pmm_alloc_phys demo_pmm) = pages demo_pmm ! k"
    "pmm_inv (snd (pmm_alloc_phys demo_pmm))"
  have "\<not> 1 < k" using k(3) by (auto simp: demo_pmm_inv subset_iff)
  moreover have "k \<noteq> 0" using k(2) by (auto simp: demo_pmm_inv)
  ultimately have "k = 1" by linarith
  with k(4,5) show ?thesis by (simp add: demo_pmm_inv demo_pages)
next
  assume "allocated demo_pmm = {..<length (pages demo_pmm)}"
  then have "1 \<in> {0 :: nat}" by (simp add: demo_pmm_inv demo_pages)
  then show ?thesis by simp
qed

text \<open>
  C7. Any number of calls of \<open>pmm_allocz\<close>, as long as pages are left, return different pages, all
  of them free before, all of them cleared at the end; the invariant holds afterwards and
  no byte changes outside these pages and the bitmap.
\<close>

theorem pmm_allocz_many:
  fixes s :: "'a pmm_scheme"
  assumes "pmm_inv s" and "n \<le> card (free_virt s)"
  shows "distinct (fst (alloc_many pmm_allocz n s)) \<and>
    set (fst (alloc_many pmm_allocz n s)) \<subseteq> free_virt s \<and>
    free_virt (snd (alloc_many pmm_allocz n s)) = free_virt s - set (fst (alloc_many pmm_allocz n s)) \<and>
    pmm_inv (snd (alloc_many pmm_allocz n s)) \<and>
    (\<forall>p \<in> set (fst (alloc_many pmm_allocz n s)). \<forall>x. in_range x p 4096 \<longrightarrow>
      mem (snd (alloc_many pmm_allocz n s)) x = 0) \<and>
    (\<forall>x. x \<notin> bitmap_bytes s \<and> (\<forall>p \<in> set (fst (alloc_many pmm_allocz n s)). \<not> in_range x p 4096) \<longrightarrow>
      mem (snd (alloc_many pmm_allocz n s)) x = mem s x)"
  using allocz.alloc_many_pages [OF assms] allocz.alloc_many_zeroed [OF assms]
    allocz.alloc_many_frame [OF assms]
  by blast

theorem pmm_allocz_many_witness:
  "card (free_virt demo_pmm) = 15 \<and> pmm_inv (snd (alloc_many pmm_allocz 15 demo_pmm)) \<and>
   free_virt (snd (alloc_many pmm_allocz 15 demo_pmm)) =
     free_virt demo_pmm - set (fst (alloc_many pmm_allocz 15 demo_pmm))"
proof -
  have "card (free_virt demo_pmm) = 15"
    by (simp add: free_virt_def demo_free_pages demo_pmm_inv)
  with pmm_allocz_many [OF demo_pmm_inv(1), of 15] show ?thesis by simp
qed

text \<open>
  C31. The memory statistics are exact: the free memory reported is 4096 bytes per free page and the
  usable memory 4096 bytes per usable page, with no wrap-around.
\<close>

theorem pmm_free_memory_exact:
  fixes s :: "'a pmm_scheme"
  assumes "pmm_inv s"
  shows "unat (pmm_get_current_free_memory s) = 4096 * card (free_pages s) \<and>
    unat (pmm_get_total_usable_memory s) = 4096 * length (pages s)"
proof -
  note d = pmm_invD [OF assms]
  have n: "length (pages s) < 2 ^ 52" using length_usable_pages_less [OF d(2)] .
  have sub: "allocated s \<subseteq> {..<length (pages s)}" by (auto simp: allocated_def)
  have "inj_on (\<lambda>i. pages s ! i) ({..<length (pages s)} - allocated s)"
    using distinct_usable_pages [OF d(2)] by (auto simp: inj_on_def nth_eq_iff_index_eq)
  then have free: "card (free_pages s) = length (pages s) - card (allocated s)"
    using sub by (simp add: free_pages_image card_image card_Diff_subset)
  have le: "card (allocated s) \<le> length (pages s)" using card_mono [OF _ sub] by simp
  have used: "unat (pmm_num_allocated_pages s) = card (allocated s)"
    using d(6) le n by (simp add: unat_of_nat take_bit_nat_eq_self)
  have page: "unat (x * 0x1000 :: u64) = unat x * 4096" if "unat x < 2 ^ 52" for x
    using that unat_mult_lem [THEN iffD1, of x "0x1000"] by simp
  have left: "unat (pmm_usable_pages s - pmm_num_allocated_pages s) = card (free_pages s)"
    using used le d(3) by (simp add: unat_diff_ge free)
  have "unat (pmm_get_current_free_memory s) = card (free_pages s) * 4096"
    unfolding pmm_get_current_free_memory_def using page [of "pmm_usable_pages s - pmm_num_allocated_pages s"]
      left n free by linarith
  moreover have "unat (pmm_get_total_usable_memory s) = length (pages s) * 4096"
    unfolding pmm_get_total_usable_memory_def using page [of "pmm_usable_pages s"] d(3) n by linarith
  ultimately show ?thesis by simp
qed

theorem pmm_free_memory_exact_witness:
  "unat (pmm_get_current_free_memory demo_pmm) = 61440 \<and>
   unat (pmm_get_total_usable_memory demo_pmm) = 65536"
  using pmm_free_memory_exact [OF demo_pmm_inv(1)] by (simp add: demo_free_pages demo_pmm_inv demo_pages)

text \<open>
  When no page is left, \<open>pmm_alloc\<close> does not report it: it returns the address of physical page
  0 in the direct map, and \<open>pmm_allocz\<close> clears the 4096 bytes there.
\<close>

theorem pmm_out_of_memory:
  fixes s :: "'a pmm_scheme"
  assumes "pmm_inv s" and "free_pages s = {}"
  shows "pmm_alloc s = (pmm_phys_to_virt s 0, s) \<and>
    pmm_allocz s = (higher_half_offset s, s\<lparr>mem := (\<lambda>x.
      if in_range x (higher_half_offset s) 4096 then 0 else mem s x)\<rparr>)"
proof -
  have "pmm_alloc_phys s = (0, s)"
    using assms by (cases rule: pmm_alloc_phys_cases [OF assms(1)]) (auto simp: free_pages_empty_iff)
  then have "pmm_alloc s = (pmm_phys_to_virt s 0, s)" by (simp add: pmm_alloc_def)
  then show ?thesis by (simp add: pmm_allocz_def pmm_phys_to_virt_def memset_0_eq)
qed

text \<open>The small machine after fifteen allocations.\<close>

theorem pmm_out_of_memory_witness:
  "fst (pmm_alloc (snd (alloc_many pmm_alloc_phys 15 demo_pmm))) =
   higher_half_offset (snd (alloc_many pmm_alloc_phys 15 demo_pmm))"
proof -
  let ?t = "snd (alloc_many pmm_alloc_phys 15 demo_pmm)" and ?ps = "fst (alloc_many pmm_alloc_phys 15 demo_pmm)"
  have all: "card (free_pages demo_pmm) = 15" by (simp add: demo_free_pages)
  then have many: "distinct ?ps \<and> length ?ps = 15 \<and> set ?ps \<subseteq> free_pages demo_pmm \<and>
      free_pages ?t = free_pages demo_pmm - set ?ps \<and> pmm_inv ?t"
    by (intro phys.alloc_many_pages demo_pmm_inv) simp
  then have "card (set ?ps) = 15" by (simp add: distinct_card)
  then have "set ?ps = free_pages demo_pmm"
    using many all by (intro card_subset_eq) auto
  with many have "free_pages ?t = {}" by simp
  with pmm_out_of_memory [of ?t] many show ?thesis by (simp add: pmm_phys_to_virt_def)
qed

end
