(* ===== verification/Vmm_Correct.thy ===== *)
theory Vmm_Correct
  imports Vmm_Map Pmm_Correct
begin

text \<open>
  The properties of \<open>vmm.c\<close> (but \<open>vmm_map_pages_pml4\<close>, which is in \<open>Vmm_Map_Pages\<close>), on top of \<open>Vmm_Map\<close>, with a small
  machine on which they are instantiated: the allocator of \<open>Pmm_Correct\<close> and a root table made of
  one cleared page.
\<close>

section \<open>Lookup\<close>

lemma unat_path:
  "unat (path_of v ! 2) = unat v div 2097152 mod 512" "unat (path_of v ! 3) = unat v div 4096 mod 512"
  by (simp_all add: path_of_def unsigned_ucast_eq take_bit_eq_mod drop_bit_eq_div unat_div)

lemma word_of_path: "(ucast (path_of v ! 2) :: u64) = of_nat (unat v div 2097152 mod 512)"
  "(ucast (path_of v ! 3) :: u64) = of_nat (unat v div 4096 mod 512)"
  by (rule unat_eq_of_nat, simp only: unat_index unat_path)+

lemma mod_page:
  "v mod (0x1000 * 512) = ucast (path_of v ! 3) * 0x1000 + v mod 0x1000"
  "v mod (0x1000 * 512 * 512) = (512 * ucast (path_of v ! 2) + ucast (path_of v ! 3)) * 0x1000 + v mod 0x1000"
proof -
  have nat: "n mod 2097152 = n div 4096 mod 512 * 4096 + n mod 4096"
    "n mod 1073741824 = (512 * (n div 2097152 mod 512) + n div 4096 mod 512) * 4096 + n mod 4096" for n :: nat
    using mod_mult2_eq [of n 4096 512] mod_mult2_eq [of n 4096 "512 * 512"]
      mod_mult2_eq [of "n div 4096" 512 512] div_mult2_eq [of n 4096 512] by simp_all
  have w: "v mod m = of_nat (unat v mod unat m)" for m
    by (simp add: unat_mod [symmetric])
  show "v mod (0x1000 * 512) = ucast (path_of v ! 3) * 0x1000 + v mod 0x1000"
    unfolding word_of_path w using arg_cong [where f = "of_nat :: nat \<Rightarrow> u64", OF nat(1) [of "unat v"]]
    by (simp only: of_nat_add of_nat_mult) simp
  show "v mod (0x1000 * 512 * 512) = (512 * ucast (path_of v ! 2) + ucast (path_of v ! 3)) * 0x1000 + v mod 0x1000"
    unfolding word_of_path w using arg_cong [where f = "of_nat :: nat \<Rightarrow> u64", OF nat(2) [of "unat v"]]
    by (simp only: of_nat_add of_nat_mult) simp
qed

lemma flag_tests: "e AND PT_ENTRY_PRESENT = 0 \<longleftrightarrow> \<not> present e" "e AND PT_ENTRY_LARGER_PAGES = 0 \<longleftrightarrow> \<not> large e"
  by (simp_all add: present_def large_def)

lemma virt_to_phys:
  assumes "vmm_inv s root" "pml4 s = root + vmm_page_tables_offset s" "vmm_initialised s"
  shows "vmm_virt_to_phys s v = (case translate s root (path_of v) of None \<Rightarrow> UINT64_MAX
    | Some a \<Rightarrow> if tab s root (take 3 (path_of v)) = None then a + v mod 0x1000 else a)"
proof -
  obtain i1 i2 i3 i4 where pv: "path_of v = [i1, i2, i3, i4]" using path_split by blast
  note ix = index_path [of v, unfolded pv]
  have ptr: "slot (pml4 s) (PML4_INDEX v) = entry_ptr s root i1"
    "slot (t + vmm_page_tables_offset s) (PDPT_INDEX v) = entry_ptr s t i2"
    "slot (t + vmm_page_tables_offset s) (PD_INDEX v) = entry_ptr s t i3"
    "slot (t + vmm_page_tables_offset s) (PT_INDEX v) = entry_ptr s t i4" for t
    by (simp_all add: entry_ptr_def ix assms(2))
  have "\<not> large (ent s root i1)"
    using vmm_invD(6) [OF assms(1), of "[]" root i1] by (simp add: entry_ok_def)
  then show ?thesis
    using assms(3) mod_page [of v]
    by (simp add: vmm_virt_to_phys_def Let_def ptr next_table_ptr ent_def [symmetric]
        flag_tests pv is_table_def page_in_large_def)
qed

lemma virt_to_phys_page:
  assumes "vmm_inv s root" "pml4 s = root + vmm_page_tables_offset s" "vmm_initialised s" "v mod 0x1000 = 0"
  shows "vmm_virt_to_phys s v = (case translate s root (path_of v) of None \<Rightarrow> UINT64_MAX | Some a \<Rightarrow> a)"
  using virt_to_phys [OF assms(1-3), of v] assms(4) by (simp split: option.splits)

text \<open>What \<open>convert_to_phys\<close> makes of an address depends on the tables only.\<close>

lemma convert_to_phys_cong:
  fixes s s' :: "'a vmm_scheme"
  assumes "vmm_inv s root" "vmm_inv s' root" "pml4 s = root + vmm_page_tables_offset s" "vmm_initialised s"
    and "pml4 s' = root + vmm_page_tables_offset s'" "vmm_initialised s'"
    and t: "\<And>q. length q \<le> 3 \<Longrightarrow> tab s' root q = tab s root q" "\<And>q. length q = 4 \<Longrightarrow> translate s' root q = translate s root q"
  shows "vmm_virt_to_phys s' a = vmm_virt_to_phys s a" "convert_to_phys s' a = convert_to_phys s a"
proof -
  have "tab s' root (take 3 (path_of a)) = tab s root (take 3 (path_of a))" by (rule t) simp
  moreover have "translate s' root (path_of a) = translate s root (path_of a)" by (rule t) (rule path_take)
  ultimately show "vmm_virt_to_phys s' a = vmm_virt_to_phys s a"
    using virt_to_phys [OF assms(1,3,4), of a] virt_to_phys [OF assms(2,5,6), of a] by (simp only:)
  then show "convert_to_phys s' a = convert_to_phys s a" by (simp only: convert_to_phys_def)
qed

text \<open>An address that is mapped to a page stands for that page.\<close>

lemma convert_to_phys_page:
  assumes "vmm_inv s root" "pml4 s = root + vmm_page_tables_offset s" "vmm_initialised s"
    and "translate s root (path_of v) = Some a" "a \<in> free_pages s"
  shows "addr (convert_to_phys s v) = a"
proof -
  have a: "addr a = a" using vmm_invD(1) [OF assms(1)] assms(5) by (rule free_page_addr)
  define low where "low = v mod 0x1000"
  have low: "unat low < 4096" "low = take_bit 12 v" by (simp_all add: low_def unat_mod take_bit_eq_mod)
  have b: "unat a < 2 ^ 52" using addr_page(2) [of a] by (simp add: a)
  have "a AND low = 0"
  proof (rule bit_eqI)
    fix n
    have "bit a n = bit (addr a) n" by (simp only: a)
    then show "bit (a AND low) n = bit 0 n" by (auto simp: bit_and_iff low(2) bit_take_bit_iff bit_addr)
  qed
  then have "a + low = a OR low" by (rule disjunctive_add_eq_or)
  then have "addr (a + low) = a" using addr_or_low [OF low(1), of a] a by simp
  moreover have "unat (a + low) = unat a + unat low" using b low(1) unat_add_lem [THEN iffD1, of a low] by simp
  then have "a + low \<noteq> UINT64_MAX" using b low(1) by auto
  moreover have "a \<noteq> UINT64_MAX" using b by auto
  ultimately show ?thesis
    using a virt_to_phys [OF assms(1-3), of v] assms(4) by (simp add: convert_to_phys_def low_def)
qed

section \<open>A new address space\<close>

lemma fresh_root:
  assumes "vmm_base s" "free_pages s \<noteq> {}" "n = fst (pmm_alloc_phys s)"
  shows "vmm_inv (snd (pmm_allocz s)) n" "translate (snd (pmm_allocz s)) n (i # p) = None"
    "tab (snd (pmm_allocz s)) n (i # p) = None"
proof -
  note A = allocz_page [OF assms]
  show t: "tab (snd (pmm_allocz s)) n (i # p) = None" for i p by (simp add: A(10) is_table_def)
  show "translate (snd (pmm_allocz s)) n (i # p) = None" by (simp add: A(10))
  have root: "q = []" if "tab (snd (pmm_allocz s)) n q = Some u" for q u
    using that t by (cases q) simp_all
  show "vmm_inv (snd (pmm_allocz s)) n"
    unfolding vmm_inv_def
  proof (intro conjI allI impI)
    show "vmm_base (snd (pmm_allocz s))" by (rule A(6))
    fix p u assume p: "length p \<le> 3 \<and> tab (snd (pmm_allocz s)) n p = Some u"
    then have "p = []" "u = n" using root [of p u] by auto
    then show "table_page (snd (pmm_allocz s)) u" by (simp add: A(7))
    show "q = p" if "length q \<le> 3 \<and> tab (snd (pmm_allocz s)) n q = Some u" for q
      using that p root by blast
  next
    fix p u j assume p: "length p \<le> 2 \<and> tab (snd (pmm_allocz s)) n p = Some u"
    then have "p = []" "u = n" using root [of p u] by auto
    then show "entry_ok (length p) (ent (snd (pmm_allocz s)) u j)" by (simp add: A(10) entry_ok_def)
  qed
qed

section \<open>A small machine\<close>

definition blank_vmm :: "'a \<Rightarrow> 'a vmm_scheme" where
  "blank_vmm x = \<lparr>mem = (\<lambda>_. 0xAA), cpu_ops = [], console = [], higher_half_offset = 0,
    memmap_entries = [], pmm_usable_pages = 0, pmm_bitmap_pages = 0, pmm_num_allocated_pages = 0,
    vmm_page_tables_offset = 0, pml4 = 0, vmm_initialised = False, \<dots> = x\<rparr>"

definition boot_machine :: "'a \<Rightarrow> 'a vmm_scheme" where
  "boot_machine x = vmm_init 0x7000 demo_boot (pmm_init demo_boot (blank_vmm x))"

definition demo_machine :: "'a \<Rightarrow> 'a vmm_scheme" where
  "demo_machine x = (snd (pmm_allocz (boot_machine x)))\<lparr>pml4 := fst (pmm_allocz (boot_machine x))\<rparr>"

lemma vmm_init_fields:
  "mem (vmm_init c b s) = mem s" "memmap_entries (vmm_init c b s) = memmap_entries s"
  "higher_half_offset (vmm_init c b s) = higher_half_offset s"
  "pmm_usable_pages (vmm_init c b s) = pmm_usable_pages s"
  "pmm_bitmap_pages (vmm_init c b s) = pmm_bitmap_pages s"
  "pmm_num_allocated_pages (vmm_init c b s) = pmm_num_allocated_pages s"
  "vmm_page_tables_offset (vmm_init c b s) = hh_offset (higher_half b)"
  "pml4 (vmm_init c b s) = c + hh_offset (higher_half b)" "vmm_initialised (vmm_init c b s)"
  by (simp_all add: vmm_init_def Let_def print_def)

lemma boot_machine_inv:
  "vmm_base (boot_machine x)" "card (free_pages (boot_machine x)) = 15" "vmm_initialised (boot_machine x)"
  "vmm_page_tables_offset (boot_machine x) = 0xFFFF800000000000" "free_pages (boot_machine x) \<noteq> {}"
proof -
  let ?s = "pmm_init demo_boot (blank_vmm x)"
  have i: "pmm_inv ?s" "memmap_entries ?s = demo_memmap" "higher_half_offset ?s = 0xFFFF800000000000"
    "allocated ?s = {0}"
    using pmm_init_inv(1-4) [of demo_boot "blank_vmm x"] demo_wf
    by (simp_all add: blank_vmm_def demo_pages lessThan_Suc)
  have c: "pmm_inv (boot_machine x) = pmm_inv ?s" "free_pages (boot_machine x) = free_pages ?s"
    unfolding boot_machine_def by (rule pmm_inv_cong; simp add: vmm_init_fields)+
  show "vmm_page_tables_offset (boot_machine x) = 0xFFFF800000000000" "vmm_initialised (boot_machine x)"
    by (simp_all add: boot_machine_def vmm_init_fields)
  then show "vmm_base (boot_machine x)"
    using i c by (simp add: vmm_base_def boot_machine_def vmm_init_fields demo_pages)
  have "free_pages ?s = (\<lambda>i. pages ?s ! i) ` set [1..<16]"
    unfolding free_pages_image i demo_length demo_indices ..
  then have "free_pages ?s = {0x2000, 0x3000, 0x4000, 0x10000, 0x11000, 0x12000, 0x13000, 0x14000, 0x15000, 0x16000, 0x17000, 0x18000, 0x19000, 0x1A000, 0x1B000}"
    by (simp add: i demo_pages upt_rec)
  then show "card (free_pages (boot_machine x)) = 15" by (simp add: c)
  then show "free_pages (boot_machine x) \<noteq> {}" by auto
qed

lemma boot_memmap: "memmap_entries (boot_machine x) = demo_memmap"
  using pmm_init_inv(2) [of demo_boot "blank_vmm x"] demo_wf
  by (simp add: boot_machine_def vmm_init_fields blank_vmm_def demo_pages)

lemma first_free_page:
  assumes "pmm_inv s" "allocated s = {..<k}" "k < length (pages s)"
  shows "fst (pmm_alloc_phys s) = pages s ! k"
proof (rule pmm_alloc_phys_cases [OF assms(1)])
  assume "allocated s = {..<length (pages s)}"
  then show ?thesis using assms(2,3) by (simp add: lessThan_eq_iff)
next
  fix j assume j: "j \<notin> allocated s" "{..<j} \<subseteq> allocated s"
    "pmm_alloc_phys s = (pages s ! j, pmm_set_usable_page_allocated_by_index (of_nat j) True s)"
  then have "j = k" using assms(2) by (auto simp: lessThan_subset_iff)
  with j show ?thesis by simp
qed

lemma boot_allocated: "allocated (boot_machine x) = {0}"
proof -
  have "allocated (boot_machine x) = allocated (pmm_init demo_boot (blank_vmm x))"
    unfolding boot_machine_def by (rule pmm_inv_cong; simp add: vmm_init_fields)
  then show ?thesis
    using pmm_init_inv(4) [of demo_boot "blank_vmm x"] demo_wf
    by (simp add: blank_vmm_def demo_pages lessThan_Suc)
qed

definition demo_root :: u64 where "demo_root = 0x2000"

lemmas demo_root_eq = demo_root_def

lemma demo_root_first: "demo_root = fst (pmm_alloc_phys (boot_machine x))"
  using first_free_page [of "boot_machine x" 1] boot_machine_inv(1) [of x]
  by (simp add: demo_root_def vmm_base_def boot_allocated boot_memmap demo_pages lessThan_Suc)

lemma demo_machine_inv:
  "vmm_inv (demo_machine x) demo_root" "card (free_pages (demo_machine x)) = 14" "vmm_initialised (demo_machine x)"
  "pml4 (demo_machine x) = demo_root + vmm_page_tables_offset (demo_machine x)"
  "translate (demo_machine x) demo_root (i # p) = None" "tab (demo_machine x) demo_root (i # p) = None"
  "no_huge_page (demo_machine x) demo_root v"
proof -
  note A = allocz_page [OF boot_machine_inv(1,5) demo_root_first [of x]] and F = fresh_root [OF boot_machine_inv(1,5) demo_root_first [of x]]
  have "same_tables (snd (pmm_allocz (boot_machine x))) (demo_machine x)" by (simp add: demo_machine_def)
  note S = same_tables [OF this]
  show "vmm_inv (demo_machine x) demo_root" by (simp only: S F)
  show "card (free_pages (demo_machine x)) = 14"
    using boot_machine_inv(2) [of x] A(2) by (simp add: S A(4) card_Diff_singleton)
  show "vmm_initialised (demo_machine x)" "pml4 (demo_machine x) = demo_root + vmm_page_tables_offset (demo_machine x)"
    using boot_machine_inv(3) [of x] only_pmm_vmm [OF A(5)] A(1) by (simp_all add: demo_machine_def)
  show "translate (demo_machine x) demo_root (i # p) = None" by (simp only: S F)
  show t: "tab (demo_machine x) demo_root (i # p) = None" for i p by (simp only: S F)
  show "no_huge_page (demo_machine x) demo_root v" by (simp add: no_huge_page_def t del: tab.simps)
qed

text \<open>The memory of its tables and allocator.\<close>

lemma demo_machine_fields:
  "memmap_entries (demo_machine x) = demo_memmap" "higher_half_offset (demo_machine x) = 0xFFFF800000000000"
  "vmm_page_tables_offset (demo_machine x) = 0xFFFF800000000000"
proof -
  have a: "only_pmm (boot_machine x) (snd (pmm_allocz (boot_machine x)))"
    using boot_machine_inv(1) [of x] by (intro only_pmm_allocz) (simp add: vmm_base_def)
  show m: "memmap_entries (demo_machine x) = demo_memmap" "vmm_page_tables_offset (demo_machine x) = 0xFFFF800000000000"
    using only_pmm_fields(1) [OF a] only_pmm_vmm [OF a] boot_machine_inv(4) [of x] by (simp_all add: demo_machine_def boot_memmap)
  show "higher_half_offset (demo_machine x) = 0xFFFF800000000000"
    using m vmm_invD(3) [OF demo_machine_inv(1) [of x]] by simp
qed

lemma demo_machine_bytes:
  assumes "y \<in> vmm_bytes (demo_machine x) demo_root"
  shows "0xFFFF800000000000 \<le> unat y" "unat y < 0xFFFF800010000000"
proof -
  let ?d = "demo_machine x"
  note D = demo_machine_inv [of x] and F = demo_machine_fields [of x]
  have pg: "unat p < 0x20000" if "p \<in> set (pages ?d)" for p
    using that by (auto simp: F demo_pages)
  have near: "0xFFFF800000000000 \<le> unat y \<and> unat y < 0xFFFF800010000000"
    if "in_range y (p + 0xFFFF800000000000) 4096" "unat p < 0x20000" for p :: u64
  proof -
    have u: "unat (p + 0xFFFF800000000000) = unat p + 0xFFFF800000000000"
      using that(2) unat_add_lem [THEN iffD1, of p "0xFFFF800000000000"] by simp
    define d where "d = y - (p + 0xFFFF800000000000)"
    have d: "unat d < 4096" using that(1) by (simp add: in_range_def d_def)
    have "y = (p + 0xFFFF800000000000) + d" by (simp add: d_def)
    moreover have "unat ((p + 0xFFFF800000000000) + d) = unat (p + 0xFFFF800000000000) + unat d"
      using u d that(2) by (intro unat_add_lem [THEN iffD1]) simp
    ultimately show ?thesis using u d that(2) by simp
  qed
  have tb: "t = demo_root" if "tab ?d demo_root p = Some t" for p t
    using that D(6) by (cases p) auto
  have "0xFFFF800000000000 \<le> unat y \<and> unat y < 0xFFFF800010000000"
    using assms unfolding vmm_bytes_def
  proof (elim UnE CollectE exE bexE conjE)
    assume "y \<in> bitmap_bytes ?d"
    then show ?thesis
      using pmm_layoutD(4) [OF pmm_inv_layout [OF vmm_invD(2) [OF D(1)]]] near pg
      by (auto simp: bitmap_bytes_def F dest: less_le_trans)
  next
    fix p assume "p \<in> free_virt ?d" "in_range y p 4096"
    then show ?thesis using near pg free_pages_subset [of ?d] by (auto simp: free_virt_def F)
  next
    fix p t assume "tab ?d demo_root p = Some t" "in_range y (t + vmm_page_tables_offset ?d) 4096"
    then show ?thesis using near [of t] tb [of p t] by (simp add: F demo_root_def)
  qed
  then show "0xFFFF800000000000 \<le> unat y" "unat y < 0xFFFF800010000000" by blast+
qed

abbreviation boot_vmm :: vmm where "boot_vmm \<equiv> boot_machine ()"
abbreviation demo_vmm :: vmm where "demo_vmm \<equiv> demo_machine ()"

lemmas boot_vmm_inv = boot_machine_inv [where x = "()"]
lemmas demo_vmm_inv = demo_machine_inv [where x = "()"]

section \<open>Properties\<close>

text \<open>
  C3. \<open>vmm_map_page_pml4\<close> is a pointwise update of the address translation: with three
  pages left and no 1 GiB page on the way, the page of \<open>v\<close> is mapped to the given physical page
  (after \<open>convert_to_phys\<close>), every other page of the address space is mapped
  as before (missing tables and split 2 MiB pages notwithstanding), the tables remain well-formed, the
  TLB entries of both addresses are flushed last, and no byte outside the page tables, the free pages and
  the allocator's bitmap changes.
\<close>

theorem vmm_map_page_correct:
  fixes s :: "'a vmm_scheme"
  assumes "vmm_inv s root" and "3 \<le> card (free_pages s)" and "no_huge_page s root v"
    and "s' = vmm_map_page_pml4 (root + vmm_page_tables_offset s) a v f s"
  shows "vmm_inv s' root \<and>
    (\<forall>p. length p = 4 \<longrightarrow> translate s' root p =
      (if p = path_of v then Some (addr (convert_to_phys s a)) else translate s root p)) \<and>
    cpu_ops s' = cpu_ops s @ [Invlpg (convert_to_phys s a), Invlpg v] \<and>
    (\<forall>x. x \<notin> vmm_bytes s root \<longrightarrow> mem s' x = mem s x) \<and>
    card (free_pages s) \<le> card (free_pages s') + 3"
  using map_page_maps(1,2) [OF assms(1-3), of a f] by (simp add: assms(4) maps_to_def)

theorem vmm_map_page_correct_witness:
  "vmm_inv (vmm_map_page_pml4 (demo_root + vmm_page_tables_offset demo_vmm) 0x5000 0x8000000000 2 demo_vmm) demo_root"
  using vmm_map_page_correct [of demo_vmm demo_root "0x8000000000" _ "0x5000" 2] demo_vmm_inv by simp

text \<open>
  C16. \<open>vmm_unmap_page\<close> removes the mapping of one page and no other: afterwards the address is
  reported as not mapped, every other page is mapped as before, the tables remain well-formed and
  the address is flushed from the TLB last.
\<close>

theorem vmm_unmap_page_correct:
  fixes s :: "'a vmm_scheme"
  assumes "vmm_inv s root" and "3 \<le> card (free_pages s)" and "no_huge_page s root v"
    and "pml4 s = root + vmm_page_tables_offset s"
  shows "vmm_inv (vmm_unmap_page v s) root \<and>
    (\<forall>p. length p = 4 \<longrightarrow> translate (vmm_unmap_page v s) root p =
      (if p = path_of v then None else translate s root p)) \<and>
    (\<exists>a. cpu_ops (vmm_unmap_page v s) = cpu_ops s @ [Invlpg a, Invlpg v]) \<and>
    (\<forall>x. x \<notin> vmm_bytes s root \<longrightarrow> mem (vmm_unmap_page v s) x = mem s x)"
  using unmap_page_maps [OF assms] by (simp add: maps_to_def)

theorem vmm_unmap_page_correct_witness:
  "vmm_inv (vmm_unmap_page 0x8000000000 demo_vmm) demo_root \<and>
   translate (vmm_unmap_page 0x8000000000 demo_vmm) demo_root (path_of 0x8000000000) = None"
  using vmm_unmap_page_correct [of demo_vmm demo_root "0x8000000000"] demo_vmm_inv(1-4,7)
  by (simp add: path_take)

text \<open>
  C17. \<open>vmm_virt_to_phys\<close> is the address translation: \<open>UINT64_MAX\<close> for an address that is not
  mapped; in a large page the physical address of the byte; in a page of 4 KiB the physical address of the page,
  the offset within it being dropped.
\<close>

theorem vmm_virt_to_phys_correct:
  fixes s :: "'a vmm_scheme"
  assumes "vmm_inv s root" and "pml4 s = root + vmm_page_tables_offset s" and "vmm_initialised s"
  shows "vmm_virt_to_phys s v = (case translate s root (path_of v) of None \<Rightarrow> UINT64_MAX
    | Some a \<Rightarrow> if tab s root (take 3 (path_of v)) = None then a + v mod 0x1000 else a)"
  using assms by (rule virt_to_phys)

theorem vmm_virt_to_phys_correct_witness:
  "vmm_virt_to_phys demo_vmm 0xFFFF800000123456 = UINT64_MAX"
  using vmm_virt_to_phys_correct [OF demo_vmm_inv(1,4,3), of "0xFFFF800000123456"]
  by (simp add: demo_vmm_inv path_of_def del: translate.simps)

text \<open>
  Map, then look up: after \<open>vmm_map_page\<close> of a physical page (one that is not itself a mapped
  virtual address) the page at \<open>v\<close> is found at that physical address, and every
  other page is found where it was.
\<close>

theorem vmm_map_then_lookup:
  fixes s :: "'a vmm_scheme"
  assumes "vmm_inv s root" and "3 \<le> card (free_pages s)" and "no_huge_page s root v"
    and "pml4 s = root + vmm_page_tables_offset s" and "vmm_initialised s"
    and "page_aligned a" and "unat a < 2 ^ 52" and "vmm_virt_to_phys s a = UINT64_MAX"
    and "v mod 0x1000 = 0" and "w mod 0x1000 = 0"
  shows "vmm_virt_to_phys (vmm_map_page a v s) w =
    (if path_of w = path_of v then a else vmm_virt_to_phys s w)"
proof -
  let ?s = "vmm_map_page a v s"
  note M = map_page_maps [OF assms(1-3), of a "ucast PT_ENTRY_READ_WRITE",
      folded assms(4), folded vmm_map_page_def]
  have a: "addr (convert_to_phys s a) = a"
    using assms(6-8) by (simp add: convert_to_phys_def page_addr_iff)
  have inv: "vmm_inv ?s root" and p: "pml4 ?s = root + vmm_page_tables_offset ?s"
    using M only_vmm_fields [OF M(3)] assms(4) by (simp_all add: maps_to_def)
  have "vmm_virt_to_phys ?s w =
      (case translate ?s root (path_of w) of None \<Rightarrow> UINT64_MAX | Some a \<Rightarrow> a)"
    using inv p only_vmm_fields [OF M(3)] assms(5,10) by (intro virt_to_phys_page) simp_all
  also have "\<dots> = (if path_of w = path_of v then a else vmm_virt_to_phys s w)"
    using M(1) virt_to_phys_page [OF assms(1,4,5,10)] by (simp add: maps_to_def path_take a)
  finally show ?thesis .
qed

theorem vmm_map_then_lookup_witness:
  "vmm_virt_to_phys (vmm_map_page 0x5000 0x8000000000 demo_vmm) 0x8000000000 = 0x5000"
proof -
  have "vmm_virt_to_phys demo_vmm 0x5000 = UINT64_MAX"
    using virt_to_phys_page [OF demo_vmm_inv(1,4,3), of "0x5000"]
    by (simp add: demo_vmm_inv path_of_def del: translate.simps)
  then show ?thesis
    using vmm_map_then_lookup [OF demo_vmm_inv(1) _ demo_vmm_inv(7,4,3), of "0x5000" "0x8000000000" "0x8000000000"]
    by (simp add: demo_vmm_inv(2) page_aligned_def)
qed

text \<open>
  An entry stores a page address and its flags side by side: setting the address keeps the
  low 12 and the high 12 bits, and the address read back is the page of the address stored.
\<close>

theorem vmm_pt_entry_address_roundtrip:
  "vmm_pt_entry_get_address (vmm_pt_entry_set_address e a) = a AND 0x000FFFFFFFFFF000 \<and>
   vmm_pt_entry_set_address e a AND 0xFFF0000000000FFF = e AND 0xFFF0000000000FFF \<and>
   vmm_pt_entry_set_address e (vmm_pt_entry_get_address e) = e"
proof (intro conjI)
  show "vmm_pt_entry_get_address (vmm_pt_entry_set_address e a) = a AND 0x000FFFFFFFFFF000"
    by (simp add: addr_set_address vmm_pt_entry_get_address_def [of a])
  show "vmm_pt_entry_set_address e a AND 0xFFF0000000000FFF = e AND 0xFFF0000000000FFF"
    unfolding bit_eq_iff bit_and_iff bit_set_address bit_flags_mask by auto
  show "vmm_pt_entry_set_address e (vmm_pt_entry_get_address e) = e"
    by (rule bit_eqI) (auto simp: bit_addr bit_set_address)
qed

text \<open>
  C32. A 1 GiB page does not survive being split: the new page directory's entries carry the right
  addresses but not the larger-pages flag, so that an address of the former large page is
  afterwards looked up in the mapped memory itself, read as a page table.
\<close>

theorem vmm_split_1gib_loses_flag:
  fixes s :: "'a vmm_scheme"
  assumes "vmm_base s" and "free_pages s \<noteq> {}" and "table_page s t"
    and "present (ent s t i)" and "large (ent s t i)"
  shows "translate s t [i, j, k] = Some (addr (ent s t i) + page_in_large [j, k]) \<and>
    translate (split_pdpt_entry (entry_ptr s t i) s) t [i, j, k] =
      translate (split_pdpt_entry (entry_ptr s t i) s) (addr (addr (ent s t i) + ucast j * 0x200000)) [k]"
proof -
  let ?s = "split_pdpt_entry (entry_ptr s t i) s"
  note E = split_large_page_ents [OF assms(1,2,3,5), where step = "0x1000 * 512", folded split_pdpt_entry_def]
  have n: "addr (ent ?s t i) = fst (pmm_alloc_phys s)" "is_table (ent ?s t i)"
    using E(1) by (simp_all add: installs_def)
  show ?thesis
    using assms(4,5) n(2) by (simp add: n(1) E(2) is_table_def)
qed

text \<open>The first entry of the root table of the small machine, set to a large page at \<open>0x40000000\<close>.\<close>

theorem vmm_split_1gib_loses_flag_witness:
  "translate (split_pdpt_entry (entry_ptr demo_vmm demo_root 0)
      (set_entry (entry_ptr demo_vmm demo_root 0) 0x40000081 demo_vmm)) demo_root [0, 1, 0] =
   translate (split_pdpt_entry (entry_ptr demo_vmm demo_root 0)
      (set_entry (entry_ptr demo_vmm demo_root 0) 0x40000081 demo_vmm)) 0x40200000 [0]"
proof -
  let ?s = "set_entry (entry_ptr demo_vmm demo_root 0) 0x40000081 demo_vmm"
  have t: "table_page demo_vmm demo_root"
    by (rule vmm_invD(4) [OF demo_vmm_inv(1), of "[]"]) simp_all
  note W = wroteD [OF wrote_set_entry [OF vmm_invD(1) [OF demo_vmm_inv(1)] t, of 0 "0x40000081"]]
  have "free_pages demo_vmm \<noteq> {}" using demo_vmm_inv(2) by auto
  moreover have "ent ?s demo_root 0 = 0x40000081" by (rule ent_set) (rule table_page_aligned [OF t])
  ultimately show ?thesis
    using vmm_split_1gib_loses_flag [of ?s demo_root 0 1 0] W t
    by (simp add: present_def large_def flag_defs vmm_pt_entry_get_address_def)
qed

text \<open>
  A cleared page from the allocator is an empty address space: it satisfies the invariant of
  the page tables and maps no page.
\<close>

theorem vmm_new_address_space:
  fixes s :: "'a vmm_scheme"
  assumes "vmm_base s" and "free_pages s \<noteq> {}"
  shows "vmm_inv (snd (pmm_allocz s)) (fst (pmm_allocz s) - vmm_page_tables_offset s) \<and>
    translate (snd (pmm_allocz s)) (fst (pmm_allocz s) - vmm_page_tables_offset s) (path_of v) = None"
  using fresh_root [OF assms refl] allocz_page(1) [OF assms refl] by (simp add: path_of_def del: translate.simps)

theorem vmm_new_address_space_witness:
  "vmm_inv (snd (pmm_allocz boot_vmm)) (fst (pmm_allocz boot_vmm) - vmm_page_tables_offset boot_vmm)"
  using vmm_new_address_space [OF boot_vmm_inv(1,5)] by simp

end
