(* ===== verification/Pmm_Free.thy ===== *)
theory Pmm_Free
  imports Vmm_Correct
begin

text \<open>
  \<open>pmm_virt_to_phys\<close> and \<open>pmm_free\<close> of \<open>src/mem/pmm.c\<close>. Once the page tables are in use, freeing a
  page looks its address up in them, clears its bit and maps the page back to its place in
  the direct map, which may in turn allocate tables.
\<close>

section \<open>The operations\<close>

definition pmm_virt_to_phys :: "'a vmm_scheme \<Rightarrow> u64 \<Rightarrow> u64" where
  "pmm_virt_to_phys s virt =
    (if vmm_has_initialised s then vmm_virt_to_phys s virt else virt - higher_half_offset s)"

definition pmm_free :: "u64 \<Rightarrow> 'a vmm_scheme \<Rightarrow> 'a vmm_scheme" where
  "pmm_free page s =
    (let phys = pmm_virt_to_phys s page
     in if phys = UINT64_MAX then s
        else
          (let index = pmm_get_index_by_address s phys
           in if index \<ge> pmm_bitmap_pages s then
                (let s = pmm_set_usable_page_allocated_by_index index False s
                 in if vmm_has_initialised s then vmm_map_page phys (pmm_phys_to_virt s phys) s else s)
              else s))"

section \<open>Clearing the bit of a page\<close>

lemma free_pages_set_False:
  assumes "pmm_inv s" "k < length (pages s)" "unat (pmm_bitmap_pages s) \<le> k"
  shows "free_pages (pmm_set_usable_page_allocated_by_index (of_nat k) False s) = insert (pages s ! k) (free_pages s)"
  using assms(2) distinct_usable_pages [OF pmm_invD(2) [OF assms(1)]]
  by (auto simp: free_pages_def allocated_set [OF pmm_inv_layout [OF assms(1)]] nth_eq_iff_index_eq)

text \<open>The tables do not notice a change of the bitmap, as long as no table becomes a free page.\<close>

lemma vmm_inv_pmm:
  assumes "vmm_inv s root" "pmm_inv s1" "only_pmm s s1" "free_pages s1 \<subseteq> insert a (free_pages s)"
    and m: "\<And>x. x \<notin> bitmap_bytes s \<Longrightarrow> mem s1 x = mem s x"
    and a: "\<And>p t. length p \<le> 3 \<Longrightarrow> tab s root p = Some t \<Longrightarrow> t \<noteq> a"
  shows "vmm_inv s1 root" "length q = 4 \<Longrightarrow> translate s1 root q = translate s root q"
    "length q \<le> 3 \<Longrightarrow> tab s1 root q = tab s root q"
    "length q \<le> 3 \<Longrightarrow> tab s root q = Some u \<Longrightarrow> ent s1 u j = ent s u j"
proof -
  note D = vmm_invD [OF assms(1)] and S = only_pmm_vmm [OF assms(3)] and F = only_pmm_fields [OF assms(3)]
  show e: "ent s1 u j = ent s u j" if "length q \<le> 3" "tab s root q = Some u" for q u j
    using D(4) [OF that] by (intro ent_cong S m) (auto simp: table_page_def)
  have b: "vmm_base s1" using D(1) assms(2) by (simp add: vmm_base_def S F)
  have tp: "table_page s1 u" if "length q \<le> 3" "tab s root q = Some u" for q u
    using a [OF that] assms(4) D(4) [OF that] by (auto simp: table_page_def S)
  note K = vmm_inv_keep [OF assms(1) b assms(3)]
  show "vmm_inv s1 root" using K(1) tp e by blast
  show "tab s1 root q = tab s root q" if "length q \<le> 3" using K(3) [OF _ _ that] tp e by blast
  show "translate s1 root q = translate s root q" if "length q = 4" using K(2) [OF _ _ that] tp e by blast
qed

lemma free_index:
  assumes "pmm_inv s" "k < length (pages s)" "unat off < 4096"
  shows "pmm_get_index_by_address s (pages s ! k + off) = of_nat k"
  using index_by_address_page [OF pmm_invD(2) [OF assms(1)] assms(2,3)]
  by (simp add: pmm_get_index_by_address_def)

lemma free_bit_index_le:
  assumes "pmm_inv s" "k < length (pages s)"
  shows "pmm_bitmap_pages s \<le> of_nat k \<longleftrightarrow> unat (pmm_bitmap_pages s) \<le> k"
  by (simp only: word_le_nat_alt page_index [OF pmm_inv_layout [OF assms(1)] assms(2)])

lemmas set_allocated_vmm [simp] = only_pmm_vmm [OF only_pmm_set] only_pmm_fields [OF only_pmm_set]

text \<open>The small machine before its page tables are in use.\<close>

definition early_vmm :: vmm where "early_vmm = boot_vmm\<lparr>vmm_initialised := False\<rparr>"

lemma early_vmm_inv: "pmm_inv early_vmm" "free_pages early_vmm \<noteq> {}" "\<not> vmm_initialised early_vmm"
proof -
  have "pmm_inv early_vmm = pmm_inv boot_vmm" "free_pages early_vmm = free_pages boot_vmm"
    by (rule pmm_inv_cong; simp add: early_vmm_def)+
  with boot_vmm_inv show "pmm_inv early_vmm" "free_pages early_vmm \<noteq> {}" by (simp_all add: vmm_base_def)
qed (simp add: early_vmm_def)

section \<open>Properties\<close>

text \<open>
  Before the page tables are in use, \<open>pmm_free\<close> undoes \<open>pmm_alloc\<close>: freeing the page just
  returned restores the state, bit for bit.
\<close>

theorem pmm_free_undoes_alloc:
  fixes s :: "'a vmm_scheme"
  assumes "pmm_inv s" and "free_pages s \<noteq> {}" and "\<not> vmm_initialised s"
  shows "pmm_free (fst (pmm_alloc s)) (snd (pmm_alloc s)) = s"
proof (rule pmm_alloc_phys_cases [OF assms(1)])
  assume "allocated s = {..<length (pages s)}"
  with assms(2) show ?thesis by (simp add: free_pages_empty_iff)
next
  fix k assume k: "k < length (pages s)" "k \<notin> allocated s" "{..<k} \<subseteq> allocated s"
    "pmm_alloc_phys s = (pages s ! k, pmm_set_usable_page_allocated_by_index (of_nat k) True s)"
  note ok = pmm_invD(1) [OF assms(1)] and ix = page_index [OF pmm_inv_layout [OF assms(1)] k(1)]
  let ?i = "of_nat k :: u64" and ?s = "pmm_set_usable_page_allocated_by_index (of_nat k) True s"
  have inv: "pmm_inv ?s" using assms(1) k(1) by (rule pmm_inv_set) simp
  note F = only_pmm_fields [OF only_pmm_set [of s ?i True]] only_pmm_vmm [OF only_pmm_set [of s ?i True]]
  have bit: "\<not> bit (mem s (bit_addr s ?i)) (unat ?i mod 8)"
    using k(1,2) is_allocated_eq [OF ok ix(2)] by (simp add: allocated_def)
  have b: "unat (pmm_bitmap_pages s) \<le> k"
    using k(2) pmm_invD(5) [OF assms(1)] by (auto simp: not_less [symmetric])
  have al: "page_aligned (pages s ! k)"
    using k(1) pmm_invD(2) [OF assms(1)] by (auto intro: usable_pages_aligned)
  have "pmm_free (pages s ! k + higher_half_offset s) ?s = pmm_set_usable_page_allocated_by_index ?i False ?s"
    using page_aligned_neq_MAX [OF al] free_index [OF inv, of k 0] free_bit_index_le [OF inv, of k] k(1) b assms(3)
    by (simp add: pmm_free_def Let_def pmm_virt_to_phys_def vmm_has_initialised_def F)
  also have "\<dots> = s"
  proof -
    have ok': "bitmap_ok ?s" "in_bitmap ?s ?i" using pmm_invD(1) [OF inv] page_index(2) [OF pmm_inv_layout [OF inv]] k(1)
      by (simp_all add: F)
    have ad: "bit_addr ?s ?i = bit_addr s ?i" by (simp add: bit_addr_def F)
    have "unset_bit (unat ?i mod 8) (set_bit (unat ?i mod 8) (mem s (bit_addr s ?i))) = mem s (bit_addr s ?i)"
      using bit by (intro bit_word_eqI) (auto simp: bit_unset_bit_iff bit_set_bit_iff)
    moreover have "bit (set_bit (unat ?i mod 8) (mem s (bit_addr s ?i))) (unat ?i mod 8)"
      by (simp add: bit_set_bit_iff)
    ultimately show ?thesis
      unfolding set_allocated_eq [OF ok'] ad unfolding set_allocated_eq [OF ok ix(2)] using bit
      by simp
  qed
  finally show ?thesis by (simp add: pmm_alloc_eq [OF assms(1)] k(4))
qed

theorem pmm_free_undoes_alloc_witness:
  "pmm_free (fst (pmm_alloc early_vmm)) (snd (pmm_alloc early_vmm)) = early_vmm"
  using pmm_free_undoes_alloc [OF early_vmm_inv] .

text \<open>
  The pages of the bitmap cannot be freed, and neither can an address that is not
  mapped: \<open>pmm_free\<close> then changes nothing.
\<close>

theorem pmm_free_protects:
  fixes s :: "'a vmm_scheme"
  assumes "pmm_inv s"
    and "pmm_virt_to_phys s page = UINT64_MAX \<or> (\<exists>k < unat (pmm_bitmap_pages s). \<exists>off. unat off < 4096 \<and>
      pmm_virt_to_phys s page = pages s ! k + off)"
  shows "pmm_free page s = s"
  using assms(2)
proof (elim disjE exE conjE)
  assume "pmm_virt_to_phys s page = UINT64_MAX"
  then show ?thesis by (simp add: pmm_free_def)
next
  fix k off assume k: "k < unat (pmm_bitmap_pages s)" "unat off < 4096"
    "pmm_virt_to_phys s page = pages s ! k + off"
  then have l: "k < length (pages s)" using pmm_invD(4) [OF assms(1)] by simp
  have "\<not> pmm_bitmap_pages s \<le> of_nat k" using free_bit_index_le [OF assms(1) l] k(1) by simp
  then show ?thesis using free_index [OF assms(1) l k(2)] k(3) by (simp add: pmm_free_def Let_def)
qed

theorem pmm_free_protects_witness: "pmm_free (0x1234 + 0xFFFF800000000000) early_vmm = early_vmm"
proof -
  have "higher_half_offset early_vmm = 0xFFFF800000000000" "memmap_entries early_vmm = demo_memmap"
    "unat (pmm_bitmap_pages early_vmm) = 1"
    using boot_vmm_inv(1,4) pmm_layoutD(5) [OF pmm_inv_layout [OF early_vmm_inv(1)]]
    by (simp_all add: early_vmm_def vmm_base_def boot_memmap demo_pages)
  then show ?thesis
    using pmm_free_protects [OF early_vmm_inv(1), of "0x1234 + 0xFFFF800000000000"]
    by (auto simp: pmm_virt_to_phys_def vmm_has_initialised_def early_vmm_inv demo_pages
        intro!: exI [of _ "0x234"])
qed

text \<open>Freeing a page while page tables are in use.\<close>

lemma free_remaps:
  fixes s :: "'a vmm_scheme"
  assumes "vmm_inv s root" and "pml4 s = root + vmm_page_tables_offset s" and "vmm_initialised s"
    and "k < length (pages s)" and "unat (pmm_bitmap_pages s) \<le> k"
    and "vmm_virt_to_phys s page = pages s ! k"
    and "\<forall>p t. length p \<le> 3 \<and> tab s root p = Some t \<longrightarrow> t \<noteq> pages s ! k"
    and "3 \<le> card (free_pages s)" and "no_huge_page s root (pages s ! k + higher_half_offset s)"
  shows "vmm_inv (pmm_free page s) root \<and>
    card (insert (pages s ! k) (free_pages s)) \<le> card (free_pages (pmm_free page s)) + 3 \<and>
    (\<forall>p. length p = 4 \<longrightarrow> translate (pmm_free page s) root p =
      (if p = path_of (pages s ! k + higher_half_offset s) then Some (addr (convert_to_phys s (pages s ! k)))
       else translate s root p))"
    and "only_vmm s (pmm_free page s)"
    and "\<exists>s1. pmm_free page s = vmm_map_page (pages s ! k) (pages s ! k + higher_half_offset s) s1 \<and> vmm_inv s1 root \<and>
      only_pmm s s1 \<and> free_pages s1 = insert (pages s ! k) (free_pages s) \<and>
      (\<forall>q. length q \<le> 3 \<longrightarrow> tab s1 root q = tab s root q) \<and>
      (\<forall>q. length q = 4 \<longrightarrow> translate s1 root q = translate s root q) \<and>
      (\<forall>x. x \<notin> bitmap_bytes s \<longrightarrow> mem s1 x = mem s x) \<and> only_vmm s1 (pmm_free page s) \<and>
      maps_to root (pages s ! k + higher_half_offset s) (Some (addr (convert_to_phys s (pages s ! k)))) s1 (pmm_free page s)"
    and "free_pages (pmm_free page s) = insert (pages s ! k) (free_pages s) -
      {t. \<exists>n \<le> 3. tab (pmm_free page s) root (take n (path_of (pages s ! k + higher_half_offset s))) = Some t}"
    and "tab s root (take 3 (path_of (pages s ! k + higher_half_offset s))) \<noteq> None \<Longrightarrow>
      free_pages (pmm_free page s) = insert (pages s ! k) (free_pages s)"
proof -
  let ?a = "pages s ! k" and ?s = "pmm_set_usable_page_allocated_by_index (of_nat k) False s"
  let ?v = "?a + higher_half_offset s"
  note inv = vmm_invD(2) [OF assms(1)]
  have al: "page_aligned ?a" using assms(4) pmm_invD(2) [OF inv] by (auto intro: usable_pages_aligned)
  have free: "pmm_free page s = vmm_map_page ?a ?v ?s"
    using page_aligned_neq_MAX [OF al] free_index [OF inv assms(4), of 0] free_bit_index_le [OF inv assms(4)]
      assms(3,5,6)
    by (simp add: pmm_free_def Let_def pmm_virt_to_phys_def vmm_has_initialised_def pmm_phys_to_virt_def)
  have i: "pmm_inv ?s" using inv assms(4,5) by (intro pmm_inv_set) simp_all
  have fr: "free_pages ?s = insert ?a (free_pages s)" using inv assms(4,5) by (rule free_pages_set_False)
  note V = vmm_inv_pmm [OF assms(1) i only_pmm_set _ mem_set_allocated [OF pmm_inv_layout [OF inv] assms(4)],
      of ?a]
  have V1: "vmm_inv ?s root" and V2: "length q = 4 \<Longrightarrow> translate ?s root q = translate s root q"
    and V3: "length q \<le> 3 \<Longrightarrow> tab ?s root q = tab s root q"
    and V4: "length q \<le> 3 \<Longrightarrow> tab s root q = Some u \<Longrightarrow> ent ?s u j = ent s u j" for q u j
    using V fr assms(7) by blast+
  have card: "card (free_pages s) \<le> card (free_pages ?s)" unfolding fr by (rule card_mono) auto
  moreover have huge: "no_huge_page ?s root ?v"
    using assms(9) V3 [of "[path_of ?v ! 0]"] V4 [of "[path_of ?v ! 0]"] by (auto simp: no_huge_page_def split: option.splits)
  moreover have conv: "convert_to_phys ?s ?a = convert_to_phys s ?a"
  proof -
    have "tab ?s root (take 3 (path_of ?a)) = tab s root (take 3 (path_of ?a))" by (rule V3) simp
    moreover have "translate ?s root (path_of ?a) = translate s root (path_of ?a)"
      by (rule V2) (rule path_take)
    moreover have "vmm_virt_to_phys ?s ?a = (case translate ?s root (path_of ?a) of None \<Rightarrow> UINT64_MAX
        | Some x \<Rightarrow> if tab ?s root (take 3 (path_of ?a)) = None then x + ?a mod 0x1000 else x)"
      using assms(2,3) by (intro virt_to_phys [OF V1]) simp_all
    ultimately have "vmm_virt_to_phys ?s ?a = vmm_virt_to_phys s ?a"
      using virt_to_phys [OF assms(1-3), of ?a] by (simp only:)
    then show ?thesis by (simp only: convert_to_phys_def)
  qed
  ultimately have M: "maps_to root ?v (Some (addr (convert_to_phys s ?a))) ?s (pmm_free page s)"
    using map_page_maps(1) [OF V1, of ?v ?a "ucast PT_ENTRY_READ_WRITE"] assms(2,8)
    unfolding free vmm_map_page_def by simp
  then show "vmm_inv (pmm_free page s) root \<and>
    card (insert (pages s ! k) (free_pages s)) \<le> card (free_pages (pmm_free page s)) + 3 \<and>
    (\<forall>p. length p = 4 \<longrightarrow> translate (pmm_free page s) root p =
      (if p = path_of (pages s ! k + higher_half_offset s) then Some (addr (convert_to_phys s (pages s ! k)))
       else translate s root p))" using fr V2 by (simp add: maps_to_def)
  have O: "only_vmm ?s (pmm_free page s)"
    using map_page_maps(3) [OF V1, of ?v ?a "ucast PT_ENTRY_READ_WRITE"] huge assms(2,8) card
    unfolding free vmm_map_page_def by simp
  then show "only_vmm s (pmm_free page s)" by (rule only_vmm_trans [OF only_pmm_only_vmm [OF only_pmm_set]])
  show "\<exists>s1. pmm_free page s = vmm_map_page (pages s ! k) (pages s ! k + higher_half_offset s) s1 \<and> vmm_inv s1 root \<and>
      only_pmm s s1 \<and> free_pages s1 = insert (pages s ! k) (free_pages s) \<and>
      (\<forall>q. length q \<le> 3 \<longrightarrow> tab s1 root q = tab s root q) \<and>
      (\<forall>q. length q = 4 \<longrightarrow> translate s1 root q = translate s root q) \<and>
      (\<forall>x. x \<notin> bitmap_bytes s \<longrightarrow> mem s1 x = mem s x) \<and> only_vmm s1 (pmm_free page s) \<and>
      maps_to root (pages s ! k + higher_half_offset s) (Some (addr (convert_to_phys s (pages s ! k)))) s1 (pmm_free page s)"
    using free V1 fr V2 V3 only_pmm_set mem_set_allocated [OF pmm_inv_layout [OF inv] assms(4)] M O by blast
  let ?path = "path_of ?v"
  note T = map_page_tables [OF V1, where v = ?v and a = ?a and f = "ucast PT_ENTRY_READ_WRITE"]
  have sp: "spends ?path root ?s (pmm_free page s)"
    using T(1) huge assms(2,8) card unfolding free vmm_map_page_def by simp
  have keep: "tab (pmm_free page s) root q = Some u" if "length q \<le> 3" "tab s root q = Some u" for q u
    using T(2) [where q = q and u = u] V3 [OF that(1)] that huge assms(2,8) card unfolding free vmm_map_page_def by simp
  have M': "vmm_inv (pmm_free page s) root" "free_pages (pmm_free page s) \<subseteq> insert ?a (free_pages s)"
    using M unfolding maps_to_def fr by blast+
  have "t \<notin> free_pages (pmm_free page s)" if "n \<le> 3" "tab (pmm_free page s) root (take n ?path) = Some t" for n t
    using vmm_invD(4) [OF M'(1) _ that(2)] that(1) by (simp add: table_page_def)
  with sp M'(2) show eq: "free_pages (pmm_free page s) = insert ?a (free_pages s) -
      {t. \<exists>n \<le> 3. tab (pmm_free page s) root (take n ?path) = Some t}"
    unfolding spends_def fr by blast
  show "free_pages (pmm_free page s) = insert ?a (free_pages s)" if leaf: "tab s root (take 3 ?path) \<noteq> None"
  proof -
    have "t \<notin> insert ?a (free_pages s)" if n: "n \<le> 3" and t: "tab (pmm_free page s) root (take n ?path) = Some t" for n t
    proof -
      have "take 3 ?path = take n ?path @ drop n (take 3 ?path)"
        using n by (metis append_take_drop_id min.absorb1 take_take)
      then obtain u where u: "tab s root (take n ?path) = Some u"
        using leaf tab_append [of s root "take n ?path" "drop n (take 3 ?path)"] by (auto split: option.splits)
      have l: "length (take n ?path) \<le> 3" using n by simp
      have "u = t" using keep [OF l u] t by simp
      moreover have "table_page ?s u" using vmm_invD(4) [OF V1 l] V3 [OF l] u by simp
      ultimately show ?thesis by (simp add: table_page_def fr)
    qed
    then show ?thesis unfolding eq by blast
  qed
qed

text \<open>
  C13. With the page tables in use, \<open>pmm_free\<close> of a page that is not a page table clears its bit, keeps
  the invariant, and maps the page back to its address in the direct map, leaving every other mapping
  alone. When the direct map has its table for the page, the free pages are the old ones and this page. Otherwise the tables that are
  missing on the path of the address, at most three, are taken from these pages, and no other page is. What is entered is
  \<open>convert_to_phys\<close> of the page: the page itself unless its number is also a mapped virtual address.
\<close>

theorem pmm_free_remaps:
  fixes s :: "'a vmm_scheme"
  assumes "vmm_inv s root" and "pml4 s = root + vmm_page_tables_offset s" and "vmm_initialised s"
    and "k < length (pages s)" and "unat (pmm_bitmap_pages s) \<le> k"
    and "vmm_virt_to_phys s page = pages s ! k"
    and "\<forall>p t. length p \<le> 3 \<and> tab s root p = Some t \<longrightarrow> t \<noteq> pages s ! k"
    and "3 \<le> card (free_pages s)" and "no_huge_page s root (pages s ! k + higher_half_offset s)"
  shows "vmm_inv (pmm_free page s) root \<and>
    (tab s root (take 3 (path_of (pages s ! k + higher_half_offset s))) \<noteq> None \<longrightarrow>
      free_pages (pmm_free page s) = insert (pages s ! k) (free_pages s)) \<and>
    free_pages (pmm_free page s) = insert (pages s ! k) (free_pages s) -
      {t. \<exists>n \<le> 3. tab (pmm_free page s) root (take n (path_of (pages s ! k + higher_half_offset s))) = Some t} \<and>
    card (insert (pages s ! k) (free_pages s)) \<le> card (free_pages (pmm_free page s)) + 3 \<and>
    (\<forall>p. length p = 4 \<longrightarrow> translate (pmm_free page s) root p =
      (if p = path_of (pages s ! k + higher_half_offset s) then Some (addr (convert_to_phys s (pages s ! k)))
       else translate s root p))"
  using free_remaps(1,4,5) [OF assms] by blast

text \<open>The small machine with the page \<open>0x12000\<close> marked allocated and mapped at \<open>0x8000000000\<close>.\<close>

definition taken_vmm :: vmm where
  "taken_vmm = pmm_set_usable_page_allocated_by_index 6 True demo_vmm"

lemma demo_vmm_pages: "memmap_entries demo_vmm = demo_memmap" "pmm_inv demo_vmm" "pages demo_vmm ! 6 = 0x12000"
  "length (pages demo_vmm) = 16"
proof -
  show m: "memmap_entries demo_vmm = demo_memmap" by (rule demo_machine_fields)
  then show "pages demo_vmm ! 6 = 0x12000" "length (pages demo_vmm) = 16" by (simp_all add: demo_pages)
  show "pmm_inv demo_vmm" using demo_vmm_inv(1) by (rule vmm_invD(2))
qed

lemma taken_vmm:
  "vmm_inv taken_vmm demo_root" "0x12000 \<notin> free_pages taken_vmm" "13 \<le> card (free_pages taken_vmm)"
  "tab taken_vmm demo_root [i] = None" "translate taken_vmm demo_root [i, j, k, l] = None"
proof -
  note D = demo_vmm_pages
  have fr: "free_pages taken_vmm = free_pages demo_vmm - {0x12000}"
    using free_pages_set_True [of demo_vmm 6] D by (simp add: taken_vmm_def)
  then show "0x12000 \<notin> free_pages taken_vmm" by simp
  show "13 \<le> card (free_pages taken_vmm)"
    unfolding fr using card_Diff1_le [of "free_pages demo_vmm" "0x12000"] diff_card_le_card_Diff [of "{0x12000 :: u64}" "free_pages demo_vmm"]
      demo_vmm_inv(2) by simp
  have i: "pmm_inv taken_vmm" using pmm_inv_set [of demo_vmm 6 True] D by (simp add: taken_vmm_def)
  have o: "only_pmm demo_vmm taken_vmm" by (simp add: taken_vmm_def)
  have m: "mem taken_vmm x = mem demo_vmm x" if "x \<notin> bitmap_bytes demo_vmm" for x
    using mem_set_allocated [OF pmm_inv_layout [OF D(2)], of 6 x True] that D(4) by (simp add: taken_vmm_def)
  have t: "u \<noteq> 1" if "length q \<le> 3" "tab demo_vmm demo_root q = Some u" for q u
    using vmm_invD(4) [OF demo_vmm_inv(1) that] by (auto simp: table_page_def page_aligned_def)
  have sub: "free_pages taken_vmm \<subseteq> insert 1 (free_pages demo_vmm)" unfolding fr by auto
  note V = vmm_inv_pmm [OF demo_vmm_inv(1) i o sub m]
  show "vmm_inv taken_vmm demo_root" using V(1) t by blast
  have "tab taken_vmm demo_root q = tab demo_vmm demo_root q" if "length q \<le> 3" for q
    using V(3) [OF _ _ that] t by blast
  from this [of "[i]"] show "tab taken_vmm demo_root [i] = None"
    using demo_vmm_inv(6) [of i "[]"] by (simp del: tab.simps)
  have "translate taken_vmm demo_root q = translate demo_vmm demo_root q" if "length q = 4" for q
    using V(2) [OF _ _ that] t by blast
  from this [of "[i, j, k, l]"] show "translate taken_vmm demo_root [i, j, k, l] = None"
    using demo_vmm_inv(5) by (simp del: translate.simps)
qed

lemma taken_vmm_no_huge: "no_huge_page taken_vmm demo_root v"
  by (simp add: no_huge_page_def taken_vmm(4) del: tab.simps)

definition mapped_vmm :: vmm where
  "mapped_vmm = vmm_map_page 0x12000 0x8000000000 taken_vmm"

theorem pmm_free_remaps_witness:
  "vmm_inv (pmm_free 0x8000000000 mapped_vmm) demo_root \<and>
    free_pages (pmm_free 0x8000000000 mapped_vmm) = insert 0x12000 (free_pages mapped_vmm) -
      {t. \<exists>n \<le> 3. tab (pmm_free 0x8000000000 mapped_vmm) demo_root
        (take n (path_of (0x12000 + higher_half_offset mapped_vmm))) = Some t}"
proof -
  let ?s = "vmm_map_page 0x12000 0x8000000000 taken_vmm"
  have p: "pml4 taken_vmm = demo_root + vmm_page_tables_offset taken_vmm" "vmm_initialised taken_vmm"
    using demo_vmm_inv(3,4) by (simp_all add: taken_vmm_def)
  have none: "translate taken_vmm demo_root (path_of v) = None" for v
    using path_split [of v] taken_vmm(5) by metis
  note M = map_page_maps [OF taken_vmm(1) _ taken_vmm_no_huge, where v = "0x8000000000" and a = "0x12000" and f = "ucast PT_ENTRY_READ_WRITE",
      folded p(1), folded vmm_map_page_def]
  have three: "3 \<le> card (free_pages taken_vmm)" using taken_vmm(3) by simp
  note M1 = M(1) [OF three, unfolded maps_to_def] and F = only_vmm_fields [OF M(3) [OF three]]
  have conv: "convert_to_phys taken_vmm 0x12000 = 0x12000"
    using virt_to_phys [OF taken_vmm(1) p, of "0x12000"] none by (simp add: convert_to_phys_def)
  have a: "addr 0x12000 = 0x12000" by (simp add: page_addr_iff page_aligned_def)
  have "memmap_entries taken_vmm = memmap_entries demo_vmm" "pmm_bitmap_pages taken_vmm = pmm_bitmap_pages demo_vmm"
    by (simp_all add: taken_vmm_def)
  with F(1,3) have pg: "pages ?s = pages demo_vmm" "pmm_bitmap_pages ?s = pmm_bitmap_pages demo_vmm"
    by simp_all
  have root: "pml4 ?s = demo_root + vmm_page_tables_offset ?s" "vmm_initialised ?s"
    using p by (simp_all add: F)
  have look: "vmm_virt_to_phys ?s 0x8000000000 = pages ?s ! 6"
    using virt_to_phys_page [OF _ root, of "0x8000000000"] M1 conv a demo_vmm_pages(3) by (simp add: path_take pg)
  have bm: "unat (pmm_bitmap_pages ?s) \<le> 6"
    using pmm_layoutD(5) [OF pmm_inv_layout [OF demo_vmm_pages(2)]] demo_vmm_pages(4) by (simp add: pg)
  have "tab ?s demo_root p = Some t \<longrightarrow> t \<noteq> 0x12000" if "length p \<le> 3" for p t
  proof
    assume "tab ?s demo_root p = Some t"
    then have "tab taken_vmm demo_root p = Some t \<or> t \<in> free_pages taken_vmm" using M1 that by blast
    moreover have "tab taken_vmm demo_root (i # q) = None" for i q
      using taken_vmm(4) [of i] by (simp split: if_splits)
    moreover have "demo_root \<noteq> 0x12000" by (simp add: demo_root_eq)
    ultimately show "t \<noteq> 0x12000" using taken_vmm(2) by (cases p) (auto simp del: tab.simps(2))
  qed
  then have tabs: "\<forall>p t. length p \<le> 3 \<and> tab ?s demo_root p = Some t \<longrightarrow> t \<noteq> pages ?s ! 6"
    unfolding pg demo_vmm_pages(3) by blast
  have "no_huge_page ?s demo_root (pages ?s ! 6 + higher_half_offset ?s)"
    using M(1) [OF three] taken_vmm_no_huge by (rule maps_to_no_huge)
  then show ?thesis
    using pmm_free_remaps [OF _ root _ bm look tabs] M1 taken_vmm(3) demo_vmm_pages(3,4) pg by (simp add: mapped_vmm_def)
qed

end
