(* ===== verification/Vmm_Pages.thy ===== *)
theory Vmm_Pages
  imports Pmm_Free
begin

text \<open>
  Pages that the kernel takes from the allocator for itself while page tables are in use: the page leaves the memory
  that tables and allocator own, the address space stays as it is, and later changes of the
  tables leave the page alone.
\<close>

lemma vmm_inv_alloc:
  fixes s :: "'a vmm_scheme"
  assumes "vmm_inv s root" "free_pages s \<noteq> {}"
  defines "s1 \<equiv> snd (pmm_alloc s)" and "a \<equiv> fst (pmm_alloc_phys s)"
  shows "fst (pmm_alloc s) = a + higher_half_offset s" "a \<in> free_pages s" "page_aligned a"
    "free_pages s1 = free_pages s - {a}" "only_pmm s s1" "vmm_inv s1 root"
    "x \<notin> bitmap_bytes s \<Longrightarrow> mem s1 x = mem s x"
    "vmm_bytes s1 root \<subseteq> vmm_bytes s root" "x \<notin> vmm_bytes s root \<Longrightarrow> mem s1 x = mem s x"
    "in_range x (a + higher_half_offset s) 4096 \<Longrightarrow> x \<notin> vmm_bytes s1 root"
    "length q \<le> 3 \<Longrightarrow> tab s1 root q = tab s root q" "length q = 4 \<Longrightarrow> translate s1 root q = translate s root q"
    "no_huge_page s root v \<Longrightarrow> no_huge_page s1 root v"
    "in_range x (a + higher_half_offset s) 4096 \<Longrightarrow> x \<in> vmm_bytes s root"
proof -
  note D = vmm_invD [OF assms(1)] and A = alloc_phys_page [OF vmm_invD(2) [OF assms(1)] assms(2)]
  have s1: "s1 = snd (pmm_alloc_phys s)" by (simp add: s1_def pmm_alloc_eq [OF D(2)])
  show "fst (pmm_alloc s) = a + higher_half_offset s" by (simp add: a_def pmm_alloc_eq [OF D(2)])
  show a: "a \<in> free_pages s" unfolding a_def by (rule A(1))
  show al: "page_aligned a" using D(2) a by (rule free_pages_aligned)
  show fr: "free_pages s1 = free_pages s - {a}" unfolding s1 a_def by (rule A(2))
  show o: "only_pmm s s1" unfolding s1 by (rule only_pmm_alloc_phys [OF D(2)])
  have p1: "pmm_inv s1" unfolding s1 by (rule A(3))
  show m: "mem s1 x = mem s x" if "x \<notin> bitmap_bytes s" for x unfolding s1 using that by (rule A(4))
  then show "x \<notin> vmm_bytes s root \<Longrightarrow> mem s1 x = mem s x" by (simp add: vmm_bytes_def)
  have sub: "free_pages s1 \<subseteq> insert a (free_pages s)" using fr by blast
  have na: "t \<noteq> a" if "length p \<le> 3" "tab s root p = Some t" for p t
    using D(4) [OF that] a by (auto simp: table_page_def)
  note V = vmm_inv_pmm [OF assms(1) p1 o sub]
  show v1: "vmm_inv s1 root" using V(1) m na by blast
  show t: "tab s1 root q = tab s root q" if "length q \<le> 3" for q using V(3) [OF _ _ that] m na by blast
  show "translate s1 root q = translate s root q" if "length q = 4" for q using V(2) [OF _ _ that] m na by blast
  have e: "ent s1 u j = ent s u j" if "length q \<le> 3" "tab s root q = Some u" for q u j
    using V(4) [OF _ _ that] m na by blast
  show "vmm_bytes s1 root \<subseteq> vmm_bytes s root" using o _ t by (rule vmm_bytes_keep) (simp add: fr)
  show "no_huge_page s1 root v" if n: "no_huge_page s root v"
    using t [of "[path_of v ! 0]"] n e [of "[path_of v ! 0]"]
    by (auto simp: no_huge_page_def simp del: tab.simps split: option.splits)
  show "x \<in> vmm_bytes s root" if "in_range x (a + higher_half_offset s) 4096"
    using that a by (auto simp: vmm_bytes_def free_virt_def)
  show "x \<notin> vmm_bytes s1 root" if x: "in_range x (a + higher_half_offset s) 4096"
  proof -
    have hh: "higher_half_offset s1 = higher_half_offset s" "bitmap_bytes s1 = bitmap_bytes s"
      "vmm_page_tables_offset s1 = higher_half_offset s"
      using only_pmm_fields(1-3) [OF o] only_pmm_vmm [OF o] D(3) by (simp_all add: bitmap_bytes_def)
    have "x \<notin> bitmap_bytes s1" unfolding hh using D(2) a x by (rule free_page_not_bitmap_bytes)
    moreover have "p = a" if "p \<in> free_pages s1" "in_range x (p + higher_half_offset s) 4096" for p
      using that fr free_pages_aligned [OF D(2)] by (intro pages_apart [OF _ al _ x]) blast
    then have "\<not> in_range x p 4096" if "p \<in> free_virt s1" for p
      using that fr by (auto simp: free_virt_def hh)
    moreover have "\<not> in_range x (t + higher_half_offset s) 4096" if "length p \<le> 3" "tab s1 root p = Some t" for p t
    proof
      assume i: "in_range x (t + higher_half_offset s) 4096"
      have "tab s root p = Some t" using t [OF that(1)] that(2) by simp
      with D(4) [OF that(1)] na [OF that(1)] have "page_aligned t" "t \<noteq> a" by (simp_all add: table_page_def)
      with pages_apart [OF _ al i x] show False by blast
    qed
    ultimately show ?thesis unfolding vmm_bytes_def hh by blast
  qed
qed

text \<open>
  \<open>keeps root s s'\<close>: the tables of \<open>s'\<close> are those of \<open>s\<close>, tables and allocator own no more memory than before, and memory
  that they did not own is unchanged.
\<close>

definition keeps :: "u64 \<Rightarrow> 'a vmm_scheme \<Rightarrow> 'a vmm_scheme \<Rightarrow> bool" where
  "keeps root s s' \<longleftrightarrow> vmm_inv s' root \<and> vmm_bytes s' root \<subseteq> vmm_bytes s root \<and>
    (\<forall>x. x \<notin> vmm_bytes s root \<longrightarrow> mem s' x = mem s x) \<and>
    (\<forall>q. length q \<le> 3 \<longrightarrow> tab s' root q = tab s root q) \<and>
    (\<forall>q. length q = 4 \<longrightarrow> translate s' root q = translate s root q) \<and>
    (\<forall>v. no_huge_page s root v \<longrightarrow> no_huge_page s' root v) \<and>
    pages s' = pages s \<and> higher_half_offset s' = higher_half_offset s \<and> pmm_bitmap_pages s' = pmm_bitmap_pages s \<and>
    vmm_page_tables_offset s' = vmm_page_tables_offset s \<and> pml4 s' = pml4 s \<and>
    vmm_initialised s' = vmm_initialised s \<and> cpu_ops s' = cpu_ops s"

lemma keepsD:
  assumes "keeps root s s'"
  shows "vmm_inv s' root" "vmm_bytes s' root \<subseteq> vmm_bytes s root" "x \<notin> vmm_bytes s root \<Longrightarrow> mem s' x = mem s x"
    "length q \<le> 3 \<Longrightarrow> tab s' root q = tab s root q" "length q = 4 \<Longrightarrow> translate s' root q = translate s root q"
    "no_huge_page s root v \<Longrightarrow> no_huge_page s' root v" "pages s' = pages s"
    "higher_half_offset s' = higher_half_offset s" "pmm_bitmap_pages s' = pmm_bitmap_pages s"
    "vmm_page_tables_offset s' = vmm_page_tables_offset s" "pml4 s' = pml4 s"
    "vmm_initialised s' = vmm_initialised s" "cpu_ops s' = cpu_ops s"
  using assms unfolding keeps_def by blast+

lemma keeps_trans [trans]:
  assumes "keeps root s s1" "keeps root s1 s2"
  shows "keeps root s s2"
proof -
  note A = keepsD [OF assms(1)] and B = keepsD [OF assms(2)]
  have "mem s2 x = mem s x" if "x \<notin> vmm_bytes s root" for x
    using A(3) [OF that] B(3) [of x] A(2) that by (auto dest: subsetD)
  moreover have "vmm_bytes s2 root \<subseteq> vmm_bytes s root" using A(2) B(2) by blast
  ultimately show ?thesis
    unfolding keeps_def using A B(1,4-) by simp
qed

lemma keeps_same_tables:
  assumes "vmm_inv s root" "same_tables s s'" "pml4 s' = pml4 s" "vmm_initialised s' = vmm_initialised s" "cpu_ops s' = cpu_ops s"
  shows "keeps root s s'"
  using assms(1,3-5) assms(2) [unfolded same_tables_def]
  unfolding keeps_def no_huge_page_def same_tables [OF assms(2)] by simp

lemma keeps_alloc:
  assumes "vmm_inv s root" "free_pages s \<noteq> {}"
  shows "keeps root s (snd (pmm_alloc s))"
proof -
  note A = vmm_inv_alloc [OF assms]
  have "cpu_ops (snd (pmm_alloc s)) = cpu_ops s" using A(5) by (elim only_pmmE) simp
  then show ?thesis
    unfolding keeps_def using A(6,8,9,11-13) only_pmm_fields [OF A(5)] only_pmm_vmm [OF A(5)] by simp
qed

text \<open>A write to memory taken from the allocator.\<close>

lemma keeps_mem:
  assumes "keeps root s s1" "\<And>x. x \<in> vmm_bytes s1 root \<or> x \<notin> vmm_bytes s root \<Longrightarrow> m x = mem s1 x"
  shows "keeps root s (s1\<lparr>mem := m\<rparr>)" "free_pages (s1\<lparr>mem := m\<rparr>) = free_pages s1"
proof -
  note A = keepsD [OF assms(1)]
  have "x \<in> vmm_bytes s1 root \<Longrightarrow> m x = mem s1 x" for x using assms(2) by blast
  note V = vmm_inv_mem [OF A(1) this]
  show "free_pages (s1\<lparr>mem := m\<rparr>) = free_pages s1" by (rule V(2))
  show "keeps root s (s1\<lparr>mem := m\<rparr>)"
    unfolding keeps_def using A V(1,3-6) assms(2) by auto
qed

end
