(* ===== verification/Vmm_Map_Pages.thy ===== *)
theory Vmm_Map_Pages
  imports Pmm_Free
begin

text \<open>
  \<open>vmm_map_pages_pml4\<close> of \<open>src/mem/vmm.c\<close>, which maps a run of pages and uses 2 MiB and 1 GiB pages where the
  run is long enough. The local variables of the C function that its loop updates are the fields of
  \<open>cursor\<close>; the entry pointers are addresses. The result is the exact cost of a run within one page table; \<open>Vmm_Runs\<close>
  has the runs that cross the borders of tables.
\<close>

section \<open>The operation\<close>

record cursor =
  pml4_i :: u64
  pdpt_i :: u64
  pd_i :: u64
  pt_i :: u64
  pdpt :: u64
  pdpt_entry :: u64
  pd :: u64
  pd_entry :: u64
  pt :: u64
  pt_entry :: u64
  current_phys :: u64

text \<open>Which kind of page the round maps, and the index \<open>i\<close> after the branch that maps it.\<close>

definition huge_round :: "u64 \<Rightarrow> u64 \<Rightarrow> cursor \<Rightarrow> bool" where
  "huge_round num_pages i c \<longleftrightarrow> num_pages - 1 - i > 512 * 512 \<and> pd_i c = 0 \<and> pt_i c = 0"

definition large_round :: "u64 \<Rightarrow> u64 \<Rightarrow> cursor \<Rightarrow> bool" where
  "large_round num_pages i c \<longleftrightarrow> num_pages - 1 - i > 512 \<and> pt_i c = 0"

definition place_index :: "u64 \<Rightarrow> u64 \<Rightarrow> cursor \<Rightarrow> u64" where
  "place_index num_pages i c =
    (if huge_round num_pages i c then i + (512 * 512 - 1)
     else if large_round num_pages i c then i + (512 - 1)
     else i)"

definition place_cursor :: "u64 \<Rightarrow> u64 \<Rightarrow> cursor \<Rightarrow> cursor" where
  "place_cursor num_pages i c =
    (if huge_round num_pages i c then
       c\<lparr>pt_i := pt_i c + 512, pd_i := pd_i c + 512, current_phys := current_phys c + 0x1000 * 512 * 512\<rparr>
     else if large_round num_pages i c then
       c\<lparr>pt_i := pt_i c + 512, current_phys := current_phys c + 0x1000 * 512\<rparr>
     else c\<lparr>pt_i := pt_i c + 1, current_phys := current_phys c + 0x1000\<rparr>)"

definition place_page :: "u64 \<Rightarrow> u64 \<Rightarrow> cursor \<Rightarrow> 'a vmm_scheme \<Rightarrow> 'a vmm_scheme" where
  "place_page num_pages i c s =
    (if huge_round num_pages i c then
       (let s = pmm_free (pt c) s;
            s = pmm_free (pd c) s;
            s = or_entry (pdpt_entry c) PT_ENTRY_LARGER_PAGES s
        in set_entry_address (pdpt_entry c) (current_phys c) s)
     else if large_round num_pages i c then
       (let s = pmm_free (pt c) s;
            s = or_entry (pd_entry c) PT_ENTRY_LARGER_PAGES s
        in set_entry_address (pd_entry c) (current_phys c) s)
     else set_entry_address (pt_entry c) (current_phys c) s)"

text \<open>The next indices; \<open>None\<close> when the root table has no further entry.\<close>

definition enter_pdpt :: "u64 \<Rightarrow> cursor \<times> 'a vmm_scheme \<Rightarrow> cursor \<times> 'a vmm_scheme" where
  "enter_pdpt p_pml4 cs =
    (let (c, s) = cs;
         pml4_entry = slot p_pml4 (pml4_i c);
         s = ensure_present pml4_entry s
     in (c\<lparr>pdpt := next_table s pml4_entry\<rparr>, s))"

definition enter_pd :: "cursor \<times> 'a vmm_scheme \<Rightarrow> cursor \<times> 'a vmm_scheme" where
  "enter_pd cs =
    (let (c, s) = cs;
         c = c\<lparr>pdpt_entry := slot (pdpt c) (pdpt_i c)\<rparr>;
         s = ensure_present (pdpt_entry c) s
     in (c\<lparr>pd := next_table s (pdpt_entry c)\<rparr>, s))"

definition enter_pt :: "cursor \<times> 'a vmm_scheme \<Rightarrow> cursor \<times> 'a vmm_scheme" where
  "enter_pt cs =
    (let (c, s) = cs;
         c = c\<lparr>pd_entry := slot (pd c) (pd_i c)\<rparr>;
         s = ensure_present (pd_entry c) s
     in (c\<lparr>pt := next_table s (pd_entry c)\<rparr>, s))"

definition enter_page :: "cursor \<times> 'a vmm_scheme \<Rightarrow> cursor \<times> 'a vmm_scheme" where
  "enter_page cs =
    (let (c, s) = cs;
         c = c\<lparr>pt_entry := slot (pt c) (pt_i c)\<rparr>
     in (c, ensure_present (pt_entry c) s))"

definition next_page :: "u64 \<Rightarrow> cursor \<Rightarrow> 'a vmm_scheme \<Rightarrow> (cursor \<times> 'a vmm_scheme) option" where
  "next_page p_pml4 c s =
    (if \<not> pt_i c > 511 then Some (enter_page (c, s))
     else
       let c = c\<lparr>pt_i := 0, pd_i := pd_i c + 1\<rparr> in
       if \<not> pd_i c > 511 then Some (enter_page (enter_pt (c, s)))
       else
         let c = c\<lparr>pd_i := 0, pdpt_i := pdpt_i c + 1\<rparr> in
         if \<not> pdpt_i c > 511 then Some (enter_page (enter_pt (enter_pd (c, s))))
         else
           let c = c\<lparr>pdpt_i := 0, pml4_i := pml4_i c + 1\<rparr> in
           if pml4_i c > 511 then None
           else Some (enter_page (enter_pt (enter_pd (enter_pdpt p_pml4 (c, s))))))"

lemma place_index: 
  assumes "i < num_pages"
  shows "i \<le> place_index num_pages i c" "place_index num_pages i c < num_pages"
proof -
  have n: "unat (num_pages - 1 - i) = unat num_pages - 1 - unat i"
    using assms by (simp add: word_less_nat_alt unat_sub_if_size)
  have "unat (i + d) = unat i + unat d" if "num_pages - 1 - i > d" for d
  proof -
    have "unat i + unat d < 18446744073709551616"
      using that n assms unat_u64_less [of num_pages] unfolding word_less_nat_alt by linarith
    then show ?thesis using unat_add_lem [of i d] by simp
  qed
  from this [of "512 * 512 - 1"] this [of "512 - 1"] show "i \<le> place_index num_pages i c" "place_index num_pages i c < num_pages"
    using assms n
    by (auto simp: place_index_def huge_round_def large_round_def word_le_nat_alt word_less_nat_alt)
qed

function map_pages_loop :: "u64 \<Rightarrow> u64 \<Rightarrow> u64 \<Rightarrow> cursor \<Rightarrow> 'a vmm_scheme \<Rightarrow> 'a vmm_scheme" where
  "map_pages_loop p_pml4 num_pages i c s =
    (if i < num_pages then
       let s1 = place_page num_pages i c s;
           c1 = place_cursor num_pages i c
       in if place_index num_pages i c = num_pages - 1 then s1
          else
            (case next_page p_pml4 c1 s1 of
               None \<Rightarrow> s1
             | Some (c2, s2) \<Rightarrow> map_pages_loop p_pml4 num_pages (place_index num_pages i c + 1) c2 s2)
     else s)"
  by pat_completeness auto
termination
proof (relation "measure (\<lambda>(_, n, i, _). unat n - unat i)", simp)
  fix p n i :: u64 and c c2 :: cursor and s s1 s2 :: "'a vmm_scheme" and c1 r
  assume i: "i < n"
  show "((p, n, place_index n i c + 1, c2, s2), p, n, i, c, s) \<in> measure (\<lambda>(_, n, i, _). unat n - unat i)"
    using place_index [OF i, of c] i u64_Suc [OF place_index(2) [OF i, of c]]
    by (simp add: word_le_nat_alt word_less_nat_alt)
qed

declare map_pages_loop.simps [simp del]

definition vmm_map_pages_pml4 :: "u64 \<Rightarrow> u64 \<Rightarrow> u64 \<Rightarrow> u64 \<Rightarrow> 'a vmm_scheme \<Rightarrow> 'a vmm_scheme" where
  "vmm_map_pages_pml4 p_pml4 physical_address virtual_address num_pages s =
    (let c = \<lparr>pml4_i = PML4_INDEX virtual_address, pdpt_i = PDPT_INDEX virtual_address,
               pd_i = PD_INDEX virtual_address, pt_i = PT_INDEX virtual_address,
               pdpt = 0, pdpt_entry = 0, pd = 0, pd_entry = 0, pt = 0, pt_entry = 0,
               current_phys = convert_to_phys s physical_address\<rparr>;
         (c, s) = enter_page (enter_pt (enter_pd (enter_pdpt p_pml4 (c, s))))
     in map_pages_loop p_pml4 num_pages 0 c s)"

section \<open>Entries of one page table\<close>

lemma set_entry_twice: "set_entry a w (set_entry a v s) = set_entry a w s"
  by (simp add: set_entry_def store64_def store_le_twice)

lemma entry_value_set: "entry_value (set_entry a v s) a = v"
  by (simp add: entry_value_def set_entry_def cell64.rd_wr)

lemma point_entry_eq: "point_entry e a s = set_entry e (pointed (entry_value s e) a) s"
  by (simp add: point_entry_def or_entry_def set_entry_address_def entry_value_set set_entry_twice pointed_def)

text \<open>
  \<open>leaves p t U s s'\<close>: the tables of \<open>s'\<close> are those of \<open>s\<close>, addresses with a path outside \<open>U\<close>
  are mapped as before, and the rest of the invariant is kept.
\<close>

definition leaves :: "u64 \<Rightarrow> path set \<Rightarrow> 'a vmm_scheme \<Rightarrow> 'a vmm_scheme \<Rightarrow> bool" where
  "leaves root U s s' \<longleftrightarrow> vmm_inv s' root \<and> only_pmm s s' \<and> free_pages s' \<subseteq> free_pages s \<and>
    (\<forall>q. length q \<le> 3 \<longrightarrow> tab s' root q = tab s root q) \<and>
    (\<forall>q. length q = 4 \<longrightarrow> q \<notin> U \<longrightarrow> translate s' root q = translate s root q) \<and>
    (\<forall>x. x \<notin> vmm_bytes s root \<longrightarrow> mem s' x = mem s x) \<and>
    (\<forall>q u j. length q \<le> 2 \<longrightarrow> tab s root q = Some u \<longrightarrow> ent s' u j = ent s u j)"

lemma leavesD:
  assumes "leaves root U s s'"
  shows "vmm_inv s' root" "only_pmm s s'" "free_pages s' \<subseteq> free_pages s"
    "length q \<le> 3 \<Longrightarrow> tab s' root q = tab s root q"
    "length q = 4 \<Longrightarrow> q \<notin> U \<Longrightarrow> translate s' root q = translate s root q"
    "x \<notin> vmm_bytes s root \<Longrightarrow> mem s' x = mem s x" "vmm_bytes s' root \<subseteq> vmm_bytes s root"
    "vmm_page_tables_offset s' = vmm_page_tables_offset s" "entry_ptr s' t i = entry_ptr s t i"
    "length q \<le> 2 \<Longrightarrow> tab s root q = Some u \<Longrightarrow> ent s' u j = ent s u j"
proof -
  show *: "vmm_inv s' root" "only_pmm s s'" "free_pages s' \<subseteq> free_pages s"
    "length q \<le> 3 \<Longrightarrow> tab s' root q = tab s root q"
    "length q = 4 \<Longrightarrow> q \<notin> U \<Longrightarrow> translate s' root q = translate s root q"
    "x \<notin> vmm_bytes s root \<Longrightarrow> mem s' x = mem s x" for q x
    using assms unfolding leaves_def by blast+
  show "length q \<le> 2 \<Longrightarrow> tab s root q = Some u \<Longrightarrow> ent s' u j = ent s u j"
    using assms unfolding leaves_def by blast
  show "vmm_bytes s' root \<subseteq> vmm_bytes s root" using *(2-4) by (rule vmm_bytes_keep)
  show "vmm_page_tables_offset s' = vmm_page_tables_offset s" using only_pmm_vmm [OF *(2)] by simp
  then show "entry_ptr s' t i = entry_ptr s t i" by (simp add: entry_ptr_def)
qed

lemma leaves_trans:
  assumes "leaves root U s s1" "leaves root V s1 s2"
  shows "leaves root (U \<union> V) s s2"
proof -
  note A = leavesD [OF assms(1)] and B = leavesD [OF assms(2)]
  show ?thesis
    unfolding leaves_def
  proof (intro conjI allI impI)
    show "only_pmm s s2" using A(2) B(2) by (rule only_pmm_trans)
    show "free_pages s2 \<subseteq> free_pages s" using A(3) B(3) by blast
    show "tab s2 root q = tab s root q" if "length q \<le> 3" for q using A(4) B(4) that by simp
    show "translate s2 root q = translate s root q" if "length q = 4" "q \<notin> U \<union> V" for q using A(5) B(5) that by simp
    show "mem s2 x = mem s x" if "x \<notin> vmm_bytes s root" for x
      using A(6) [OF that] B(6) [of x] that A(7) by auto
    show "ent s2 u j = ent s u j" if "length q \<le> 2" "tab s root q = Some u" for q u j
      using A(4) [of q] A(10) [OF that] B(10) [of q u j] that by simp
  qed (rule B(1))
qed

lemma leaves_mono: "leaves root U s s' \<Longrightarrow> U \<subseteq> V \<Longrightarrow> leaves root V s s'"
  unfolding leaves_def by blast

lemma leaves_store:
  assumes "vmm_inv s root" "tab s root p = Some t" "length p = 3"
  shows "leaves root {p @ [i]} s (set_entry (entry_ptr s t i) v s)"
  unfolding leaves_def using store_leaf [OF assms, where i = i and v = v] by simp

lemma ensure_leaf:
  fixes s :: "'a vmm_scheme"
  assumes inv: "vmm_inv s root" and p: "tab s root p = Some t" "length p = 3"
    and fr: "present (ent s t i) \<or> free_pages s \<noteq> {}"
  defines "s' \<equiv> ensure_present (entry_ptr s t i) s"
  shows "leaves root {p @ [i]} s s'" "present (ent s' t i)"
    "card (free_pages s) = card (free_pages s') + (if present (ent s t i) then 0 else 1)"
    "j \<noteq> i \<Longrightarrow> ent s' t j = ent s t j"
proof -
  have al: "page_aligned t" using vmm_invD(4) [OF inv _ p(1)] p(2) by (simp add: table_page_def)
  have tp: "table_page s t" using vmm_invD(4) [OF inv _ p(1)] p(2) by simp
  consider "present (ent s t i)" | "\<not> present (ent s t i)" "free_pages s \<noteq> {}" using fr by blast
  then have "leaves root {p @ [i]} s s' \<and> present (ent s' t i) \<and>
    card (free_pages s) = card (free_pages s') + (if present (ent s t i) then 0 else 1) \<and>
    (\<forall>j. j \<noteq> i \<longrightarrow> ent s' t j = ent s t j)"
  proof cases
    case 1
    then have "s' = s" by (simp add: s'_def ensure_present_def ent_def present_def)
    with 1 inv show ?thesis by (simp add: leaves_def)
  next
    case 2
    let ?a = "fst (pmm_alloc_phys s)" and ?s = "snd (pmm_allocz s)"
    note A = vmm_inv_allocz [OF inv 2(2)] and B = allocz_page [OF vmm_invD(1) [OF inv] 2(2) refl]
    have ep: "entry_ptr ?s t i = entry_ptr s t i" using only_pmm_vmm [OF A(2)] by (simp add: entry_ptr_def)
    have eq: "s' = set_entry (entry_ptr ?s t i) (pointed (ent ?s t i) ?a) ?s"
      unfolding s'_def ensure_present_eq [OF vmm_invD(1) [OF inv] 2(2,1)] point_entry_eq
      by (simp add: ent_def ep)
    have p': "tab ?s root p = Some t" using A(6) [of p] p by simp
    note L = store_leaf [OF A(1) p' p(2), where i = i and v = "pointed (ent ?s t i) ?a", folded eq]
    have "ent ?s u j = ent s u j" if "length q \<le> 2" "tab s root q = Some u" for q u j
      using that by (intro B(9) vmm_invD(4) [OF inv _ that(2)]) simp
    then have "leaves root {} s ?s" unfolding leaves_def using A B(4) by blast
    then have "leaves root {p @ [i]} s s'"
      using leaves_trans leaves_store [OF A(1) p' p(2), of i "pointed (ent ?s t i) ?a", folded eq] by fastforce
    moreover have "card (free_pages s) = card (free_pages s') + 1"
      using B(2,4) L(5) card_Suc_Diff1 [of "free_pages s" ?a] by simp
    moreover have "ent s' t j = (if j = i then pointed (ent ?s t i) ?a else ent s t j)" for j
      using ent_set_entry [OF al al, of ?s i "pointed (ent ?s t i) ?a" j] B(9) [OF tp, of j] by (simp add: eq)
    ultimately show ?thesis using 2(1) by simp
  qed
  then show "leaves root {p @ [i]} s s'" "present (ent s' t i)"
    "card (free_pages s) = card (free_pages s') + (if present (ent s t i) then 0 else 1)"
    "j \<noteq> i \<Longrightarrow> ent s' t j = ent s t j" by blast+
qed

section \<open>A run of pages within one table\<close>

definition missing :: "'a vmm_scheme \<Rightarrow> u64 \<Rightarrow> nat \<Rightarrow> nat \<Rightarrow> nat" where
  "missing s t k l = length (filter (\<lambda>j. \<not> present (ent s t (of_nat j))) [k..<l])"

lemma missing_step: "k < l \<Longrightarrow> missing s t k l = (if present (ent s t (of_nat k)) then 0 else 1) + missing s t (Suc k) l"
  by (simp add: missing_def upt_conv_Cons)

lemma missing_cong:
  "(\<And>j. k \<le> j \<Longrightarrow> j < l \<Longrightarrow> ent s' t (of_nat j) = ent s t (of_nat j)) \<Longrightarrow> missing s' t k l = missing s t k l"
  unfolding missing_def by (rule arg_cong [where f = length], rule filter_cong) auto

lemma missing_le: "missing s t k l \<le> l - k"
  unfolding missing_def using length_filter_le [of _ "[k..<l]"] by simp

lemma unat_small: "k < 512 \<Longrightarrow> unat (of_nat k :: 9 word) = k"
  by (simp add: unat_of_nat take_bit_nat_eq_self)

lemma small_index: "k < 512 \<Longrightarrow> ucast (of_nat k :: 9 word) = (of_nat k :: u64)"
  by (rule unat_eq_of_nat) (simp only: unat_index(1) unat_small)

lemma small_index_eq: "j < 512 \<Longrightarrow> k < 512 \<Longrightarrow> (of_nat j :: 9 word) = of_nat k \<longleftrightarrow> j = k"
  by (metis unat_small)

lemma slot_entry: "k < 512 \<Longrightarrow> slot (t + vmm_page_tables_offset s) (of_nat k) = entry_ptr s t (of_nat k)"
  by (simp add: entry_ptr_def small_index)

text \<open>A round that maps a single page.\<close>

definition small_round :: "u64 \<Rightarrow> u64 \<Rightarrow> cursor \<Rightarrow> bool" where
  "small_round n i c \<longleftrightarrow> \<not> huge_round n i c \<and> \<not> large_round n i c"

lemma small_round: "unat n \<le> unat i + 513 \<Longrightarrow> i < n \<Longrightarrow> small_round n i c"
proof -
  assume n: "unat n \<le> unat i + 513" "i < n"
  have "unat (n - 1 - i) = unat n - 1 - unat i"
    using n(2) by (simp add: word_less_nat_alt unat_sub_if_size)
  then have "unat (n - 1 - i) \<le> 512" using n(1) by linarith
  then show ?thesis by (auto simp: small_round_def huge_round_def large_round_def word_less_nat_alt)
qed

lemma map_pages_small:
  assumes "small_round n i c" "i < n"
  shows "map_pages_loop root n i c s =
    (let s1 = set_entry_address (pt_entry c) (current_phys c) s;
         c1 = c\<lparr>pt_i := pt_i c + 1, current_phys := current_phys c + 0x1000\<rparr>
     in if unat n = Suc (unat i) then s1
        else case next_page root c1 s1 of None \<Rightarrow> s1 | Some (c2, s2) \<Rightarrow> map_pages_loop root n (i + 1) c2 s2)"
proof -
  have "unat (n - 1) = unat n - 1" using assms(2) by (auto simp: word_less_nat_alt unat_sub_if_size)
  then have "i = n - 1 \<longleftrightarrow> unat n = Suc (unat i)" using assms(2) by (auto simp: word_unat_eq_iff word_less_nat_alt)
  moreover have "place_index n i c = i" using assms(1) by (simp add: small_round_def place_index_def)
  ultimately show ?thesis
    using assms by (subst map_pages_loop.simps) (simp add: small_round_def place_page_def place_cursor_def Let_def split: option.split)
qed

lemma set_leaf_address:
  fixes s :: "'a vmm_scheme" and a :: u64
  assumes "vmm_inv s root" "tab s root p = Some t" "length p = 3" "present (ent s t i)"
  defines "s1 \<equiv> set_entry_address (entry_ptr s t i) a s"
  shows "leaves root {p @ [i]} s s1" "translate s1 root (p @ [i]) = Some (addr a)" "free_pages s1 = free_pages s"
    "j \<noteq> i \<Longrightarrow> ent s1 t j = ent s t j"
proof -
  let ?v = "vmm_pt_entry_set_address (ent s t i) a"
  have s1: "s1 = set_entry (entry_ptr s t i) ?v s" by (simp add: s1_def set_entry_address_def ent_def)
  note L = store_leaf [OF assms(1-3), where i = i and v = ?v, folded s1]
  show "leaves root {p @ [i]} s s1" unfolding s1 by (rule leaves_store [OF assms(1-3)])
  show "translate s1 root (p @ [i]) = Some (addr a)"
    using L(3) [of "p @ [i]"] assms(3,4) by (simp add: addr_set_address)
  show "free_pages s1 = free_pages s" by (rule L(5))
  have al: "page_aligned t" using vmm_invD(4) [OF assms(1) _ assms(2)] assms(3) by (simp add: table_page_def)
  show "j \<noteq> i \<Longrightarrow> ent s1 t j = ent s t j" using ent_set_entry [OF al al, of s i ?v j] by (simp add: s1)
qed

text \<open>The next page is in the same table.\<close>

lemma next_page_in_table:
  assumes "pt_i c = of_nat (Suc k)" "Suc k < 512" "pt c = t + vmm_page_tables_offset s"
  shows "next_page root c s = Some (c\<lparr>pt_entry := entry_ptr s t (of_nat (Suc k))\<rparr>, ensure_present (entry_ptr s t (of_nat (Suc k))) s)"
proof -
  have "\<not> pt_i c > 511"
    unfolding assms(1) using assms(2) by (simp only: word_less_nat_alt not_less unat_of_nat) (simp add: take_bit_nat_eq_self)
  then show ?thesis using slot_entry [OF assms(2), of t s] by (simp add: next_page_def enter_page_def assms(1,3) Let_def)
qed

lemma map_pages_loop_table:
  fixes s :: "'a vmm_scheme" and p_pml4 :: u64
  assumes "vmm_inv s root" "tab s root p = Some t" "length p = 3"
    and "pt c = t + vmm_page_tables_offset s" "pt_i c = of_nat k" "pt_entry c = entry_ptr s t (of_nat k)"
    and "present (ent s t (of_nat k))" "unat n = unat i + Suc r" "k + Suc r \<le> 512"
    and "missing s t (Suc k) (k + Suc r) \<le> card (free_pages s)"
  defines "s' \<equiv> map_pages_loop p_pml4 n i c s"
  shows "leaves root ((\<lambda>j. p @ [of_nat (k + j)]) ` {..<Suc r}) s s' \<and>
    (\<forall>j < Suc r. translate s' root (p @ [of_nat (k + j)]) = Some (addr (current_phys c + of_nat (4096 * j)))) \<and>
    card (free_pages s) = card (free_pages s') + missing s t (Suc k) (k + Suc r)"
  using assms(1-10) unfolding s'_def
proof (induction r arbitrary: s c k i)
  case (0 s c k i)
  have i: "i < n" using 0(8) by (simp add: word_less_nat_alt)
  have "map_pages_loop p_pml4 n i c s = set_entry_address (pt_entry c) (current_phys c) s"
    using 0(8,9) i by (simp add: map_pages_small [OF small_round] Let_def)
  then show ?case using set_leaf_address [OF 0(1-3,7), where a = "current_phys c"] by (simp add: 0(6) missing_def lessThan_Suc)
next
  case (Suc r s c k i)
  have i: "i < n" and i1: "unat (i + 1) = Suc (unat i)" and k: "Suc k < 512" "k < 512"
    using Suc.prems(8,9) u64_Suc [of i n] by (simp_all add: word_less_nat_alt)
  define s1 where "s1 = set_entry_address (pt_entry c) (current_phys c) s"
  define c1 where "c1 = c\<lparr>pt_i := pt_i c + 1, current_phys := current_phys c + 0x1000\<rparr>"
  note L = set_leaf_address [OF Suc.prems(1-3,7), where a = "current_phys c", folded Suc.prems(6), folded s1_def]
  note L1 = leavesD [OF L(1)]
  define s2 where "s2 = ensure_present (entry_ptr s1 t (of_nat (Suc k))) s1"
  define c2 where "c2 = c1\<lparr>pt_entry := entry_ptr s1 t (of_nat (Suc k))\<rparr>"
  have "next_page p_pml4 c1 s1 = Some (c2, s2)"
    unfolding c2_def s2_def using Suc.prems(4,5) k(1) L1(8) by (intro next_page_in_table) (simp_all add: c1_def)
  then have step: "map_pages_loop p_pml4 n i c s = map_pages_loop p_pml4 n (i + 1) c2 s2"
    using Suc.prems(8,9) i by (simp add: map_pages_small [OF small_round] Let_def s1_def c1_def)
  let ?l = "k + Suc (Suc r)" and ?s' = "map_pages_loop p_pml4 n (i + 1) c2 s2"
  have ne: "(of_nat (Suc k) :: 9 word) \<noteq> of_nat k" using small_index_eq [OF k] by simp
  have t1: "tab s1 root p = Some t" using L1(4) [of p] Suc.prems(2,3) by simp
  have m1: "missing s1 t (Suc k) ?l = missing s t (Suc k) ?l"
    using Suc.prems(9) k small_index_eq [of _ k] by (intro missing_cong L(4)) auto
  have ms: "missing s1 t (Suc k) ?l = (if present (ent s1 t (of_nat (Suc k))) then 0 else 1) + missing s1 t (Suc (Suc k)) ?l"
    by (intro missing_step) simp
  have fr: "present (ent s1 t (of_nat (Suc k))) \<or> free_pages s1 \<noteq> {}"
    using Suc.prems(10) ms m1 L(3) by (auto split: if_splits)
  note E = ensure_leaf [OF L1(1) t1 Suc.prems(3) fr, folded s2_def]
  note E1 = leavesD [OF E(1)]
  have "missing s2 t (Suc (Suc k)) ?l = missing s1 t (Suc (Suc k)) ?l"
    using Suc.prems(9) k small_index_eq [of _ "Suc k"] by (intro missing_cong E(4)) auto
  then have m2: "card (free_pages s) = card (free_pages s2) + (missing s t (Suc k) ?l - missing s2 t (Suc (Suc k)) ?l)"
    "missing s2 t (Suc (Suc k)) ?l \<le> missing s t (Suc k) ?l" "missing s2 t (Suc (Suc k)) ?l \<le> card (free_pages s2)"
    using E(3) L(3) ms m1 Suc.prems(10) by auto
  have "leaves root ((\<lambda>j. p @ [of_nat (Suc k + j)]) ` {..<Suc r}) s2 ?s' \<and>
    (\<forall>j < Suc r. translate ?s' root (p @ [of_nat (Suc k + j)]) = Some (addr (current_phys c2 + of_nat (4096 * j)))) \<and>
    card (free_pages s2) = card (free_pages ?s') + missing s2 t (Suc (Suc k)) (Suc k + Suc r)"
  proof (rule Suc.IH)
    show "tab s2 root p = Some t" using E1(4) [of p] t1 Suc.prems(3) by simp
    show "pt c2 = t + vmm_page_tables_offset s2" using Suc.prems(4) E1(8) L1(8) by (simp add: c2_def c1_def)
    show "pt_i c2 = of_nat (Suc k)" using Suc.prems(5) by (simp add: c2_def c1_def)
    show "pt_entry c2 = entry_ptr s2 t (of_nat (Suc k))" using E1(9) by (simp add: c2_def)
  qed (use Suc.prems E E1 i1 m2 in simp_all)
  note IH = conjunct1 [OF this] conjunct1 [OF conjunct2 [OF this]] conjunct2 [OF conjunct2 [OF this]]
  have img: "(\<lambda>j. p @ [of_nat (k + j)]) ` {..<Suc (Suc r)} = insert (p @ [of_nat k]) ((\<lambda>j. p @ [of_nat (Suc k + j)]) ` {..<Suc r})"
    by (simp only: lessThan_Suc_eq_insert_0 [of "Suc r"] image_insert image_image add_Suc_right add_Suc add_0_right)
  have lv: "leaves root ((\<lambda>j. p @ [of_nat (k + j)]) ` {..<Suc (Suc r)}) s ?s'"
    by (rule leaves_mono [OF leaves_trans [OF L(1) leaves_trans [OF E(1) IH(1)]]])
      (auto simp: img simp del: of_nat_Suc of_nat_add add_Suc intro!: image_eqI [of _ _ 0])
  have "(of_nat k :: 9 word) \<noteq> of_nat (Suc k + j)" if "j < Suc r" for j
    using Suc.prems(9) small_index_eq [of k "Suc k + j"] that k(2) by simp
  then have "p @ [of_nat k] \<notin> (\<lambda>j. p @ [of_nat (Suc k + j)]) ` {..<Suc r}"
    by (auto simp del: of_nat_Suc of_nat_add add_Suc)
  then have "translate ?s' root (p @ [of_nat k]) = translate s2 root (p @ [of_nat k])"
    using Suc.prems(3) by (intro leavesD(5) [OF IH(1)]) simp_all
  also have "\<dots> = Some (addr (current_phys c))" using E1(5) [of "p @ [of_nat k]"] L(2) ne Suc.prems(3) by simp
  finally have "translate ?s' root (p @ [of_nat (k + j)]) = Some (addr (current_phys c + of_nat (4096 * j)))"
    if "j < Suc (Suc r)" for j
    using that IH(2) by (cases j) (simp_all add: c2_def c1_def algebra_simps)
  then show ?case unfolding step using lv IH(3) m2(1,2) by simp
qed

lemma missing_card: "missing s t k (k + n) = card {j. j < n \<and> \<not> present (ent s t (of_nat (k + j)))}"
proof -
  have "missing s t k (k + n) = card ({j. \<not> present (ent s t (of_nat j))} \<inter> {k..<k + n})"
    unfolding missing_def by (subst distinct_length_filter) simp_all
  also have "{j. \<not> present (ent s t (of_nat j))} \<inter> {k..<k + n} =
      (\<lambda>j. k + j) ` {j. j < n \<and> \<not> present (ent s t (of_nat (k + j)))}"
  proof (intro set_eqI iffI)
    fix x assume "x \<in> {j. \<not> present (ent s t (of_nat j))} \<inter> {k..<k + n}"
    then have "x = k + (x - k)" "x - k < n" "\<not> present (ent s t (of_nat (k + (x - k))))" by auto
    then show "x \<in> (\<lambda>j. k + j) ` {j. j < n \<and> \<not> present (ent s t (of_nat (k + j)))}" by blast
  qed auto
  finally show ?thesis by (simp add: card_image)
qed

lemma present_step:
  fixes s :: "'a vmm_scheme"
  assumes "tab s t (i # p) \<noteq> None"
  shows "ensure_present (entry_ptr s t i) s = s"
    "next_table s (entry_ptr s t i) = addr (ent s t i) + vmm_page_tables_offset s"
    "tab s t (i # p) = tab s (addr (ent s t i)) p"
proof -
  have "is_table (ent s t i)" using assms by (simp split: if_splits)
  then show "ensure_present (entry_ptr s t i) s = s" "tab s t (i # p) = tab s (addr (ent s t i)) p"
    by (simp_all add: ensure_present_def ent_def present_def is_table_def)
  show "next_table s (entry_ptr s t i) = addr (ent s t i) + vmm_page_tables_offset s"
    by (simp add: next_table_ptr)
qed

lemma map_pages_eq:
  fixes s :: "'a vmm_scheme"
  assumes "tab s root (take 3 (path_of v)) = Some t"
  obtains c where "pt c = t + vmm_page_tables_offset s" "pt_i c = PT_INDEX v" "current_phys c = convert_to_phys s a"
    "pt_entry c = entry_ptr s t (path_of v ! 3)"
    "vmm_map_pages_pml4 (root + vmm_page_tables_offset s) a v n s =
      map_pages_loop (root + vmm_page_tables_offset s) n 0 c (ensure_present (entry_ptr s t (path_of v ! 3)) s)"
proof -
  obtain i1 i2 i3 i4 where pv: "path_of v = [i1, i2, i3, i4]" using path_split by blast
  note ix = index_path [of v, unfolded pv]
  from assms have t3: "tab s root [i1, i2, i3] = Some t" by (simp only: pv) simp
  then have 1: "tab s root (i1 # [i2, i3]) \<noteq> None" by (simp del: tab.simps)
  note S1 = present_step [OF this]
  have 2: "tab s (addr (ent s root i1)) (i2 # [i3]) \<noteq> None" using S1(3) 1 by (simp del: tab.simps)
  note S2 = present_step [OF this]
  have 3: "tab s (addr (ent s (addr (ent s root i1)) i2)) (i3 # []) \<noteq> None" using S2(3) 2 by (simp del: tab.simps)
  note S3 = present_step [OF this]
  have t: "addr (ent s (addr (ent s (addr (ent s root i1)) i2)) i3) = t"
    using t3 S1(3) S2(3) S3(3) by simp
  have e: "slot (u + vmm_page_tables_offset s) (ucast i) = entry_ptr s u i" for u and i :: "9 word"
    by (simp add: entry_ptr_def)
  show thesis
    by (rule that [of "\<lparr>pml4_i = PML4_INDEX v, pdpt_i = PDPT_INDEX v, pd_i = PD_INDEX v, pt_i = PT_INDEX v,
      pdpt = addr (ent s root i1) + vmm_page_tables_offset s, pdpt_entry = entry_ptr s (addr (ent s root i1)) i2,
      pd = addr (ent s (addr (ent s root i1)) i2) + vmm_page_tables_offset s,
      pd_entry = entry_ptr s (addr (ent s (addr (ent s root i1)) i2)) i3,
      pt = t + vmm_page_tables_offset s, pt_entry = entry_ptr s t i4, current_phys = convert_to_phys s a\<rparr>"])
      (simp_all add: vmm_map_pages_pml4_def enter_page_def enter_pt_def enter_pd_def enter_pdpt_def Let_def
        ix e S1(1,2) S2(1,2) S3(1,2) t pv)
qed

section \<open>Property\<close>

text \<open>
  A run of pages that stays within one existing page table is mapped page by page: the entries
  of the run lead to consecutive pages, every other translation and all tables stay, and only
  the bytes of the tables, of free pages and of the bitmap are written. The last
  clause counts the cost: every entry that was empty takes a page from the allocator, whose address
  is then overwritten, so it is lost.
\<close>

theorem vmm_map_pages_in_table:
  fixes s :: "'a vmm_scheme" and a :: u64
  assumes "vmm_inv s root" and "tab s root (take 3 (path_of v)) = Some t" and "0 < n"
    and "unat (path_of v ! 3) + unat n \<le> 512" and "unat n \<le> card (free_pages s)"
  defines "s' \<equiv> vmm_map_pages_pml4 (root + vmm_page_tables_offset s) a v n s"
    and "leaf \<equiv> \<lambda>j. take 3 (path_of v) @ [of_nat (unat (path_of v ! 3) + j)]"
  shows "vmm_inv s' root \<and>
    (\<forall>j < unat n. translate s' root (leaf j) = Some (addr (convert_to_phys s a + of_nat (4096 * j)))) \<and>
    (\<forall>q. length q = 4 \<and> q \<notin> leaf ` {..<unat n} \<longrightarrow> translate s' root q = translate s root q) \<and>
    (\<forall>q. length q \<le> 3 \<longrightarrow> tab s' root q = tab s root q) \<and>
    (\<forall>x. x \<notin> vmm_bytes s root \<longrightarrow> mem s' x = mem s x) \<and>
    card (free_pages s) = card (free_pages s') +
      card {j. j < unat n \<and> \<not> present (ent s t (of_nat (unat (path_of v ! 3) + j)))}"
proof -
  let ?p = "take 3 (path_of v)" and ?k = "unat (path_of v ! 3)"
  let ?l = "?k + unat n" and ?off = "vmm_page_tables_offset s"
  from map_pages_eq [OF assms(2)] obtain c where c: "pt c = t + ?off" "pt_i c = PT_INDEX v"
    "current_phys c = convert_to_phys s a" "pt_entry c = entry_ptr s t (path_of v ! 3)"
    "s' = map_pages_loop (root + ?off) n 0 c (ensure_present (entry_ptr s t (path_of v ! 3)) s)"
    unfolding s'_def by metis
  have p: "length ?p = 3" by (simp add: path_of_def)
  have k: "path_of v ! 3 = of_nat ?k" by simp
  have n: "0 < unat n" using assms(3) by (simp add: word_less_nat_alt)
  then have fr: "present (ent s t (path_of v ! 3)) \<or> free_pages s \<noteq> {}" using assms(5) by auto
  define s1 where "s1 = ensure_present (entry_ptr s t (path_of v ! 3)) s"
  note E = ensure_leaf [OF assms(1,2) p fr, folded s1_def]
  note E1 = leavesD [OF E(1)]
  have kl: "?k < ?l" "?k < 512" using n unat_index(2) by simp_all
  have eq: "missing s1 t (Suc ?k) ?l = missing s t (Suc ?k) ?l"
  proof (rule missing_cong, rule E(4))
    fix j assume j: "Suc ?k \<le> j" "j < ?l"
    then have "j < 512" using assms(4) by simp
    then show "of_nat j \<noteq> path_of v ! 3" using small_index_eq [of j ?k] kl(2) j(1) k by simp
  qed
  have m: "missing s t ?k ?l \<le> unat n" using missing_le [of s t ?k ?l] by simp
  have ms: "missing s t ?k ?l = (if present (ent s t (path_of v ! 3)) then 0 else 1) + missing s t (Suc ?k) ?l"
    using missing_step [OF kl(1), of s t] by simp
  have mf: "missing s1 t (Suc ?k) ?l \<le> card (free_pages s1)" using eq E(3) m ms assms(5) by (auto split: if_splits)
  have pti: "pt_i c = of_nat ?k" using c(2) index_path(4) [of v] unat_index(1) [of "path_of v ! 3"] by (metis unat_eq_of_nat)
  obtain r where r: "unat n = Suc r" using n by (cases "unat n") simp_all
  have "leaves root ((\<lambda>j. ?p @ [of_nat (?k + j)]) ` {..<Suc r}) s1 s' \<and>
    (\<forall>j < Suc r. translate s' root (?p @ [of_nat (?k + j)]) = Some (addr (current_phys c + of_nat (4096 * j)))) \<and>
    card (free_pages s1) = card (free_pages s') + missing s1 t (Suc ?k) (?k + Suc r)"
    unfolding c(5) s1_def [symmetric]
  proof (rule map_pages_loop_table)
    show "vmm_inv s1 root" "length ?p = 3" "pt_i c = of_nat ?k" using E1(1) p pti by blast+
    show "tab s1 root ?p = Some t" using E1(4) [of ?p] assms(2) p by simp
    show "present (ent s1 t (of_nat ?k))" using E(2) by simp
    show "missing s1 t (Suc ?k) (?k + Suc r) \<le> card (free_pages s1)" "?k + Suc r \<le> 512" using mf assms(4) r by simp_all
  qed (simp_all add: c E1(8,9) r)
  note L = this [folded r, unfolded c(3)]
  have tr: "\<forall>j < unat n. translate s' root (leaf j) = Some (addr (convert_to_phys s a + of_nat (4096 * j)))"
    unfolding leaf_def using L by blast
  have "path_of v ! 3 = of_nat (?k + 0)" using k by simp
  then have "?p @ [path_of v ! 3] = leaf 0" by (simp only: leaf_def)
  then have lv: "leaves root (leaf ` {..<unat n}) s s'"
    using leaves_trans [OF E(1) conjunct1 [OF L, folded leaf_def]] n by (rule_tac leaves_mono) auto
  note D = leavesD [OF lv]
  have "card {j. j < unat n \<and> \<not> present (ent s t (of_nat (?k + j)))} = missing s t ?k ?l"
    by (rule missing_card [symmetric])
  then have cost: "card (free_pages s) = card (free_pages s') +
      card {j. j < unat n \<and> \<not> present (ent s t (of_nat (?k + j)))}"
    using conjunct2 [OF conjunct2 [OF L]] E(3) eq ms by simp
  with tr D(1,4-6) show ?thesis by blast
qed

definition run_vmm :: vmm where "run_vmm = vmm_map_page 0x5000 0x8000000000 demo_vmm"

theorem vmm_map_pages_in_table_witness:
  "translate (vmm_map_pages_pml4 (demo_root + vmm_page_tables_offset run_vmm) 0x20000000 0x8000000000 4 run_vmm)
    demo_root [1, 0, 0, 3] = Some (addr (convert_to_phys run_vmm 0x20000000 + 0x3000))"
proof -
  have eq: "run_vmm = vmm_map_page_pml4 (demo_root + vmm_page_tables_offset demo_vmm) 0x5000 0x8000000000
      (ucast PT_ENTRY_READ_WRITE) demo_vmm"
    by (simp only: run_vmm_def vmm_map_page_def demo_vmm_inv(4))
  have f: "3 \<le> card (free_pages demo_vmm)" by (simp add: demo_vmm_inv(2))
  have "maps_to demo_root 0x8000000000 (Some (addr (convert_to_phys demo_vmm 0x5000))) demo_vmm run_vmm"
    unfolding eq by (rule map_page_maps(1) [OF demo_vmm_inv(1) f demo_vmm_inv(7)])
  then have i: "vmm_inv run_vmm demo_root" "11 \<le> card (free_pages run_vmm)"
    unfolding maps_to_def using demo_vmm_inv(2) by auto
  from map_page_tables(3) [OF demo_vmm_inv(1) f demo_vmm_inv(7)] obtain t where
    t: "tab run_vmm demo_root (take 3 (path_of 0x8000000000)) = Some t" unfolding eq by metis
  have p: "path_of 0x8000000000 = [1, 0, 0, 0]" by (simp add: path_of_def)
  have c: "(0 :: u64) < 4" "unat (path_of 0x8000000000 ! 3) + unat (4 :: u64) \<le> 512"
    "unat (4 :: u64) \<le> card (free_pages run_vmm)" using i(2) by (simp_all add: p)
  have "unat (3 :: u64) < unat (4 :: u64)" by simp
  with conjunct1 [OF conjunct2 [OF vmm_map_pages_in_table [OF i(1) t c, of "0x20000000"]], rule_format, of 3]
  show ?thesis by (simp add: p del: translate.simps)
qed

end
