(* ===== verification/Vmm_In_Use.thy ===== *)
theory Vmm_In_Use
  imports Vmm_Pages Vmm_Map_Pages
begin

text \<open>
  The page tables that the processor uses, as the clients of the memory manager see them: what mapping, unmapping and lookup do
  on a state that satisfies \<open>in_use\<close>, and that they cost no page where the tables of an address are in place.
\<close>

section \<open>Mapping where the tables are in place\<close>

lemma walk_present:
  fixes s :: "'a vmm_scheme"
  assumes "tab s root (take 3 (path_of v)) = Some t"
  shows "walk_create (root + vmm_page_tables_offset s) v s = (t + vmm_page_tables_offset s, s)"
proof -
  obtain i1 i2 i3 i4 where pv: "path_of v = [i1, i2, i3, i4]" using path_split by blast
  note ix = index_path [of v, unfolded pv]
  from assms have "tab s root [i1, i2, i3] = Some t" by (simp only: pv) simp
  then have T: "is_table (ent s root i1)" "is_table (ent s (addr (ent s root i1)) i2)"
    "is_table (ent s (addr (ent s (addr (ent s root i1)) i2)) i3)"
    "addr (ent s (addr (ent s (addr (ent s root i1)) i2)) i3) = t"
    by (simp_all split: if_splits)
  have step: "ensure_present (entry_ptr s u i) s = s" "split_large_page (entry_ptr s u i) n s = s"
    "next_table s (entry_ptr s u i) = addr (ent s u i) + vmm_page_tables_offset s" if "is_table (ent s u i)" for u i n
    using that by (simp_all add: ensure_present_def split_large_page_def ent_def present_def large_def is_table_def next_table_ptr)
  have e: "slot (u + vmm_page_tables_offset s) (ucast i) = entry_ptr s u i" for u and i :: "9 word"
    by (simp add: entry_ptr_def)
  show ?thesis
    by (simp add: walk_create_def Let_def ix e step [OF T(1)] step [OF T(2)] step [OF T(3)] split_pdpt_entry_def
        split_pd_entry_def T(4))
qed

text \<open>
  Mapping and unmapping a page then allocate nothing, and leave the tables where they are.
\<close>

definition stores_leaf :: "u64 \<Rightarrow> 'a vmm_scheme \<Rightarrow> 'a vmm_scheme \<Rightarrow> bool" where
  "stores_leaf root s s' \<longleftrightarrow> free_pages s' = free_pages s \<and> (\<forall>q. length q \<le> 3 \<longrightarrow> tab s' root q = tab s root q)"

lemma stores_leaf:
  fixes s :: "'a vmm_scheme"
  assumes "vmm_inv s root" "tab s root (take 3 (path_of v)) = Some t"
  shows "stores_leaf root s (vmm_map_page_pml4 (root + vmm_page_tables_offset s) a v f s)"
    "pml4 s = root + vmm_page_tables_offset s \<Longrightarrow> stores_leaf root s (vmm_unmap_page v s)"
proof -
  have l: "length (take 3 (path_of v)) = 3" by (simp add: path_of_def)
  have leaf: "stores_leaf root s s'" if "same_tables (set_entry (entry_ptr s t i) e s) s'" for s' i e
    unfolding stores_leaf_def same_tables [OF that] using store_leaf(5,6) [OF assms l] by simp
  have ptr: "slot (t + vmm_page_tables_offset s) (PT_INDEX v) = entry_ptr s t (path_of v ! 3)"
    by (simp add: entry_ptr_def index_path)
  show "stores_leaf root s (vmm_map_page_pml4 (root + vmm_page_tables_offset s) a v f s)"
    by (rule leaf [where i = "path_of v ! 3" and
          e = "(vmm_pt_entry_set_address 0 (convert_to_phys s a) OR ucast f) OR PT_ENTRY_PRESENT"])
      (simp add: vmm_map_page_pml4_def Let_def walk_present [OF assms(2)] ptr same_tables_def vmm_invlpg_def cpu_def)
  assume "pml4 s = root + vmm_page_tables_offset s"
  then show "stores_leaf root s (vmm_unmap_page v s)"
    by (intro leaf [where i = "path_of v ! 3" and e = 0])
      (simp add: vmm_unmap_page_def Let_def walk_present [OF assms(2)] ptr same_tables_def vmm_invlpg_def cpu_def set_entry_def)
qed

lemma unmap_page_only:
  fixes s :: "'a vmm_scheme"
  assumes "vmm_inv s root" "3 \<le> card (free_pages s)" "no_huge_page s root v" "pml4 s = root + vmm_page_tables_offset s"
  shows "only_vmm s (vmm_unmap_page v s)"
  by (rule unmap_page_eq [OF assms]) (metis only_vmm_step only_vmm_trans only_pmm_only_vmm growsD(2))

text \<open>A state whose tables are in use, with the processor's root.\<close>

definition in_use :: "u64 \<Rightarrow> 'a vmm_scheme \<Rightarrow> bool" where
  "in_use root s \<longleftrightarrow> vmm_inv s root \<and> pml4 s = root + vmm_page_tables_offset s \<and> vmm_initialised s"

lemma in_useD:
  assumes "in_use root s"
  shows "vmm_inv s root" "pml4 s = root + vmm_page_tables_offset s" "vmm_initialised s"
    "vmm_page_tables_offset s = higher_half_offset s"
  using assms vmm_invD(3) by (auto simp: in_use_def)

lemma in_use_keeps: "in_use root s \<Longrightarrow> keeps root s s' \<Longrightarrow> in_use root s'"
  by (simp add: in_use_def keeps_def)

lemma in_use_step: "in_use root s \<Longrightarrow> maps_to root v a s s' \<Longrightarrow> only_vmm s s' \<Longrightarrow> in_use root s'"
  using only_vmm_fields [of s s'] by (simp add: in_use_def maps_to_def)

lemma map_step:
  fixes s :: "'a vmm_scheme"
  assumes "in_use root s" "3 \<le> card (free_pages s)" "no_huge_page s root v"
  shows "maps_to root v (Some (addr (convert_to_phys s a))) s (vmm_map_page a v s)" "only_vmm s (vmm_map_page a v s)"
    "in_use root (vmm_map_page a v s)"
    "\<exists>t. tab (vmm_map_page a v s) root (take 3 (path_of v)) = Some t"
proof -
  note D = in_useD [OF assms(1)]
  note M = map_page_maps [OF D(1) assms(2,3), of a "ucast PT_ENTRY_READ_WRITE", folded D(2), folded vmm_map_page_def]
  show "maps_to root v (Some (addr (convert_to_phys s a))) s (vmm_map_page a v s)" "only_vmm s (vmm_map_page a v s)" by (rule M)+
  show "in_use root (vmm_map_page a v s)" using assms(1) M(1,3) by (rule in_use_step)
  show "\<exists>t. tab (vmm_map_page a v s) root (take 3 (path_of v)) = Some t"
    using map_page_tables(3) [OF D(1) assms(2,3), of a "ucast PT_ENTRY_READ_WRITE"] unfolding vmm_map_page_def D(2) .
qed

lemma lookup_page: "in_use root s \<Longrightarrow> v mod 0x1000 = 0 \<Longrightarrow>
  vmm_virt_to_phys s v = (case translate s root (path_of v) of None \<Rightarrow> UINT64_MAX | Some a \<Rightarrow> a)"
  by (intro virt_to_phys_page) (simp_all add: in_useD)

text \<open>What mapping a page changes: one translation, and the memory of tables and allocator.\<close>

lemma maps_toD:
  assumes "maps_to root v a s s'"
  shows "length p = 4 \<Longrightarrow> translate s' root p = (if p = path_of v then a else translate s root p)"
    "x \<notin> vmm_bytes s root \<Longrightarrow> mem s' x = mem s x"
    "length p \<le> 3 \<Longrightarrow> tab s' root p = Some t \<Longrightarrow> tab s root p = Some t \<or> t \<in> free_pages s"
    "card (free_pages s) \<le> card (free_pages s') + 3" "free_pages s' \<subseteq> free_pages s"
  using assms unfolding maps_to_def by blast+

lemma add_page_aligned:
  assumes "page_aligned a" "h mod 0x1000 = 0"
  shows "(a + h) mod 0x1000 = 0"
proof -
  have "unat (h mod 0x1000) = 0" using assms(2) by simp
  then have h: "unat h mod 4096 = 0" by (simp add: unat_mod)
  have "unat (a + h) mod 4096 = (unat a + unat h) mod 2 ^ 64 mod 4096" by (simp add: unat_word_ariths)
  also have "\<dots> = (unat a + unat h) mod 4096" by (rule mod_mod_cancel) simp
  also have "\<dots> = 0" using h assms(1) by (simp add: page_aligned_def mod_add_eq [symmetric])
  finally have "unat ((a + h) mod 0x1000) = 0" by (simp add: unat_mod)
  then show ?thesis by (simp only: unat_eq_0)
qed

lemma unmap_step:
  fixes s :: "'a vmm_scheme"
  assumes "in_use root s" and "3 \<le> card (free_pages s)" and nh: "no_huge_page s root w"
    and "tab s root (take 3 (path_of w)) = Some t"
  defines "s' \<equiv> vmm_unmap_page w s"
  shows "maps_to root w None s s'" "only_vmm s s'" "in_use root s'" "free_pages s' = free_pages s"
    "length q \<le> 3 \<Longrightarrow> tab s' root q = tab s root q"
proof -
  note D = in_useD [OF assms(1)]
  show M: "maps_to root w None s s'" "only_vmm s s'"
    unfolding s'_def using unmap_page_maps(1) [OF D(1) assms(2,3) D(2)] unmap_page_only [OF D(1) assms(2,3) D(2)] .
  show "in_use root s'" using assms(1) M by (rule in_use_step)
  show "free_pages s' = free_pages s" "length q \<le> 3 \<Longrightarrow> tab s' root q = tab s root q"
    using stores_leaf(2) [OF D(1) assms(4) D(2)] unfolding stores_leaf_def s'_def by blast+
qed

text \<open>The page that the allocator hands out next depends on the free pages only.\<close>

lemma first_page_cong:
  assumes "vmm_inv s root" "vmm_inv s' root" "free_pages s \<noteq> {}" "free_pages s' = free_pages s" "pages s' = pages s"
  shows "fst (pmm_alloc_phys s') = fst (pmm_alloc_phys s)"
proof -
  have first: "fst (pmm_alloc_phys t) = pages t ! (LEAST k. k < length (pages t) \<and> pages t ! k \<in> free_pages t)"
    if "vmm_inv t root" "free_pages t \<noteq> {}" for t
  proof (rule pmm_alloc_phys_cases [OF vmm_invD(2) [OF that(1)]])
    assume "allocated t = {..<length (pages t)}"
    with that(2) show ?thesis by (simp add: free_pages_empty_iff)
  next
    fix k assume k: "k < length (pages t)" "k \<notin> allocated t" "{..<k} \<subseteq> allocated t"
      "pmm_alloc_phys t = (pages t ! k, pmm_set_usable_page_allocated_by_index (of_nat k) True t)"
    have d: "distinct (pages t)" using pmm_invD(2) [OF vmm_invD(2) [OF that(1)]] by (rule distinct_usable_pages)
    have "(LEAST k. k < length (pages t) \<and> pages t ! k \<in> free_pages t) = k"
    proof (rule Least_equality)
      show "k < length (pages t) \<and> pages t ! k \<in> free_pages t" using k by (auto simp: free_pages_def)
      show "k \<le> j" if "j < length (pages t) \<and> pages t ! j \<in> free_pages t" for j
        using that k(3) d by (auto simp: free_pages_def nth_eq_iff_index_eq not_less [symmetric])
    qed
    with k(4) show ?thesis by simp
  qed
  show ?thesis using first [OF assms(1,3)] first [OF assms(2)] assms(3-5) by simp
qed

text \<open>The translation of a page as the code resolves it: an address that is not mapped stands for itself.\<close>

definition resolve :: "(path \<Rightarrow> u64 option) \<Rightarrow> u64 \<Rightarrow> u64" where
  "resolve T a = (case T (path_of a) of None \<Rightarrow> a | Some x \<Rightarrow> x)"

lemma translate_even: "translate s t q = Some x \<Longrightarrow> q \<noteq> [] \<Longrightarrow> even x"
proof (induction q arbitrary: t)
  case (Cons i q)
  have e: "even (addr e)" for e using bit_addr [of e 0] by (simp add: bit_0)
  have p: "even (page_in_large p)" for p by (simp add: page_in_large_def)
  show ?case
  proof (cases "q = []")
    case True
    then show ?thesis using Cons.prems e by (auto simp: Let_def split: if_splits)
  next
    case False
    then show ?thesis using Cons e p by (auto simp: Let_def split: if_splits)
  qed
qed simp

lemma convert_in_use:
  assumes "in_use root s" "a mod 0x1000 = 0"
  shows "convert_to_phys s a = resolve (translate s root) a"
proof -
  have "x \<noteq> UINT64_MAX" if "translate s root (path_of a) = Some x" for x
    using translate_even [OF that] by (auto simp: path_of_def)
  then show ?thesis
    by (auto simp: convert_to_phys_def lookup_page [OF assms] resolve_def split: option.splits)
qed

lemma demo_in_use: "in_use demo_root demo_vmm" "higher_half_offset demo_vmm = 0xFFFF800000000000"
  using demo_vmm_inv by (simp_all add: in_use_def demo_machine_fields)

end
