(* ===== verification/Memory_Runs.thy ===== *)
theory Memory_Runs
  imports Vmm_In_Use
begin

text \<open>
  The memory manager as a state machine: any sequence of allocations, frees, mappings and unmappings, with writes of the client to
  the pages it holds in between. The runs are an inductive relation; rule induction over it shows that every run keeps the
  invariants, that the address translation changes as an abstract map does, and that the pages of a client are its own.
\<close>

section \<open>Operations\<close>

datatype memory_op = Alloc | Free u64 | Map u64 u64 | Unmap u64 | Write u64 u8

text \<open>A state with the physical pages that clients hold.\<close>

type_synonym 'a client_state = "'a vmm_scheme \<times> u64 set"

fun exec :: "memory_op \<Rightarrow> 'a client_state \<Rightarrow> 'a client_state" where
  "exec Alloc (s, H) = (let (p, s') = pmm_alloc s in (s', insert (p - higher_half_offset s) H))"
| "exec (Free p) (s, H) = (pmm_free (p + higher_half_offset s) s, H - {p})"
| "exec (Map a v) (s, H) = (vmm_map_page a v s, H)"
| "exec (Unmap v) (s, H) = (vmm_unmap_page v s, H)"
| "exec (Write x b) (s, H) = (s\<lparr>mem := (mem s)(x := b)\<rparr>, H)"

definition page_bytes :: "'a pmm_scheme \<Rightarrow> u64 \<Rightarrow> u64 set" where
  "page_bytes s p = {x. in_range x (p + higher_half_offset s) 4096}"

text \<open>
  What a client may do: allocate while pages are left, free a page it holds that is mapped in the direct map, map and unmap addresses
  that no 1 GiB page covers, with three pages left for tables, and write to its pages.
\<close>

fun allowed :: "u64 \<Rightarrow> memory_op \<Rightarrow> 'a client_state \<Rightarrow> bool" where
  "allowed root Alloc (s, H) \<longleftrightarrow> free_pages s \<noteq> {}"
| "allowed root (Free p) (s, H) \<longleftrightarrow> p \<in> H \<and> translate s root (path_of (p + higher_half_offset s)) = Some p \<and>
    3 \<le> card (free_pages s) \<and> no_huge_page s root (p + higher_half_offset s)"
| "allowed root (Map a v) (s, H) \<longleftrightarrow> a mod 0x1000 = 0 \<and> 3 \<le> card (free_pages s) \<and> no_huge_page s root v"
| "allowed root (Unmap v) (s, H) \<longleftrightarrow> 3 \<le> card (free_pages s) \<and> no_huge_page s root v"
| "allowed root (Write x b) (s, H) \<longleftrightarrow> (\<exists>p \<in> H. x \<in> page_bytes s p)"

inductive memory_run :: "u64 \<Rightarrow> 'a client_state \<Rightarrow> memory_op list \<Rightarrow> 'a client_state \<Rightarrow> bool" for root where
  run_done: "memory_run root st [] st"
| run_step: "allowed root op st \<Longrightarrow> memory_run root (exec op st) ops st' \<Longrightarrow> memory_run root st (op # ops) st'"

inductive_simps run_simps: "memory_run root st [] st'" "memory_run root st (op # ops) st'"

text \<open>The abstract machine: the address translation is a map, and an operation updates it at one path at most.\<close>

fun map_op :: "u64 \<Rightarrow> memory_op \<Rightarrow> (path \<Rightarrow> u64 option) \<Rightarrow> path \<Rightarrow> u64 option" where
  "map_op h (Map a v) T = T(path_of v := Some (addr (resolve T a)))"
| "map_op h (Unmap v) T = T(path_of v := None)"
| "map_op h (Free p) T = T(path_of (p + h) := Some (addr (resolve T p)))"
| "map_op h _ T = T"

section \<open>The invariant\<close>

text \<open>Pages that are held are real ones, and none of their bytes belongs to tables, free pages or the bitmap.\<close>

definition holds_page :: "u64 \<Rightarrow> 'a vmm_scheme \<Rightarrow> u64 \<Rightarrow> bool" where
  "holds_page root s p \<longleftrightarrow> (\<exists>k < length (pages s). unat (pmm_bitmap_pages s) \<le> k \<and> p = pages s ! k) \<and>
    page_bytes s p \<inter> vmm_bytes s root = {}"

definition held :: "u64 \<Rightarrow> 'a client_state \<Rightarrow> bool" where
  "held root st \<longleftrightarrow> (case st of (s, H) \<Rightarrow> in_use root s \<and> higher_half_offset s mod 0x1000 = 0 \<and> (\<forall>p \<in> H. holds_page root s p))"

lemma heldD:
  assumes "held root (s, H)"
  shows "in_use root s" "vmm_inv s root" "higher_half_offset s mod 0x1000 = 0" "p \<in> H \<Longrightarrow> holds_page root s p"
  using assms in_useD(1) [of root s] by (simp_all add: held_def)

lemma page_bytes_start: "p + higher_half_offset s \<in> page_bytes s p"
  by (simp add: page_bytes_def in_range_def)

lemma holds_page:
  assumes "vmm_inv s root" "holds_page root s p"
  shows "page_aligned p" "unat p < 2 ^ 52" "addr p = p" "p \<notin> free_pages s" "length q \<le> 3 \<Longrightarrow> tab s root q \<noteq> Some p"
proof -
  obtain k where k: "k < length (pages s)" "p = pages s ! k" using assms(2) by (auto simp: holds_page_def)
  note I = vmm_invD [OF assms(1)]
  show al: "page_aligned p" using k pmm_invD(2) [OF I(2)] by (auto intro: usable_pages_aligned)
  show small: "unat p < 2 ^ 52" using I(1) k by (simp add: vmm_base_def)
  show "addr p = p" using al small by (simp add: page_addr_iff)
  have out: "p + higher_half_offset s \<notin> vmm_bytes s root" using assms(2) page_bytes_start by (auto simp: holds_page_def)
  have r: "in_range (p + higher_half_offset s) (p + higher_half_offset s) 4096" by (simp add: in_range_def)
  show "p \<notin> free_pages s" using out r by (auto simp: vmm_bytes_def free_virt_def)
  show "tab s root q \<noteq> Some p" if "length q \<le> 3" using out r that I(3) by (auto simp: vmm_bytes_def)
qed

lemma page_bytes_apart:
  assumes "page_aligned p" "page_aligned q" "x \<in> page_bytes s p" "x \<in> page_bytes s q"
  shows "p = q"
  using assms unfolding page_bytes_def by (blast intro: pages_apart)

section \<open>One step\<close>

text \<open>What a step promises: the invariant, the abstract update, and that held pages are kept with their content.\<close>

definition step_ok :: "u64 \<Rightarrow> memory_op \<Rightarrow> 'a client_state \<Rightarrow> 'a client_state \<Rightarrow> bool" where
  "step_ok root op st st' \<longleftrightarrow> (case (st, st') of ((s, H), (s', H')) \<Rightarrow>
    held root (s', H') \<and> higher_half_offset s' = higher_half_offset s \<and>
    (\<forall>q. length q = 4 \<longrightarrow> translate s' root q = map_op (higher_half_offset s) op (translate s root) q) \<and>
    (\<forall>p \<in> H. op \<noteq> Free p \<longrightarrow> p \<in> H' \<and>
      (\<forall>x \<in> page_bytes s p. (\<forall>b. op \<noteq> Write x b) \<longrightarrow> mem s' x = mem s x)))"

lemma holds_shrink:
  assumes "holds_page root s p" "pages s' = pages s" "pmm_bitmap_pages s' = pmm_bitmap_pages s"
    "higher_half_offset s' = higher_half_offset s" "vmm_bytes s' root \<inter> page_bytes s p \<subseteq> vmm_bytes s root"
  shows "holds_page root s' p"
proof -
  have "page_bytes s' p = page_bytes s p" by (simp only: page_bytes_def assms(4))
  with assms(1,5) show ?thesis unfolding holds_page_def assms(2,3) by blast
qed

lemma holds_keep:
  assumes "held root (s, H)" "p \<in> H" "pages s' = pages s" "pmm_bitmap_pages s' = pmm_bitmap_pages s"
    "higher_half_offset s' = higher_half_offset s" "vmm_bytes s' root \<subseteq> vmm_bytes s root"
  shows "holds_page root s' p"
  using heldD(4) [OF assms(1,2)] assms(3-5) by (rule holds_shrink) (use assms(6) in blast)

text \<open>The bytes of a held page are outside of what the memory manager writes.\<close>

lemma held_bytes: "held root (s, H) \<Longrightarrow> p \<in> H \<Longrightarrow> x \<in> page_bytes s p \<Longrightarrow> x \<notin> vmm_bytes s root"
  using heldD(4) [of root s H p] unfolding holds_page_def by blast

lemma step_maps:
  assumes "held root (s, H)" "maps_to root v a s s'" "only_vmm s s'"
  shows "held root (s', H)" "higher_half_offset s' = higher_half_offset s" "p \<in> H \<Longrightarrow> x \<in> page_bytes s p \<Longrightarrow> mem s' x = mem s x"
proof -
  note F = only_vmm_fields [OF assms(3)]
  have sub: "vmm_bytes s' root \<subseteq> vmm_bytes s root" and pg: "pages s' = pages s"
    using assms(2) F(1) by (simp_all add: maps_to_def)
  show "higher_half_offset s' = higher_half_offset s" by (simp add: F)
  have "holds_page root s' p" if "p \<in> H" for p
    using assms(1) that pg F(3,2) sub by (rule holds_keep)
  then show "held root (s', H)"
    using in_use_step [OF heldD(1) [OF assms(1)] assms(2,3)] heldD(3) [OF assms(1)] F by (simp add: held_def)
  show "mem s' x = mem s x" if "p \<in> H" "x \<in> page_bytes s p"
    using maps_toD(2) [OF assms(2)] held_bytes [OF assms(1) that] .
qed

lemma step_Map:
  assumes "held root (s, H)" "allowed root (Map a v) (s, H)"
  shows "step_ok root (Map a v) (s, H) (exec (Map a v) (s, H))"
proof -
  have c: "a mod 0x1000 = 0" "3 \<le> card (free_pages s)" "no_huge_page s root v" using assms(2) by simp_all
  note M = map_step [OF heldD(1) [OF assms(1)] c(2,3), of a, unfolded convert_in_use [OF heldD(1) [OF assms(1)] c(1)]]
  show ?thesis using step_maps [OF assms(1) M(1,2)] maps_toD(1) [OF M(1)] by (simp add: step_ok_def)
qed

lemma step_Unmap:
  assumes "held root (s, H)" "allowed root (Unmap v) (s, H)"
  shows "step_ok root (Unmap v) (s, H) (exec (Unmap v) (s, H))"
proof -
  have c: "3 \<le> card (free_pages s)" "no_huge_page s root v" using assms(2) by simp_all
  note D = in_useD [OF heldD(1) [OF assms(1)]]
  note M = unmap_page_maps(1) [OF D(1) c D(2)] and O = unmap_page_only [OF D(1) c D(2)]
  show ?thesis using step_maps [OF assms(1) M O] maps_toD(1) [OF M] by (simp add: step_ok_def)
qed

lemma step_Alloc:
  assumes "held root (s, H)" "allowed root Alloc (s, H)"
  shows "step_ok root Alloc (s, H) (exec Alloc (s, H))"
proof -
  note inv = heldD(2) [OF assms(1)]
  have ne: "free_pages s \<noteq> {}" using assms(2) by simp
  define s1 where "s1 = snd (pmm_alloc s)"
  define a where "a = fst (pmm_alloc_phys s)"
  note A = vmm_inv_alloc [OF inv ne, folded a_def s1_def] and K = keepsD [OF keeps_alloc [OF inv ne], folded s1_def]
  obtain k where k: "k < length (pages s)" "k \<notin> allocated s" "a = pages s ! k" using A(2) by (auto simp: free_pages_def)
  have b: "unat (pmm_bitmap_pages s) \<le> k"
    using k(2) pmm_invD(5) [OF vmm_invD(2) [OF inv]] by (auto simp: not_less [symmetric])
  have new: "holds_page root s1 a"
    unfolding holds_page_def page_bytes_def K(7-9) using k(1,3) b A(10) by blast
  have old: "holds_page root s1 p" if "p \<in> H" for p
    using assms(1) that K(7,9,8,2) by (rule holds_keep)
  have "held root (s1, insert a H)"
    using new old in_use_keeps [OF heldD(1) [OF assms(1)] keeps_alloc [OF inv ne]] heldD(3) [OF assms(1)]
    by (simp add: held_def K(8)) (simp add: s1_def)
  moreover have "mem s1 x = mem s x" if "p \<in> H" "x \<in> page_bytes s p" for p x
    using K(3) held_bytes [OF assms(1) that] .
  moreover have "exec Alloc (s, H) = (s1, insert a H)"
    using A(1) by (simp add: s1_def split_beta Let_def)
  ultimately show ?thesis using K(5,8) by (simp add: step_ok_def)
qed

lemma step_Write:
  assumes "held root (s, H)" "allowed root (Write x b) (s, H)"
  shows "step_ok root (Write x b) (s, H) (exec (Write x b) (s, H))"
proof -
  define m where "m = (mem s)(x := b)"
  obtain p where p: "p \<in> H" "x \<in> page_bytes s p" using assms(2) by auto
  then have "x \<notin> vmm_bytes s root" using held_bytes [OF assms(1)] by blast
  then have "m y = mem s y" if "y \<in> vmm_bytes s root" for y using that by (auto simp: m_def)
  note V = vmm_inv_mem [OF heldD(2) [OF assms(1)] this]
  have "holds_page root (s\<lparr>mem := m\<rparr>) q" if "q \<in> H" for q
    using assms(1) that by (rule holds_keep) (simp_all add: V(3))
  then have "held root (s\<lparr>mem := m\<rparr>, H)"
    using V(1) heldD(1,3) [OF assms(1)] by (simp add: held_def in_use_def)
  moreover have "translate (s\<lparr>mem := m\<rparr>) root q = translate s root q" if "length q = 4" for q using V(5) that by simp
  ultimately show ?thesis by (auto simp: step_ok_def m_def)
qed

lemma step_Free:
  assumes "held root (s, H)" "allowed root (Free p) (s, H)"
  shows "step_ok root (Free p) (s, H) (exec (Free p) (s, H))"
proof -
  note inv = heldD(2) [OF assms(1)] and u = heldD(1) [OF assms(1)] and D = in_useD [OF heldD(1) [OF assms(1)]]
  let ?v = "p + higher_half_offset s"
  have c: "p \<in> H" "translate s root (path_of ?v) = Some p" "3 \<le> card (free_pages s)" "no_huge_page s root ?v"
    using assms(2) by simp_all
  have hp: "holds_page root s p" using assms(1) c(1) by (rule heldD(4))
  note P = holds_page [OF inv hp]
  obtain k where k: "k < length (pages s)" "unat (pmm_bitmap_pages s) \<le> k" "p = pages s ! k" using hp by (auto simp: holds_page_def)
  have v: "?v mod 0x1000 = 0" using P(1) heldD(3) [OF assms(1)] by (rule add_page_aligned)
  have pm: "p mod 0x1000 = 0" using add_page_aligned [OF P(1), of 0] by simp
  have look: "vmm_virt_to_phys s ?v = pages s ! k" unfolding k(3) [symmetric] using c(2) by (simp add: lookup_page [OF u v])
  have tab: "\<forall>q t. length q \<le> 3 \<and> tab s root q = Some t \<longrightarrow> t \<noteq> pages s ! k" using P(5) k(3) by auto
  from free_remaps(3) [OF D(1-3) k(1,2) look tab c(3) c(4) [unfolded k(3)], folded k(3)] obtain s1 where
    s1: "vmm_inv s1 root" "only_pmm s s1" "free_pages s1 = insert p (free_pages s)"
      "\<And>q. length q \<le> 3 \<Longrightarrow> tab s1 root q = tab s root q" "\<And>q. length q = 4 \<Longrightarrow> translate s1 root q = translate s root q"
      "\<And>x. x \<notin> bitmap_bytes s \<Longrightarrow> mem s1 x = mem s x" "only_vmm s1 (pmm_free ?v s)"
      "maps_to root ?v (Some (addr (convert_to_phys s p))) s1 (pmm_free ?v s)" by blast
  note F = only_pmm_fields [OF s1(2)] only_pmm_vmm [OF s1(2)]
  have u1: "in_use root s1" using s1(1) D(2,3) by (simp add: in_use_def F)
  have vb: "vmm_bytes s1 root \<subseteq> vmm_bytes s root \<union> page_bytes s p"
    using s1(3,4) by (auto simp: vmm_bytes_def free_virt_def page_bytes_def F)
  have hold: "holds_page root s1 q" if "q \<in> H - {p}" for q
  proof (rule holds_shrink [of root s])
    show "holds_page root s q" using heldD(4) [OF assms(1)] that by simp
    then have "page_bytes s q \<inter> page_bytes s p = {}"
      using page_bytes_apart [OF holds_page(1) [OF inv] P(1)] that by blast
    then show "vmm_bytes s1 root \<inter> page_bytes s q \<subseteq> vmm_bytes s root" using vb by blast
  qed (simp_all add: F)
  have H1: "held root (s1, H - {p})" using u1 hold heldD(3) [OF assms(1)] by (simp add: held_def F)
  note M = step_maps [OF H1 s1(8,7)]
  have "mem (pmm_free ?v s) x = mem s x" if "q \<in> H - {p}" "x \<in> page_bytes s q" for q x
  proof -
    have "x \<notin> vmm_bytes s root" using held_bytes [OF assms(1), of q] that by blast
    then have "x \<notin> bitmap_bytes s" by (simp add: vmm_bytes_def)
    moreover have "x \<in> page_bytes s1 q" using that(2) by (simp add: page_bytes_def F)
    ultimately show ?thesis using M(3) [OF that(1)] s1(6) by simp
  qed
  then show ?thesis
    using M(1,2) maps_toD(1) [OF s1(8)] s1(5) by (auto simp: step_ok_def F convert_in_use [OF u pm])
qed

lemma exec_step_ok: "held root st \<Longrightarrow> allowed root op st \<Longrightarrow> step_ok root op st (exec op st)"
  by (cases st; cases op) (auto simp only: intro: step_Alloc step_Free step_Map step_Unmap step_Write)

section \<open>Runs\<close>

lemma run_held: "memory_run root st ops st' \<Longrightarrow> held root st \<Longrightarrow> held root st'"
proof (induction rule: memory_run.induct)
  case (run_step op st ops st')
  then have "step_ok root op st (exec op st)" by (intro exec_step_ok)
  then have "held root (exec op st)" by (auto simp: step_ok_def split: prod.splits)
  then show ?case by (rule run_step.IH)
qed

lemma map_op_cong:
  "(\<And>q. length q = 4 \<Longrightarrow> T q = T' q) \<Longrightarrow> length q = 4 \<Longrightarrow> map_op h op T q = map_op h op T' q"
  by (cases op) (simp_all add: resolve_def path_of_def)

lemma fold_map_op_cong:
  "(\<And>q. length q = 4 \<Longrightarrow> T q = T' q) \<Longrightarrow> length q = 4 \<Longrightarrow> fold (map_op h) ops T q = fold (map_op h) ops T' q"
proof (induction ops arbitrary: T T' q)
  case (Cons op ops)
  have "fold (map_op h) ops (map_op h op T) q = fold (map_op h) ops (map_op h op T') q"
    using Cons.prems by (intro Cons.IH map_op_cong)
  then show ?case by simp
qed simp

lemma run_translate:
  assumes "memory_run root st ops st'" "held root st"
  shows "higher_half_offset (fst st') = higher_half_offset (fst st) \<and>
    (\<forall>q. length q = 4 \<longrightarrow>
      translate (fst st') root q = fold (map_op (higher_half_offset (fst st))) ops (translate (fst st) root) q)"
  using assms
proof (induction rule: memory_run.induct)
  case (run_step op st ops st')
  let ?h = "higher_half_offset (fst st)" and ?st = "exec op st"
  have "step_ok root op st ?st" using run_step.hyps(1) run_step.prems by (intro exec_step_ok)
  then have S: "held root ?st" "higher_half_offset (fst ?st) = ?h"
    "\<And>q. length q = 4 \<Longrightarrow> translate (fst ?st) root q = map_op ?h op (translate (fst st) root) q"
    by (auto simp: step_ok_def split: prod.splits)
  have "fold (map_op ?h) ops (translate (fst ?st) root) q = fold (map_op ?h) ops (map_op ?h op (translate (fst st) root)) q"
    if "length q = 4" for q using S(3) that by (rule fold_map_op_cong)
  then show ?case using run_step.IH [OF S(1)] S(2) by simp
qed simp

lemma run_isolated:
  assumes "memory_run root st ops st'" "held root st" "p \<in> snd st" "Free p \<notin> set ops"
    and "\<forall>x b. Write x b \<in> set ops \<longrightarrow> x \<notin> page_bytes (fst st) p"
  shows "p \<in> snd st' \<and> (\<forall>x \<in> page_bytes (fst st) p. mem (fst st') x = mem (fst st) x)"
  using assms
proof (induction rule: memory_run.induct)
  case (run_step op st ops st')
  have "step_ok root op st (exec op st)" using run_step.hyps(1) run_step.prems(1) by (intro exec_step_ok)
  moreover have "op \<noteq> Free p" "\<forall>x \<in> page_bytes (fst st) p. \<forall>b. op \<noteq> Write x b" using run_step.prems(3,4) by auto
  ultimately have S: "held root (exec op st)" "page_bytes (fst (exec op st)) p = page_bytes (fst st) p" "p \<in> snd (exec op st)"
    "\<forall>x \<in> page_bytes (fst st) p. mem (fst (exec op st)) x = mem (fst st) x"
    using run_step.prems(2) by (auto simp: step_ok_def page_bytes_def split: prod.splits)
  have "p \<in> snd st' \<and> (\<forall>x \<in> page_bytes (fst (exec op st)) p. mem (fst st') x = mem (fst (exec op st)) x)"
    using run_step.prems(3,4) S(1-3) by (intro run_step.IH) simp_all
  then show ?case using S(2,4) by simp
qed simp

section \<open>Properties\<close>

text \<open>
  C1. The memory manager refines an abstract map: every run of allocations, frees, mappings, unmappings and writes of the client
  to its pages keeps the invariants of allocator and tables and of the held pages, and the address translation at its end is the one that
  the map has after the same operations.
\<close>

theorem memory_run_refines:
  fixes s :: "'a vmm_scheme"
  assumes "memory_run root (s, H) ops (s', H')" and "held root (s, H)"
  shows "held root (s', H') \<and>
    (\<forall>q. length q = 4 \<longrightarrow> translate s' root q = fold (map_op (higher_half_offset s)) ops (translate s root) q)"
  using run_held [OF assms] run_translate [OF assms] by simp

text \<open>
  C2. Pages are isolated: whatever run of operations happens, a page that a client holds and does not free stays its own. The run changes
  none of its bytes but those the client writes to, makes no page table of it, and the page is not handed out again.
\<close>

theorem memory_isolation:
  fixes s :: "'a vmm_scheme"
  assumes "memory_run root (s, H) ops (s', H')" and "held root (s, H)" and "p \<in> H" and "Free p \<notin> set ops"
    and "\<forall>x b. Write x b \<in> set ops \<longrightarrow> x \<notin> page_bytes s p"
  shows "p \<in> H' \<and> (\<forall>x \<in> page_bytes s p. mem s' x = mem s x) \<and>
    (\<forall>q. length q \<le> 3 \<longrightarrow> tab s' root q \<noteq> Some p) \<and>
    (free_pages s' \<noteq> {} \<longrightarrow> fst (pmm_alloc s') \<noteq> p + higher_half_offset s')"
proof -
  have I: "p \<in> H'" "\<forall>x \<in> page_bytes s p. mem s' x = mem s x"
    using run_isolated [OF assms(1,2), of p] assms(3-5) by simp_all
  have h: "held root (s', H')" using assms(1,2) by (rule run_held)
  note P = holds_page [OF heldD(2) [OF h] heldD(4) [OF h I(1)]]
  have "fst (pmm_alloc s') \<noteq> p + higher_half_offset s'" if "free_pages s' \<noteq> {}"
    using vmm_inv_alloc(1,2) [OF heldD(2) [OF h] that] P(4) by auto
  then show ?thesis using I P(5) by blast
qed

text \<open>A run on the small machine: a page is allocated, and another one is mapped.\<close>

definition demo_ops :: "memory_op list" where "demo_ops = [Alloc, Map 0x5000 0x8000000000]"
definition alloc_vmm :: vmm where "alloc_vmm = snd (pmm_alloc demo_vmm)"
definition alloc_page :: u64 where "alloc_page = fst (pmm_alloc demo_vmm) - higher_half_offset demo_vmm"

lemma demo_run:
  "held demo_root (demo_vmm, {})" "held demo_root (alloc_vmm, {alloc_page})"
  "memory_run demo_root (alloc_vmm, {alloc_page}) [Map 0x5000 0x8000000000] (vmm_map_page 0x5000 0x8000000000 alloc_vmm, {alloc_page})"
  "memory_run demo_root (demo_vmm, {}) demo_ops (vmm_map_page 0x5000 0x8000000000 alloc_vmm, {alloc_page})"
proof -
  have ne: "free_pages demo_vmm \<noteq> {}" using demo_vmm_inv(2) by auto
  note A = vmm_inv_alloc [OF demo_vmm_inv(1) ne, folded alloc_vmm_def]
  have e: "exec Alloc (demo_vmm, {}) = (alloc_vmm, {alloc_page})" by (simp add: alloc_vmm_def alloc_page_def split_beta Let_def)
  show h: "held demo_root (demo_vmm, {})" using demo_in_use by (simp add: held_def)
  have a: "allowed demo_root Alloc (demo_vmm, {})" using ne by simp
  show "held demo_root (alloc_vmm, {alloc_page})"
    using exec_step_ok [OF h a] unfolding e by (simp add: step_ok_def)
  have "card (free_pages demo_vmm) = card (free_pages alloc_vmm) + 1"
    unfolding A(4) using card_Suc_Diff1 [OF finite_free_pages A(2)] by simp
  then have m: "allowed demo_root (Map 0x5000 0x8000000000) (alloc_vmm, {alloc_page})"
    using demo_vmm_inv(2) A(13) [OF demo_vmm_inv(7)] by simp
  show r: "memory_run demo_root (alloc_vmm, {alloc_page}) [Map 0x5000 0x8000000000] (vmm_map_page 0x5000 0x8000000000 alloc_vmm, {alloc_page})"
    using m by (simp only: run_simps exec.simps)
  show "memory_run demo_root (demo_vmm, {}) demo_ops (vmm_map_page 0x5000 0x8000000000 alloc_vmm, {alloc_page})"
    using a r by (simp only: demo_ops_def run_simps(2) [of _ _ Alloc] e)
qed

theorem memory_run_refines_witness:
  "held demo_root (vmm_map_page 0x5000 0x8000000000 alloc_vmm, {alloc_page}) \<and>
   translate (vmm_map_page 0x5000 0x8000000000 alloc_vmm) demo_root [1, 0, 0, 0] = Some 0x5000"
proof -
  note R = memory_run_refines [OF demo_run(4,1)]
  have p: "path_of 0x8000000000 = [1, 0, 0, 0]" "addr 0x5000 = 0x5000"
    by (simp_all add: path_of_def page_addr_iff page_aligned_def)
  have "resolve (translate demo_vmm demo_root) 0x5000 = 0x5000"
    using demo_vmm_inv(5) by (simp add: resolve_def path_of_def del: translate.simps)
  then have "fold (map_op h) demo_ops (translate demo_vmm demo_root) [1, 0, 0, 0] = Some 0x5000" for h
    by (simp add: demo_ops_def p del: translate.simps)
  then show ?thesis using R by (simp del: translate.simps)
qed

theorem memory_isolation_witness:
  "page_bytes alloc_vmm alloc_page \<subseteq> {x. mem (vmm_map_page 0x5000 0x8000000000 alloc_vmm) x = mem alloc_vmm x} \<and>
   [] \<in> {q. tab (vmm_map_page 0x5000 0x8000000000 alloc_vmm) demo_root q \<noteq> Some alloc_page}"
proof -
  note I = memory_isolation [OF demo_run(3,2), of alloc_page, simplified]
  then have "tab (vmm_map_page 0x5000 0x8000000000 alloc_vmm) demo_root [] \<noteq> Some alloc_page"
    by (metis le0 list.size(3))
  with I show ?thesis by blast
qed

end
