(* ===== verification/Renderer.thy ===== *)
theory Renderer
  imports Machine
begin

text \<open>
  \<open>src/rendering/renderer.c\<close> and \<open>printf\<close> of \<open>src/inc/stdio.c\<close>: a terminal of two columns drawn into a
  framebuffer in memory. The framebuffer and the font structures are values (the renderer
  does not change them), the pixels and the glyph bitmaps are bytes of the memory. Strings are HOL
  strings, without the terminating 0: drawing does not change the string that is drawn. \<open>None\<close> is
  undefined behaviour of the C code: a base of 0, a write past the end of \<open>buf\<close>, a missing argument or
  one of the wrong kind, or a format that ends in a percent sign. A font of width or height 0 would make
  the code divide by 0; the theorems exclude it.

  Loops with 32-bit counters are run by \<open>for_u64\<close> with the bound zero-extended.
\<close>

section \<open>State\<close>

record font_info =
  fi_width :: u32
  fi_height :: u32
  fi_num_glyphs :: u32
  fi_bytes_per_glyph :: u32

record bamboo_font = font_info +
  mappings :: "u32 list"
  glyphs :: u64

record renderer = machine +
  r_fb :: bamboo_fb
  r_font :: bamboo_font
  r_x :: u64
  r_y :: u64
  r_on_second_half :: bool
  print_colour :: u32

abbreviation font_height :: "'a renderer_scheme \<Rightarrow> u64" where
  "font_height s \<equiv> ucast (fi_height (r_font s))"
abbreviation font_width :: "'a renderer_scheme \<Rightarrow> u64" where
  "font_width s \<equiv> ucast (fi_width (r_font s))"

section \<open>Pixels and characters\<close>

definition renderer_init :: "bamboo_fb \<Rightarrow> bamboo_font \<Rightarrow> 'a renderer_scheme \<Rightarrow> 'a renderer_scheme" where
  "renderer_init fb font s = s\<lparr>r_fb := fb, r_font := font, r_on_second_half := False\<rparr>"

definition pixel_address :: "bamboo_fb \<Rightarrow> u64 \<Rightarrow> u64 \<Rightarrow> u64" where
  "pixel_address fb x y = fb_buffer fb + 4 * (y * fb_pitch fb div 4 + x)"

definition renderer_set_pixel :: "u64 \<Rightarrow> u64 \<Rightarrow> u32 \<Rightarrow> 'a renderer_scheme \<Rightarrow> 'a renderer_scheme" where
  "renderer_set_pixel x y colour s =
    (if x < fb_width (r_fb s) \<and> y < fb_height (r_fb s)
     then s\<lparr>mem := store32 (mem s) (pixel_address (r_fb s) x y) colour\<rparr>
     else s)"

definition renderer_draw_char_at :: "char \<Rightarrow> u64 \<Rightarrow> u64 \<Rightarrow> u32 \<Rightarrow> 'a renderer_scheme \<Rightarrow> 'a renderer_scheme" where
  "renderer_draw_char_at c x y colour s =
    (let c8 = of_char c :: u8; info = r_font s in
     if scast c8 \<ge> fi_num_glyphs info \<or> c8 \<ge> 128 then s
     else
       let glyph = glyphs info + ucast (mappings info ! unat c8 * fi_bytes_per_glyph info);
           pitch = fi_bytes_per_glyph info div fi_height info
       in for_u64 0 (ucast (fi_height info))
            (\<lambda>y_off. for_u64 0 (ucast (fi_width info))
              (\<lambda>x_off s.
                let bits = mem s (glyph + ucast (ucast y_off * pitch + ucast x_off div 8));
                    bit = drop_bit (unat (7 - ucast x_off mod 8 :: u32)) bits AND 1
                in if bit \<noteq> 0 then renderer_set_pixel (x_off + x) (y_off + y) colour s else s)) s)"

definition renderer_clear_screen :: "u32 \<Rightarrow> 'a renderer_scheme \<Rightarrow> 'a renderer_scheme" where
  "renderer_clear_screen colour s =
    (let s = for_u64 0 (fb_height (r_fb s))
               (\<lambda>y s. for_u64 0 (fb_width (r_fb s))
                 (\<lambda>x s. s\<lparr>mem := store32 (mem s) (pixel_address (r_fb s) x y) colour\<rparr>) s) s
     in s\<lparr>r_x := 0, r_y := 0\<rparr>)"

definition wrap_line :: "'a renderer_scheme \<Rightarrow> 'a renderer_scheme" where
  "wrap_line s =
    (if \<not> r_on_second_half s \<and> r_x s \<ge> fb_width (r_fb s) div 2
     then s\<lparr>r_y := r_y s + font_height s, r_x := 0\<rparr>
     else if r_on_second_half s \<and> r_x s \<ge> fb_width (r_fb s)
     then s\<lparr>r_y := r_y s + font_height s, r_x := fb_width (r_fb s) div 2 + font_width s\<rparr>
     else s)"

definition wrap_page :: "'a renderer_scheme \<Rightarrow> 'a renderer_scheme" where
  "wrap_page s =
    (if r_y s + font_height s \<ge> fb_height (r_fb s)
     then
       (if \<not> r_on_second_half s
        then s\<lparr>r_on_second_half := True, r_x := fb_width (r_fb s) div 2 + font_width s, r_y := 0\<rparr>
        else renderer_clear_screen COLOUR_BACKGROUND (s\<lparr>r_on_second_half := False, r_x := 0, r_y := 0\<rparr>))
     else s)"

definition renderer_draw_char :: "char \<Rightarrow> u32 \<Rightarrow> 'a renderer_scheme \<Rightarrow> 'a renderer_scheme" where
  "renderer_draw_char c colour s =
    (if c = CHR 0x0A then
       (let s = s\<lparr>r_y := r_y s + font_height s\<rparr>
        in s\<lparr>r_x := (if r_on_second_half s then fb_width (r_fb s) div 2 + font_width s else 0)\<rparr>)
     else
       (let s = wrap_page (wrap_line s);
            s = renderer_draw_char_at c (r_x s) (r_y s) colour s
        in s\<lparr>r_x := r_x s + font_width s\<rparr>))"

definition renderer_chars_left_on_line :: "'a renderer_scheme \<Rightarrow> u64" where
  "renderer_chars_left_on_line s =
    (if \<not> r_on_second_half s then (fb_width (r_fb s) div 2 - r_x s) div font_width s
     else (fb_width (r_fb s) - r_x s) div font_width s)"

definition renderer_chars_per_line :: "'a renderer_scheme \<Rightarrow> u64" where
  "renderer_chars_per_line s = (fb_width (r_fb s) div 2) div font_width s"

section \<open>Strings and numbers\<close>

text \<open>
  The look-ahead for a space or the end of the text among the next \<open>n\<close> characters of \<open>cs\<close>: the loop
  stops at the end of the string.
\<close>

definition space_ahead :: "nat \<Rightarrow> string \<Rightarrow> bool" where
  "space_ahead n cs \<longleftrightarrow> CHR '' '' \<in> set (take n cs) \<or> length cs < n"

text \<open>\<open>renderer_draw_string\<close> looks ahead from the space itself, \<open>printf\<close> from the character behind it.\<close>

fun renderer_draw_string :: "string \<Rightarrow> u32 \<Rightarrow> 'a renderer_scheme \<Rightarrow> 'a renderer_scheme" where
  "renderer_draw_string [] colour s = s"
| "renderer_draw_string (c # cs) colour s =
    (let chars_left = renderer_chars_left_on_line s;
         s = (if c = CHR '' '' \<and> chars_left < renderer_chars_per_line s \<and> \<not> space_ahead (unat chars_left) (c # cs)
              then renderer_draw_char (CHR 0x0A) 0 s else s)
     in renderer_draw_string cs colour (renderer_draw_char c colour s))"

definition digit :: "bool \<Rightarrow> u64 \<Rightarrow> char" where
  "digit capitalise m =
    (if m < 10 then char_of (unat (m + 0x30))
     else if capitalise then char_of (unat (m - 10 + 0x41))
     else char_of (unat (m - 10 + 0x61)))"

text \<open>\<open>buf\<close> has 30 characters; the digits are written from the last to the first.\<close>

function number_digits :: "u64 \<Rightarrow> u64 \<Rightarrow> bool \<Rightarrow> string \<Rightarrow> string option" where
  "number_digits current_div base capitalise buf =
    (if base = 0 \<or> length buf \<ge> 30 then None
     else
       let buf = buf @ [digit capitalise (current_div mod base)] in
       if current_div div base > 0 then number_digits (current_div div base) base capitalise buf
       else Some buf)"
  by pat_completeness auto
termination
  by (relation "measure (\<lambda>(_, _, _, buf). 30 - length buf)") auto

declare number_digits.simps [simp del]

definition draw_text :: "u32 \<Rightarrow> string \<Rightarrow> 'a renderer_scheme \<Rightarrow> 'a renderer_scheme" where
  "draw_text colour cs s = fold (\<lambda>c. renderer_draw_char c colour) cs s"

definition renderer_draw_number ::
  "u64 \<Rightarrow> u8 \<Rightarrow> bool \<Rightarrow> bool \<Rightarrow> u32 \<Rightarrow> 'a renderer_scheme \<Rightarrow> 'a renderer_scheme option" where
  "renderer_draw_number val base is_signed capitalise colour s =
    (if base > 20 then Some s
     else
       (let negative = is_signed \<and> \<not> 0 \<le>s val;
            current_div = (if negative then NOT val + 1 else val);
            s = (if negative then renderer_draw_char (CHR ''-'') colour s else s)
        in case number_digits current_div (ucast base) capitalise [] of None \<Rightarrow> None
           | Some buf \<Rightarrow>
             (let s = (if base = 16 then renderer_draw_string ''0x'' colour s else s);
                  s = (if base = 2 then renderer_draw_string ''0b'' colour s else s)
              in Some (draw_text colour (rev buf) s))))"

section \<open>\<open>printf\<close>\<close>

fun format_arg :: "char \<Rightarrow> print_arg list \<Rightarrow> 'a renderer_scheme \<Rightarrow> (print_arg list \<times> 'a renderer_scheme) option" where
  "format_arg c args s =
    (if c \<notin> set ''csudXxC'' then Some (args, s)
     else
       (case args of
          [] \<Rightarrow> None
        | PStr t # args \<Rightarrow>
            (if c = CHR ''s'' then Some (args, renderer_draw_string t (print_colour s) s) else None)
        | PInt v # args \<Rightarrow>
            (if c = CHR ''c'' then Some (args, renderer_draw_char (char_of (unat v)) (print_colour s) s)
             else if c = CHR ''u'' then map_option (Pair args) (renderer_draw_number v 10 False True (print_colour s) s)
             else if c = CHR ''d'' then
               map_option (Pair args) (renderer_draw_number (scast (ucast v :: u32)) 10 True True (print_colour s) s)
             else if c = CHR ''X'' then map_option (Pair args) (renderer_draw_number v 16 False True (print_colour s) s)
             else if c = CHR ''x'' then map_option (Pair args) (renderer_draw_number v 16 False False (print_colour s) s)
             else if c = CHR ''C'' then Some (args, s\<lparr>print_colour := ucast v\<rparr>)
             else None)))"

text \<open>
  The line break before a character that starts the format or is a space, when the word behind it does
  not fit on the line. \<open>first\<close> is the test \<open>i == 0\<close>, \<open>cs\<close> the format behind the character.
\<close>

definition break_line :: "bool \<Rightarrow> char \<Rightarrow> string \<Rightarrow> 'a renderer_scheme \<Rightarrow> 'a renderer_scheme" where
  "break_line first c cs s =
    (if c = CHR '' '' \<or> first then
       (let chars_left = renderer_chars_left_on_line s in
        if chars_left < renderer_chars_per_line s \<and> \<not> space_ahead (unat chars_left) cs then
          (let s = renderer_draw_char (CHR 0x0A) 0 s
           in if first then renderer_draw_char (CHR '' '') 0 s else s)
        else s)
     else s)"

fun printf_loop :: "bool \<Rightarrow> string \<Rightarrow> print_arg list \<Rightarrow> 'a renderer_scheme \<Rightarrow> 'a renderer_scheme option" where
  "printf_loop first [] args s = Some s"
| "printf_loop first (c # cs) args s =
    (if c = CHR ''%'' then
       (case cs of [] \<Rightarrow> None
        | d # ds \<Rightarrow>
          (case format_arg d args s of None \<Rightarrow> None
           | Some (args, s) \<Rightarrow> printf_loop False ds args s))
     else
       (let s = break_line first c cs s
        in printf_loop False cs args (renderer_draw_char c (print_colour s) s)))"

definition printf :: "string \<Rightarrow> print_arg list \<Rightarrow> 'a renderer_scheme \<Rightarrow> 'a renderer_scheme option" where
  "printf format args s =
    map_option (\<lambda>s'. s'\<lparr>print_colour := print_colour s\<rparr>) (printf_loop True format args s)"

end
