(* ===== verification/Renderer_Correct.thy ===== *)
theory Renderer_Correct
  imports Renderer
begin

text \<open>
  What the terminal promises: drawing changes nothing but the cursor, the print colour and bytes of the
  framebuffer, numbers are printed in positional notation, and \<open>printf\<close> returns on every format that
  matches its arguments.
\<close>

section \<open>Numbers\<close>

definition digit_char :: "bool \<Rightarrow> nat \<Rightarrow> char" where
  "digit_char capitalise m =
    char_of (if m < 10 then m + 48 else if capitalise then m + 55 else m + 87)"

fun positional :: "nat \<Rightarrow> bool \<Rightarrow> nat \<Rightarrow> string" where
  "positional b cap n =
    (if n < b \<or> b < 2 then [digit_char cap n] else positional b cap (n div b) @ [digit_char cap (n mod b)])"

declare positional.simps [simp del]

definition digit_value :: "char \<Rightarrow> nat" where
  "digit_value c = (let k = of_char c in if k < 58 then k - 48 else if k < 91 then k - 55 else k - 87)"

definition number_value :: "nat \<Rightarrow> string \<Rightarrow> nat" where
  "number_value b cs = foldl (\<lambda>n c. b * n + digit_value c) 0 cs"

lemma digit_value: "m < 20 \<Longrightarrow> digit_value (digit_char cap m) = m"
  by (auto simp: digit_value_def digit_char_def Let_def)

lemma number_value_positional:
  assumes "2 \<le> b" "b \<le> 20"
  shows "number_value b (positional b cap n) = n"
proof (induction n rule: less_induct)
  case (less n)
  show ?case
  proof (cases "n < b")
    case True
    then show ?thesis using assms by (subst positional.simps) (simp add: number_value_def digit_value)
  next
    case False
    then have "n div b < n" using assms by simp
    note IH = less.IH [OF this]
    have m: "n mod b < 20" using assms mod_less_divisor [of b n] by linarith
    have "positional b cap n = positional b cap (n div b) @ [digit_char cap (n mod b)]"
      using False assms by (subst positional.simps) simp
    then have "number_value b (positional b cap n) = b * number_value b (positional b cap (n div b)) + n mod b"
      using m by (simp add: number_value_def digit_value)
    then show ?thesis by (simp add: IH)
  qed
qed

lemma length_positional:
  "2 \<le> b \<Longrightarrow> n < b ^ Suc k \<Longrightarrow> length (positional b cap n) \<le> Suc k"
proof (induction k arbitrary: n)
  case 0
  then show ?case by (subst positional.simps) simp
next
  case (Suc k)
  then have "n div b < b ^ Suc k" by (simp add: less_mult_imp_div_less mult.commute)
  with Suc show ?case by (subst positional.simps) auto
qed

lemma digit_eq:
  assumes "m < 20"
  shows "digit cap m = digit_char cap (unat m)"
proof -
  have u: "unat m < 20" using assms by (simp add: word_less_nat_alt)
  have "unat (m + of_nat k) = unat m + k" if "k < 100" for k
    using u64_add_of_nat_diff [of m 0 k] u that by simp
  from this [of 48] have 48: "unat (m + 0x30) = unat m + 48" by simp
  have "unat (m - 10) = unat m - 10" if "\<not> m < 10"
    using that by (simp add: word_less_nat_alt unat_diff_ge)
  then have "unat (m - 10 + 0x41) = unat m + 55" "unat (m - 10 + 0x61) = unat m + 87" if "\<not> m < 10"
    using that u u64_add_of_nat_diff [of "m - 10" 0 65] u64_add_of_nat_diff [of "m - 10" 0 97]
    by (simp_all add: word_less_nat_alt)
  with 48 show ?thesis by (simp add: digit_def digit_char_def word_less_nat_alt)
qed

lemma number_digits_eq:
  assumes "2 \<le> base" "base \<le> 20" "length buf \<le> 30"
  shows "number_digits n base cap buf =
    (if length buf + length (positional (unat base) cap (unat n)) \<le> 30
     then Some (buf @ rev (positional (unat base) cap (unat n))) else None)"
  using assms
proof (induction n base cap buf rule: number_digits.induct)
  case (1 n base cap buf)
  have b: "2 \<le> unat base" "unat base \<le> 20" "base \<noteq> 0" using 1(2,3) by (auto simp: word_le_nat_alt)
  have d: "digit cap (n mod base) = digit_char cap (unat n mod unat base)"
  proof -
    have "unat (n mod base) = unat n mod unat base" by (rule unat_mod)
    moreover have "unat n mod unat base < unat base" using b by simp
    then have "unat (n mod base) < 20" using b(2) calculation by linarith
    then show ?thesis using digit_eq [of "n mod base"] by (simp add: word_less_nat_alt unat_mod)
  qed
  have pos: "n div base > 0 \<longleftrightarrow> \<not> unat n < unat base"
    using b(1) by (auto simp: word_less_nat_alt unat_div div_greater_zero_iff)
  show ?case
  proof (cases "length buf \<ge> 30")
    case True
    moreover have "0 < length (positional (unat base) cap (unat n))" by (subst positional.simps) simp
    ultimately show ?thesis using 1(4) by (subst number_digits.simps) auto
  next
    case False
    let ?buf = "buf @ [digit cap (n mod base)]"
    show ?thesis
    proof (cases "unat n < unat base")
      case True
      then show ?thesis
        using False b pos d by (subst number_digits.simps, subst (1 2) positional.simps) simp
    next
      case ge: False
      have step: "number_digits n base cap buf = number_digits (n div base) base cap ?buf"
        using False b ge pos by (subst number_digits.simps) simp
      have "number_digits (n div base) base cap ?buf =
        (if length ?buf + length (positional (unat base) cap (unat n div unat base)) \<le> 30
         then Some (?buf @ rev (positional (unat base) cap (unat n div unat base))) else None)"
        using 1(1) [OF _ refl] False b(3) ge pos 1(2,3) by (simp add: unat_div)
      then show ?thesis
        unfolding step using ge b d by (subst (1 2) positional.simps) simp
    qed
  qed
qed

lemma draw_string_text: "CHR '' '' \<notin> set cs \<Longrightarrow> renderer_draw_string cs colour s = draw_text colour cs s"
  by (induction cs arbitrary: s) (auto simp: draw_text_def)

lemma draw_text_append: "draw_text colour (cs @ ds) s = draw_text colour ds (draw_text colour cs s)"
  by (simp add: draw_text_def)

section \<open>Frame\<close>

definition fb_bytes :: "bamboo_fb \<Rightarrow> u64 set" where
  "fb_bytes fb = {a. in_range a (fb_buffer fb) (unat (fb_pitch fb) * unat (fb_height fb))}"

definition fb_ok :: "bamboo_fb \<Rightarrow> bool" where
  "fb_ok fb \<longleftrightarrow> 4 * unat (fb_width fb) \<le> unat (fb_pitch fb) \<and> unat (fb_pitch fb) * unat (fb_height fb) < 2 ^ 64"

text \<open>\<open>paints s s'\<close>: from \<open>s\<close> to \<open>s'\<close> only the cursor, the print colour and bytes of the framebuffer change.\<close>

definition paints :: "'a renderer_scheme \<Rightarrow> 'a renderer_scheme \<Rightarrow> bool" where
  "paints s s' \<longleftrightarrow> r_fb s' = r_fb s \<and> r_font s' = r_font s \<and> cpu_ops s' = cpu_ops s \<and> console s' = console s \<and>
    renderer.more s' = renderer.more s \<and> (\<forall>a. a \<notin> fb_bytes (r_fb s) \<longrightarrow> mem s' a = mem s a)"

lemma paints_refl [intro, simp]: "paints s s"
  by (simp add: paints_def)

lemma paints_trans [trans]: "paints s t \<Longrightarrow> paints t u \<Longrightarrow> paints s u"
  by (simp add: paints_def)

lemma paintsD:
  assumes "paints s s'"
  shows "r_fb s' = r_fb s" "r_font s' = r_font s" "a \<notin> fb_bytes (r_fb s) \<Longrightarrow> mem s' a = mem s a"
    "cpu_ops s' = cpu_ops s" "console s' = console s" "renderer.more s' = renderer.more s"
  using assms unfolding paints_def by auto

text \<open>The cursor moves freely.\<close>

lemma paints_cursor [simp]:
  "paints s (t\<lparr>r_x := x\<rparr>) = paints s t" "paints s (t\<lparr>r_y := y\<rparr>) = paints s t"
  "paints s (t\<lparr>r_on_second_half := h\<rparr>) = paints s t" "paints s (t\<lparr>print_colour := c\<rparr>) = paints s t"
  "paints (s\<lparr>r_x := x\<rparr>) t = paints s t" "paints (s\<lparr>r_y := y\<rparr>) t = paints s t"
  "paints (s\<lparr>r_on_second_half := h\<rparr>) t = paints s t" "paints (s\<lparr>print_colour := c\<rparr>) t = paints s t"
  by (simp_all add: paints_def)

lemma pixel_slot:
  assumes "fb_ok fb" "x < fb_width fb" "y < fb_height fb"
  obtains k where "pixel_address fb x y = fb_buffer fb + of_nat 4 * of_nat k"
    "4 * k + 4 \<le> unat (fb_pitch fb) * unat (fb_height fb)"
proof -
  let ?w = "unat (fb_width fb)" and ?h = "unat (fb_height fb)" and ?p = "unat (fb_pitch fb)"
  have ok: "4 * ?w \<le> ?p" "?p * ?h < 2 ^ 64" using assms(1) by (simp_all add: fb_ok_def)
  have xy: "unat x < ?w" "unat y < ?h" using assms(2,3) by (simp_all add: word_less_nat_alt)
  have le: "unat y * ?p + ?p \<le> ?p * ?h"
    using mult_le_mono2 [of "Suc (unat y)" ?h ?p] xy(2) by (simp add: mult.commute)
  then have yp: "unat (y * fb_pitch fb) = unat y * ?p"
    using ok(2) unat_mult_lem [THEN iffD1, of y "fb_pitch fb"] by simp
  define k where "k = unat y * ?p div 4 + unat x"
  have k4: "4 * k + 4 \<le> ?p * ?h"
  proof -
    have "4 * k \<le> unat y * ?p + 4 * unat x" by (simp add: k_def)
    then show ?thesis using xy(1) ok(1) le by linarith
  qed
  have "unat (y * fb_pitch fb div 4) = unat y * ?p div 4" by (simp add: unat_div yp)
  then have "unat (y * fb_pitch fb div 4 + x) = k"
    using unat_add_lem [THEN iffD1, of "y * fb_pitch fb div 4" x] k4 ok(2) by (simp add: k_def)
  then have off: "y * fb_pitch fb div 4 + x = of_nat k" by (rule unat_eq_of_nat)
  show thesis by (rule that [OF _ k4]) (simp add: pixel_address_def off)
qed

lemma pixel_in_fb:
  assumes "fb_ok fb" "x < fb_width fb" "y < fb_height fb" "in_range a (pixel_address fb x y) 4"
  shows "a \<in> fb_bytes fb"
proof -
  obtain k where k: "pixel_address fb x y = fb_buffer fb + of_nat 4 * of_nat k"
    "4 * k + 4 \<le> unat (fb_pitch fb) * unat (fb_height fb)" using pixel_slot [OF assms(1-3)] .
  have b: "unat (fb_pitch fb) * unat (fb_height fb) < 2 ^ 64" using assms(1) by (simp add: fb_ok_def)
  define d where "d = a - pixel_address fb x y"
  have d: "unat d < 4" using assms(4) by (simp add: in_range_def d_def)
  have "a - fb_buffer fb = d + of_nat (4 * k)"
    by (simp add: k(1) d_def)
  moreover have "unat (d + of_nat (4 * k)) = unat d + 4 * k"
    using u64_add_of_nat_diff [of d 0 "4 * k"] d k(2) b by simp
  ultimately have "unat (a - fb_buffer fb) < 4 * k + 4" using d by simp
  then show ?thesis using k(2) by (simp add: fb_bytes_def in_range_def)
qed

text \<open>Pixels do not overlap: painting one in a colour keeps that colour of the others.\<close>

lemma pixel_same_colour:
  assumes "fb_ok fb" "x < fb_width fb" "y < fb_height fb" "x' < fb_width fb" "y' < fb_height fb"
    and "(x', y') \<noteq> (x, y) \<longrightarrow> load32 m (pixel_address fb x' y') = c"
  shows "load32 (store32 m (pixel_address fb x y) c) (pixel_address fb x' y') = c"
proof (cases "pixel_address fb x' y' = pixel_address fb x y")
  case True
  then show ?thesis by (simp add: cell32.rd_wr)
next
  case False
  obtain k k' where k: "pixel_address fb x y = fb_buffer fb + of_nat 4 * of_nat k"
    "4 * k + 4 \<le> unat (fb_pitch fb) * unat (fb_height fb)"
    "pixel_address fb x' y' = fb_buffer fb + of_nat 4 * of_nat k'"
    "4 * k' + 4 \<le> unat (fb_pitch fb) * unat (fb_height fb)"
    using pixel_slot [OF assms(1-3)] pixel_slot [OF assms(1,4,5)] by metis
  have b: "unat (fb_pitch fb) * unat (fb_height fb) < 2 ^ 64" using assms(1) by (simp add: fb_ok_def)
  have u: "unat (of_nat k :: u64) = k" "unat (of_nat k' :: u64) = k'"
    using k(2,4) b by (simp_all add: unat_of_nat take_bit_nat_eq_self)
  have "disj (pixel_address fb x' y') 4 (pixel_address fb x y) 4"
    unfolding k(1,3) using k False b u by (intro cell32.disj_slots) auto
  then show ?thesis using False assms(6) by (auto simp: cell32.rd_wr_disj)
qed

lemma paints_pixel:
  assumes "fb_ok (r_fb s)" "x < fb_width (r_fb s)" "y < fb_height (r_fb s)"
  shows "paints s (s\<lparr>mem := store32 (mem s) (pixel_address (r_fb s) x y) colour\<rparr>)"
proof -
  have "store32 (mem s) (pixel_address (r_fb s) x y) colour a = mem s a" if "a \<notin> fb_bytes (r_fb s)" for a
    using pixel_in_fb [OF assms] that by (intro cell32.wr_outside) blast
  then show ?thesis by (simp add: paints_def)
qed

lemma paints_set_pixel: "fb_ok (r_fb s) \<Longrightarrow> paints s (renderer_set_pixel x y colour s)"
  by (simp add: renderer_set_pixel_def paints_pixel)

text \<open>A loop paints if its body does.\<close>

lemma paints_for:
  assumes "\<And>j t. j < n \<Longrightarrow> paints s t \<Longrightarrow> paints t (body j t)"
  shows "paints s (for_u64 0 n body s)"
proof -
  have "(\<lambda>k t. paints s t) (unat n) (for_u64 0 n body s)"
    by (rule for_u64_invariant) (use assms in \<open>auto intro: paints_trans simp: word_le_nat_alt\<close>)
  then show ?thesis .
qed

lemma paints_fb_ok: "paints s t \<Longrightarrow> fb_ok (r_fb s) \<Longrightarrow> fb_ok (r_fb t)"
  by (simp add: paintsD)

lemma paints_draw_char_at:
  assumes "fb_ok (r_fb s)"
  shows "paints s (renderer_draw_char_at c x y colour s)"
proof -
  have body: "paints t (let bits = B j i t; bit = D j i bits in if bit \<noteq> (0 :: u8) then renderer_set_pixel (u i) (v j) colour t else t)"
    if "paints s t" for i j t B D u v
    using paints_fb_ok [OF that assms] by (simp add: paints_set_pixel Let_def)
  show ?thesis
    unfolding renderer_draw_char_at_def Let_def
    by (auto intro!: paints_for paints_set_pixel dest: paints_fb_ok [OF paints_trans] simp: assms)
qed

lemma paints_clear_screen:
  assumes "fb_ok (r_fb s)"
  shows "paints s (renderer_clear_screen colour s)"
proof -
  have "paints s (for_u64 0 (fb_height (r_fb s)) (\<lambda>y s. for_u64 0 (fb_width (r_fb s))
    (\<lambda>x s. s\<lparr>mem := store32 (mem s) (pixel_address (r_fb s) x y) colour\<rparr>) s) s)"
  proof (rule paints_for)
    fix y t assume y: "y < fb_height (r_fb s)" "paints s t"
    show "paints t (for_u64 0 (fb_width (r_fb t)) (\<lambda>x s. s\<lparr>mem := store32 (mem s) (pixel_address (r_fb s) x y) colour\<rparr>) t)"
    proof (rule paints_for)
      fix x u assume "x < fb_width (r_fb t)" "paints t u"
      then show "paints u (u\<lparr>mem := store32 (mem u) (pixel_address (r_fb u) x y) colour\<rparr>)"
        using assms y paintsD(1) [OF y(2)] paintsD(1) [of t u] by (intro paints_pixel) simp_all
    qed
  qed
  then show ?thesis by (simp add: renderer_clear_screen_def)
qed

lemma clear_screen_pixels:
  assumes "fb_ok (r_fb s)" "x < fb_width (r_fb s)" "y < fb_height (r_fb s)"
  shows "load32 (mem (renderer_clear_screen colour s)) (pixel_address (r_fb s) x y) = colour"
proof -
  let ?fb = "r_fb s" and ?set = "\<lambda>x y t. t\<lparr>mem := store32 (mem t) (pixel_address (r_fb t) x y) colour\<rparr>"
  define ok where "ok m x y \<longleftrightarrow> load32 m (pixel_address ?fb x y) = colour" for m x y
  define rows where "rows k t \<longleftrightarrow> r_fb t = ?fb \<and> (\<forall>x < fb_width ?fb. \<forall>y < fb_height ?fb. unat y < k \<longrightarrow> ok (mem t) x y)"
    for k :: nat and t :: "'a renderer_scheme"
  have "rows (unat (fb_height ?fb)) (for_u64 0 (fb_height ?fb) (\<lambda>y s. for_u64 0 (fb_width (r_fb s)) (\<lambda>x. ?set x y) s) s)"
  proof (rule for_u64_invariant)
    fix y t assume y: "y < fb_height ?fb" and r: "rows (unat y) t"
    define row where "row k u \<longleftrightarrow> rows (unat y) u \<and> (\<forall>x < fb_width ?fb. unat x < k \<longrightarrow> ok (mem u) x y)"
      for k :: nat and u :: "'a renderer_scheme"
    have "row (unat (fb_width (r_fb t))) (for_u64 0 (fb_width (r_fb t)) (\<lambda>x. ?set x y) t)"
    proof (rule for_u64_invariant)
      fix x u assume x: "x < fb_width (r_fb t)" and u: "row (unat x) u"
      have fb: "r_fb u = ?fb" "x < fb_width ?fb" using u x r by (simp_all add: row_def rows_def)
      have "ok (mem (?set x y u)) x' y'"
        if "x' < fb_width ?fb" "y' < fb_height ?fb" "unat y' < unat y \<or> y' = y \<and> unat x' < Suc (unat x)" for x' y'
      proof -
        have "(x', y') \<noteq> (x, y) \<longrightarrow> unat y' < unat y \<or> y' = y \<and> unat x' < unat x"
          using that(3) by (auto simp: less_Suc_eq word_unat_eq_iff)
        then have "(x', y') \<noteq> (x, y) \<longrightarrow> ok (mem u) x' y'" using u that(1,2) by (auto simp: row_def rows_def)
        then show ?thesis using pixel_same_colour [OF assms(1) fb(2) y that(1,2)] by (simp add: ok_def fb(1))
      qed
      then show "row (Suc (unat x)) (?set x y u)" using fb(1) y by (simp add: row_def rows_def)
    qed (use r in \<open>auto simp: row_def rows_def\<close>)
    then have R: "row (unat (fb_width ?fb)) (for_u64 0 (fb_width (r_fb t)) (\<lambda>x. ?set x y) t)" (is "row _ ?u")
      using r by (simp add: rows_def)
    have "ok (mem ?u) x' y'" if "x' < fb_width ?fb" "y' < fb_height ?fb" "unat y' < Suc (unat y)" for x' y'
    proof -
      have "unat y' < unat y \<or> y' = y" using that(3) by (simp add: less_Suc_eq word_unat_eq_iff)
      then show ?thesis using R that(1,2) unfolding row_def rows_def word_less_nat_alt by blast
    qed
    then show "rows (Suc (unat y)) ?u" using R by (simp add: row_def rows_def)
  qed (simp_all add: rows_def)
  then show ?thesis
    using assms(2,3) by (simp add: renderer_clear_screen_def rows_def ok_def Let_def word_less_nat_alt)
qed

lemma paints_wrap: "fb_ok (r_fb s) \<Longrightarrow> paints s (wrap_page s)" "paints s (wrap_line s)"
  using paints_clear_screen [of "s\<lparr>r_on_second_half := False, r_x := 0, r_y := 0\<rparr>" COLOUR_BACKGROUND]
  by (simp_all add: wrap_page_def wrap_line_def)

lemma paints_draw_char:
  assumes "fb_ok (r_fb s)"
  shows "paints s (renderer_draw_char c colour s)"
proof (cases "c = CHR 0x0A")
  case True
  then show ?thesis by (simp add: renderer_draw_char_def Let_def)
next
  case False
  have "paints s (wrap_page (wrap_line s))"
    using paints_wrap(1) [OF paints_fb_ok [OF paints_wrap(2) assms]] paints_wrap(2) by (rule paints_trans [rotated])
  from paints_trans [OF this paints_draw_char_at [OF paints_fb_ok [OF this assms]]]
  show ?thesis
    using False by (simp add: renderer_draw_char_def Let_def)
qed

lemma paints_draw_char_step [frame_simps]: "paints s t \<Longrightarrow> fb_ok (r_fb s) \<Longrightarrow> paints s (renderer_draw_char c colour t)"
  by (meson paints_draw_char paints_fb_ok paints_trans)

lemma paints_draw_text [frame_simps]: "paints s t \<Longrightarrow> fb_ok (r_fb s) \<Longrightarrow> paints s (draw_text colour cs t)"
  by (induction cs arbitrary: t) (simp_all add: draw_text_def frame_simps)

lemma paints_draw_string [frame_simps]: "paints s t \<Longrightarrow> fb_ok (r_fb s) \<Longrightarrow> paints s (renderer_draw_string cs colour t)"
  by (induction cs arbitrary: t) (simp_all add: Let_def frame_simps)

lemma paints_draw_number:
  "renderer_draw_number n base neg cap colour t = Some u \<Longrightarrow> paints s t \<Longrightarrow> fb_ok (r_fb s) \<Longrightarrow> paints s u"
  by (auto simp: renderer_draw_number_def Let_def frame_simps
    split: if_splits option.splits)

section \<open>Printed numbers\<close>

definition magnitude :: "bool \<Rightarrow> u64 \<Rightarrow> nat" where
  "magnitude is_signed val = (if is_signed \<and> sint val < 0 then nat (- sint val) else unat val)"

definition number_text :: "nat \<Rightarrow> bool \<Rightarrow> bool \<Rightarrow> u64 \<Rightarrow> string" where
  "number_text base is_signed capitalise val =
    (if is_signed \<and> sint val < 0 then ''-'' else []) @
    (if base = 16 then ''0x'' else if base = 2 then ''0b'' else []) @
    positional base capitalise (magnitude is_signed val)"

lemma magnitude_negative:
  assumes "sint (val :: u64) < 0"
  shows "unat (NOT val + 1) = nat (- sint val)"
proof -
  have "- sint val < 2 ^ 64" using sint_greater_eq [of val] by simp
  then have t: "take_bit 64 (- sint val) = - sint val" using assms by (intro take_bit_int_eq_self) simp_all
  have "NOT val + 1 = (word_of_int (- sint val) :: u64)" by (simp add: not_eq_complement)
  also have "unat \<dots> = nat (- sint val)" using t by (simp add: unsigned_of_int del: of_int_minus)
  finally show ?thesis .
qed

lemma number_fits: "5 \<le> base \<Longrightarrow> length (positional base cap (unat (n :: u64))) \<le> 30"
proof -
  assume "5 \<le> base"
  have "unat n < 2 ^ 64" using unsigned_less [of n] by simp
  also have "(2 :: nat) ^ 64 \<le> 5 ^ Suc 29" by simp
  also have "(5 :: nat) ^ Suc 29 \<le> base ^ Suc 29" using \<open>5 \<le> base\<close> by (rule power_mono) simp
  finally show ?thesis using length_positional [of base "unat n" 29 cap] \<open>5 \<le> base\<close> by simp
qed

lemma magnitude_word: "magnitude is_signed val = unat (if is_signed \<and> \<not> 0 \<le>s val then NOT val + 1 else val)"
  by (simp add: magnitude_def word_sle_eq magnitude_negative)

lemma draw_number_text:
  fixes base :: u8
  assumes "2 \<le> base" "base \<le> 20"
  shows "renderer_draw_number val base is_signed capitalise colour s =
    (if length (positional (unat base) capitalise (magnitude is_signed val)) \<le> 30
     then Some (draw_text colour (number_text (unat base) is_signed capitalise val) s) else None)"
proof -
  let ?neg = "is_signed \<and> \<not> 0 \<le>s val"
  let ?n = "if ?neg then NOT val + 1 else val"
  have b: "2 \<le> unat base" "unat base \<le> 20" using assms by (auto simp: word_le_nat_alt)
  have ub: "unat (ucast base :: u64) = unat base"
    by (simp add: unsigned_ucast_eq take_bit_nat_eq_self_iff order.strict_trans [OF unsigned_less])
  have bw: "2 \<le> (ucast base :: u64)" "(ucast base :: u64) \<le> 20" using b by (simp_all add: word_le_nat_alt ub)
  have digits: "number_digits ?n (ucast base) capitalise [] =
    (if length (positional (unat base) capitalise (magnitude is_signed val)) \<le> 30
     then Some (rev (positional (unat base) capitalise (magnitude is_signed val))) else None)"
    using number_digits_eq [OF bw, of "[]" ?n capitalise] by (simp add: ub magnitude_word)
  have base: "base = 16 \<longleftrightarrow> unat base = 16" "base = 2 \<longleftrightarrow> unat base = 2"
    by (auto simp: word_unat_eq_iff)
  show ?thesis
    using assms digits
    by (auto simp: renderer_draw_number_def Let_def number_text_def draw_text_append draw_string_text word_sle_eq
        base draw_text_def)
qed

lemma draw_number_returns:
  "5 \<le> base \<Longrightarrow> base \<le> 20 \<Longrightarrow> \<exists>s'. renderer_draw_number val base neg cap colour s = Some s'"
  using number_fits [of "unat base"] by (subst draw_number_text) (auto simp: word_le_nat_alt magnitude_word)

text \<open>
  C27. \<open>renderer_draw_number\<close> in a base from 2 to 20 draws the sign, the prefix of the base and the
  positional notation of the absolute value, whose value is the number. The notation has at most 30
  digits from base 5 on; below, a number with more digits overflows \<open>buf\<close>.
\<close>

theorem renderer_draw_number_correct:
  fixes base :: u8
  assumes "2 \<le> base" "base \<le> 20"
  shows "renderer_draw_number val base is_signed capitalise colour s =
      (if length (positional (unat base) capitalise (magnitude is_signed val)) \<le> 30
       then Some (draw_text colour (number_text (unat base) is_signed capitalise val) s) else None) \<and>
    number_value (unat base) (positional (unat base) capitalise (magnitude is_signed val)) = magnitude is_signed val \<and>
    (5 \<le> base \<longrightarrow> length (positional (unat base) capitalise (magnitude is_signed val)) \<le> 30)"
proof (intro conjI impI)
  show "number_value (unat base) (positional (unat base) capitalise (magnitude is_signed val)) = magnitude is_signed val"
    using assms by (intro number_value_positional) (simp_all add: word_le_nat_alt)
  show "length (positional (unat base) capitalise (magnitude is_signed val)) \<le> 30" if "5 \<le> base"
    using that number_fits [of "unat base"] by (simp add: magnitude_word word_le_nat_alt)
qed (rule draw_number_text [OF assms])

lemma renderer_draw_number_correct_witness:
  "(\<forall>s :: unit renderer_scheme. renderer_draw_number (- 42) 10 True True 0 s = Some (draw_text 0 ''-42'' s)) \<and>
   (\<forall>s :: unit renderer_scheme. renderer_draw_number 0xBEEF 16 False True 0 s = Some (draw_text 0 ''0xBEEF'' s)) \<and>
   (\<forall>s :: unit renderer_scheme. renderer_draw_number 0x40000000 2 False True 0 s = None)"
proof -
  have texts: "number_text 10 True True (- 42) = ''-42''" "number_text 16 False True 0xBEEF = ''0xBEEF''"
    "length (positional 10 True (magnitude True (- 42))) = 2" "length (positional 16 True (magnitude False 0xBEEF)) = 4"
    "length (positional 2 True (magnitude False 0x40000000)) = 31"
    by (simp_all add: number_text_def magnitude_def positional.simps digit_char_def char_of_def bit_0)
  show ?thesis
    using renderer_draw_number_correct [of 10 "- 42" True True 0 "s :: unit renderer_scheme" for s]
      renderer_draw_number_correct [of 16 "0xBEEF" False True 0 "s :: unit renderer_scheme" for s]
      renderer_draw_number_correct [of 2 "0x40000000" False True 0 "s :: unit renderer_scheme" for s]
    by (simp add: texts)
qed

section \<open>\<open>printf\<close>\<close>

text \<open>The arguments a format asks for: \<open>%s\<close> a string, the other conversions an integer.\<close>

fun format_ok :: "string \<Rightarrow> print_arg list \<Rightarrow> bool" where
  "format_ok [] args = True"
| "format_ok (c # cs) args =
    (if c \<noteq> CHR ''%'' then format_ok cs args
     else
       (case cs of
          [] \<Rightarrow> False
        | d # ds \<Rightarrow>
            (if d \<notin> set ''csudXxC'' then format_ok ds args
             else (case args of [] \<Rightarrow> False
                   | PStr t # args \<Rightarrow> d = CHR ''s'' \<and> format_ok ds args
                   | PInt v # args \<Rightarrow> d \<noteq> CHR ''s'' \<and> format_ok ds args))))"

lemma format_arg_ok:
  assumes "fb_ok (r_fb s)" "paints s t"
  shows "case format_arg d args t of
      None \<Rightarrow> \<not> format_ok (CHR ''%'' # d # ds) args
    | Some (args', t') \<Rightarrow> paints s t' \<and> format_ok (CHR ''%'' # d # ds) args = format_ok ds args'"
proof (cases "d \<in> set ''csudXxC''")
  case False
  then show ?thesis using assms by simp
next
  case True
  have n: "\<exists>u. renderer_draw_number v b neg cap colour t = Some u \<and> paints s u"
    if "5 \<le> b" "b \<le> 20" for v b neg cap colour
    using draw_number_returns [OF that] paints_draw_number [OF _ assms(2,1)] by metis
  show ?thesis
  proof (cases args)
    case Nil
    then show ?thesis using True by auto
  next
    case (Cons a args')
    show ?thesis
    proof (cases a)
      case (PStr u)
      then show ?thesis using True Cons assms by (auto simp: frame_simps)
    next
      case (PInt v)
      obtain u1 where u1: "renderer_draw_number v 10 False True (print_colour t) t = Some u1" "paints s u1"
        using n [of 10 v False True "print_colour t"] by auto
      obtain u2 where u2: "renderer_draw_number (scast (ucast v :: u32)) 10 True True (print_colour t) t = Some u2" "paints s u2"
        using n [of 10 "scast (ucast v :: u32)" True True "print_colour t"] by auto
      obtain u3 where u3: "renderer_draw_number v 16 False True (print_colour t) t = Some u3" "paints s u3"
        using n [of 16 v False True "print_colour t"] by auto
      obtain u4 where u4: "renderer_draw_number v 16 False False (print_colour t) t = Some u4" "paints s u4"
        using n [of 16 v False False "print_colour t"] by auto
      have "d = CHR ''c'' \<or> d = CHR ''s'' \<or> d = CHR ''u'' \<or> d = CHR ''d'' \<or> d = CHR ''X'' \<or> d = CHR ''x'' \<or> d = CHR ''C''"
        using True by simp
      then show ?thesis using Cons PInt assms by (elim disjE) (simp_all add: u1 u2 u3 u4 frame_simps)
    qed
  qed
qed

lemma paints_break_line [frame_simps]: "paints s t \<Longrightarrow> fb_ok (r_fb s) \<Longrightarrow> paints s (break_line first c cs t)"
  by (simp add: break_line_def Let_def frame_simps)

lemma printf_loop_ok:
  assumes "fb_ok (r_fb s)" "paints s t"
  shows "case printf_loop first format args t of
      None \<Rightarrow> \<not> format_ok format args
    | Some t' \<Rightarrow> paints s t' \<and> format_ok format args"
  using assms
proof (induction first format args t rule: printf_loop.induct)
  case (1 first args t)
  then show ?case by simp
next
  case (2 first c cs args t)
  show ?case
  proof (cases "c = CHR ''%''")
    case False
    then show ?thesis
      using "2.IH"(2) [OF False refl "2.prems"(1)] "2.prems"
      by (simp add: Let_def frame_simps cong: option.case_cong)
  next
    case True
    show ?thesis
    proof (cases cs)
      case Nil
      then show ?thesis using True by simp
    next
      case (Cons d ds)
      note arg = format_arg_ok [OF "2.prems", where d = d and args = args and ds = ds]
      show ?thesis
      proof (cases "format_arg d args t")
        case None
        then show ?thesis using True Cons arg by (simp del: format_arg.simps format_ok.simps)
      next
        case (Some r)
        obtain args' t' where r: "r = (args', t')" by (cases r)
        from arg have "paints s t'" "format_ok (CHR ''%'' # d # ds) args = format_ok ds args'"
          by (simp_all add: Some r del: format_arg.simps format_ok.simps)
        moreover have "printf_loop first (c # cs) args t = printf_loop False ds args' t'"
          using True by (simp add: Cons Some r del: format_arg.simps)
        ultimately show ?thesis
          using "2.IH"(1) [OF True Cons Some r [symmetric] "2.prems"(1)] True
          by (simp add: Cons del: format_arg.simps format_ok.simps printf_loop.simps cong: option.case_cong)
      qed
    qed
  qed
qed

text \<open>
  C26. On a framebuffer whose lines hold its width, \<open>printf\<close> returns exactly when its format and its
  arguments agree; it then changes only bytes of the framebuffer and the cursor, and leaves the print
  colour as it was, whatever colours the format selects.
\<close>

theorem printf_safe:
  assumes "fb_ok (r_fb s)" and "font_width s \<noteq> 0" and "fi_height (r_font s) \<noteq> 0"
  shows "(format_ok format args \<longleftrightarrow> (\<exists>s'. printf format args s = Some s')) \<and>
    (\<forall>s'. printf format args s = Some s' \<longrightarrow> paints s s' \<and> print_colour s' = print_colour s)"
  using printf_loop_ok [OF assms(1) paints_refl, where first = True and format = format and args = args]
  by (auto simp: printf_def split: option.splits)

definition demo_terminal :: "unit renderer_scheme" where
  "demo_terminal = \<lparr>mem = (\<lambda>a. 0), cpu_ops = [], console = [],
    r_fb = \<lparr>fb_buffer = 0x10000, fb_width = 640, fb_height = 400, fb_pitch = 2560\<rparr>,
    r_font = \<lparr>fi_width = 8, fi_height = 16, fi_num_glyphs = 128, fi_bytes_per_glyph = 16,
      mappings = replicate 128 0, glyphs = 0x8000\<rparr>,
    r_x = 0, r_y = 0, r_on_second_half = False, print_colour = 0xFFFFFF\<rparr>"

lemma printf_safe_witness:
  "(\<exists>s'. printf ''%C%s %d'' [PInt 0xFF, PStr ''page'', PInt 7] demo_terminal = Some s' \<and>
      paints demo_terminal s' \<and> print_colour s' = 0xFFFFFF) \<and>
    \<not> (\<exists>s'. printf ''%s'' [] demo_terminal = Some s')"
proof -
  have d: "fb_ok (r_fb demo_terminal)" "font_width demo_terminal \<noteq> 0" "fi_height (r_font demo_terminal) \<noteq> 0"
    "print_colour demo_terminal = 0xFFFFFF"
    by (simp_all add: demo_terminal_def fb_ok_def)
  show ?thesis
    using printf_safe [OF d(1-3), of "''%C%s %d''" "[PInt 0xFF, PStr ''page'', PInt 7]"]
      printf_safe [OF d(1-3), of "''%s''" "[]"] d(4) by auto
qed

end
