(* ===== verification/Faults.thy ===== *)
theory Faults
  imports Machine
begin

text \<open>
  \<open>src/inc/faults.c\<close>: assertions that stop the machine. An operation that may stop it has an \<open>outcome\<close>:
  the value it returns, the state in which the processor hangs, or \<open>Undefined\<close> when a called operation does
  not return or the C code has no defined behaviour. A panic prints its message in the line
  (\<open>FAULTS_PANIC_INLINE\<close> is 1); the branch that clears the screen is not compiled. The components do not carry the terminal: here
  the message is recorded, as all their messages are. A panic of \<open>kentry\<close>, which has the terminal, also draws it (\<open>kernel_panic\<close> in \<open>Kernel\<close>).
\<close>

datatype ('a, 's) outcome = Done 'a | Hung 's | Undefined

fun and_then :: "('a, 's) outcome \<Rightarrow> ('a \<Rightarrow> ('b, 's) outcome) \<Rightarrow> ('b, 's) outcome" where
  "and_then (Done a) f = f a"
| "and_then (Hung s) f = Hung s"
| "and_then Undefined f = Undefined"

fun returned :: "'a option \<Rightarrow> ('a, 's) outcome" where
  "returned None = Undefined"
| "returned (Some a) = Done a"

definition faults_hang :: "'s \<Rightarrow> ('a, 's) outcome" where
  "faults_hang s = Hung s"

definition panic_text :: string where
  "panic_text = newline @ ''%C[Faults]%C - An unexpected fatal error occurred: %s'' @ newline"

definition faults_panic :: "string \<Rightarrow> 'm machine_scheme \<Rightarrow> ('a, 'm machine_scheme) outcome" where
  "faults_panic message s =
    faults_hang (print panic_text
      [PInt (ucast COLOUR_PRINT_ERROR), PInt (ucast COLOUR_PRINT), PStr message] s)"

definition faults_assert ::
  "bool \<Rightarrow> string \<Rightarrow> 'm machine_scheme \<Rightarrow> ('m machine_scheme, 'm machine_scheme) outcome" where
  "faults_assert condition failure_message s = (if condition then Done s else faults_panic failure_message s)"

lemma and_then_assoc: "and_then (and_then x f) g = and_then x (\<lambda>a. and_then (f a) g)"
  by (cases x) simp_all

lemma and_then_Done_iff: "and_then x f = Done b \<longleftrightarrow> (\<exists>a. x = Done a \<and> f a = Done b)"
  by (cases x) simp_all

lemma faults_assert_Done [simp]: "faults_assert condition msg s = Done s' \<longleftrightarrow> condition \<and> s' = s"
  by (auto simp: faults_assert_def faults_panic_def faults_hang_def)

end
