(* ===== verification/Self_Test.thy ===== *)
theory Self_Test
  imports Vmm_In_Use Faults
begin

unbundle bit_operations_syntax

text \<open>
  \<open>src/test.c\<close>: the messages of \<open>test_stdio\<close> and the test of the page tables that the kernel runs at boot. The test
  reads and writes memory through the mapping it has just made, so its accesses go through the processor's address translation:
  \<open>mmu_address\<close> is the place of a virtual address in the direct map, by the tables the processor uses. An access to an address that is not
  mapped is \<open>Undefined\<close>: interrupts are not installed yet.
\<close>

section \<open>The tests\<close>

definition test_stdio :: "'m machine_scheme \<Rightarrow> 'm machine_scheme" where
  "test_stdio s =
    (let s = print (''Test'' @ newline) [] s;
         s = print (''A string: %s'' @ newline) [PStr ''hello''] s;
         s = print (''A char: %c'' @ newline) [PInt (of_char CHR ''c'')] s;
         s = print (''An unsigned int: %u'' @ newline) [PInt 154398] s;
         s = print (''Signed integers: %d, %d'' @ newline) [PInt 250, PInt (- 250)] s;
         s = print (''Hex: %X, %x'' @ newline) [PInt 0xFF5500, PInt 0xFF5500] s;
         s = print (''Multi-%Ccoloured %Ctext'' @ newline) [PInt 0xFF0000, PInt 0x00FF00] s
     in print (''Back to normal'' @ newline) [] s)"

definition mmu_address :: "'a vmm_scheme \<Rightarrow> u64 \<Rightarrow> u64 option" where
  "mmu_address s v =
    (case translate s (pml4 s - vmm_page_tables_offset s) (path_of v) of
       None \<Rightarrow> None
     | Some a \<Rightarrow> Some (a + v mod 0x1000 + vmm_page_tables_offset s))"

definition mmu_read64 :: "u64 \<Rightarrow> 'a vmm_scheme \<Rightarrow> (u64, 'a vmm_scheme) outcome" where
  "mmu_read64 v s = (case mmu_address s v of None \<Rightarrow> Undefined | Some x \<Rightarrow> Done (load64 (mem s) x))"

definition mmu_write64 :: "u64 \<Rightarrow> u64 \<Rightarrow> 'a vmm_scheme \<Rightarrow> ('a vmm_scheme, 'a vmm_scheme) outcome" where
  "mmu_write64 v w s = (case mmu_address s v of None \<Rightarrow> Undefined | Some x \<Rightarrow> Done (s\<lparr>mem := store64 (mem s) x w\<rparr>))"

definition VMM_TEST_MAP_TO :: u64 where "VMM_TEST_MAP_TO = 0x10000"
definition VMM_TEST_CONSTANT :: u64 where "VMM_TEST_CONSTANT = 0xDEADBEEF"

definition test_vmm :: "'a vmm_scheme \<Rightarrow> ('a vmm_scheme, 'a vmm_scheme) outcome" where
  "test_vmm s =
    (let s = print ''%C[Test/VMM]%C - '' [PInt (ucast COLOUR_KERNEL_INFO), PInt (ucast COLOUR_PRINT)] s;
         (virt_page_allocated, s) = pmm_alloc s;
         phys_page_allocated = vmm_virt_to_phys s virt_page_allocated
     in and_then (mmu_write64 virt_page_allocated VMM_TEST_CONSTANT s) (\<lambda>s.
     let s = vmm_map_page virt_page_allocated VMM_TEST_MAP_TO s
     in and_then (mmu_read64 VMM_TEST_MAP_TO s) (\<lambda>w.
     if w \<noteq> VMM_TEST_CONSTANT
     then faults_hang (print (''%Cmap_page failed'' @ newline) [PInt (ucast COLOUR_PRINT_ERROR)] s)
     else
       let s = print ''map_page success, '' [] s
       in if phys_page_allocated \<noteq> vmm_virt_to_phys s VMM_TEST_MAP_TO
          then faults_hang (print (''%Cvirt_to_phys failed'' @ newline) [PInt (ucast COLOUR_PRINT_ERROR)] s)
          else
            let s = print ''virt_to_phys success (%X -> %X), '' [PInt phys_page_allocated, PInt VMM_TEST_MAP_TO] s;
                s = vmm_unmap_page VMM_TEST_MAP_TO s;
                s = print (''unmap_page success'' @ newline) [] s;
                s = vmm_map_page phys_page_allocated virt_page_allocated s
            in Done (pmm_free virt_page_allocated s))))"

lemma mmu_address: "in_use root s \<Longrightarrow> v mod 0x1000 = 0 \<Longrightarrow>
  mmu_address s v = map_option (\<lambda>a. a + higher_half_offset s) (translate s root (path_of v))"
  by (simp add: mmu_address_def in_useD split: option.splits)

section \<open>Property\<close>

text \<open>The messages of a test that passes, with the physical address of the page.\<close>

definition passed :: "u64 \<Rightarrow> (string \<times> print_arg list) list" where
  "passed a = [(''%C[Test/VMM]%C - '', [PInt (ucast COLOUR_KERNEL_INFO), PInt (ucast COLOUR_PRINT)]),
    (''map_page success, '', []),
    (''virt_to_phys success (%X -> %X), '', [PInt a, PInt VMM_TEST_MAP_TO]),
    (''unmap_page success'' @ newline, [])]"

text \<open>The first part: a page is allocated and marked.\<close>

lemma test_page:
  fixes s :: "'a vmm_scheme" and w :: u64
  assumes "in_use root s" and "free_pages s \<noteq> {}" and "higher_half_offset s mod 0x1000 = 0"
    and "translate s root (path_of (fst (pmm_alloc_phys s) + higher_half_offset s)) = Some (fst (pmm_alloc_phys s))"
  defines "a \<equiv> fst (pmm_alloc_phys s)" and "s1 \<equiv> snd (pmm_alloc s)"
  obtains s2 where "mmu_write64 (a + higher_half_offset s) w s1 = Done s2" "fst (pmm_alloc s) = a + higher_half_offset s"
    "vmm_virt_to_phys s1 (a + higher_half_offset s) = a" "keeps root s s2" "in_use root s2"
    "free_pages s2 = free_pages s - {a}" "console s2 = console s"
    "\<And>x. in_range x (a + higher_half_offset s) 4096 \<Longrightarrow> x \<notin> vmm_bytes s2 root"
    "load64 (mem s2) (a + higher_half_offset s) = w"
proof -
  let ?v = "a + higher_half_offset s"
  note inv = in_useD(1) [OF assms(1)]
  note A = vmm_inv_alloc [OF inv assms(2), folded a_def s1_def]
  have K1: "keeps root s s1" unfolding s1_def using inv assms(2) by (rule keeps_alloc)
  have u1: "in_use root s1" using assms(1) K1 by (rule in_use_keeps)
  have v: "?v mod 0x1000 = 0" using A(3) assms(3) by (rule add_page_aligned)
  have t: "translate s1 root (path_of ?v) = Some a" using A(12) [of "path_of ?v"] assms(4) by (simp add: path_take a_def)
  define s2 where "s2 = s1\<lparr>mem := store64 (mem s1) ?v w\<rparr>"
  have m: "store64 (mem s1) ?v w x = mem s1 x" if "\<not> in_range x ?v 4096" for x
    using that in_range_mono [of x ?v 8 4096] by (intro cell64.wr_outside) auto
  have "store64 (mem s1) ?v w x = mem s1 x" if "x \<in> vmm_bytes s1 root \<or> x \<notin> vmm_bytes s root" for x
    using that A(10,14) [of x] by (intro m) blast
  note M = keeps_mem [OF K1 this, folded s2_def]
  have sub: "vmm_bytes s2 root \<subseteq> vmm_bytes s1 root"
    unfolding s2_def by (rule vmm_inv_mem(3) [OF keepsD(1) [OF K1]]) (use m A(10) in blast)
  show thesis
  proof (rule that)
    show "mmu_write64 ?v w s1 = Done s2"
      using t A(5) by (simp add: mmu_write64_def mmu_address [OF u1 v] s2_def only_pmm_fields(2))
    show "fst (pmm_alloc s) = ?v" by (rule A(1))
    show "vmm_virt_to_phys s1 ?v = a" by (simp add: lookup_page [OF u1 v] t)
    show "keeps root s s2" by (rule M(1))
    then show "in_use root s2" by (rule in_use_keeps [OF assms(1)])
    show "free_pages s2 = free_pages s - {a}" using M(2) A(4) by simp
    show "console s2 = console s" using A(5) by (elim only_pmmE) (simp add: s2_def)
    show "x \<notin> vmm_bytes s2 root" if "in_range x ?v 4096" for x using A(10) [OF that] sub by blast
    show "load64 (mem s2) ?v = w" by (simp add: s2_def cell64.rd_wr)
  qed
qed

text \<open>The last part: the page is mapped to its old address and freed.\<close>

lemma test_free:
  fixes s :: "'a vmm_scheme"
  assumes u: "in_use root s" and "6 \<le> card (free_pages s)" and "higher_half_offset s mod 0x1000 = 0"
    and k: "k < length (pages s)" "unat (pmm_bitmap_pages s) \<le> k" "a = pages s ! k" "a \<notin> free_pages s"
    and t: "translate s root (path_of a) = None" "translate s root (path_of (a + higher_half_offset s)) = Some a"
    and tab: "\<forall>p t. length p \<le> 3 \<and> tab s root p = Some t \<longrightarrow> t \<noteq> a"
    and nh: "no_huge_page s root (a + higher_half_offset s)"
  defines "s' \<equiv> pmm_free (a + higher_half_offset s) (vmm_map_page a (a + higher_half_offset s) s)"
  shows "in_use root s'" "a \<in> free_pages s'" "card (free_pages s) \<le> card (free_pages s') + 2" "console s' = console s"
    "length p = 4 \<Longrightarrow> translate s' root p = translate s root p"
proof -
  let ?v = "a + higher_half_offset s"
  define s6 where "s6 = vmm_map_page a ?v s"
  note D = in_useD [OF u]
  have al: "page_aligned a" using k(1,3) pmm_invD(2) [OF vmm_invD(2) [OF D(1)]] by (auto intro: usable_pages_aligned)
  have small: "unat a < 2 ^ 52" using D(1) k(1,3) by (simp add: vmm_inv_def vmm_base_def)
  have v: "?v mod 0x1000 = 0" using al assms(3) by (rule add_page_aligned)
  have a: "a mod 0x1000 = 0" using add_page_aligned [OF al, of 0] by simp
  have addr: "addr a = a" using al small by (simp add: page_addr_iff)
  have conv: "convert_to_phys t a = a" if "in_use root t" "translate t root (path_of a) = None" for t :: "'a vmm_scheme"
    using that by (simp add: convert_to_phys_def lookup_page [OF that(1) a])
  have "3 \<le> card (free_pages s)" using assms(2) by simp
  note M = map_step [OF u this nh, of a, folded s6_def, unfolded conv [OF u t(1)] addr]
  note MD = maps_toD [OF M(1)] and F = only_vmm_fields [OF M(2)]
  have tr6: "translate s6 root p = translate s root p" if "length p = 4" for p using MD(1) [OF that] t(2) by simp
  have pg: "pages s6 ! k = a" by (simp add: F k(3))
  have look: "vmm_virt_to_phys s6 ?v = pages s6 ! k"
    unfolding pg using t(2) by (simp add: lookup_page [OF M(3) v] tr6 path_take)
  have tab6: "\<forall>p t. length p \<le> 3 \<and> tab s6 root p = Some t \<longrightarrow> t \<noteq> pages s6 ! k"
    using MD(3) tab k(4) unfolding pg by blast
  have c6: "3 \<le> card (free_pages s6)" using MD(4) assms(2) by simp
  have nh6: "no_huge_page s6 root (pages s6 ! k + higher_half_offset s6)"
    using maps_to_no_huge [OF M(1) nh] by (simp add: F k(3) [symmetric])
  note D6 = in_useD [OF M(3)]
  note R = free_remaps [OF D6(1-3) _ _ look tab6 c6 nh6, folded s6_def]
  have s': "s' = pmm_free ?v s6" by (simp add: s'_def s6_def)
  have kk: "k < length (pages s6)" "unat (pmm_bitmap_pages s6) \<le> k" using k(1,2) by (simp_all add: F)
  have c: "convert_to_phys s6 (pages s6 ! k) = a" unfolding pg using conv [OF M(3)] t(1) by (simp add: tr6 path_take)
  note R1 = R(1) [OF kk, folded s', unfolded c addr] and F' = only_vmm_fields [OF R(2) [OF kk, folded s']]
  show "in_use root s'" using R1 M(3) by (simp add: in_use_def F')
  show "console s' = console s" by (simp add: F' F)
  show "translate s' root p = translate s root p" if "length p = 4" for p
    using R1 tr6 that t(2) by (simp add: F k(3) [symmetric])
  from R(3) [OF kk, folded s'] obtain s1 where s1: "s' = vmm_map_page (pages s6 ! k) (pages s6 ! k + higher_half_offset s6) s1"
    "vmm_inv s1 root" "only_pmm s6 s1" "free_pages s1 = insert (pages s6 ! k) (free_pages s6)"
    "\<And>q. length q \<le> 3 \<Longrightarrow> tab s1 root q = tab s6 root q" by blast
  obtain u where "tab s6 root (take 3 (path_of ?v)) = Some u" using M(4) by blast
  then have "tab s1 root (take 3 (path_of ?v)) = Some u" using s1(5) [of "take 3 (path_of ?v)"] by simp
  from stores_leaf(1) [OF s1(2) this, of "pages s6 ! k" "ucast PT_ENTRY_READ_WRITE"]
  have "free_pages s' = insert a (free_pages s6)"
    using s1(1,4) D6(2) only_pmm_vmm [OF s1(3)]
    by (simp add: stores_leaf_def vmm_map_page_def F k(3) [symmetric])
  moreover have "a \<notin> free_pages s6" using MD(5) k(4) by blast
  ultimately show "a \<in> free_pages s'" "card (free_pages s) \<le> card (free_pages s') + 2" using MD(4) by simp_all
qed

text \<open>Messages change nothing but the console.\<close>

lemma in_use_print [simp]:
  fixes s :: "'a vmm_scheme"
  shows "in_use root (print f as s) = in_use root s" "free_pages (print f as s) = free_pages s"
    "translate (print f as s) root p = translate s root p" "tab (print f as s) root p = tab s root p"
    "no_huge_page (print f as s) root v = no_huge_page s root v" "vmm_bytes (print f as s) root = vmm_bytes s root"
    "console (print f as s) = console s @ [(f, as)]" "higher_half_offset (print f as s) = higher_half_offset s"
    "memmap_entries (print f as s) = memmap_entries s" "pmm_bitmap_pages (print f as s) = pmm_bitmap_pages s"
proof -
  have st: "same_tables s (print f as s)" by simp
  note S = same_tables [OF st]
  show "free_pages (print f as s) = free_pages s" "translate (print f as s) root p = translate s root p"
    "tab (print f as s) root p = tab s root p" "vmm_bytes (print f as s) root = vmm_bytes s root"
    by (rule S)+
  show "no_huge_page (print f as s) root v = no_huge_page s root v" by (simp only: no_huge_page_def S)
  have "pml4 (print f as s) = pml4 s" "vmm_initialised (print f as s) = vmm_initialised s" by (simp_all add: print_def)
  then show "in_use root (print f as s) = in_use root s" by (simp only: in_use_def S)
qed (simp_all add: print_def)

text \<open>The middle part: the page is mapped at the test address, read there, and unmapped again.\<close>

lemma test_map:
  fixes s :: "'a vmm_scheme"
  assumes u: "in_use root s" and "3 \<le> card (free_pages s)" and nh: "no_huge_page s root w"
    and v: "translate s root (path_of v) = Some a" "v mod 0x1000 = 0" "v = a + higher_half_offset s"
    and a: "page_aligned a" "unat a < 2 ^ 52" and w: "w mod 0x1000 = 0"
    and page: "\<forall>x. in_range x v 4096 \<longrightarrow> x \<notin> vmm_bytes s root"
  defines "s' \<equiv> vmm_map_page v w s"
  shows "maps_to root w (Some a) s s'" "only_vmm s s'" "in_use root s'"
    "\<exists>t. tab s' root (take 3 (path_of w)) = Some t" "vmm_virt_to_phys s' w = a" "mmu_read64 w s' = Done (load64 (mem s) v)"
proof -
  have "convert_to_phys s v = a"
    using page_aligned_neq_MAX [OF a(1)] v(1) by (simp add: convert_to_phys_def lookup_page [OF u v(2)])
  moreover have "addr a = a" using a by (simp add: page_addr_iff)
  ultimately show M: "maps_to root w (Some a) s s'" "only_vmm s s'" "in_use root s'"
    "\<exists>t. tab s' root (take 3 (path_of w)) = Some t"
    using map_step [OF u assms(2) nh, of v, folded s'_def] by simp_all
  note MD = maps_toD [OF M(1)]
  have t: "translate s' root (path_of w) = Some a" using MD(1) [of "path_of w"] by (simp add: path_take)
  then show "vmm_virt_to_phys s' w = a" by (simp add: lookup_page [OF M(3) w])
  have "load64 (mem s') v = load64 (mem s) v"
  proof (rule cell64.rd_cong)
    fix i :: nat assume "i < 8"
    then have "in_range (v + of_nat i) v 4096" by (simp add: in_range_def unat_of_nat take_bit_nat_eq_self)
    with page show "mem s' (v + of_nat i) = mem s (v + of_nat i)" by (intro MD(2)) blast
  qed
  then show "mmu_read64 w s' = Done (load64 (mem s) v)"
    by (simp add: mmu_read64_def mmu_address [OF M(3) w] t only_vmm_fields(2) [OF M(2)] v(3) [symmetric])
qed

text \<open>The page \<open>a\<close> is taken out of the free pages of \<open>s\<close>, and at most \<open>n\<close> pages are.\<close>

definition holding :: "nat \<Rightarrow> u64 \<Rightarrow> u64 \<Rightarrow> 'a vmm_scheme \<Rightarrow> 'a vmm_scheme \<Rightarrow> bool" where
  "holding n root a s s' \<longleftrightarrow> in_use root s' \<and> a \<notin> free_pages s' \<and> card (free_pages s) \<le> card (free_pages s') + n \<and>
    (\<forall>p t. length p \<le> 3 \<and> tab s' root p = Some t \<longrightarrow> t \<noteq> a) \<and> (\<forall>v. no_huge_page s root v \<longrightarrow> no_huge_page s' root v) \<and>
    higher_half_offset s' = higher_half_offset s \<and> pages s' = pages s \<and> pmm_bitmap_pages s' = pmm_bitmap_pages s"

lemma holdingD:
  assumes "holding n root a s s'"
  shows "in_use root s'" "a \<notin> free_pages s'" "card (free_pages s) \<le> card (free_pages s') + n"
    "\<forall>p t. length p \<le> 3 \<and> tab s' root p = Some t \<longrightarrow> t \<noteq> a" "no_huge_page s root v \<Longrightarrow> no_huge_page s' root v"
    "higher_half_offset s' = higher_half_offset s" "pages s' = pages s" "pmm_bitmap_pages s' = pmm_bitmap_pages s"
  using assms unfolding holding_def by blast+

lemma holding_print [simp]: "holding n root a s (print f as s') = holding n root a s s'"
  "holding n root a (print f as s) s' = holding n root a s s'"
  by (simp_all add: holding_def)

lemma holding_taken:
  assumes "in_use root s" "keeps root s s'" "a \<in> free_pages s" "free_pages s' = free_pages s - {a}"
  shows "holding 1 root a s s'"
proof -
  note K = keepsD [OF assms(2)]
  have "t \<noteq> a" if "length p \<le> 3" "tab s' root p = Some t" for p t
    using vmm_invD(4) [OF in_useD(1) [OF assms(1)], of p t] K(4) [of p] that assms(3) by (auto simp: table_page_def)
  moreover have "card (free_pages s) \<le> card (free_pages s') + 1"
    unfolding assms(4) using card_Suc_Diff1 [OF finite_free_pages assms(3)] by simp
  ultimately show ?thesis
    unfolding holding_def using in_use_keeps [OF assms(1,2)] assms(4) K(6-9) by blast
qed

lemma holding_step:
  assumes "holding n root a s s1" "maps_to root w x s1 s2" "only_vmm s1 s2"
  shows "holding (n + 3) root a s s2"
proof -
  note H = holdingD [OF assms(1)] and M = maps_toD [OF assms(2)] and F = only_vmm_fields [OF assms(3)]
  have "t \<noteq> a" if "length p \<le> 3" "tab s2 root p = Some t" for p t using M(3) [OF that] H(2,4) that by blast
  moreover have "no_huge_page s2 root v" if "no_huge_page s root v" for v
    using maps_to_no_huge [OF assms(2) H(5) [OF that]] .
  ultimately show ?thesis
    unfolding holding_def using in_use_step [OF H(1) assms(2,3)] M(4,5) H(2,3,6-8) by (auto simp: F)
qed

lemma test_free_holding:
  fixes s s' :: "'a vmm_scheme"
  assumes "in_use root s" and H: "holding n root a s s'" "n + 6 \<le> card (free_pages s)" and a: "a \<in> free_pages s"
    and hh: "higher_half_offset s mod 0x1000 = 0" "no_huge_page s root (a + higher_half_offset s)"
    and t: "translate s' root (path_of a) = None" "translate s' root (path_of (a + higher_half_offset s)) = Some a"
  defines "s2 \<equiv> pmm_free (a + higher_half_offset s) (vmm_map_page a (a + higher_half_offset s) s')"
  shows "in_use root s2" "a \<in> free_pages s2" "console s2 = console s'"
    "length p = 4 \<Longrightarrow> translate s2 root p = translate s' root p"
proof -
  note D = holdingD [OF H(1)]
  obtain k where k: "k < length (pages s)" "k \<notin> allocated s" "a = pages s ! k" using a by (auto simp: free_pages_def)
  then have b: "unat (pmm_bitmap_pages s) \<le> k"
    using pmm_invD(5) [OF vmm_invD(2) [OF in_useD(1) [OF assms(1)]]] by (auto simp: not_less [symmetric])
  have c: "6 \<le> card (free_pages s')" using D(3) H(2) by simp
  note R = test_free [OF D(1) c _ _ _ _ D(2) t(1) _ D(4), unfolded D(6-8), OF hh(1) k(1) b k(3) t(2) D(5) [OF hh(2)], folded s2_def]
  show "in_use root s2" "a \<in> free_pages s2" "console s2 = console s'"
    "length p = 4 \<Longrightarrow> translate s2 root p = translate s' root p" by (rule R(1,2,4,5); assumption?)+
qed

text \<open>
  C12. The self test passes: when tables are in use, ten pages are free, the first of them is visible in the direct map and neither its
  number nor the test address is mapped, the test reads back through the new mapping what it has written
  through the direct map, prints its three successes, and leaves the address space as it was, with the page
  free again.
\<close>

theorem test_vmm_passes:
  fixes s :: "'a vmm_scheme"
  assumes "in_use root s" and "10 \<le> card (free_pages s)" and "higher_half_offset s mod 0x1000 = 0"
    and "a = fst (pmm_alloc_phys s)" and "translate s root (path_of (a + higher_half_offset s)) = Some a"
    and "translate s root (path_of a) = None" and "translate s root (path_of VMM_TEST_MAP_TO) = None"
    and "no_huge_page s root VMM_TEST_MAP_TO" and "no_huge_page s root (a + higher_half_offset s)"
  shows "\<exists>s'. test_vmm s = Done s' \<and> in_use root s' \<and> console s' = console s @ passed a \<and> a \<in> free_pages s' \<and>
    (\<forall>p. length p = 4 \<longrightarrow> translate s' root p = translate s root p)"
proof -
  let ?v = "a + higher_half_offset s" and ?T = VMM_TEST_MAP_TO
  define s0 where "s0 = print ''%C[Test/VMM]%C - '' [PInt (ucast COLOUR_KERNEL_INFO), PInt (ucast COLOUR_PRINT)] s"
  have u0: "in_use root s0" and ne: "free_pages s \<noteq> {}" using assms(1,2) by (auto simp: s0_def)
  note inv = in_useD(1) [OF assms(1)] and inv0 = in_useD(1) [OF u0]
  have a0: "fst (pmm_alloc_phys s0) = a"
    unfolding assms(4) by (rule first_page_cong [OF inv inv0 ne]) (simp_all add: s0_def)
  note A = vmm_inv_alloc [OF inv ne, folded assms(4)]
  have T: "?T mod 0x1000 = 0" by (simp add: VMM_TEST_MAP_TO_def)
  have small: "unat a < 2 ^ 52" using inv A(2) free_pages_subset [of s] by (auto simp: vmm_inv_def vmm_base_def)
  have addr: "addr a = a" using A(3) small by (simp add: page_addr_iff)
  have v: "?v mod 0x1000 = 0" using A(3) assms(3) by (rule add_page_aligned)
  obtain s2 where P: "mmu_write64 ?v VMM_TEST_CONSTANT (snd (pmm_alloc s0)) = Done s2" "fst (pmm_alloc s0) = ?v"
    "vmm_virt_to_phys (snd (pmm_alloc s0)) ?v = a" "keeps root s0 s2" "in_use root s2"
    "free_pages s2 = free_pages s - {a}" "console s2 = console s0"
    "\<And>x. in_range x ?v 4096 \<Longrightarrow> x \<notin> vmm_bytes s2 root" "load64 (mem s2) ?v = VMM_TEST_CONSTANT"
    using test_page [OF u0, of VMM_TEST_CONSTANT] ne assms(3,5) unfolding a0 by (auto simp: s0_def)
  have tr2: "translate s2 root p = translate s root p" if "length p = 4" for p
    using keepsD(5) [OF P(4) that] by (simp add: s0_def)
  have h2: "holding 1 root a s s2" using holding_taken [OF u0 P(4)] A(2) P(6) by (simp add: s0_def)
  note H2 = holdingD [OF h2]
  define s3 where "s3 = vmm_map_page ?v ?T s2"
  have c2: "3 \<le> card (free_pages s2)" using H2(3) assms(2) by simp
  have t2: "translate s2 root (path_of ?v) = Some a" using assms(5) by (simp add: tr2 path_take)
  have v2: "?v = a + higher_half_offset s2" by (simp add: H2(6))
  have page2: "\<forall>x. in_range x ?v 4096 \<longrightarrow> x \<notin> vmm_bytes s2 root" using P(8) by blast
  note M = test_map [OF P(5) c2 H2(5) [OF assms(8)] t2 v v2 A(3) small T page2, folded s3_def, unfolded P(9)]
  define s5 where "s5 = print ''virt_to_phys success (%X -> %X), '' [PInt a, PInt ?T] (print ''map_page success, '' [] s3)"
  have look: "vmm_virt_to_phys (print f [] s3) ?T = a" for f
  proof -
    have u: "in_use root (print f [] s3)" using M(3) by simp
    show ?thesis using M(5) by (simp add: lookup_page [OF u T] lookup_page [OF M(3) T])
  qed
  have h5: "holding 4 root a s s5" using holding_step [OF h2 M(1,2)] by (simp add: s5_def)
  note H5 = holdingD [OF h5]
  obtain t where t5: "tab s5 root (take 3 (path_of ?T)) = Some t" using M(4) by (auto simp: s5_def)
  have "3 \<le> card (free_pages s5)" using H5(3) assms(2) by simp
  note U = unmap_step [OF H5(1) this H5(5) [OF assms(8)] t5]
  define s6 where "s6 = print (''unmap_page success'' @ newline) [] (vmm_unmap_page ?T s5)"
  have h6: "holding 4 root a s s6"
    using holding_step [OF h5 U(1,2)] H5(3) by (simp add: s6_def holding_def U(4))
  have tr6: "translate s6 root p = translate s root p" if "length p = 4" for p
    using maps_toD(1) [OF U(1) that] maps_toD(1) [OF M(1) that] tr2 [OF that] assms(7) by (simp add: s6_def s5_def)
  have t6: "translate s6 root (path_of a) = None" "translate s6 root (path_of ?v) = Some a"
    using assms(5,6) by (simp_all add: tr6 path_take)
  define s7 where "s7 = pmm_free ?v (vmm_map_page a ?v s6)"
  have c6: "4 + 6 \<le> card (free_pages s)" using assms(2) by simp
  note R = test_free_holding [OF assms(1) h6 c6 A(2) assms(3,9) t6, folded s7_def]
  have "test_vmm s = Done s7"
    using P(1,2,3) M(6) look
    by (simp add: test_vmm_def s0_def [symmetric] split_beta Let_def s3_def [symmetric] s5_def [symmetric])
      (simp add: s7_def s6_def)
  moreover have "console s7 = console s @ passed a"
    using R(3) P(7) by (simp add: s6_def only_vmm_fields [OF U(2)]) (simp add: s5_def only_vmm_fields [OF M(2)] s0_def passed_def)
  moreover have "translate s7 root p = translate s root p" if "length p = 4" for p using R(4) [OF that] tr6 [OF that] by simp
  ultimately show ?thesis using R(1,2) by blast
qed

section \<open>Witness\<close>

text \<open>
  A machine on which the test passes: the tables of the higher half are made by a first mapping, and the page that the allocator hands out
  next is then mapped at its address in the higher half.
\<close>

definition table_vmm :: vmm where "table_vmm = vmm_map_page 0x5000 0xFFFF800000000000 demo_vmm"
definition test_number :: u64 where "test_number = fst (pmm_alloc_phys table_vmm)"
definition mapped_vmm :: vmm where "mapped_vmm = vmm_map_page test_number (test_number + 0xFFFF800000000000) table_vmm"

lemma table_vmm:
  shows "in_use demo_root table_vmm" "higher_half_offset table_vmm = 0xFFFF800000000000" "pages table_vmm = pages demo_vmm"
    "11 \<le> card (free_pages table_vmm)" "no_huge_page table_vmm demo_root w"
    "\<exists>t. tab table_vmm demo_root [256, 0, 0] = Some t" "length p = 4 \<Longrightarrow> p \<noteq> [256, 0, 0, 0] \<Longrightarrow> translate table_vmm demo_root p = None"
proof -
  have c: "3 \<le> card (free_pages demo_vmm)" by (simp add: demo_vmm_inv(2))
  have p: "path_of 0xFFFF800000000000 = [256, 0, 0, 0]" by (simp add: path_of_def)
  note M = map_step [OF demo_in_use(1) c demo_vmm_inv(7), where v = "0xFFFF800000000000" and a = "0x5000", folded table_vmm_def]
  note MD = maps_toD [OF M(1)] and F = only_vmm_fields [OF M(2)]
  show "in_use demo_root table_vmm" by (rule M(3))
  show "higher_half_offset table_vmm = 0xFFFF800000000000" "pages table_vmm = pages demo_vmm" by (simp_all add: F demo_in_use)
  show "11 \<le> card (free_pages table_vmm)" using MD(4) demo_vmm_inv(2) by simp
  show "no_huge_page table_vmm demo_root w" by (rule maps_to_no_huge [OF M(1) demo_vmm_inv(7)])
  show "\<exists>t. tab table_vmm demo_root [256, 0, 0] = Some t" using M(4) by (simp only: p) simp
  show "translate table_vmm demo_root p = None" if "length p = 4" "p \<noteq> [256, 0, 0, 0]"
  proof -
    from that(1) obtain i q where "p = i # q" by (cases p) auto
    then have "translate demo_vmm demo_root p = None" using demo_vmm_inv(5) by (simp only:)
    then show ?thesis using MD(1) [OF that(1)] that(2) by (simp add: p)
  qed
qed

lemma test_number:
  shows "test_number \<in> free_pages table_vmm" "unat test_number < 2 ^ 21"
    "path_of (test_number + 0xFFFF800000000000) = [256, 0, 0, path_of test_number ! 3]" "path_of test_number ! 0 = 0"
proof -
  have ne: "free_pages table_vmm \<noteq> {}" using table_vmm(4) by auto
  show f: "test_number \<in> free_pages table_vmm"
    unfolding test_number_def by (rule alloc_phys_page(1) [OF vmm_invD(2) [OF in_useD(1) [OF table_vmm(1)]] ne])
  then have "test_number \<in> set (pages demo_vmm)" using free_pages_subset [of table_vmm] table_vmm(3) by auto
  then have "test_number \<in> set (usable_pages demo_memmap)" by (simp add: demo_vmm_pages(1))
  moreover have "\<forall>a \<in> set (usable_pages demo_memmap). unat a < 2 ^ 21 \<and>
      path_of (a + 0xFFFF800000000000) = [256, 0, 0, path_of a ! 3] \<and> path_of a ! 0 = 0"
    by (simp add: demo_pages path_of_def)
  ultimately show "unat test_number < 2 ^ 21"
    "path_of (test_number + 0xFFFF800000000000) = [256, 0, 0, path_of test_number ! 3]" "path_of test_number ! 0 = 0"
    by (blast dest: bspec)+
qed

theorem test_vmm_passes_witness:
  "\<exists>s'. test_vmm mapped_vmm = Done s' \<and> in_use demo_root s' \<and> console s' = console mapped_vmm @ passed test_number \<and>
     test_number \<in> free_pages s' \<and> (\<forall>p. length p = 4 \<longrightarrow> translate s' demo_root p = translate mapped_vmm demo_root p)"
proof -
  let ?v = "test_number + 0xFFFF800000000000"
  note u = table_vmm(1) and D = in_useD [OF table_vmm(1)] and N = test_number
  have c: "3 \<le> card (free_pages table_vmm)" using table_vmm(4) by simp
  note M = map_step [OF u c table_vmm(5), where v = ?v and a = test_number, folded mapped_vmm_def]
  note MD = maps_toD [OF M(1)] and F = only_vmm_fields [OF M(2)]
  have al: "page_aligned test_number" using vmm_invD(2) [OF D(1)] N(1) by (rule free_pages_aligned)
  have "translate table_vmm demo_root (path_of test_number) = None"
    using N(4) by (intro table_vmm(7)) (auto simp: path_take)
  moreover have "test_number mod 0x1000 = 0" using add_page_aligned [OF al, of 0] by simp
  ultimately have "convert_to_phys table_vmm test_number = test_number" by (simp add: convert_to_phys_def lookup_page [OF u])
  moreover have "addr test_number = test_number" using al N(2) by (simp add: page_addr_iff)
  ultimately have t: "translate mapped_vmm demo_root p = (if p = path_of ?v then Some test_number else translate table_vmm demo_root p)"
    if "length p = 4" for p using MD(1) [OF that] by simp
  obtain x where "tab table_vmm demo_root (take 3 (path_of ?v)) = Some x" using table_vmm(6) N(3) by auto
  from stores_leaf(1) [OF D(1) this, of test_number "ucast PT_ENTRY_READ_WRITE"]
  have fr: "free_pages mapped_vmm = free_pages table_vmm"
    by (simp add: stores_leaf_def mapped_vmm_def vmm_map_page_def D(2))
  have hh: "higher_half_offset mapped_vmm = 0xFFFF800000000000" by (simp add: F table_vmm)
  have num: "test_number = fst (pmm_alloc_phys mapped_vmm)"
    unfolding test_number_def using N(1) fr
    by (intro first_page_cong [OF D(1) in_useD(1) [OF M(3)], symmetric]) (auto simp: F)
  have low: "translate mapped_vmm demo_root p = None" if "length p = 4" "p ! 0 = 0" for p
  proof -
    have "p \<noteq> [256, 0, 0, 0]" "p \<noteq> path_of ?v" using that(2) N(3) by auto
    then show ?thesis using t [OF that(1)] table_vmm(7) [OF that(1)] by simp
  qed
  have nh: "no_huge_page mapped_vmm demo_root w" for w by (rule maps_to_no_huge [OF M(1) table_vmm(5)])
  have "path_of VMM_TEST_MAP_TO ! 0 = 0" by (simp add: path_of_def VMM_TEST_MAP_TO_def)
  then show ?thesis
    using table_vmm(4) t [of "path_of ?v"] low [of "path_of test_number"] low [of "path_of VMM_TEST_MAP_TO"] N(4)
    by (intro test_vmm_passes [OF M(3) _ _ num _ _ _ nh nh, unfolded hh]) (simp_all add: fr hh path_take)
qed

end
