(* ===== verification/Printf_Text.thy ===== *)
theory Printf_Text
  imports Renderer_Correct Self_Test
begin

text \<open>
  What \<open>printf\<close> writes: the coloured text that a reference formatter makes of the format and its arguments, with line breaks
  before spaces where the terminal breaks lines. The formatter knows nothing of the terminal.
\<close>

section \<open>The reference formatter\<close>

type_synonym coloured = "(char \<times> u32) list"

abbreviation in_colour :: "u32 \<Rightarrow> string \<Rightarrow> coloured" where
  "in_colour k \<equiv> map (\<lambda>c. (c, k))"

text \<open>The text of one conversion, and the colour behind it.\<close>

fun conversion :: "char \<Rightarrow> print_arg \<Rightarrow> u32 \<Rightarrow> coloured \<times> u32" where
  "conversion d (PStr t) k = (in_colour k t, k)"
| "conversion d (PInt v) k =
    (if d = CHR ''C'' then ([], ucast v)
     else (in_colour k
       (if d = CHR ''c'' then [char_of (unat v)]
        else if d = CHR ''u'' then number_text 10 False True v
        else if d = CHR ''d'' then number_text 10 True True (scast (ucast v :: u32))
        else number_text 16 False (d = CHR ''X'') v), k))"

fun formatted :: "string \<Rightarrow> print_arg list \<Rightarrow> u32 \<Rightarrow> coloured" where
  "formatted [] args k = []"
| "formatted (c # cs) args k =
    (if c \<noteq> CHR ''%'' then (c, k) # formatted cs args k
     else
       (case cs of
          [] \<Rightarrow> []
        | d # ds \<Rightarrow>
          (if d \<notin> set ''csudXxC'' then formatted ds args k
           else
             (case args of
                [] \<Rightarrow> []
              | a # args \<Rightarrow> (let (t, k') = conversion d a k in t @ formatted ds args k')))))"

text \<open>\<open>breaks xs ys\<close>: \<open>ys\<close> is the text \<open>xs\<close> with line breaks before some of its spaces.\<close>

inductive breaks :: "coloured \<Rightarrow> coloured \<Rightarrow> bool" where
  breaks_Nil: "breaks [] []"
| breaks_Cons: "breaks xs ys \<Longrightarrow> breaks (x # xs) (x # ys)"
| breaks_space: "breaks xs ys \<Longrightarrow> breaks ((CHR '' '', k) # xs) ((CHR 0x0A, 0) # (CHR '' '', k) # ys)"

lemma breaks_append: "breaks xs ys \<Longrightarrow> breaks xs' ys' \<Longrightarrow> breaks (xs @ xs') (ys @ ys')"
  by (induction rule: breaks.induct) (auto intro: breaks.intros)

lemma breaks_refl: "breaks xs xs"
  by (induction xs) (auto intro: breaks.intros)

section \<open>Drawing\<close>

definition draw_chars :: "coloured \<Rightarrow> 'a renderer_scheme \<Rightarrow> 'a renderer_scheme" where
  "draw_chars xs s = fold (\<lambda>(c, k). renderer_draw_char c k) xs s"

lemma draw_chars_simps [simp]:
  "draw_chars [] s = s" "draw_chars ((c, k) # xs) s = draw_chars xs (renderer_draw_char c k s)"
  "draw_chars (xs @ ys) s = draw_chars ys (draw_chars xs s)"
  by (simp_all add: draw_chars_def)

lemma draw_text_chars: "draw_text k cs s = draw_chars (in_colour k cs) s"
  by (induction cs arbitrary: s) (simp_all add: draw_text_def)

text \<open>Drawing a character neither reads nor changes the print colour.\<close>

lemma for_u64_commute:
  assumes "\<And>j s. body j (f s) = f (body j s)"
  shows "for_u64 i n body (f s) = f (for_u64 i n body s)"
  using assms
proof (induction i n body s rule: for_u64.induct)
  case (1 i n body s)
  then show ?case by (cases "i < n") (simp_all add: for_u64_step)
qed

lemma clear_screen_colour:
  "renderer_clear_screen k (s\<lparr>print_colour := p\<rparr>) = (renderer_clear_screen k s)\<lparr>print_colour := p\<rparr>"
proof -
  let ?set = "\<lambda>y x t. t\<lparr>mem := store32 (mem t) (pixel_address (r_fb t) x y) k\<rparr>"
  have row: "for_u64 0 n (?set y) (t\<lparr>print_colour := p\<rparr>) = (for_u64 0 n (?set y) t)\<lparr>print_colour := p\<rparr>" for n y and t :: "'a renderer_scheme"
    by (rule for_u64_commute [where f = "\<lambda>t. t\<lparr>print_colour := p\<rparr>"]) simp
  have "for_u64 0 n (\<lambda>y s. for_u64 0 (fb_width (r_fb s)) (?set y) s) (t\<lparr>print_colour := p\<rparr>) =
      (for_u64 0 n (\<lambda>y s. for_u64 0 (fb_width (r_fb s)) (?set y) s) t)\<lparr>print_colour := p\<rparr>" for n and t :: "'a renderer_scheme"
    by (rule for_u64_commute [where f = "\<lambda>t. t\<lparr>print_colour := p\<rparr>"]) (simp add: row)
  then show ?thesis by (simp add: renderer_clear_screen_def Let_def)
qed

lemmas colour_commute = for_u64_commute [where f = "\<lambda>t. t\<lparr>print_colour := p\<rparr>" for p]

lemma draw_char_at_colour:
  "renderer_draw_char_at c x y k (s\<lparr>print_colour := p\<rparr>) = (renderer_draw_char_at c x y k s)\<lparr>print_colour := p\<rparr>"
proof -
  have pixel: "renderer_set_pixel x y k (t\<lparr>print_colour := p\<rparr>) = (renderer_set_pixel x y k t)\<lparr>print_colour := p\<rparr>"
    for x y and t :: "'a renderer_scheme" by (simp add: renderer_set_pixel_def)
  show ?thesis
    by (auto simp: renderer_draw_char_at_def Let_def pixel intro!: colour_commute)
qed

lemma colour_last:
  "s\<lparr>print_colour := p, r_x := x\<rparr> = s\<lparr>r_x := x, print_colour := p\<rparr>"
  "s\<lparr>print_colour := p, r_y := y\<rparr> = s\<lparr>r_y := y, print_colour := p\<rparr>"
  "s\<lparr>print_colour := p, r_on_second_half := h\<rparr> = s\<lparr>r_on_second_half := h, print_colour := p\<rparr>"
  by simp_all

lemma draw_char_colour:
  "renderer_draw_char c k (s\<lparr>print_colour := p\<rparr>) = (renderer_draw_char c k s)\<lparr>print_colour := p\<rparr>"
proof -
  have "wrap_line (t\<lparr>print_colour := p\<rparr>) = (wrap_line t)\<lparr>print_colour := p\<rparr>"
    "wrap_page (t\<lparr>print_colour := p\<rparr>) = (wrap_page t)\<lparr>print_colour := p\<rparr>" for t :: "'a renderer_scheme"
    by (simp_all add: wrap_line_def wrap_page_def colour_last clear_screen_colour)
  then show ?thesis by (simp add: renderer_draw_char_def Let_def draw_char_at_colour)
qed

lemma draw_chars_colour:
  "draw_chars xs (s\<lparr>print_colour := p\<rparr>) = (draw_chars xs s)\<lparr>print_colour := p\<rparr>"
  by (induction xs arbitrary: s) (auto simp: draw_char_colour)

lemma draw_chars_print_colour: "print_colour (draw_chars xs s) = print_colour s"
proof -
  have "draw_chars xs s = draw_chars xs (s\<lparr>print_colour := print_colour s\<rparr>)" by simp
  also have "\<dots> = (draw_chars xs s)\<lparr>print_colour := print_colour s\<rparr>" by (rule draw_chars_colour)
  finally show ?thesis by (metis renderer.select_convs(6) renderer.surjective renderer.update_convs(6))
qed

section \<open>The loop of \<open>printf\<close>\<close>

text \<open>Both functions that draw a text break it at spaces only.\<close>

lemma draw_string_breaks: "\<exists>ys. breaks (in_colour k t) ys \<and> renderer_draw_string t k s = draw_chars ys s"
proof (induction t arbitrary: s)
  case Nil
  show ?case by (intro exI [of _ "[]"]) (simp add: breaks_Nil)
next
  case (Cons c t)
  let ?break = "c = CHR '' '' \<and> renderer_chars_left_on_line s < renderer_chars_per_line s \<and>
    \<not> space_ahead (unat (renderer_chars_left_on_line s)) (c # t)"
  let ?s = "if ?break then renderer_draw_char (CHR 0x0A) 0 s else s"
  obtain ys where ys: "breaks (in_colour k t) ys" "renderer_draw_string t k (renderer_draw_char c k ?s) = draw_chars ys (renderer_draw_char c k ?s)"
    using Cons by blast
  have step: "renderer_draw_string (c # t) k s = renderer_draw_string t k (renderer_draw_char c k ?s)"
    by (simp only: renderer_draw_string.simps Let_def)
  show ?case
  proof (cases ?break)
    case True
    then have c: "c = CHR '' ''" by (rule conjunct1)
    have "renderer_draw_string (c # t) k s = draw_chars ((CHR 0x0A, 0) # (c, k) # ys) s"
      unfolding step if_P [OF True] ys(2) [unfolded if_P [OF True]] by simp
    then show ?thesis using breaks_space [OF ys(1), of k] c by auto
  next
    case False
    have "renderer_draw_string (c # t) k s = draw_chars ((c, k) # ys) s"
      unfolding step if_not_P [OF False] ys(2) [unfolded if_not_P [OF False]] by simp
    then show ?thesis using breaks_Cons [OF ys(1), of "(c, k)"] by auto
  qed
qed

lemma format_arg_draws:
  assumes "d \<in> set ''csudXxC''" "format_ok (CHR ''%'' # d # ds) (a # args)"
  shows "\<exists>ys. breaks (fst (conversion d a (print_colour s))) ys \<and>
    format_arg d (a # args) s = Some (args, (draw_chars ys s)\<lparr>print_colour := snd (conversion d a (print_colour s))\<rparr>)"
proof (cases a)
  case (PStr t)
  then have d: "d = CHR ''s''" using assms by simp
  obtain ys where "breaks (in_colour (print_colour s) t) ys" "renderer_draw_string t (print_colour s) s = draw_chars ys s"
    using draw_string_breaks by blast
  then show ?thesis using d PStr draw_chars_print_colour [of ys s] by (intro exI [of _ ys]) simp
next
  case (PInt v)
  have n: "renderer_draw_number w b neg cap k s = Some (draw_chars (in_colour k (number_text (unat b) neg cap w)) s)"
    if "5 \<le> b" "b \<le> 20" for w b neg cap k
    using that draw_number_text [of b w neg cap k s] number_fits [of "unat b"]
    by (auto simp: word_le_nat_alt magnitude_word draw_text_chars)
  have same: "(draw_chars ys s)\<lparr>print_colour := print_colour s\<rparr> = draw_chars ys s" for ys
    using draw_chars_print_colour [of ys s] by simp
  note char = same [of "[(char_of (unat v), print_colour s)]", simplified]
  have "d = CHR ''c'' \<or> d = CHR ''u'' \<or> d = CHR ''d'' \<or> d = CHR ''X'' \<or> d = CHR ''x'' \<or> d = CHR ''C''"
    using assms PInt by auto
  then show ?thesis
    using PInt n [of 10 v False True] n [of 10 "scast (ucast v :: u32)" True True] n [of 16 v False True] n [of 16 v False False]
    by (intro exI [of _ "fst (conversion d a (print_colour s))"]) (elim disjE; simp add: breaks_refl same char)
qed

lemma break_line_draws:
  "\<exists>b. break_line False c cs s = draw_chars b s \<and> (b = [] \<or> c = CHR '' '' \<and> b = [(CHR 0x0A, 0)])"
  "\<exists>b. break_line True c cs s = draw_chars b s \<and> (b = [] \<or> b = [(CHR 0x0A, 0), (CHR '' '', 0)])"
proof -
  let ?break = "renderer_chars_left_on_line s < renderer_chars_per_line s \<and> \<not> space_ahead (unat (renderer_chars_left_on_line s)) cs"
  show "\<exists>b. break_line False c cs s = draw_chars b s \<and> (b = [] \<or> c = CHR '' '' \<and> b = [(CHR 0x0A, 0)])"
    by (cases "c = CHR '' '' \<and> ?break", intro exI [of _ "[(CHR 0x0A, 0)]"]) (auto simp: break_line_def Let_def intro!: exI [of _ "[]"])
  show "\<exists>b. break_line True c cs s = draw_chars b s \<and> (b = [] \<or> b = [(CHR 0x0A, 0), (CHR '' '', 0)])"
    by (cases ?break, intro exI [of _ "[(CHR 0x0A, 0), (CHR '' '', 0)]"]) (auto simp: break_line_def Let_def intro!: exI [of _ "[]"])
qed

text \<open>\<open>starts xs ys\<close>: like \<open>breaks\<close>, with a line break and a space in front where the text starts in the middle of a line.\<close>

definition starts :: "coloured \<Rightarrow> coloured \<Rightarrow> bool" where
  "starts xs ys \<longleftrightarrow> breaks xs ys \<or> (\<exists>zs. ys = [(CHR 0x0A, 0), (CHR '' '', 0)] @ zs \<and> breaks xs zs)"

lemma printf_loop_draws:
  assumes "format_ok format args"
  shows "\<exists>ys p. (if first then starts else breaks) (formatted format args (print_colour s)) ys \<and>
    printf_loop first format args s = Some ((draw_chars ys s)\<lparr>print_colour := p\<rparr>)"
  using assms
proof (induction first format args s rule: printf_loop.induct)
  case (1 first args s)
  show ?case by (intro exI [of _ "[]"] exI [of _ "print_colour s"]) (simp add: breaks_Nil starts_def)
next
  case (2 first c cs args s)
  show ?case
  proof (cases "c = CHR ''%''")
    case False
    define b where "b = break_line first c cs s"
    obtain bs where bs: "b = draw_chars bs s"
      "bs = [] \<or> (if first then bs = [(CHR 0x0A, 0), (CHR '' '', 0)] else c = CHR '' '' \<and> bs = [(CHR 0x0A, 0)])"
      using break_line_draws [of c cs s] by (cases first) (auto simp: b_def)
    let ?s = "renderer_draw_char c (print_colour b) b" and ?k = "print_colour s"
    have k: "print_colour b = ?k" "print_colour ?s = ?k"
      using draw_chars_print_colour [of bs s] draw_chars_print_colour [of "[(c, print_colour b)]" b] by (simp_all add: bs(1))
    have ok: "format_ok cs args" using "2.prems" False by simp
    obtain ys p where ys: "breaks (formatted cs args ?k) ys" "printf_loop False cs args ?s = Some ((draw_chars ys ?s)\<lparr>print_colour := p\<rparr>)"
      using "2.IH"(2) [OF False refl, folded b_def, OF ok] unfolding k(2) by auto
    have "printf_loop first (c # cs) args s = Some ((draw_chars (bs @ (c, ?k) # ys) s)\<lparr>print_colour := p\<rparr>)"
      using False ys(2) by (simp add: Let_def b_def [symmetric] k(1)) (simp add: bs(1))
    moreover have "(if first then starts else breaks) (formatted (c # cs) args ?k) (bs @ (c, ?k) # ys)"
      using False bs(2) breaks_Cons [OF ys(1), of "(c, ?k)"] breaks_space [OF ys(1), of ?k] by (auto simp: starts_def)
    ultimately show ?thesis by blast
  next
    case True
    then obtain d ds where cs: "cs = d # ds" using "2.prems" by (cases cs) auto
    show ?thesis
    proof (cases "d \<in> set ''csudXxC''")
      case False
      then have arg: "format_arg d args s = Some (args, s)" by simp
      have "format_ok ds args" using "2.prems" True cs False by simp
      from "2.IH"(1) [OF True cs arg refl this] obtain ys p where
        "breaks (formatted ds args (print_colour s)) ys" "printf_loop False ds args s = Some ((draw_chars ys s)\<lparr>print_colour := p\<rparr>)" by auto
      then show ?thesis using True cs False arg
        by (intro exI [of _ ys] exI [of _ p]) (simp add: starts_def del: format_arg.simps)
    next
      case d: True
      then obtain a rest where args: "args = a # rest" using "2.prems" True cs by (cases args) auto
      have ok: "format_ok (CHR ''%'' # d # ds) (a # rest)" "format_ok ds rest"
        using "2.prems" True cs args d by (cases a; auto)+
      obtain t k where conv: "conversion d a (print_colour s) = (t, k)" by (cases "conversion d a (print_colour s)")
      obtain xs where xs: "breaks t xs" "format_arg d args s = Some (rest, (draw_chars xs s)\<lparr>print_colour := k\<rparr>)"
        using format_arg_draws [OF d ok(1), of s] by (auto simp: conv args simp del: format_arg.simps)
      let ?s = "(draw_chars xs s)\<lparr>print_colour := k\<rparr>"
      from "2.IH"(1) [OF True cs xs(2) refl ok(2)] obtain ys p where
        ys: "breaks (formatted ds rest k) ys" "printf_loop False ds rest ?s = Some ((draw_chars ys ?s)\<lparr>print_colour := p\<rparr>)" by auto
      have "printf_loop first (c # cs) args s = Some ((draw_chars (xs @ ys) s)\<lparr>print_colour := p\<rparr>)"
        using True cs xs(2) ys(2) by (simp add: draw_chars_colour del: format_arg.simps)
      moreover have "breaks (formatted (c # cs) args (print_colour s)) (xs @ ys)"
        using breaks_append [OF xs(1) ys(1)] True d by (simp add: cs args conv)
      then have "(if first then starts else breaks) (formatted (c # cs) args (print_colour s)) (xs @ ys)"
        by (simp only: starts_def if_bool_eq_conj split: if_splits) simp
      ultimately show ?thesis by blast
    qed
  qed
qed

section \<open>Properties\<close>

text \<open>
  C6. On a format that agrees with its arguments \<open>printf\<close> draws the text of the reference formatter, every character in its colour,
  on any terminal and from any position; the terminal adds line breaks before spaces, and one with a space in front of
  the text when that starts in the middle of a line, but drops, reorders and recolours nothing. The print colour is restored.
\<close>

theorem printf_draws:
  assumes "format_ok format args"
  shows "\<exists>ys. starts (formatted format args (print_colour s)) ys \<and> printf format args s = Some (draw_chars ys s)"
proof -
  obtain ys p where ys: "starts (formatted format args (print_colour s)) ys"
    "printf_loop True format args s = Some ((draw_chars ys s)\<lparr>print_colour := p\<rparr>)"
    using printf_loop_draws [OF assms, of True s] by auto
  have "(draw_chars ys s)\<lparr>print_colour := print_colour s\<rparr> = draw_chars ys s"
    using draw_chars_print_colour [of ys s] by simp
  with ys show ?thesis by (auto simp: printf_def)
qed

text \<open>On a terminal of the boot loader's kind, in the middle of its first line: the text is drawn and its number is in the new colour.\<close>

theorem printf_draws_witness:
  "\<exists>ys. starts (in_colour 0xFFFFFF ''page '' @ in_colour 0xFF ''-7'') ys \<and>
    printf ''%s %C%d'' [PStr ''page'', PInt 0xFF, PInt (- 7)] demo_terminal = Some (draw_chars ys demo_terminal)"
proof -
  have c: "print_colour demo_terminal = 0xFFFFFF" by (simp add: demo_terminal_def)
  have "format_ok ''%s %C%d'' [PStr ''page'', PInt 0xFF, PInt (- 7)]" by simp
  from printf_draws [OF this, of demo_terminal] show ?thesis
    by (simp add: c number_text_def magnitude_def positional.simps digit_char_def char_of_def bit_0)
qed

text \<open>
  The messages of \<open>test_stdio\<close> are the ones its comment documents: each format agrees with its arguments, and the formatter makes
  the expected output of them, digits, signs, prefixes and colours included, whatever the print colour.
\<close>

theorem test_stdio_output:
  "\<exists>ms. test_stdio s = s\<lparr>console := console s @ ms\<rparr> \<and> list_all (\<lambda>(f, a). format_ok f a) ms \<and>
    concat (map (\<lambda>(f, a). formatted f a k) ms) =
      in_colour k (''Test'' @ newline @ ''A string: hello'' @ newline @ ''A char: c'' @ newline @
        ''An unsigned int: 154398'' @ newline @ ''Signed integers: 250, -250'' @ newline @
        ''Hex: 0xFF5500, 0xff5500'' @ newline @ ''Multi-'') @
      in_colour 0xFF0000 ''coloured '' @ in_colour 0x00FF00 (''text'' @ newline) @
      in_colour k (''Back to normal'' @ newline)"
  by (intro exI, intro conjI, simp add: test_stdio_def print_def Let_def)
    (simp_all add: newline_def number_text_def magnitude_def positional.simps digit_char_def char_of_def bit_0)

end
