(* ===== verification/Pci_Tables.thy ===== *)
theory Pci_Tables
  imports Prelude
begin

text \<open>
  \<open>src/pci/pci_tables.c\<close>: the tables that give PCI vendors, classes and subclasses a readable name, and
  the searches through them. A table ends with a sentinel entry; the searches index it without a
  length, so a read past the end of a table is the value \<open>None\<close> here, and the first thing proved is that
  it does not happen. The string constants are HOL strings, and the structure that
  \<open>pci_get_descriptors\<close> fills is returned as a record (the code never sets its \<open>name\<close>).
\<close>

section \<open>The tables\<close>

record pci_subclass_kv =
  kv_subclass :: u8
  kv_prog_if :: int
  kv_descriptor :: string

record pci_vendor_kv =
  kv_vendor :: u16
  kv_vendor_descriptor :: string

record pci_descriptors =
  d_vendor :: string
  d_class :: string
  d_subclass :: string

definition subclass_kv :: "u8 \<Rightarrow> int \<Rightarrow> string \<Rightarrow> pci_subclass_kv" where
  "subclass_kv c p d = \<lparr>kv_subclass = c, kv_prog_if = p, kv_descriptor = d\<rparr>"

definition pci_vendor_descriptors :: "pci_vendor_kv list" where
  "pci_vendor_descriptors =
    [\<lparr>kv_vendor = 0x8086, kv_vendor_descriptor = ''Intel Corporation''\<rparr>,
     \<lparr>kv_vendor = 0xFFFF, kv_vendor_descriptor = ''Illegal Vendor ID''\<rparr>]"

definition pci_class_descriptors :: "string list" where
  "pci_class_descriptors =
    [''Unclassified'',
     ''Mass Storage Controller'',
     ''Network Controller'',
     ''Display Controller'',
     ''Multimedia Device'',
     ''Memory Controller'',
     ''Bridge Device'',
     ''Simple Communication Controller'',
     ''Base System Peripheral'',
     ''Input Device'',
     ''Docking Station'',
     ''Processor'',
     ''Serial Bus Controller'',
     ''Wireless Controller'',
     ''Intelligent Controller'',
     ''Satellite Communication Controller'',
     ''Encryption Controller'',
     ''Signal Processing Controller'',
     ''Processing Accelerator'',
     ''Non-Essential Instrumentation'']"

definition pci_mass_storage_descriptors :: "pci_subclass_kv list" where
  "pci_mass_storage_descriptors =
    [subclass_kv 0x0 (-1) ''SCSI Bus Controller'',
     subclass_kv 0x1 0x0 ''IDE Controller, ISA compatibility mode only'',
     subclass_kv 0x1 0x5 ''IDE Controller, PCI native mode only'',
     subclass_kv 0x1 0xA ''IDE Controller, ISA compatibility mode, can switch to PCI native mode'',
     subclass_kv 0x1 0xF ''IDE Controller, PCI native mode, can switch to ISA compatibility mode'',
     subclass_kv 0x1 0x80 ''IDE Controller, ISA compatibility mode only + bus mastering'',
     subclass_kv 0x1 0x85 ''IDE Controller, PCI native mode only + bus mastering'',
     subclass_kv 0x1 0x8A ''IDE Controller, ISA compatibility mode, can switch to PCI native mode, + bus mastering'',
     subclass_kv 0x1 0x8F ''IDE Controller, PCI native mode, can switch to ISA compatibility mode, + bus mastering'',
     subclass_kv 0x1 (-1) ''IDE Controller'',
     subclass_kv 0x2 (-1) ''Floppy Disk Controller'',
     subclass_kv 0x3 (-1) ''IPI Bus Controller'',
     subclass_kv 0x4 (-1) ''RAID Controller'',
     subclass_kv 0x5 0x20 ''ATA Controller, Single DMA'',
     subclass_kv 0x5 0x30 ''ATA Controller, Chained DMA'',
     subclass_kv 0x5 (-1) ''ATA Controller'',
     subclass_kv 0x6 0x0 ''Serial ATA Controller, Vendor Specific Interface'',
     subclass_kv 0x6 0x1 ''Serial ATA Controller, AHCI 1.0'',
     subclass_kv 0x6 0x2 ''Serial ATA Controller, Serial Storage Bus'',
     subclass_kv 0x6 (-1) ''Serial ATA Controller'',
     subclass_kv 0x7 0x0 ''Serial Attached SCSI Controller, SAS'',
     subclass_kv 0x7 0x1 ''Serial Attached SCSI Controller, Serial Storage Bus'',
     subclass_kv 0x7 (-1) ''Serial Attached SCSI Controller'',
     subclass_kv 0x8 0x1 ''Non-Volatile Memory Controller, NVMHCI'',
     subclass_kv 0x8 0x2 ''Non-Volatile Memory Controller, NVMe'',
     subclass_kv 0x8 (-1) ''Non-Volatile Memory Controller'',
     subclass_kv 0x80 (-1) ''Other'',
     subclass_kv 0xFF (-1) ''Unknown'']"

definition pci_network_cont_descriptors :: "pci_subclass_kv list" where
  "pci_network_cont_descriptors =
    [subclass_kv 0x0 (-1) ''Ethernet Controller'',
     subclass_kv 0x1 (-1) ''Token Ring Controller'',
     subclass_kv 0x2 (-1) ''FDDI Controller'',
     subclass_kv 0x3 (-1) ''ATM Controller'',
     subclass_kv 0x4 (-1) ''ISDN Controller'',
     subclass_kv 0x5 (-1) ''WorldFip Controller'',
     subclass_kv 0x6 (-1) ''PICMG 2.14 Multi Computing Controller'',
     subclass_kv 0x7 (-1) ''Infiniband Controller'',
     subclass_kv 0x8 (-1) ''Fabric Controller'',
     subclass_kv 0x80 (-1) ''Other'',
     subclass_kv 0xFF (-1) ''Unknown'']"

definition pci_display_cont_descriptors :: "pci_subclass_kv list" where
  "pci_display_cont_descriptors =
    [subclass_kv 0x0 0x0 ''VGA Controller'',
     subclass_kv 0x0 0x1 ''VGA Controller, 8514-Compatible'',
     subclass_kv 0x0 (-1) ''VGA Compatible Controller'',
     subclass_kv 0x1 (-1) ''XGA Controller'',
     subclass_kv 0x2 (-1) ''3D Controller (Not VGA-Compatible)'',
     subclass_kv 0x80 (-1) ''Other'',
     subclass_kv 0xFF (-1) ''Unknown'']"

definition pci_bridge_descriptors :: "pci_subclass_kv list" where
  "pci_bridge_descriptors =
    [subclass_kv 0x0 (-1) ''Host Bridge'',
     subclass_kv 0x1 (-1) ''ISA Bridge'',
     subclass_kv 0x2 (-1) ''EISA Bridge'',
     subclass_kv 0x3 (-1) ''MCA Bridge'',
     subclass_kv 0x4 0x0 ''PCI-to-PCI Bridge, Normal Decode'',
     subclass_kv 0x4 0x1 ''PCI-to-PCI Bridge, Subtractive Decode'',
     subclass_kv 0x4 (-1) ''PCI-to-PCI Bridge'',
     subclass_kv 0x5 (-1) ''PCMCIA Bridge'',
     subclass_kv 0x6 (-1) ''NuBus Bridge'',
     subclass_kv 0x7 (-1) ''CardBus Bridge'',
     subclass_kv 0x8 0x0 ''RACEway Bridge, Transparent Mode'',
     subclass_kv 0x8 0x1 ''RACEway Bridge, Endpoint Mode'',
     subclass_kv 0x8 (-1) ''RACEway Bridge'',
     subclass_kv 0x9 0x40 ''PCI-to-PCI Bridge, Semi-Transparent, primary bus towards CPU'',
     subclass_kv 0x9 0x80 ''PCI-to-PCI Bridge, Semi-Transparent, secondary bus towards CPU'',
     subclass_kv 0x9 (-1) ''PCI-to-PCI Bridge'',
     subclass_kv 0xA (-1) ''InfiniBand-to-PCI Host Bridge'',
     subclass_kv 0x80 (-1) ''Other'',
     subclass_kv 0xFF (-1) ''Unknown'']"

definition pci_serial_bus_cont_descriptors :: "pci_subclass_kv list" where
  "pci_serial_bus_cont_descriptors =
    [subclass_kv 0x0 0x0 ''FireWire (IEEE 1394) Controller (Generic)'',
     subclass_kv 0x0 0x10 ''FireWire (IEEE 1394) Controller (OCHI)'',
     subclass_kv 0x0 (-1) ''FireWire (IEEE 1394) Controller'',
     subclass_kv 0x1 (-1) ''ACCESS Bus Controller'',
     subclass_kv 0x2 (-1) ''SSA'',
     subclass_kv 0x3 0x0 ''UHCI Controller'',
     subclass_kv 0x3 0x10 ''OHCI Controller'',
     subclass_kv 0x3 0x20 ''EHCI (USB2) Controller'',
     subclass_kv 0x3 0x30 ''XHCI (USB3) Controller'',
     subclass_kv 0x3 0x80 ''USB Controller (Unspecified)'',
     subclass_kv 0x3 0xFE ''USB Device'',
     subclass_kv 0x3 (-1) ''USB Controller'',
     subclass_kv 0x4 (-1) ''Fibre Channel'',
     subclass_kv 0x5 (-1) ''SMBus Controller'',
     subclass_kv 0x6 (-1) ''InfiniBand Controller'',
     subclass_kv 0x7 0x0 ''IPMI Interface, SMIC'',
     subclass_kv 0x7 0x1 ''IPMI Interface, Keyboard Controller Style'',
     subclass_kv 0x7 0x2 ''IPMI Interface, Block Transfer'',
     subclass_kv 0x7 (-1) ''IPMI Interface'',
     subclass_kv 0x8 (-1) ''SERCOS Interface (IEC 61491)'',
     subclass_kv 0x9 (-1) ''CANbus Controller'',
     subclass_kv 0x80 (-1) ''Other'',
     subclass_kv 0xFF (-1) ''Unknown'']"

section \<open>The searches\<close>

definition kv_matches :: "u8 \<Rightarrow> u8 \<Rightarrow> pci_subclass_kv \<Rightarrow> bool" where
  "kv_matches subclass prog_if kv \<longleftrightarrow>
    kv_subclass kv = subclass \<and> (kv_prog_if kv = uint prog_if \<or> kv_prog_if kv = -1)"

function subclass_search :: "pci_subclass_kv list \<Rightarrow> nat \<Rightarrow> u8 \<Rightarrow> u8 \<Rightarrow> string option" where
  "subclass_search descriptor_arr i subclass prog_if =
    (if i \<ge> length descriptor_arr then None else
     if kv_matches subclass prog_if (descriptor_arr ! i) then Some (kv_descriptor (descriptor_arr ! i)) else
     if i + 1 \<ge> length descriptor_arr then None else
     if kv_subclass (descriptor_arr ! (i + 1)) \<noteq> 0xFF \<and> i + 1 < 0xFF
     then subclass_search descriptor_arr (i + 1) subclass prog_if
     else Some ''Unknown'')"
  by pat_completeness auto
termination by (relation "measure (\<lambda>(arr, i, _, _). length arr - i)") auto

definition pci_get_subclass_descriptor :: "pci_subclass_kv list \<Rightarrow> u8 \<Rightarrow> u8 \<Rightarrow> string option" where
  "pci_get_subclass_descriptor descriptor_arr subclass prog_if =
    subclass_search descriptor_arr 0 subclass prog_if"

function vendor_search :: "nat \<Rightarrow> u16 \<Rightarrow> string option" where
  "vendor_search vendor_i vendor =
    (if vendor_i \<ge> length pci_vendor_descriptors then None else
     let key_value = pci_vendor_descriptors ! vendor_i
     in if kv_vendor key_value = vendor then Some (kv_vendor_descriptor key_value)
        else if kv_vendor key_value \<noteq> 0xFFFF \<and> vendor_i + 1 < 0xFFFF
        then vendor_search (vendor_i + 1) vendor
        else Some ''Unknown'')"
  by pat_completeness auto
termination by (relation "measure (\<lambda>(i, _). length pci_vendor_descriptors - i)") auto

declare subclass_search.simps [simp del] vendor_search.simps [simp del]

definition class_descriptor :: "u8 \<Rightarrow> string option" where
  "class_descriptor class =
    (if class \<ge> 0x14 \<and> class < 0x40 \<or> class > 0x40 \<and> class < 0xFF then Some ''Reserved''
     else if class = 0x40 then Some ''Co-Processor''
     else if class = 0xFF then Some ''Unknown''
     else if unat class < length pci_class_descriptors then Some (pci_class_descriptors ! unat class)
     else None)"

definition subclass_descriptor :: "u8 \<Rightarrow> u8 \<Rightarrow> u8 \<Rightarrow> string option" where
  "subclass_descriptor class subclass prog_if =
    (if class = 0x1 then pci_get_subclass_descriptor pci_mass_storage_descriptors subclass prog_if
     else if class = 0x2 then pci_get_subclass_descriptor pci_network_cont_descriptors subclass prog_if
     else if class = 0x3 then pci_get_subclass_descriptor pci_display_cont_descriptors subclass prog_if
     else if class = 0x6 then pci_get_subclass_descriptor pci_bridge_descriptors subclass prog_if
     else if class = 0xC then pci_get_subclass_descriptor pci_serial_bus_cont_descriptors subclass prog_if
     else if class = 0xFF then Some ''Unassigned Class (vendor specific)''
     else Some ''Unknown'')"

definition pci_get_descriptors :: "u16 \<Rightarrow> u16 \<Rightarrow> u8 \<Rightarrow> u8 \<Rightarrow> u8 \<Rightarrow> pci_descriptors option" where
  "pci_get_descriptors vendor device_id class subclass prog_if =
    (case (vendor_search 0 vendor, class_descriptor class, subclass_descriptor class subclass prog_if) of
       (Some v, Some c, Some d) \<Rightarrow> Some \<lparr>d_vendor = v, d_class = c, d_subclass = d\<rparr>
     | _ \<Rightarrow> None)"

section \<open>Lookup in a table that ends with a sentinel\<close>

text \<open>
  The contract of the five tables, and what it gives: the search never reads past the table and
  returns the first match before the sentinel; and where a specific entry exists it is the one found,
  because no entry before it catches the same subclass.
\<close>

definition entries :: "pci_subclass_kv list \<Rightarrow> pci_subclass_kv list" where
  "entries arr = takeWhile (\<lambda>kv. kv_subclass kv \<noteq> 0xFF) arr"

fun shadow_free :: "pci_subclass_kv list \<Rightarrow> bool" where
  "shadow_free [] = True"
| "shadow_free (kv # arr) \<longleftrightarrow> shadow_free arr \<and>
    list_all (\<lambda>kv'. kv_subclass kv' = kv_subclass kv \<longrightarrow>
      kv_prog_if kv \<noteq> kv_prog_if kv' \<and> kv_prog_if kv \<noteq> -1) arr"

locale sentinel_table =
  fixes arr :: "pci_subclass_kv list"
  assumes sentinel: "entries arr \<noteq> []" "length (entries arr) < length arr" "length arr \<le> 0xFF"
    and order: "shadow_free (entries arr)"
begin

lemma entry: "i < length (entries arr) \<Longrightarrow> arr ! i = entries arr ! i \<and> kv_subclass (arr ! i) \<noteq> 0xFF"
  using nth_mem [of i "entries arr"] takeWhile_nth [of i "\<lambda>kv. kv_subclass kv \<noteq> 0xFF" arr]
  by (auto simp: entries_def dest: set_takeWhileD)

lemma sentinel_subclass: "kv_subclass (arr ! length (entries arr)) = 0xFF"
  using nth_length_takeWhile [of "\<lambda>kv. kv_subclass kv \<noteq> 0xFF" arr] sentinel(2)
  by (simp add: entries_def)

lemma search_from:
  "i < length (entries arr) \<Longrightarrow> subclass_search arr i c p =
    Some (case find (kv_matches c p) (drop i (entries arr)) of None \<Rightarrow> ''Unknown'' | Some kv \<Rightarrow> kv_descriptor kv)"
proof (induction "length (entries arr) - i" arbitrary: i)
  case 0
  then show ?case by simp
next
  case (Suc n)
  have l: "i + 1 < length arr" "i + 1 < 0xFF" using Suc.prems sentinel by simp_all
  have d: "drop i (entries arr) = (arr ! i) # drop (i + 1) (entries arr)"
    using Suc.prems entry [OF Suc.prems] Cons_nth_drop_Suc [of i "entries arr"] by simp
  show ?case
  proof (cases "i + 1 < length (entries arr)")
    case True
    then show ?thesis
      using Suc l d conjunct2 [OF entry [OF True]] by (subst subclass_search.simps) simp
  next
    case False
    with Suc.prems have "i + 1 = length (entries arr)" by simp
    then show ?thesis
      using l d sentinel_subclass by (subst subclass_search.simps) simp
  qed
qed

lemma search: "pci_get_subclass_descriptor arr c p =
    Some (case find (kv_matches c p) (entries arr) of None \<Rightarrow> ''Unknown'' | Some kv \<Rightarrow> kv_descriptor kv)"
  using search_from [of 0 c p] sentinel(1) by (simp add: pci_get_subclass_descriptor_def)

lemma find_shadow_free:
  "shadow_free xs \<Longrightarrow> kv \<in> set xs \<Longrightarrow> kv_matches c p kv \<Longrightarrow> kv_prog_if kv = uint p \<Longrightarrow>
    find (kv_matches c p) xs = Some kv"
  by (induction xs) (auto simp: kv_matches_def list_all_iff)

lemma specific:
  assumes "kv \<in> set (entries arr)" "kv_subclass kv = c" "kv_prog_if kv = uint p"
  shows "pci_get_subclass_descriptor arr c p = Some (kv_descriptor kv)"
  using find_shadow_free [OF order assms(1), of c p] assms by (simp add: search kv_matches_def)

end

interpretation mass_storage: sentinel_table pci_mass_storage_descriptors
  by unfold_locales (simp_all add: entries_def pci_mass_storage_descriptors_def subclass_kv_def)

interpretation network_cont: sentinel_table pci_network_cont_descriptors
  by unfold_locales (simp_all add: entries_def pci_network_cont_descriptors_def subclass_kv_def)

interpretation display_cont: sentinel_table pci_display_cont_descriptors
  by unfold_locales (simp_all add: entries_def pci_display_cont_descriptors_def subclass_kv_def)

interpretation bridge: sentinel_table pci_bridge_descriptors
  by unfold_locales (simp_all add: entries_def pci_bridge_descriptors_def subclass_kv_def)

interpretation serial_bus_cont: sentinel_table pci_serial_bus_cont_descriptors
  by unfold_locales (simp_all add: entries_def pci_serial_bus_cont_descriptors_def subclass_kv_def)

definition pci_subclass_tables :: "pci_subclass_kv list list" where
  "pci_subclass_tables = [pci_mass_storage_descriptors, pci_network_cont_descriptors,
    pci_display_cont_descriptors, pci_bridge_descriptors, pci_serial_bus_cont_descriptors]"

lemma vendor_search_eq: "vendor_search 0 vendor =
    Some (case find (\<lambda>kv. kv_vendor kv = vendor) pci_vendor_descriptors of None \<Rightarrow> ''Unknown'' | Some kv \<Rightarrow> kv_vendor_descriptor kv)"
  by (simp add: vendor_search.simps [of 0] vendor_search.simps [of "Suc 0"] pci_vendor_descriptors_def)

text \<open>The names of a device, said without the searches.\<close>

definition class_name :: "u8 \<Rightarrow> string" where
  "class_name cls =
    (if unat cls < 20 then pci_class_descriptors ! unat cls
     else if cls = 0x40 then ''Co-Processor'' else if cls = 0xFF then ''Unknown'' else ''Reserved'')"

definition subclass_table :: "u8 \<Rightarrow> pci_subclass_kv list option" where
  "subclass_table = [0x1 \<mapsto> pci_mass_storage_descriptors, 0x2 \<mapsto> pci_network_cont_descriptors, 0x3 \<mapsto> pci_display_cont_descriptors,
    0x6 \<mapsto> pci_bridge_descriptors, 0xC \<mapsto> pci_serial_bus_cont_descriptors]"

definition subclass_name :: "u8 \<Rightarrow> u8 \<Rightarrow> u8 \<Rightarrow> string" where
  "subclass_name cls subclass prog_if =
    (case subclass_table cls of
       None \<Rightarrow> if cls = 0xFF then ''Unassigned Class (vendor specific)'' else ''Unknown''
     | Some arr \<Rightarrow>
       (case find (kv_matches subclass prog_if) (entries arr) of None \<Rightarrow> ''Unknown'' | Some kv \<Rightarrow> kv_descriptor kv))"

lemma class_descriptor_eq: "class_descriptor cls = Some (class_name cls)"
proof -
  have l: "length pci_class_descriptors = 20" by (simp add: pci_class_descriptors_def)
  have u: "unat cls < 256" using unsigned_less [of cls, where ?'a = nat] by simp
  have "cls = 0xFF \<longleftrightarrow> unat cls = 255" "cls = 0x40 \<longleftrightarrow> unat cls = 64" by (simp_all add: word_unat_eq_iff)
  then show ?thesis
    using u by (auto simp: class_descriptor_def class_name_def l word_le_nat_alt word_less_nat_alt)
qed

lemma subclass_descriptor_eq: "subclass_descriptor cls subclass prog_if = Some (subclass_name cls subclass prog_if)"
  by (simp add: subclass_descriptor_def subclass_name_def subclass_table_def mass_storage.search network_cont.search
      display_cont.search bridge.search serial_bus_cont.search)

section \<open>Properties\<close>

lemma pci_get_descriptors_eq:
  "pci_get_descriptors vendor device_id cls subclass prog_if = Some
    \<lparr>d_vendor = (case find (\<lambda>kv. kv_vendor kv = vendor) pci_vendor_descriptors of
       None \<Rightarrow> ''Unknown'' | Some kv \<Rightarrow> kv_vendor_descriptor kv),
     d_class = class_name cls, d_subclass = subclass_name cls subclass prog_if\<rparr>"
  by (simp add: pci_get_descriptors_def vendor_search_eq class_descriptor_eq subclass_descriptor_eq)

text \<open>
  C33. Looking up the names of a device never reads past one of the tables, whatever vendor, class, subclass and interface the
  device reports. The vendor is the first entry of its table with the number, \<open>Unknown\<close> without one. The class is the string of its table at that
  index up to 0x13; beyond, the code has names of its own. The subclass is the first entry before the sentinel, in the table of the class, that
  matches subclass and interface; without one, and for the classes that have no table, it is one of the two names in the code.
\<close>

theorem pci_get_descriptors_names:
  "pci_get_descriptors vendor device_id cls subclass prog_if = Some
    \<lparr>d_vendor = (case find (\<lambda>kv. kv_vendor kv = vendor) pci_vendor_descriptors of
       None \<Rightarrow> ''Unknown'' | Some kv \<Rightarrow> kv_vendor_descriptor kv),
     d_class = class_name cls, d_subclass = subclass_name cls subclass prog_if\<rparr>"
  by (rule pci_get_descriptors_eq)

text \<open>
  In each of the five tables the search finds the first entry that matches before the sentinel, and
  an entry for the exact interface is never hidden by a catch-all entry of its subclass.
\<close>

theorem pci_subclass_lookup:
  assumes "arr \<in> set pci_subclass_tables"
  shows "pci_get_subclass_descriptor arr c p =
      Some (case find (kv_matches c p) (entries arr) of None \<Rightarrow> ''Unknown'' | Some kv \<Rightarrow> kv_descriptor kv) \<and>
    (\<forall>kv \<in> set (entries arr). kv_subclass kv = c \<and> kv_prog_if kv = uint p \<longrightarrow>
      pci_get_subclass_descriptor arr c p = Some (kv_descriptor kv))"
proof -
  have "sentinel_table arr"
    using assms mass_storage.sentinel_table_axioms network_cont.sentinel_table_axioms
      display_cont.sentinel_table_axioms bridge.sentinel_table_axioms serial_bus_cont.sentinel_table_axioms
    by (auto simp: pci_subclass_tables_def)
  then show ?thesis by (blast intro: sentinel_table.search sentinel_table.specific)
qed

theorem pci_subclass_lookup_witness:
  "pci_get_subclass_descriptor pci_mass_storage_descriptors 6 1 = Some ''Serial ATA Controller, AHCI 1.0''"
proof -
  have "subclass_kv 6 1 ''Serial ATA Controller, AHCI 1.0'' \<in> set (entries pci_mass_storage_descriptors)"
    by (simp add: entries_def pci_mass_storage_descriptors_def subclass_kv_def)
  then show ?thesis
    using pci_subclass_lookup [of pci_mass_storage_descriptors 6 1]
    by (auto simp: pci_subclass_tables_def subclass_kv_def)
qed

end
