(* ===== verification/Heap.thy ===== *)
theory Heap
  imports Vmm_Correct
begin

text \<open>
  \<open>src/mem/heap.c\<close>: the kernel heap, a linked list of segments in a virtual address range that grows by
  pages. A segment is a packed header of 21 bytes (\<open>prev\<close>, \<open>next\<close>, a 32-bit \<open>size\<close>, \<open>free\<close>)
  followed by \<open>size\<close> bytes. The headers live in the byte memory and are read and written field by
  field, as the code does. The lists of headers may be cyclic, so the searches are
  partial functions. An operation is \<open>None\<close> when it does not return: its search does not end, or it
  reaches a header or a block through the null pointer, which ends the list.

  Memory is addressed by virtual addresses; that a heap address and the direct map
  show the same page twice is not part of the model.
\<close>

record heap = vmm +
  heap_base_address :: u64
  heap_size :: u64

section \<open>Segment headers\<close>

definition sizeof_hdr :: u64 where "sizeof_hdr = 21"

definition hdr_prev :: "memory \<Rightarrow> u64 \<Rightarrow> u64" where "hdr_prev m hdr = load64 m hdr"
definition hdr_next :: "memory \<Rightarrow> u64 \<Rightarrow> u64" where "hdr_next m hdr = load64 m (hdr + 8)"
definition hdr_size :: "memory \<Rightarrow> u64 \<Rightarrow> u32" where "hdr_size m hdr = load32 m (hdr + 16)"
definition hdr_free :: "memory \<Rightarrow> u64 \<Rightarrow> bool" where "hdr_free m hdr \<longleftrightarrow> m (hdr + 20) \<noteq> 0"

definition set_prev :: "u64 \<Rightarrow> u64 \<Rightarrow> memory \<Rightarrow> memory" where
  "set_prev hdr v m = store64 m hdr v"
definition set_next :: "u64 \<Rightarrow> u64 \<Rightarrow> memory \<Rightarrow> memory" where
  "set_next hdr v m = store64 m (hdr + 8) v"
definition set_size :: "u64 \<Rightarrow> u32 \<Rightarrow> memory \<Rightarrow> memory" where
  "set_size hdr v m = store32 m (hdr + 16) v"
definition set_free :: "u64 \<Rightarrow> bool \<Rightarrow> memory \<Rightarrow> memory" where
  "set_free hdr b m = m(hdr + 20 := (if b then 1 else 0))"

section \<open>The operations\<close>

definition heap_split_segment :: "u64 \<Rightarrow> u64 \<Rightarrow> memory \<Rightarrow> memory" where
  "heap_split_segment cur sz m =
    (let new_hdr = cur + sizeof_hdr + sz
     in if ucast (hdr_size m cur) \<le> sz + sizeof_hdr then m
        else
          (let m = set_prev new_hdr cur m;
               m = set_free new_hdr True m;
               m = (if hdr_next m cur = 0 then set_next new_hdr 0 m
                    else set_next new_hdr (hdr_next m cur) m);
               m = set_next cur new_hdr m;
               m = set_size new_hdr (ucast (ucast (hdr_size m cur) - (sz + sizeof_hdr))) m
           in set_size cur (ucast sz) m))"

definition heap_merge_forward :: "u64 \<Rightarrow> memory \<Rightarrow> memory option" where
  "heap_merge_forward cur m =
    (if hdr_next m cur = 0 then None
     else
       (let m = set_size cur (ucast (ucast (hdr_size m cur) + (sizeof_hdr + ucast (hdr_size m (hdr_next m cur))))) m;
            m = set_next cur (hdr_next m (hdr_next m cur)) m
        in if hdr_next m cur = 0 then None else Some (memset (hdr_next m cur) 0 sizeof_hdr m)))"

definition heap_extend :: "u64 \<Rightarrow> u64 \<Rightarrow> 'a heap_scheme \<Rightarrow> 'a heap_scheme" where
  "heap_extend last_hdr num_pages s =
    for_u64 0 num_pages
      (\<lambda>i s. let (new_page, s) = pmm_allocz s;
                 s = vmm_map_page new_page (heap_base_address s + heap_size s * 0x1000) s;
                 s = s\<lparr>heap_size := heap_size s + 1\<rparr>
             in s\<lparr>mem := set_size last_hdr (hdr_size (mem s) last_hdr + 0x1000) (mem s)\<rparr>) s"

definition heap_init :: "u64 \<Rightarrow> 'a heap_scheme \<Rightarrow> 'a heap_scheme" where
  "heap_init p_base_address s =
    (let s = s\<lparr>heap_base_address := p_base_address\<rparr>;
         (first_page, s) = pmm_allocz s;
         s = vmm_map_page first_page (heap_base_address s) s;
         s = s\<lparr>heap_size := 1\<rparr>;
         hdr = heap_base_address s;
         s = s\<lparr>mem := set_size hdr (ucast (0x1000 - sizeof_hdr))
                (set_free hdr True (set_next hdr 0 (set_prev hdr 0 (mem s))))\<rparr>
     in print (''%C[Heap]%C - Initialised heap allocator at address %X'' @ newline)
          [PInt (ucast COLOUR_KERNEL_INFO), PInt (ucast COLOUR_PRINT), PInt (heap_base_address s)] s)"

text \<open>
  The search of \<open>malloc\<close>: the first free segment that is large enough, or the last segment. What is
  then done with a segment is the same in the loop and after the heap was extended.
\<close>

partial_function (option) malloc_search :: "u64 \<Rightarrow> u64 \<Rightarrow> memory \<Rightarrow> (bool \<times> u64) option" where
  "malloc_search hdr sz m =
    (if hdr_free m hdr \<and> (ucast (hdr_size m hdr) = sz \<or> ucast (hdr_size m hdr) > sz) then Some (True, hdr)
     else if hdr_next m hdr = 0 then Some (False, hdr)
     else malloc_search (hdr_next m hdr) sz m)"

definition malloc_take :: "u64 \<Rightarrow> u64 \<Rightarrow> 'a heap_scheme \<Rightarrow> u64 \<times> 'a heap_scheme" where
  "malloc_take hdr sz s =
    (if ucast (hdr_size (mem s) hdr) = sz
     then (hdr + sizeof_hdr, s\<lparr>mem := set_free hdr False (mem s)\<rparr>)
     else if ucast (hdr_size (mem s) hdr) > sz
     then (hdr + sizeof_hdr, s\<lparr>mem := set_free hdr False (heap_split_segment hdr sz (mem s))\<rparr>)
     else (0, s))"

definition malloc :: "u64 \<Rightarrow> 'a heap_scheme \<Rightarrow> (u64 \<times> 'a heap_scheme) option" where
  "malloc sz s =
    (case malloc_search (heap_base_address s) sz (mem s) of
       None \<Rightarrow> None
     | Some (True, hdr) \<Rightarrow> Some (malloc_take hdr sz s)
     | Some (False, hdr) \<Rightarrow>
         (let bytes_needed = sz; pages_needed = bytes_needed div 0x1000 + 1
          in Some (malloc_take hdr sz (heap_extend hdr pages_needed s))))"

text \<open>The search that \<open>free\<close> and \<open>realloc\<close> validate a pointer with.\<close>

partial_function (option) find_segment :: "u64 \<Rightarrow> u64 \<Rightarrow> memory \<Rightarrow> bool option" where
  "find_segment hdr hdr_addr m =
    (if hdr_addr = hdr then Some True
     else if hdr_next m hdr = 0 then Some False
     else if hdr_next m hdr \<le> hdr_addr then find_segment (hdr_next m hdr) hdr_addr m
     else Some False)"

definition free :: "u64 \<Rightarrow> 'a heap_scheme \<Rightarrow> 'a heap_scheme option" where
  "free ptr s =
    (let hdr_addr = ptr - sizeof_hdr
     in case find_segment (heap_base_address s) hdr_addr (mem s) of
          None \<Rightarrow> None
        | Some False \<Rightarrow> Some s
        | Some True \<Rightarrow>
            (let m = set_free hdr_addr True (mem s)
             in case (if hdr_prev m hdr_addr \<noteq> 0 \<and> hdr_free m (hdr_prev m hdr_addr)
                      then map_option (Pair (hdr_prev m hdr_addr)) (heap_merge_forward (hdr_prev m hdr_addr) m)
                      else Some (hdr_addr, m)) of
                  None \<Rightarrow> None
                | Some (header, m) \<Rightarrow>
                    (if hdr_next m header = 0 then None
                     else if hdr_free m (hdr_next m header)
                     then map_option (\<lambda>m. s\<lparr>mem := m\<rparr>) (heap_merge_forward header m)
                     else Some (s\<lparr>mem := m\<rparr>))))"

definition realloc :: "u64 \<Rightarrow> u64 \<Rightarrow> 'a heap_scheme \<Rightarrow> (u64 \<times> 'a heap_scheme) option" where
  "realloc ptr sz s =
    (let hdr_addr = ptr - sizeof_hdr
     in case find_segment (heap_base_address s) hdr_addr (mem s) of
          None \<Rightarrow> None
        | Some False \<Rightarrow> malloc sz s
        | Some True \<Rightarrow>
            (case malloc sz s of
               None \<Rightarrow> None
             | Some (new_ptr, s) \<Rightarrow>
                 (let old_size = ucast (hdr_size (mem s) hdr_addr);
                      n = (if old_size < sz then old_size else sz)
                  in if new_ptr = 0 \<and> n \<noteq> 0 then None
                     else Some (new_ptr, s\<lparr>mem := memcpy new_ptr ptr n (mem s)\<rparr>))))"

section \<open>Fields of headers\<close>

lemma header_disj:
  "disj h 8 (h + 8) 8" "disj h 8 (h + 16) 4" "disj h 8 (h + 20) 1"
  "disj (h + 8) 8 (h + 16) 4" "disj (h + 8) 8 (h + 20) 1" "disj (h + 16) 4 (h + 20) 1"
  using disj_offsets [of 0 8 8 8 h] disj_offsets [of 0 8 16 4 h] disj_offsets [of 0 8 20 1 h]
    disj_offsets [of 8 8 16 4 h] disj_offsets [of 8 8 20 1 h] disj_offsets [of 16 4 20 1 h]
  by simp_all

lemma not_in_range1: "disj a n b 1 \<Longrightarrow> \<not> in_range b a n"
  using not_in_range_disj [of b 1 a n 0] disj_sym [of a n b 1] by simp

lemmas header_out = header_disj [THEN not_in_range_disj] header_disj [THEN disj_sym, THEN not_in_range_disj]
lemmas header_byte = header_disj(3) [THEN not_in_range1] header_disj(5) [THEN not_in_range1]
  header_disj(6) [THEN not_in_range1]

lemma store_byte: "\<not> in_range x a 1 \<Longrightarrow> (m(a := v)) x = (m :: memory) x"
  by (auto simp: in_range_def)

lemma hdr_set_prev [simp]:
  "hdr_prev (set_prev h v m) h = v" "hdr_next (set_prev h v m) h = hdr_next m h"
  "hdr_size (set_prev h v m) h = hdr_size m h" "hdr_free (set_prev h v m) h = hdr_free m h"
  using header_disj [of h] header_byte [of h]
  by (simp_all add: hdr_prev_def hdr_next_def hdr_size_def hdr_free_def set_prev_def cell64.rd_wr
      cell64.rd_wr_disj disj_sym cell64.wr_outside
      cell32.rd_frame [OF cell64.wr_outside])

lemma hdr_set_next [simp]:
  "hdr_prev (set_next h v m) h = hdr_prev m h" "hdr_next (set_next h v m) h = v"
  "hdr_size (set_next h v m) h = hdr_size m h" "hdr_free (set_next h v m) h = hdr_free m h"
  using header_disj [of h] header_byte [of h]
  by (simp_all add: hdr_prev_def hdr_next_def hdr_size_def hdr_free_def set_next_def cell64.rd_wr
      cell64.rd_wr_disj disj_sym cell64.wr_outside
      cell32.rd_frame [OF cell64.wr_outside])

lemma hdr_set_size [simp]:
  "hdr_prev (set_size h v m) h = hdr_prev m h" "hdr_next (set_size h v m) h = hdr_next m h"
  "hdr_size (set_size h v m) h = v" "hdr_free (set_size h v m) h = hdr_free m h"
  using header_disj [of h] header_byte [of h]
  by (simp_all add: hdr_prev_def hdr_next_def hdr_size_def hdr_free_def set_size_def cell32.rd_wr
      disj_sym cell32.wr_outside cell64.rd_frame [OF cell32.wr_outside])

lemma hdr_set_free [simp]:
  "hdr_prev (set_free h b m) h = hdr_prev m h" "hdr_next (set_free h b m) h = hdr_next m h"
  "hdr_size (set_free h b m) h = hdr_size m h" "hdr_free (set_free h b m) h = b"
  using header_disj [of h]
  by (simp_all add: hdr_prev_def hdr_next_def hdr_size_def hdr_free_def set_free_def
      cell64.rd_frame [OF store_byte] cell32.rd_frame [OF store_byte])

end
