(* ===== verification/Heap_List.thy ===== *)
theory Heap_List
  imports Heap
begin

text \<open>
  The heap as a list of segments. \<open>chain m e a xs b\<close>: the segments \<open>xs\<close> fill the addresses from
  \<open>a\<close> to \<open>b\<close> without a gap, in a heap that ends at \<open>e\<close>, and their headers in \<open>m\<close> are linked
  accordingly. The lemmas say what the searches find in such a list and what splitting and
  marking a segment do to it.
\<close>

section \<open>Writes to one header\<close>

definition within :: "nat \<Rightarrow> nat \<Rightarrow> memory \<Rightarrow> memory \<Rightarrow> bool" where
  "within lo hi m m' \<longleftrightarrow> (\<forall>a. unat a < lo \<or> hi \<le> unat a \<longrightarrow> m' a = m a)"

lemma within_refl [simp]: "within lo hi m m"
  by (simp add: within_def)

lemma within_trans: "within lo hi m m' \<Longrightarrow> within lo hi m' m'' \<Longrightarrow> within lo hi m m''"
  by (simp add: within_def)

lemma within_mono: "within lo hi m m' \<Longrightarrow> lo' \<le> lo \<Longrightarrow> hi \<le> hi' \<Longrightarrow> within lo' hi' m m'"
  by (simp add: within_def)

lemma unat_plus: "unat (h :: u64) + k < 2 ^ 64 \<Longrightarrow> unat (h + of_nat k) = unat h + k"
  using u64_add_of_nat_diff [of h 0 k] by simp

lemma within_range:
  assumes "\<And>x. \<not> in_range x (h + of_nat j) k \<Longrightarrow> m' x = m x" "unat h + j + k \<le> n" "n \<le> 2 ^ 64"
  shows "within (unat h) n m m'"
  unfolding within_def
proof (intro allI impI)
  fix a :: u64 assume a: "unat a < unat h \<or> n \<le> unat a"
  show "m' a = m a"
  proof (cases "k = 0")
    case True
    then show ?thesis using assms(1) by simp
  next
    case False
    then have u: "unat (h + of_nat j) = unat h + j" using assms(2,3) by (intro unat_plus) simp
    have "\<not> in_range a (h + of_nat j) k"
    proof
      assume r: "in_range a (h + of_nat j) k"
      define d where "d = unat (a - (h + of_nat j))"
      have "a = (h + of_nat j) + of_nat d" by (simp add: d_def)
      moreover have "d < k" using r by (simp add: in_range_def d_def)
      ultimately have "unat a = unat h + j + d"
        using u assms(2,3) unat_plus [of "h + of_nat j" d] by simp
      with a \<open>d < k\<close> assms(2) show False by linarith
    qed
    then show ?thesis by (rule assms(1))
  qed
qed

lemma within_set:
  assumes "unat h + 21 \<le> 2 ^ 64"
  shows "within (unat h) (unat h + 21) m (set_prev h v m)" "within (unat h) (unat h + 21) m (set_next h v m)"
    "within (unat h) (unat h + 21) m (set_size h w m)" "within (unat h) (unat h + 21) m (set_free h b m)"
proof -
  show "within (unat h) (unat h + 21) m (set_prev h v m)"
    by (rule within_range [of h 0 8]) (use assms in \<open>simp_all add: set_prev_def cell64.wr_outside\<close>)
  show "within (unat h) (unat h + 21) m (set_next h v m)"
    by (rule within_range [of h 8 8]) (use assms in \<open>simp_all add: set_next_def cell64.wr_outside\<close>)
  show "within (unat h) (unat h + 21) m (set_size h w m)"
    by (rule within_range [of h 16 4]) (use assms in \<open>simp_all add: set_size_def cell32.wr_outside\<close>)
  show "within (unat h) (unat h + 21) m (set_free h b m)"
    by (rule within_range [of h 20 1]) (use assms in \<open>auto simp: set_free_def in_range_def\<close>)
qed

lemma hdr_cong:
  assumes "\<And>k. k < 21 \<Longrightarrow> m' (h + of_nat k) = m (h + of_nat k)"
  shows "hdr_prev m' h = hdr_prev m h" "hdr_next m' h = hdr_next m h"
    "hdr_size m' h = hdr_size m h" "hdr_free m' h = hdr_free m h"
proof -
  have at: "m' (h + of_nat j + of_nat k) = m (h + of_nat j + of_nat k)" if "j + k < 21" for j k
    using assms [OF that] by (simp add: add.assoc)
  show "hdr_prev m' h = hdr_prev m h"
    unfolding hdr_prev_def using at [of 0] by (intro cell64.rd_cong) simp
  show "hdr_next m' h = hdr_next m h"
    unfolding hdr_next_def using at [of 8] by (intro cell64.rd_cong) simp
  show "hdr_size m' h = hdr_size m h"
    unfolding hdr_size_def using at [of 16] by (intro cell32.rd_cong) simp
  show "hdr_free m' h = hdr_free m h"
    unfolding hdr_free_def using at [of 20 0] by simp
qed

lemma hdr_within:
  assumes "within lo hi m m'" "unat h + 21 \<le> lo \<or> hi \<le> unat h" "unat h + 21 \<le> 2 ^ 64"
  shows "hdr_prev m' h = hdr_prev m h" "hdr_next m' h = hdr_next m h"
    "hdr_size m' h = hdr_size m h" "hdr_free m' h = hdr_free m h"
proof -
  have at: "m' (h + of_nat k) = m (h + of_nat k)" if "k < 21" for k
    using assms that unat_plus [of h k] by (auto simp: within_def)
  show "hdr_prev m' h = hdr_prev m h" "hdr_next m' h = hdr_next m h"
    "hdr_size m' h = hdr_size m h" "hdr_free m' h = hdr_free m h"
    using at by (rule hdr_cong; blast)+
qed

text \<open>Two headers that do not overlap.\<close>

definition apart :: "u64 \<Rightarrow> u64 \<Rightarrow> bool" where
  "apart h k \<longleftrightarrow> (unat h + 21 \<le> unat k \<or> unat k + 21 \<le> unat h) \<and> unat h + 21 \<le> 2 ^ 64 \<and> unat k + 21 \<le> 2 ^ 64"

lemma apart_sym: "apart h k \<Longrightarrow> apart k h"
  by (auto simp: apart_def)

lemma hdr_other:
  assumes "apart h k"
  shows "hdr_prev (set_prev k v m) h = hdr_prev m h" "hdr_next (set_prev k v m) h = hdr_next m h"
    "hdr_size (set_prev k v m) h = hdr_size m h" "hdr_free (set_prev k v m) h = hdr_free m h"
    "hdr_prev (set_next k v m) h = hdr_prev m h" "hdr_next (set_next k v m) h = hdr_next m h"
    "hdr_size (set_next k v m) h = hdr_size m h" "hdr_free (set_next k v m) h = hdr_free m h"
    "hdr_prev (set_size k w m) h = hdr_prev m h" "hdr_next (set_size k w m) h = hdr_next m h"
    "hdr_size (set_size k w m) h = hdr_size m h" "hdr_free (set_size k w m) h = hdr_free m h"
    "hdr_prev (set_free k b m) h = hdr_prev m h" "hdr_next (set_free k b m) h = hdr_next m h"
    "hdr_size (set_free k b m) h = hdr_size m h" "hdr_free (set_free k b m) h = hdr_free m h"
  using assms by (intro hdr_within [OF within_set(1)] hdr_within [OF within_set(2)]
      hdr_within [OF within_set(3)] hdr_within [OF within_set(4)]; auto simp: apart_def)+

section \<open>Chains of segments\<close>

datatype seg = Seg (seg_addr: u64) (seg_size: nat) (seg_free: bool)

definition seg_end :: "seg \<Rightarrow> nat" where
  "seg_end x = unat (seg_addr x) + 21 + seg_size x"

definition seg_ok :: "memory \<Rightarrow> nat \<Rightarrow> seg \<Rightarrow> bool" where
  "seg_ok m e x \<longleftrightarrow> unat (hdr_size m (seg_addr x)) = seg_size x \<and> hdr_free m (seg_addr x) = seg_free x \<and>
    unat (hdr_next m (seg_addr x)) = (if seg_end x = e then 0 else seg_end x) \<and> seg_end x \<le> e"

fun chain :: "memory \<Rightarrow> nat \<Rightarrow> nat \<Rightarrow> seg list \<Rightarrow> nat \<Rightarrow> bool" where
  "chain m e a [] b \<longleftrightarrow> a = b"
| "chain m e a (x # xs) b \<longleftrightarrow> unat (seg_addr x) = a \<and> seg_ok m e x \<and> chain m e (seg_end x) xs b"

definition heap_list :: "memory \<Rightarrow> u64 \<Rightarrow> nat \<Rightarrow> seg list \<Rightarrow> bool" where
  "heap_list m base e xs \<longleftrightarrow> xs \<noteq> [] \<and> e < 2 ^ 64 \<and> 0 < unat base \<and> chain m e (unat base) xs e"

lemma chain_append: "chain m e a (xs @ ys) b \<longleftrightarrow> (\<exists>c. chain m e a xs c \<and> chain m e c ys b)"
  by (induction xs arbitrary: a) auto

lemma chain_le: "chain m e a xs b \<Longrightarrow> a + 21 * length xs \<le> b"
proof (induction xs arbitrary: a)
  case (Cons x xs)
  then have "seg_end x + 21 * length xs \<le> b" "unat (seg_addr x) = a" by simp_all
  then show ?case by (simp add: seg_end_def)
qed simp

lemma chain_member:
  "chain m e a xs b \<Longrightarrow> x \<in> set xs \<Longrightarrow> a \<le> unat (seg_addr x) \<and> seg_end x \<le> b \<and> seg_ok m e x"
proof (induction xs arbitrary: a)
  case (Cons y xs)
  have le: "seg_end y \<le> b" "a \<le> seg_end y"
    using Cons.prems(1) chain_le [of m e "seg_end y" xs b] by (auto simp: seg_end_def)
  show ?case
  proof (cases "x = y")
    case True
    with Cons.prems le show ?thesis by simp
  next
    case False
    with Cons have "seg_end y \<le> unat (seg_addr x) \<and> seg_end x \<le> b \<and> seg_ok m e x" by auto
    with le show ?thesis by auto
  qed
qed simp

lemma seg_ok_within:
  assumes "seg_ok m e x" "within lo hi m m'" "seg_end x \<le> lo \<or> hi \<le> unat (seg_addr x)" "e < 2 ^ 64"
  shows "seg_ok m' e x"
proof -
  have "unat (seg_addr x) + 21 \<le> lo \<or> hi \<le> unat (seg_addr x)" "unat (seg_addr x) + 21 \<le> 2 ^ 64"
    using assms by (auto simp: seg_ok_def seg_end_def)
  note hdr_within [OF assms(2) this]
  with assms(1) show ?thesis by (simp add: seg_ok_def)
qed

lemma chain_within:
  assumes "chain m e a xs b" "within lo hi m m'" "b \<le> lo \<or> hi \<le> a" "e < 2 ^ 64"
  shows "chain m' e a xs b"
  using assms(1,3)
proof (induction xs arbitrary: a)
  case (Cons x xs)
  then have x: "unat (seg_addr x) = a" "seg_ok m e x" "chain m e (seg_end x) xs b" by simp_all
  have le: "seg_end x \<le> b" "a \<le> seg_end x" using chain_le [OF x(3)] x(1) by (simp_all add: seg_end_def)
  have "seg_ok m' e x" using x(1,2) Cons.prems(2) le by (intro seg_ok_within [OF _ assms(2) _ assms(4)]) auto
  moreover have "chain m' e (seg_end x) xs b" using x(3) Cons.prems(2) le by (intro Cons.IH) auto
  ultimately show ?case using x(1) by simp
qed simp

text \<open>A list with a distinguished segment.\<close>

lemma heap_list_split:
  "heap_list m base e (ys @ x # zs) \<longleftrightarrow> e < 2 ^ 64 \<and> 0 < unat base \<and>
    chain m e (unat base) ys (unat (seg_addr x)) \<and> seg_ok m e x \<and> chain m e (seg_end x) zs e"
  unfolding heap_list_def chain_append by auto

section \<open>The searches\<close>

definition fits :: "u64 \<Rightarrow> seg \<Rightarrow> bool" where
  "fits sz x \<longleftrightarrow> seg_free x \<and> unat sz \<le> seg_size x"

lemma fits_hdr:
  assumes "seg_ok m e x"
  shows "hdr_free m (seg_addr x) \<and> (ucast (hdr_size m (seg_addr x)) = sz \<or> ucast (hdr_size m (seg_addr x)) > sz)
    \<longleftrightarrow> fits sz x"
proof -
  have "unat (hdr_size m (seg_addr x)) < 2 ^ 32" using unsigned_less [of "hdr_size m (seg_addr x)"] by simp
  then have "unat (ucast (hdr_size m (seg_addr x)) :: u64) = seg_size x"
    using assms by (simp add: seg_ok_def unsigned_ucast_eq take_bit_nat_eq_self)
  then show ?thesis
    using assms by (auto simp: fits_def seg_ok_def word_less_nat_alt word_unat_eq_iff)
qed

lemma next_hdr:
  assumes "seg_ok m e x" "seg_end x < e"
  shows "hdr_next m (seg_addr x) \<noteq> 0" "unat (hdr_next m (seg_addr x)) = seg_end x"
proof -
  show u: "unat (hdr_next m (seg_addr x)) = seg_end x" using assms by (simp add: seg_ok_def)
  then show "hdr_next m (seg_addr x) \<noteq> 0" by (auto simp: seg_end_def)
qed

lemma last_hdr: "seg_ok m e x \<Longrightarrow> seg_end x = e \<Longrightarrow> hdr_next m (seg_addr x) = 0"
  by (simp add: seg_ok_def unat_eq_0)

lemma malloc_search_skip:
  assumes "chain m e (unat a) ys (unat b)" "unat b < e" "\<And>y. y \<in> set ys \<Longrightarrow> \<not> fits sz y"
  shows "malloc_search a sz m = malloc_search b sz m"
  using assms(1,3)
proof (induction ys arbitrary: a)
  case Nil
  then have "a = b" by (simp add: word_unat_eq_iff)
  then show ?case by simp
next
  case (Cons y ys)
  then have y: "seg_addr y = a" "seg_ok m e y" "chain m e (seg_end y) ys (unat b)"
    by (simp_all add: word_unat_eq_iff)
  have "seg_end y < e" using chain_le [OF y(3)] assms(2) by simp
  note n = next_hdr [OF y(2) this, unfolded y(1)]
  have "malloc_search a sz m = malloc_search (hdr_next m a) sz m"
    using n(1) fits_hdr [OF y(2), of sz, unfolded y(1)] Cons.prems(2) [of y]
    by (subst malloc_search.simps) auto
  also have "\<dots> = malloc_search b sz m" using Cons y(3) n(2) by (intro Cons.IH) simp_all
  finally show ?case .
qed

lemma malloc_search_hit:
  assumes "heap_list m base e (ys @ x # zs)" "\<And>y. y \<in> set ys \<Longrightarrow> \<not> fits sz y" "fits sz x"
  shows "malloc_search base sz m = Some (True, seg_addr x)"
proof -
  from assms(1) have x: "chain m e (unat base) ys (unat (seg_addr x))" "seg_ok m e x" by (simp_all add: heap_list_split)
  then have "unat (seg_addr x) < e" by (simp add: seg_ok_def seg_end_def)
  then have "malloc_search base sz m = malloc_search (seg_addr x) sz m"
    using x(1) assms(2) by (intro malloc_search_skip) auto
  also have "\<dots> = Some (True, seg_addr x)"
    using fits_hdr [OF x(2), of sz] assms(3) by (subst malloc_search.simps) simp
  finally show ?thesis .
qed

lemma malloc_search_miss:
  assumes "heap_list m base e (ys @ [x])" "\<And>y. y \<in> set (ys @ [x]) \<Longrightarrow> \<not> fits sz y"
  shows "malloc_search base sz m = Some (False, seg_addr x)"
proof -
  from assms(1) have x: "chain m e (unat base) ys (unat (seg_addr x))" "seg_ok m e x" "seg_end x = e"
    by (simp_all add: heap_list_split)
  then have "unat (seg_addr x) < e" by (simp add: seg_ok_def seg_end_def)
  then have "malloc_search base sz m = malloc_search (seg_addr x) sz m"
    using x(1) assms(2) by (intro malloc_search_skip) auto
  also have "\<dots> = Some (False, seg_addr x)"
    using fits_hdr [OF x(2), of sz] last_hdr [OF x(2,3)] assms(2) [of x] by (subst malloc_search.simps) simp
  finally show ?thesis .
qed

lemma find_segment_eq:
  assumes "chain m e (unat a) xs e" "xs \<noteq> []" "e < 2 ^ 64"
  shows "find_segment a h m = Some (h \<in> seg_addr ` set xs)"
  using assms(1,2)
proof (induction xs arbitrary: a)
  case (Cons x xs)
  then have x: "seg_addr x = a" "seg_ok m e x" "chain m e (seg_end x) xs e"
    by (simp_all add: word_unat_eq_iff)
  show ?case
  proof (cases "xs = []")
    case True
    then show ?thesis using x(1,3) last_hdr [OF x(2)] by (subst find_segment.simps) simp
  next
    case False
    then have "0 < length xs" by simp
    with chain_le [OF x(3)] have "seg_end x < e" by linarith
    note n = next_hdr [OF x(2) this, unfolded x(1)]
    have IH: "find_segment (hdr_next m a) h m = Some (h \<in> seg_addr ` set xs)"
      using x(3) n(2) False by (intro Cons.IH) simp_all
    have "h \<notin> seg_addr ` set xs" if "h < hdr_next m a"
      using chain_member [OF x(3)] that n(2) by (force simp: word_less_nat_alt)
    then show ?thesis
      using n(1) IH x(1) by (subst find_segment.simps) auto
  qed
qed simp

section \<open>Taking a segment\<close>

definition place :: "u64 \<Rightarrow> seg \<Rightarrow> seg list" where
  "place sz x =
    (if unat sz + 21 < seg_size x
     then [Seg (seg_addr x) (unat sz) False, Seg (seg_addr x + sizeof_hdr + sz) (seg_size x - unat sz - 21) True]
     else [Seg (seg_addr x) (seg_size x) False])"

lemma hdr_size_u64:
  assumes "seg_ok m e x"
  shows "unat (ucast (hdr_size m (seg_addr x)) :: u64) = seg_size x" "seg_size x < 2 ^ 32"
proof -
  have "unat (hdr_size m (seg_addr x)) < 2 ^ 32" using unsigned_less [of "hdr_size m (seg_addr x)"] by simp
  then show "unat (ucast (hdr_size m (seg_addr x)) :: u64) = seg_size x" "seg_size x < 2 ^ 32"
    using assms by (simp_all add: seg_ok_def unsigned_ucast_eq take_bit_nat_eq_self)
qed

lemma unat_u32: "unat (w :: u64) < 2 ^ 32 \<Longrightarrow> unat (ucast w :: u32) = unat w"
  by (simp add: unsigned_ucast_eq take_bit_nat_eq_self)

lemma seg_ok_bounds: "seg_ok m e x \<Longrightarrow> e < 2 ^ 64 \<Longrightarrow> unat (seg_addr x) + 21 + seg_size x < 2 ^ 64"
  by (simp add: seg_ok_def seg_end_def)

lemma seg_ok_set_free:
  "seg_ok m e (Seg a n f) \<Longrightarrow> seg_ok (set_free a b m) e (Seg a n b)"
  by (simp add: seg_ok_def seg_end_def)

text \<open>Enough room for the new header: the segment becomes two.\<close>

lemma split_room:
  assumes "seg_ok m e (Seg a n f)" "e < 2 ^ 64" "unat sz + 21 < n"
  defines "b \<equiv> a + sizeof_hdr + sz"
  shows "seg_ok (heap_split_segment a sz m) e (Seg a (unat sz) f)"
    "seg_ok (heap_split_segment a sz m) e (Seg b (n - unat sz - 21) True)"
    "unat b = unat a + 21 + unat sz"
    "within (unat a) (unat a + 21 + n) m (heap_split_segment a sz m)"
proof -
  have bd: "unat a + 21 + n < 2 ^ 64" using seg_ok_bounds [OF assms(1,2)] by simp
  have n: "unat (ucast (hdr_size m a) :: u64) = n" "n < 2 ^ 32" using hdr_size_u64 [OF assms(1)] by simp_all
  have "unat (of_nat 21 + sz) = 21 + unat sz"
    using unat_plus [of sz 21] bd assms(3) by (simp add: add.commute)
  then have bo: "b = a + of_nat (21 + unat sz)" by (simp add: b_def sizeof_hdr_def)
  show ub: "unat b = unat a + 21 + unat sz"
    unfolding bo using bd assms(3) by (subst unat_plus) simp_all
  have ap: "apart a b" "apart b a" using ub bd assms(3) by (simp_all add: apart_def)
  have ssz: "unat (sz + sizeof_hdr) = unat sz + 21"
    using unat_plus [of sz 21] bd assms(3) by (simp add: sizeof_hdr_def)
  then have room: "\<not> ucast (hdr_size m a) \<le> sz + sizeof_hdr"
    using n(1) assms(3) by (simp add: word_le_nat_alt)
  have d: "unat (ucast (hdr_size m a) - (sz + sizeof_hdr)) = n - unat sz - 21"
    using n(1) ssz assms(3) by (simp add: unat_diff_ge)
  have sz32: "unat (ucast (ucast (hdr_size m a) - (sz + sizeof_hdr)) :: u32) = n - unat sz - 21"
    "unat (ucast sz :: u32) = unat sz"
    using d n(2) assms(3) by (simp_all add: unat_u32)
  define nx where "nx = hdr_next m a"
  have eq: "heap_split_segment a sz m =
    set_size a (ucast sz) (set_size b (ucast (ucast (hdr_size m a) - (sz + sizeof_hdr)))
      (set_next a b (set_next b nx (set_free b True (set_prev b a m)))))"
    using room by (simp add: heap_split_segment_def b_def [symmetric] Let_def nx_def hdr_other [OF ap(1)])
  note h = hdr_other [OF ap(1)] hdr_other [OF ap(2)]
  have ok: "hdr_free m a = f" "unat nx = (if unat a + 21 + n = e then 0 else unat a + 21 + n)" "unat a + 21 + n \<le> e"
    using assms(1) by (simp_all add: seg_ok_def seg_end_def nx_def)
  show "seg_ok (heap_split_segment a sz m) e (Seg a (unat sz) f)"
    using ok assms(3) ub by (simp add: eq seg_ok_def seg_end_def h sz32)
  show "seg_ok (heap_split_segment a sz m) e (Seg b (n - unat sz - 21) True)"
    using ok assms(3) ub by (simp add: eq seg_ok_def seg_end_def h sz32)
  have wa: "within (unat a) (unat a + 21) x (set_next a v x)" "within (unat a) (unat a + 21) x (set_size a w x)" for x v w
    using bd by (simp_all add: within_set)
  have b21: "unat b + 21 \<le> 2 ^ 64" using bd ub assms(3) by simp
  have wb: "within (unat b) (unat b + 21) x (set_next b v x)" "within (unat b) (unat b + 21) x (set_size b w x)"
    "within (unat b) (unat b + 21) x (set_free b c x)" "within (unat b) (unat b + 21) x (set_prev b v x)" for x v w c
    using b21 by (rule within_set)+
  let ?w = "within (unat a) (unat a + 21 + n)"
  have W: "?w x (set_next a v x)" "?w x (set_size a w x)" "?w x (set_next b v x)" "?w x (set_size b w x)"
    "?w x (set_free b c x)" "?w x (set_prev b v x)" for x v w c
    using ub assms(3) by (auto intro: within_mono [OF wa(1)] within_mono [OF wa(2)]
        within_mono [OF wb(1)] within_mono [OF wb(2)] within_mono [OF wb(3)] within_mono [OF wb(4)])
  show "?w m (heap_split_segment a sz m)"
    unfolding eq by (meson W within_trans)
qed

lemma take_segment:
  assumes "seg_ok m e x" "e < 2 ^ 64" "unat sz \<le> seg_size x"
  defines "m' \<equiv> set_free (seg_addr x) False
    (if ucast (hdr_size m (seg_addr x)) = sz then m else heap_split_segment (seg_addr x) sz m)"
  shows "chain m' e (unat (seg_addr x)) (place sz x) (seg_end x)"
    "within (unat (seg_addr x)) (seg_end x) m m'"
proof -
  obtain a n f where x: "x = Seg a n f" by (cases x)
  have bd: "unat a + 21 + n < 2 ^ 64" using seg_ok_bounds [OF assms(1,2)] x by simp
  have n: "unat (ucast (hdr_size m a) :: u64) = n" using hdr_size_u64 [OF assms(1)] x by simp
  have sf: "within (unat a) (unat a + 21 + n) m0 (set_free a False m0)" for m0
    using bd by (intro within_mono [OF within_set(4)]) simp_all
  have "chain m' e (unat a) (place sz x) (unat a + 21 + n) \<and> within (unat a) (unat a + 21 + n) m m'"
  proof (cases "unat sz + 21 < n")
    case True
    note S = split_room [OF assms(1) [unfolded x] assms(2) True]
    let ?b = "a + sizeof_hdr + sz"
    have ne: "ucast (hdr_size m a) \<noteq> sz" using n True by auto
    then have m': "m' = set_free a False (heap_split_segment a sz m)" by (simp add: m'_def x)
    have "seg_ok m' e (Seg a (unat sz) False)" unfolding m' using S(1) by (rule seg_ok_set_free)
    moreover have "seg_ok m' e (Seg ?b (n - unat sz - 21) True)"
      unfolding m' using S(3) bd
      by (intro seg_ok_within [OF S(2) within_set(4) _ assms(2)]) simp_all
    moreover have "within (unat a) (unat a + 21 + n) m m'"
      unfolding m' using S(4) sf by (rule within_trans)
    ultimately show ?thesis
      using True S(3) by (simp add: place_def x seg_end_def)
  next
    case False
    have "ucast (hdr_size m a) \<le> sz + sizeof_hdr" if "ucast (hdr_size m a) \<noteq> sz"
    proof -
      have "unat (sz + sizeof_hdr) = unat sz + 21"
        using unat_plus [of sz 21] assms(3) bd by (simp add: sizeof_hdr_def x)
      then show ?thesis using n False by (simp add: word_le_nat_alt)
    qed
    then have "m' = set_free a False m"
      by (auto simp: m'_def x heap_split_segment_def)
    then show ?thesis
      using False seg_ok_set_free [OF assms(1) [unfolded x], of False] sf [of m]
      by (simp add: place_def x seg_end_def)
  qed
  then show "chain m' e (unat (seg_addr x)) (place sz x) (seg_end x)"
    "within (unat (seg_addr x)) (seg_end x) m m'"
    by (simp_all add: x seg_end_def)
qed

text \<open>Replacing one segment of a list by others that fill the same addresses.\<close>

lemma heap_list_replace:
  assumes "heap_list m base e (ys @ x # zs)" "chain m' e (unat (seg_addr x)) xs' (seg_end x)"
    "within (unat (seg_addr x)) (seg_end x) m m'" "xs' \<noteq> []"
  shows "heap_list m' base e (ys @ xs' @ zs)"
proof -
  from assms(1) have s: "e < 2 ^ 64" "0 < unat base" "chain m e (unat base) ys (unat (seg_addr x))"
    "chain m e (seg_end x) zs e" by (simp_all add: heap_list_split)
  have "chain m' e (unat base) ys (unat (seg_addr x))" "chain m' e (seg_end x) zs e"
    using chain_within [OF s(3) assms(3) _ s(1)] chain_within [OF s(4) assms(3) _ s(1)] by simp_all
  with assms(2,4) s show ?thesis by (auto simp: heap_list_def chain_append)
qed

lemma malloc_take_eq:
  assumes "seg_ok (mem s) e x" "unat sz \<le> seg_size x"
  shows "malloc_take (seg_addr x) sz s = (seg_addr x + sizeof_hdr, s\<lparr>mem := set_free (seg_addr x) False
    (if ucast (hdr_size (mem s) (seg_addr x)) = sz then mem s
     else heap_split_segment (seg_addr x) sz (mem s))\<rparr>)"
proof -
  have "ucast (hdr_size (mem s) (seg_addr x)) \<noteq> sz \<Longrightarrow> ucast (hdr_size (mem s) (seg_addr x)) > sz"
    using hdr_size_u64(1) [OF assms(1)] assms(2) by (auto simp: word_less_nat_alt word_unat_eq_iff)
  then show ?thesis by (simp add: malloc_take_def)
qed

lemma malloc_take:
  assumes "heap_list (mem s) base e (ys @ x # zs)" "unat sz \<le> seg_size x"
  shows "\<exists>m'. malloc_take (seg_addr x) sz s = (seg_addr x + sizeof_hdr, s\<lparr>mem := m'\<rparr>) \<and>
    heap_list m' base e (ys @ place sz x @ zs) \<and> within (unat (seg_addr x)) (seg_end x) (mem s) m'"
proof -
  from assms(1) have x: "seg_ok (mem s) e x" "e < 2 ^ 64" by (simp_all add: heap_list_split)
  note T = take_segment [OF x assms(2)]
  have ne: "place sz x \<noteq> []" by (simp add: place_def)
  from heap_list_replace [OF assms(1) T ne] T(2) show ?thesis
    unfolding malloc_take_eq [OF x(1) assms(2)] by blast
qed

end
