(* ===== verification/Heap_Extend.thy ===== *)
theory Heap_Extend
  imports Heap_List
begin

text \<open>
  Growing the heap: every round of \<open>heap_extend\<close> takes a page from the allocator, maps it behind
  the end of the heap and adds its size to the last segment. The page tables and the heap do not
  disturb each other as long as the heap's addresses are outside the bytes the page tables own.
\<close>

section \<open>Stores that agree\<close>

lemma set_size_same: "set_size h (hdr_size m h) m = m"
  using load_le_less [of 4 m "h + 16"]
  by (simp add: set_size_def hdr_size_def store32_def load32_def unat_of_nat take_bit_nat_eq_self store_load_le)

lemma set_size_agree: "m x = m' x \<Longrightarrow> set_size h w m x = set_size h w m' x"
  by (simp add: set_size_def store32_def store_le_agree)

lemma set_size_twice: "set_size h w (set_size h v m) x = set_size h w m x"
  unfolding set_size_def store32_def
  by (rule store_le_agree) (metis store_le_outside)

section \<open>Lists that agree\<close>

lemma seg_ok_agree:
  assumes "seg_ok m e x" "e < 2 ^ 64" "\<And>a. unat (seg_addr x) \<le> unat a \<Longrightarrow> unat a < seg_end x \<Longrightarrow> m' a = m a"
  shows "seg_ok m' e x"
proof -
  have bd: "unat (seg_addr x) + 21 + seg_size x < 2 ^ 64" using assms(1,2) by (rule seg_ok_bounds)
  have at: "m' (seg_addr x + of_nat k) = m (seg_addr x + of_nat k)" if "k < 21" for k
    using that bd unat_plus [of "seg_addr x" k] by (intro assms(3)) (simp_all add: seg_end_def)
  have "hdr_next m' (seg_addr x) = hdr_next m (seg_addr x)" "hdr_size m' (seg_addr x) = hdr_size m (seg_addr x)"
    "hdr_free m' (seg_addr x) = hdr_free m (seg_addr x)"
    using at by (rule hdr_cong; blast)+
  with assms(1) show ?thesis by (simp add: seg_ok_def)
qed

lemma chain_agree:
  assumes "chain m e a xs b" "e < 2 ^ 64" "\<And>x. a \<le> unat x \<Longrightarrow> unat x < b \<Longrightarrow> m' x = m x"
  shows "chain m' e a xs b"
  using assms(1,3)
proof (induction xs arbitrary: a)
  case (Cons x xs)
  then have x: "unat (seg_addr x) = a" "seg_ok m e x" "chain m e (seg_end x) xs b" by simp_all
  have le: "seg_end x \<le> b" "a \<le> seg_end x" using chain_le [OF x(3)] x(1) by (simp_all add: seg_end_def)
  have "seg_ok m' e x" using x le Cons.prems(2) by (intro seg_ok_agree [OF x(2) assms(2)]) auto
  moreover have "chain m' e (seg_end x) xs b" using x(3) Cons.prems(2) le by (intro Cons.IH) auto
  ultimately show ?case using x(1) by simp
qed simp

lemma seg_ok_grow: "seg_ok m e x \<Longrightarrow> seg_end x < e \<Longrightarrow> e \<le> e' \<Longrightarrow> seg_ok m e' x"
  by (simp add: seg_ok_def)

lemma chain_grow: "chain m e a xs b \<Longrightarrow> b < e \<Longrightarrow> e \<le> e' \<Longrightarrow> chain m e' a xs b"
proof (induction xs arbitrary: a)
  case (Cons x xs)
  then have x: "unat (seg_addr x) = a" "seg_ok m e x" "chain m e (seg_end x) xs b" by simp_all
  have "seg_end x < e" using chain_le [OF x(3)] Cons.prems(2) by simp
  with x Cons show ?case by (simp add: seg_ok_grow [of m e x e'])
qed simp

text \<open>The last segment grows by \<open>k\<close> bytes.\<close>

lemma heap_list_grow:
  assumes "heap_list m base e (ys @ [x])" "e + k < 2 ^ 64" "seg_size x + k < 2 ^ 32"
    and "\<And>a. unat base \<le> unat a \<Longrightarrow> unat a < e + k \<Longrightarrow>
      m' a = set_size (seg_addr x) (hdr_size m (seg_addr x) + of_nat k) m a"
  shows "heap_list m' base (e + k) (ys @ [Seg (seg_addr x) (seg_size x + k) (seg_free x)])"
proof -
  let ?a = "seg_addr x" and ?m = "set_size (seg_addr x) (hdr_size m (seg_addr x) + of_nat k) m"
  from assms(1) have s: "0 < unat base" "chain m e (unat base) ys (unat ?a)" "seg_ok m e x" "seg_end x = e"
    "e < 2 ^ 64" by (simp_all add: heap_list_split)
  have le: "unat base \<le> unat ?a" using chain_le [OF s(2)] by simp
  have lt: "unat ?a < e" using s(3,4) by (simp add: seg_end_def)
  have "chain ?m e (unat base) ys (unat ?a)"
    using s(4,5) by (intro chain_within [OF s(2) within_set(3) _ s(5)]) (simp_all add: seg_end_def)
  then have "chain ?m (e + k) (unat base) ys (unat ?a)" using lt by (rule chain_grow) simp
  then have ys: "chain m' (e + k) (unat base) ys (unat ?a)"
    by (rule chain_agree [OF _ assms(2)]) (use assms(4) lt in simp)
  have "unat (hdr_size m ?a + of_nat k) = seg_size x + k"
  proof -
    have "unat (of_nat k :: u32) = k" using assms(3) by (simp add: unat_of_nat take_bit_nat_eq_self)
    then show ?thesis
      using s(3) assms(3) unat_add_lem [THEN iffD1, of "hdr_size m ?a" "of_nat k"] by (simp add: seg_ok_def)
  qed
  then have "seg_ok ?m (e + k) (Seg ?a (seg_size x + k) (seg_free x))"
    using s(3,4) last_hdr [OF s(3,4)] by (simp add: seg_ok_def seg_end_def)
  then have "seg_ok m' (e + k) (Seg ?a (seg_size x + k) (seg_free x))"
    by (rule seg_ok_agree [OF _ assms(2)]) (use assms(4) le s(4) in \<open>auto simp: seg_end_def\<close>)
  with ys s(1,4) assms(2) show ?thesis
    by (simp add: heap_list_split seg_end_def)
qed

section \<open>One page\<close>

definition heap_end :: "'a heap_scheme \<Rightarrow> nat" where
  "heap_end s = unat (heap_base_address s) + 4096 * unat (heap_size s)"

text \<open>Room for \<open>n\<close> more pages: free pages for them and for new page tables, and addresses.\<close>

definition heap_room :: "'a heap_scheme \<Rightarrow> u64 \<Rightarrow> nat \<Rightarrow> bool" where
  "heap_room s root n \<longleftrightarrow> vmm_inv s root \<and> pml4 s = root + vmm_page_tables_offset s \<and>
    4 * n \<le> card (free_pages s) \<and> heap_end s + 4096 * n < 2 ^ 64 \<and>
    (\<forall>x. unat (heap_base_address s) \<le> unat x \<and> unat x < heap_end s + 4096 * n \<longrightarrow>
      x \<notin> vmm_bytes s root \<and> no_huge_page s root x)"

definition heap_add_page :: "'a heap_scheme \<Rightarrow> 'a heap_scheme" where
  "heap_add_page s =
    (let (new_page, s) = pmm_allocz s;
         s = vmm_map_page new_page (heap_base_address s + heap_size s * 0x1000) s
     in s\<lparr>heap_size := heap_size s + 1\<rparr>)"

definition heap_extend_step :: "u64 \<Rightarrow> 'a heap_scheme \<Rightarrow> 'a heap_scheme" where
  "heap_extend_step last_hdr s =
    (let s = heap_add_page s
     in s\<lparr>mem := set_size last_hdr (hdr_size (mem s) last_hdr + 0x1000) (mem s)\<rparr>)"

lemma heap_extend_eq: "heap_extend h n s = for_u64 0 n (\<lambda>i. heap_extend_step h) s"
  unfolding heap_extend_def heap_extend_step_def [abs_def] heap_add_page_def [abs_def]
  by (simp add: Let_def split_beta)

lemma only_pmm_heap:
  assumes "only_pmm s s'"
  shows "heap_base_address s' = heap_base_address s" "heap_size s' = heap_size s"
  using assms by (elim only_pmmE; simp)+

lemma only_vmm_heap:
  assumes "only_vmm s s'"
  shows "heap_base_address s' = heap_base_address s" "heap_size s' = heap_size s"
  using assms by (elim only_vmmE; simp)+

text \<open>What the allocator hands out means the same to the page tables before and after.\<close>

lemma convert_to_phys_allocz:
  assumes "vmm_inv s root" "pml4 s = root + vmm_page_tables_offset s" "free_pages s \<noteq> {}"
  shows "convert_to_phys (snd (pmm_allocz s)) a = convert_to_phys s a"
proof -
  note A = vmm_inv_allocz [OF assms(1,3)] and a1 = only_pmm_vmm [OF vmm_inv_allocz(2) [OF assms(1,3)]]
  show ?thesis
  proof (cases "vmm_initialised s")
    case True
    then show ?thesis
      using assms(2) by (intro convert_to_phys_cong(2) [OF assms(1) A(1) assms(2)]) (simp_all add: a1 A(6,7))
  next
    case False
    then show ?thesis by (simp add: convert_to_phys_def vmm_virt_to_phys_def a1)
  qed
qed

lemma heap_add_page:
  fixes s :: "'a heap_scheme"
  assumes "heap_room s root (Suc n)"
  defines "s' \<equiv> heap_add_page s"
  shows "heap_room s' root n" "heap_base_address s' = heap_base_address s" "heap_end s' = heap_end s + 4096"
    "unat (heap_base_address s) \<le> unat x \<Longrightarrow> unat x < heap_end s + 4096 * Suc n \<Longrightarrow> mem s' x = mem s x"
    "\<exists>a \<in> free_pages s. a \<notin> free_pages s' \<and> (\<forall>p. length p = 4 \<longrightarrow> translate s' root p =
      (if p = path_of (heap_base_address s + heap_size s * 0x1000) then Some (addr (convert_to_phys s (a + higher_half_offset s)))
       else translate s root p))"
proof -
  define s1 where "s1 = snd (pmm_allocz s)"
  define v where "v = heap_base_address s + heap_size s * 0x1000"
  define s2 where "s2 = vmm_map_page (fst (pmm_allocz s)) v s1"
  have R: "vmm_inv s root" "pml4 s = root + vmm_page_tables_offset s"
    "4 * Suc n \<le> card (free_pages s)" "heap_end s + 4096 * Suc n < 2 ^ 64"
    "\<And>x. unat (heap_base_address s) \<le> unat x \<Longrightarrow> unat x < heap_end s + 4096 * Suc n \<Longrightarrow>
      x \<notin> vmm_bytes s root \<and> no_huge_page s root x"
    using assms(1) unfolding heap_room_def by blast+
  have fr: "free_pages s \<noteq> {}" using R(3) by auto
  note A = vmm_inv_allocz [OF R(1) fr, folded s1_def]
  note a1 = only_pmm_vmm [OF A(2)] and a2 = only_pmm_heap [OF A(2)]
  have "unat (heap_size s * 0x1000) = 4096 * unat (heap_size s)"
    using R(4) unat_mult_lem [THEN iffD1, of "heap_size s" "0x1000"] by (simp add: heap_end_def)
  then have uv: "unat v = heap_end s"
    unfolding v_def heap_end_def using R(4) unat_add_lem [THEN iffD1, of "heap_base_address s" "heap_size s * 0x1000"]
    by (simp add: heap_end_def)
  have nh: "no_huge_page s1 root v" using R(5) [of v] uv by (intro A(8)) (simp add: heap_end_def)
  have c: "3 \<le> card (free_pages s1)" using A(3) R(3) by simp
  note M = map_page_maps [OF A(1) c nh, of "fst (pmm_allocz s)" "ucast PT_ENTRY_READ_WRITE", unfolded a1(1),
      folded R(2), folded a1(2), folded vmm_map_page_def, folded s2_def]
  note b1 = only_vmm_fields [OF M(3)] and b2 = only_vmm_heap [OF M(3)]
  have M1: "vmm_inv s2 root" "x \<notin> vmm_bytes s1 root \<Longrightarrow> mem s2 x = mem s1 x"
    "card (free_pages s1) \<le> card (free_pages s2) + 3" "vmm_bytes s2 root \<subseteq> vmm_bytes s1 root" for x :: u64
    using M(1) unfolding maps_to_def by blast+
  have eq: "s' = s2\<lparr>heap_size := heap_size s2 + 1\<rparr>"
    by (simp add: s'_def heap_add_page_def split_beta Let_def s1_def [symmetric] a2 v_def [symmetric]
        s2_def [symmetric])
  have st: "same_tables s2 s'" by (simp add: same_tables_def eq)
  note S3 = same_tables [OF st]
  note P = allocz_page [OF vmm_invD(1) [OF R(1)] fr refl, folded s1_def]
  have "free_pages s' \<subseteq> free_pages s1" using M(1) unfolding S3(5) maps_to_def by blast
  moreover have "translate s' root p = (if p = path_of v then Some (addr (convert_to_phys s (fst (pmm_allocz s)))) else translate s root p)"
    if "length p = 4" for p
    using M(1) that A(7) [OF that] unfolding S3(2) maps_to_def convert_to_phys_allocz [OF R(1,2) fr, folded s1_def] by simp
  ultimately show "\<exists>a \<in> free_pages s. a \<notin> free_pages s' \<and> (\<forall>p. length p = 4 \<longrightarrow> translate s' root p =
      (if p = path_of (heap_base_address s + heap_size s * 0x1000) then Some (addr (convert_to_phys s (a + higher_half_offset s)))
       else translate s root p))"
    using P(1,2,4) vmm_invD(3) [OF R(1)] by (intro bexI [of _ "fst (pmm_alloc_phys s)"]) (auto simp: v_def)
  show "mem s' x = mem s x" if "unat (heap_base_address s) \<le> unat x" "unat x < heap_end s + 4096 * Suc n"
    using R(5) [OF that] A(4,5) M1(2) [of x] by (auto simp: eq)
  show base: "heap_base_address s' = heap_base_address s" by (simp add: eq b2 a2)
  have "unat (heap_size s + 1) = unat (heap_size s) + 1"
    using R(4) unat_add_lem [THEN iffD1, of "heap_size s" 1] by (simp add: heap_end_def)
  then show he: "heap_end s' = heap_end s + 4096"
    unfolding heap_end_def base by (simp add: eq b2 a2)
  show "heap_room s' root n"
    unfolding heap_room_def base he
  proof (intro conjI allI impI)
    show "vmm_inv s' root" using M1(1) by (simp add: S3)
    show "pml4 s' = root + vmm_page_tables_offset s'" using R(2) by (simp add: eq b1 a1)
    show "4 * n \<le> card (free_pages s')" using R(3) A(3) M1(3) S3(5) by simp
    show "heap_end s + 4096 + 4096 * n < 2 ^ 64" using R(4) by simp
    fix x :: u64 assume x: "unat (heap_base_address s) \<le> unat x \<and> unat x < heap_end s + 4096 + 4096 * n"
    then have r: "x \<notin> vmm_bytes s root \<and> no_huge_page s root x" using R(5) by simp
    then show "x \<notin> vmm_bytes s' root" using S3(8) M1(4) A(4) by auto
    have "no_huge_page s2 root x" using r by (intro maps_to_no_huge [OF M(1)] A(8)) simp
    then show "no_huge_page s' root x" unfolding no_huge_page_def S3 .
  qed
qed

text \<open>The heap may write its own bytes.\<close>

lemma heap_room_mem:
  fixes s :: "'a heap_scheme"
  assumes "heap_room s root n"
    and "\<And>x. \<not> (unat (heap_base_address s) \<le> unat x \<and> unat x < heap_end s) \<Longrightarrow> m x = mem s x"
  shows "heap_room (s\<lparr>mem := m\<rparr>) root n" "free_pages (s\<lparr>mem := m\<rparr>) = free_pages s"
    "length q = 4 \<Longrightarrow> translate (s\<lparr>mem := m\<rparr>) root q = translate s root q"
proof -
  have R: "vmm_inv s root" "pml4 s = root + vmm_page_tables_offset s"
    "4 * n \<le> card (free_pages s)" "heap_end s + 4096 * n < 2 ^ 64"
    "\<And>x. unat (heap_base_address s) \<le> unat x \<Longrightarrow> unat x < heap_end s + 4096 * n \<Longrightarrow>
      x \<notin> vmm_bytes s root \<and> no_huge_page s root x"
    using assms(1) unfolding heap_room_def by blast+
  have keep: "m x = mem s x" if "x \<in> vmm_bytes s root" for x
    using that R(5) [of x] by (intro assms(2)) auto
  note V = vmm_inv_mem [OF R(1) keep]
  have he: "heap_end (s\<lparr>mem := m\<rparr>) = heap_end s" by (simp add: heap_end_def)
  show "free_pages (s\<lparr>mem := m\<rparr>) = free_pages s" by (rule V(2))
  show "translate (s\<lparr>mem := m\<rparr>) root q = translate s root q" if "length q = 4" using V(5) that by blast
  show "heap_room (s\<lparr>mem := m\<rparr>) root n"
    unfolding heap_room_def he
  proof (intro conjI allI impI)
    fix x :: u64
    assume "unat (heap_base_address (s\<lparr>mem := m\<rparr>)) \<le> unat x \<and> unat x < heap_end s + 4096 * n"
    then have "x \<notin> vmm_bytes s root \<and> no_huge_page s root x" using R(5) by simp
    then show "x \<notin> vmm_bytes (s\<lparr>mem := m\<rparr>) root" "no_huge_page (s\<lparr>mem := m\<rparr>) root x"
      using V(3) V(6) [of x] by blast+
  qed (use R V(1,2) in simp_all)
qed

lemma heap_extend_step:
  fixes s :: "'a heap_scheme"
  assumes "heap_room s root (Suc n)" "unat (heap_base_address s) \<le> unat h" "unat h + 21 \<le> heap_end s"
  defines "s' \<equiv> heap_extend_step h s"
  shows "heap_room s' root n" "heap_base_address s' = heap_base_address s" "heap_end s' = heap_end s + 4096"
    "unat (heap_base_address s) \<le> unat x \<Longrightarrow> unat x < heap_end s + 4096 * Suc n \<Longrightarrow>
      mem s' x = set_size h (hdr_size (mem s) h + 0x1000) (mem s) x"
proof -
  define t where "t = heap_add_page s"
  note T = heap_add_page [OF assms(1), folded t_def]
  let ?h = "set_size h (hdr_size (mem t) h + 0x1000) (mem t)"
  have lim: "heap_end s + 4096 * Suc n < 2 ^ 64" using assms(1) unfolding heap_room_def by blast
  have eq: "s' = t\<lparr>mem := ?h\<rparr>"
    by (simp add: s'_def heap_extend_step_def Let_def t_def)
  have w: "within (unat h) (unat h + 21) (mem t) ?h"
    using assms(3) lim by (intro within_set) simp
  have "?h x = mem t x" if "\<not> (unat (heap_base_address t) \<le> unat x \<and> unat x < heap_end t)" for x
  proof -
    have "unat x < unat h \<or> unat h + 21 \<le> unat x" using that assms(2,3) T(2,3) by auto
    with w show ?thesis unfolding within_def by blast
  qed
  then show "heap_room s' root n" unfolding eq by (rule heap_room_mem(1) [OF T(1)])
  show "heap_base_address s' = heap_base_address s" "heap_end s' = heap_end s + 4096"
    using T(2,3) by (simp_all add: eq heap_end_def)
  have "mem t (h + of_nat k) = mem s (h + of_nat k)" if k: "k < 21" for k
  proof -
    have "unat (h + of_nat k) = unat h + k" using assms(3) lim k by (intro unat_plus) simp
    then show ?thesis using assms(2,3) k by (intro T(4)) simp_all
  qed
  then have hh: "hdr_size (mem t) h = hdr_size (mem s) h" by (rule hdr_cong) blast
  show "mem s' x = set_size h (hdr_size (mem s) h + 0x1000) (mem s) x"
    if "unat (heap_base_address s) \<le> unat x" "unat x < heap_end s + 4096 * Suc n"
    using set_size_agree [where m = "mem t" and m' = "mem s" and x = x, OF T(4) [OF that]]
    by (simp add: eq hh)
qed

section \<open>All pages\<close>

lemma heap_extend:
  fixes s :: "'a heap_scheme"
  assumes "heap_room s root (unat n)" "unat (heap_base_address s) \<le> unat h" "unat h + 21 \<le> heap_end s"
  defines "s' \<equiv> heap_extend h n s"
  shows "heap_room s' root 0" "heap_base_address s' = heap_base_address s"
    "heap_end s' = heap_end s + 4096 * unat n"
    "unat (heap_base_address s) \<le> unat x \<Longrightarrow> unat x < heap_end s + 4096 * unat n \<Longrightarrow>
      mem s' x = set_size h (hdr_size (mem s) h + of_nat (4096 * unat n)) (mem s) x"
proof -
  let ?b = "unat (heap_base_address s)" and ?e = "heap_end s + 4096 * unat n"
  define P where "P k t \<longleftrightarrow> heap_room t root (unat n - k) \<and> heap_base_address t = heap_base_address s \<and>
    heap_end t = heap_end s + 4096 * k \<and>
    (\<forall>x. ?b \<le> unat x \<and> unat x < ?e \<longrightarrow> mem t x = set_size h (hdr_size (mem s) h + of_nat (4096 * k)) (mem s) x)"
    for k and t :: "'a heap_scheme"
  have lim: "?e < 2 ^ 64" using assms(1) unfolding heap_room_def by blast
  have size_id: "set_size h (hdr_size (mem s) h) (mem s) = mem s"
    by (rule set_size_same)
  have "P (unat n) s'"
    unfolding s'_def heap_extend_eq
  proof (rule for_u64_invariant [where P = P])
    show "P (unat (0 :: u64)) s" using assms(1) by (simp add: P_def size_id)
    fix j :: u64 and t assume j: "j < n" and "P (unat j) t"
    then have t: "heap_room t root (Suc (unat n - Suc (unat j)))" "heap_base_address t = heap_base_address s"
      "heap_end t = heap_end s + 4096 * unat j"
      "\<And>x. ?b \<le> unat x \<Longrightarrow> unat x < ?e \<Longrightarrow>
        mem t x = set_size h (hdr_size (mem s) h + of_nat (4096 * unat j)) (mem s) x"
      by (simp_all add: P_def word_less_nat_alt Suc_diff_Suc)
    have "?b \<le> unat h" "unat h + 21 \<le> heap_end t" using assms(2,3) t(3) by simp_all
    note S = heap_extend_step [OF t(1), of h, unfolded t(2), OF this]
    have sz: "hdr_size (mem t) h = hdr_size (mem s) h + of_nat (4096 * unat j)"
    proof -
      have "hdr_size (mem t) h = hdr_size (set_size h (hdr_size (mem s) h + of_nat (4096 * unat j)) (mem s)) h"
      proof (rule hdr_cong)
        fix k :: nat assume k: "k < 21"
        then have "unat (h + of_nat k) = unat h + k" using assms(3) lim by (intro unat_plus) simp
        then show "mem t (h + of_nat k) =
          set_size h (hdr_size (mem s) h + of_nat (4096 * unat j)) (mem s) (h + of_nat k)"
          using assms(2,3) k by (intro t(4)) simp_all
      qed
      then show ?thesis by simp
    qed
    have "mem (heap_extend_step h t) x = set_size h (hdr_size (mem s) h + of_nat (4096 * Suc (unat j))) (mem s) x"
      if x: "?b \<le> unat x" "unat x < ?e" for x
    proof -
      have "unat x < heap_end t + 4096 * Suc (unat n - Suc (unat j))"
        using x(2) j t(3) by (simp add: word_less_nat_alt)
      with x(1) have "mem (heap_extend_step h t) x = set_size h (hdr_size (mem t) h + 0x1000) (mem t) x"
        by (rule S(4))
      also have "\<dots> = set_size h (hdr_size (mem t) h + 0x1000) (mem s) x"
        by (subst set_size_twice [symmetric], rule set_size_agree) (rule t(4) [OF x])
      finally show ?thesis by (simp add: sz ac_simps)
    qed
    with S(1-3) t(2,3) show "P (Suc (unat j)) (heap_extend_step h t)" by (simp add: P_def)
  qed (simp add: word_le_nat_alt)
  then show "heap_room s' root 0" "heap_base_address s' = heap_base_address s" "heap_end s' = ?e"
    "?b \<le> unat x \<Longrightarrow> unat x < ?e \<Longrightarrow>
      mem s' x = set_size h (hdr_size (mem s) h + of_nat (4096 * unat n)) (mem s) x"
    by (simp_all add: P_def)
qed

end
