(* ===== verification/Heap_Correct.thy ===== *)
theory Heap_Correct
  imports Heap_Extend
begin

text \<open>
  The properties of the kernel heap. \<open>first_fit\<close> is the abstract allocator: on a list of segments
  it takes the first free one that is large enough. \<open>malloc\<close> implements it, extends
  the last segment when there is none, and all searches end.
\<close>

section \<open>Specification\<close>

fun first_fit :: "u64 \<Rightarrow> seg list \<Rightarrow> (u64 \<times> seg list) option" where
  "first_fit sz [] = None"
| "first_fit sz (x # xs) =
    (if fits sz x then Some (seg_addr x + sizeof_hdr, place sz x @ xs)
     else map_option (\<lambda>(p, ys). (p, x # ys)) (first_fit sz xs))"

lemma first_fit_None: "first_fit sz xs = None \<longleftrightarrow> (\<forall>x \<in> set xs. \<not> fits sz x)"
  by (induction xs) auto

lemma first_fit_Some:
  assumes "first_fit sz xs = Some (p, xs')"
  obtains ys x zs where "xs = ys @ x # zs" "\<And>y. y \<in> set ys \<Longrightarrow> \<not> fits sz y" "fits sz x"
    "p = seg_addr x + sizeof_hdr" "xs' = ys @ place sz x @ zs"
proof -
  from assms have "\<exists>ys x zs. xs = ys @ x # zs \<and> (\<forall>y \<in> set ys. \<not> fits sz y) \<and> fits sz x \<and>
    p = seg_addr x + sizeof_hdr \<and> xs' = ys @ place sz x @ zs"
  proof (induction xs arbitrary: xs')
    case (Cons x xs)
    show ?case
    proof (cases "fits sz x")
      case True
      with Cons.prems show ?thesis by (intro exI [of _ "[]"]) auto
    next
      case False
      with Cons.prems obtain ys where ys: "first_fit sz xs = Some (p, ys)" "xs' = x # ys" by auto
      from Cons.IH [OF ys(1)] obtain as b cs where "xs = as @ b # cs" "\<forall>y \<in> set as. \<not> fits sz y" "fits sz b"
        "p = seg_addr b + sizeof_hdr" "ys = as @ place sz b @ cs" by blast
      with False ys(2) show ?thesis by (intro exI [of _ "x # as"] exI [of _ b] exI [of _ cs]) auto
    qed
  qed simp
  then show thesis using that by blast
qed

lemma malloc_hit:
  assumes "heap_list (mem s) (heap_base_address s) e (ys @ x # zs)" "\<And>y. y \<in> set ys \<Longrightarrow> \<not> fits sz y" "fits sz x"
  obtains m' where "malloc sz s = Some (seg_addr x + sizeof_hdr, s\<lparr>mem := m'\<rparr>)"
    "heap_list m' (heap_base_address s) e (ys @ place sz x @ zs)"
    "within (unat (seg_addr x)) (seg_end x) (mem s) m'"
proof -
  have "unat sz \<le> seg_size x" using assms(3) by (simp add: fits_def)
  from malloc_take [OF assms(1) this] malloc_search_hit [OF assms] show thesis
    by (auto simp: malloc_def intro: that)
qed

lemma malloc_fit:
  fixes s :: "'a heap_scheme"
  assumes "heap_list (mem s) (heap_base_address s) e xs" "first_fit sz xs = Some (p, xs')"
  obtains m' x where "malloc sz s = Some (p, s\<lparr>mem := m'\<rparr>)" "heap_list m' (heap_base_address s) e xs'"
    "x \<in> set xs" "seg_free x" "unat sz \<le> seg_size x" "p = seg_addr x + sizeof_hdr"
    "within (unat (seg_addr x)) (seg_end x) (mem s) m'"
proof -
  from first_fit_Some [OF assms(2)] obtain ys x zs where x: "xs = ys @ x # zs"
    "\<And>y. y \<in> set ys \<Longrightarrow> \<not> fits sz y" "fits sz x" "p = seg_addr x + sizeof_hdr" "xs' = ys @ place sz x @ zs" by blast
  from malloc_hit [OF assms(1) [unfolded x(1)] x(2,3)] obtain m' where
    "malloc sz s = Some (p, s\<lparr>mem := m'\<rparr>)" "heap_list m' (heap_base_address s) e xs'"
    "within (unat (seg_addr x)) (seg_end x) (mem s) m'" by (metis x(4,5))
  with x show thesis by (intro that [of m' x]) (simp_all add: fits_def)
qed

lemma heap_list_bounds:
  assumes "heap_list m base e (ys @ x # zs)"
  shows "unat base \<le> unat (seg_addr x)" "unat (seg_addr x) + 21 + seg_size x = seg_end x" "seg_end x \<le> e" "e < 2 ^ 64"
proof -
  from assms have x: "chain m e (unat base) ys (unat (seg_addr x))" "chain m e (seg_end x) zs e" "e < 2 ^ 64"
    by (simp_all add: heap_list_split)
  show "unat base \<le> unat (seg_addr x)" "seg_end x \<le> e" "e < 2 ^ 64"
    using chain_le [OF x(1)] chain_le [OF x(2)] x(3) by simp_all
qed (simp add: seg_end_def)

lemma malloc_miss:
  fixes s :: "'a heap_scheme"
  assumes hl: "heap_list (mem s) (heap_base_address s) (heap_end s) (ys @ [x])"
    and no: "\<And>y. y \<in> set (ys @ [x]) \<Longrightarrow> \<not> fits sz y"
    and room: "heap_room s root (unat (sz div 0x1000 + 1))" and k: "k = 4096 * unat (sz div 0x1000 + 1)"
    and lim: "seg_size x + k < 2 ^ 32"
  obtains s' where "malloc sz s = Some (seg_addr x + sizeof_hdr, s')" "heap_room s' root 0"
    "heap_base_address s' = heap_base_address s" "heap_end s' = heap_end s + k"
    "heap_list (mem s') (heap_base_address s) (heap_end s') (ys @ place sz (Seg (seg_addr x) (seg_size x + k) (seg_free x)))"
proof -
  let ?h = "seg_addr x" and ?x = "Seg (seg_addr x) (seg_size x + k) (seg_free x)"
  note B = heap_list_bounds [OF hl]
  have h: "unat (heap_base_address s) \<le> unat ?h" "unat ?h + 21 \<le> heap_end s" using B by simp_all
  define t where "t = heap_extend ?h (sz div 0x1000 + 1) s"
  note X = heap_extend [OF room h, folded t_def, folded k]
  have e: "heap_end s + k < 2 ^ 64" using room unfolding heap_room_def k by blast
  have L: "heap_list (mem t) (heap_base_address s) (heap_end s + k) (ys @ [?x])"
    using X(4) by (intro heap_list_grow [OF hl e lim])
  have "sz div 0x1000 * 0x1000 + sz mod 0x1000 = sz" by (rule div_mult_mod_eq)
  have "unat (sz div 0x1000 + 1) = unat sz div 4096 + 1"
  proof -
    have "unat (sz div 0x1000) = unat sz div 4096" by (simp add: unat_div)
    moreover have "unat sz div 4096 < 2 ^ 52" by (rule less_mult_imp_div_less) simp
    then have "unat sz div 4096 + 1 < 2 ^ 64" by simp
    ultimately show ?thesis using unat_add_lem [THEN iffD1, of "sz div 0x1000" 1] by simp
  qed
  then have "unat sz \<le> seg_size ?x" by (simp add: k)
  from malloc_take [of t _ _ ys ?x "[]", OF L [folded X(2)] this] obtain m' where m':
    "malloc_take ?h sz t = (?h + sizeof_hdr, t\<lparr>mem := m'\<rparr>)"
    "heap_list m' (heap_base_address s) (heap_end s + k) (ys @ place sz ?x)"
    "within (unat ?h) (seg_end ?x) (mem t) m'"
    using X(2) by auto
  have "malloc sz s = Some (?h + sizeof_hdr, t\<lparr>mem := m'\<rparr>)"
    using malloc_search_miss [OF hl no] m'(1) by (simp add: malloc_def Let_def t_def)
  moreover have "heap_room (t\<lparr>mem := m'\<rparr>) root 0"
  proof (rule heap_room_mem(1) [OF X(1)])
    fix a :: u64 assume "\<not> (unat (heap_base_address t) \<le> unat a \<and> unat a < heap_end t)"
    then have "unat a < unat ?h \<or> seg_end ?x \<le> unat a"
      using X(2,3) h(1) heap_list_bounds [of _ _ _ ys ?x "[]", OF L] by auto
    then show "m' a = mem t a" using m'(3) unfolding within_def by blast
  qed
  ultimately show thesis
    using X(2,3) m'(2) by (intro that [of "t\<lparr>mem := m'\<rparr>"]) (simp_all add: heap_end_def add.assoc)
qed

section \<open>Sequences of allocations\<close>

fun first_fits :: "u64 list \<Rightarrow> seg list \<Rightarrow> (u64 list \<times> seg list) option" where
  "first_fits [] xs = Some ([], xs)"
| "first_fits (sz # szs) xs =
    (case first_fit sz xs of None \<Rightarrow> None
     | Some (p, ys) \<Rightarrow> map_option (\<lambda>(ps, zs). (p # ps, zs)) (first_fits szs ys))"

fun mallocs :: "u64 list \<Rightarrow> 'a heap_scheme \<Rightarrow> (u64 list \<times> 'a heap_scheme) option" where
  "mallocs [] s = Some ([], s)"
| "mallocs (sz # szs) s =
    (case malloc sz s of None \<Rightarrow> None
     | Some (p, s) \<Rightarrow> map_option (\<lambda>(ps, s). (p # ps, s)) (mallocs szs s))"

definition blocks_apart :: "u64 \<times> u64 \<Rightarrow> u64 \<times> u64 \<Rightarrow> bool" where
  "blocks_apart b c \<longleftrightarrow> unat (fst b) + unat (snd b) \<le> unat (fst c) \<or> unat (fst c) + unat (snd c) \<le> unat (fst b)"

definition block_in :: "u64 \<times> u64 \<Rightarrow> seg \<Rightarrow> bool" where
  "block_in b x \<longleftrightarrow> unat (seg_addr x) + 21 \<le> unat (fst b) \<and> unat (fst b) + unat (snd b) \<le> seg_end x"

lemma heap_list_apart:
  assumes "heap_list m base e (ys @ x # zs)" "y \<in> set ys \<union> set zs"
  shows "seg_end y \<le> unat (seg_addr x) \<or> seg_end x \<le> unat (seg_addr y)"
proof -
  from assms(1) have "chain m e (unat base) ys (unat (seg_addr x))" "chain m e (seg_end x) zs e"
    by (simp_all add: heap_list_split)
  with assms(2) chain_member show ?thesis by fastforce
qed

lemma seg_block:
  assumes "heap_list m base e (ys @ x # zs)"
  shows "unat (seg_addr x + sizeof_hdr) = unat (seg_addr x) + 21"
  using unat_plus [of "seg_addr x" 21] heap_list_bounds [OF assms] by (simp add: sizeof_hdr_def)

lemma heap_block_not_null: "heap_list m base e (ys @ x # zs) \<Longrightarrow> seg_addr x + sizeof_hdr \<noteq> 0"
  using seg_block by fastforce

lemma first_fits_blocks:
  fixes s :: "'a heap_scheme"
  assumes "heap_list (mem s) (heap_base_address s) e xs" "first_fits szs xs = Some (ps, xs')"
  shows "\<exists>m'. mallocs szs s = Some (ps, s\<lparr>mem := m'\<rparr>) \<and> heap_list m' (heap_base_address s) e xs' \<and>
    length ps = length szs \<and> sorted_wrt blocks_apart (zip ps szs) \<and>
    (\<forall>b \<in> set (zip ps szs). \<exists>x \<in> set xs. seg_free x \<and> block_in b x)"
  using assms
proof (induction szs arbitrary: s xs ps)
  case Nil
  then show ?case by (auto intro: exI [of _ "mem s"])
next
  case (Cons sz szs)
  from Cons.prems(2) obtain p xs1 qs where f: "first_fit sz xs = Some (p, xs1)"
    "first_fits szs xs1 = Some (qs, xs')" "ps = p # qs" by (auto split: option.splits)
  from first_fit_Some [OF f(1)] obtain ys x zs where x: "xs = ys @ x # zs"
    "\<And>y. y \<in> set ys \<Longrightarrow> \<not> fits sz y" "fits sz x" "p = seg_addr x + sizeof_hdr" "xs1 = ys @ place sz x @ zs" by blast
  note hl = Cons.prems(1) [unfolded x(1)]
  from malloc_hit [OF hl x(2,3)] obtain m1 where m1: "malloc sz s = Some (p, s\<lparr>mem := m1\<rparr>)"
    "heap_list m1 (heap_base_address s) e xs1" by (metis x(4,5))
  from Cons.IH [of "s\<lparr>mem := m1\<rparr>" xs1 qs] m1(2) f(2) obtain m' where m':
    "mallocs szs (s\<lparr>mem := m1\<rparr>) = Some (qs, s\<lparr>mem := m'\<rparr>)" "heap_list m' (heap_base_address s) e xs'"
    "length qs = length szs" "sorted_wrt blocks_apart (zip qs szs)"
    "\<And>b. b \<in> set (zip qs szs) \<Longrightarrow> \<exists>x \<in> set xs1. seg_free x \<and> block_in b x" by auto
  have fx: "seg_free x" "unat sz \<le> seg_size x" using x(3) by (simp_all add: fits_def)
  have p: "unat p = unat (seg_addr x) + 21" unfolding x(4) by (rule seg_block [OF hl])
  note B = heap_list_bounds [OF hl]
  have bp: "block_in (p, sz) x" using p fx B(2) by (simp add: block_in_def)
  have rest: "blocks_apart (p, sz) b \<and> (\<exists>x \<in> set xs. seg_free x \<and> block_in b x)" if b: "b \<in> set (zip qs szs)" for b
  proof -
    from m'(5) [OF b] obtain y where y: "y \<in> set xs1" "seg_free y" "block_in b y" by blast
    from y(1) consider "y \<in> set ys \<union> set zs" | "y \<in> set (place sz x)" by (auto simp: x(5))
    then show ?thesis
    proof cases
      case 1
      then have "blocks_apart (p, sz) b"
        using heap_list_apart [OF hl 1] y(3) bp by (auto simp: blocks_apart_def block_in_def)
      with 1 y x(1) show ?thesis by auto
    next
      case 2
      with y(2) have y': "y = Seg (seg_addr x + sizeof_hdr + sz) (seg_size x - unat sz - 21) True"
        "unat sz + 21 < seg_size x" by (auto simp: place_def split: if_splits)
      have "unat (seg_addr y) = unat p + unat sz"
        using unat_add_lem [THEN iffD1, of p sz] p B(2-4) y' by (simp add: x(4))
      then have "blocks_apart (p, sz) b" "block_in b x"
        using y(3) y' p B(2) by (auto simp: blocks_apart_def block_in_def seg_end_def)
      with fx x(1) show ?thesis by auto
    qed
  qed
  have "mallocs (sz # szs) s = Some (ps, s\<lparr>mem := m'\<rparr>)" using m1(1) m'(1) f(3) by simp
  moreover have "sorted_wrt blocks_apart (zip ps (sz # szs))" using m'(4) rest f(3) by simp
  moreover have "\<forall>b \<in> set (zip ps (sz # szs)). \<exists>x \<in> set xs. seg_free x \<and> block_in b x"
    using rest bp fx x(1) f(3) by auto
  ultimately show ?case using m'(2,3) f(3) by auto
qed

section \<open>Releasing and merging\<close>

lemma heap_list_nth_free:
  assumes "heap_list m base e (ys @ x # zs)"
  shows "hdr_free m (seg_addr x) = seg_free x" "unat (hdr_size m (seg_addr x)) = seg_size x"
    "seg_end x < e \<Longrightarrow> unat (hdr_next m (seg_addr x)) = seg_end x"
  using assms by (simp_all add: heap_list_split seg_ok_def)

lemma heap_list_set_free:
  assumes "heap_list m base e (ys @ x # zs)"
  shows "heap_list (set_free (seg_addr x) b m) base e (ys @ Seg (seg_addr x) (seg_size x) b # zs)"
proof -
  from assms have x: "seg_ok m e x" "e < 2 ^ 64" by (simp_all add: heap_list_split)
  have ok: "seg_ok (set_free (seg_addr x) b m) e (Seg (seg_addr x) (seg_size x) b)"
    using x(1) by (cases x) (simp add: seg_ok_set_free)
  have "within (unat (seg_addr x)) (seg_end x) m (set_free (seg_addr x) b m)"
    using seg_ok_bounds [OF x] by (intro within_mono [OF within_set(4)]) (simp_all add: seg_end_def)
  from heap_list_replace [OF assms _ this, of "[Seg (seg_addr x) (seg_size x) b]"] ok show ?thesis
    by (simp add: seg_end_def)
qed

text \<open>Bytes of a block may be written.\<close>

lemma heap_list_payload:
  assumes hl: "heap_list m base e (ys @ x # zs)"
    and w: "within (unat (seg_addr x) + 21) (seg_end x) m m'"
  shows "heap_list m' base e (ys @ x # zs)"
proof -
  from hl have x: "seg_ok m e x" "e < 2 ^ 64" by (simp_all add: heap_list_split)
  have bd: "unat (seg_addr x) + 21 + seg_size x < 2 ^ 64" using x by (rule seg_ok_bounds)
  have "unat (seg_addr x) + 21 \<le> 2 ^ 64" using bd by simp
  note H = hdr_within [OF w disjI1 this, OF order_refl]
  have ok: "seg_ok m' e x" using x(1) by (simp add: seg_ok_def H)
  have "within (unat (seg_addr x)) (seg_end x) m m'" using w by (rule within_mono) simp_all
  from heap_list_replace [OF hl _ this, of "[x]"] ok show ?thesis by simp
qed

lemma chain_shrink: "chain m e a xs b \<Longrightarrow> b < e' \<Longrightarrow> e' \<le> e \<Longrightarrow> chain m e' a xs b"
proof (induction xs arbitrary: a)
  case (Cons x xs)
  then have x: "unat (seg_addr x) = a" "seg_ok m e x" "chain m e (seg_end x) xs b" by simp_all
  have "seg_end x < e'" using chain_le [OF x(3)] Cons.prems(2) by simp
  then have "seg_ok m e' x" using x(2) Cons.prems(3) by (simp add: seg_ok_def)
  with x Cons show ?case by simp
qed simp

text \<open>A valid pointer is the address of a segment's bytes.\<close>

lemma find_segment:
  assumes "heap_list m base e xs"
  shows "find_segment base h m = Some (h \<in> seg_addr ` set xs)"
  using assms find_segment_eq [of m e base xs h] by (simp add: heap_list_def)

text \<open>The links of a list.\<close>

lemma heap_list_next:
  assumes "heap_list m base e (ys @ x # zs)"
  shows "hdr_next m (seg_addr x) = (case zs of [] \<Rightarrow> 0 | z # _ \<Rightarrow> seg_addr z)" "seg_addr x \<noteq> 0"
proof -
  from assms have c: "0 < unat base" "chain m e (unat base) ys (unat (seg_addr x))" "seg_ok m e x" "chain m e (seg_end x) zs e"
    by (simp_all add: heap_list_split)
  show "seg_addr x \<noteq> 0" using chain_le [OF c(2)] c(1) by auto
  show "hdr_next m (seg_addr x) = (case zs of [] \<Rightarrow> 0 | z # _ \<Rightarrow> seg_addr z)"
  proof (cases zs)
    case Nil
    then show ?thesis using c(4) last_hdr [OF c(3)] by simp
  next
    case (Cons z zs')
    have "seg_end x < e" using chain_le [OF c(4)] by (simp add: Cons)
    then show ?thesis using next_hdr(2) [OF c(3)] c(4) by (simp add: Cons word_unat_eq_iff)
  qed
qed

lemma heap_list_apart_headers:
  assumes "heap_list m base e (ys @ x # zs)" "y \<in> set ys \<union> set zs"
  shows "apart (seg_addr y) (seg_addr x)"
proof -
  from assms(1) have c: "chain m e (unat base) ys (unat (seg_addr x))" "chain m e (seg_end x) zs e" "e < 2 ^ 64" "seg_end x \<le> e"
    by (simp_all add: heap_list_split seg_ok_def)
  show ?thesis
    using assms(2) chain_member [OF c(1), of y] chain_member [OF c(2), of y] c(3,4) unfolding apart_def seg_end_def by auto
qed

text \<open>\<open>free\<close> of a segment that is not merged with the one before it.\<close>

definition prev_used :: "memory \<Rightarrow> seg list \<Rightarrow> seg \<Rightarrow> bool" where
  "prev_used m ys x \<longleftrightarrow> hdr_prev m (seg_addr x) = 0 \<or> (\<exists>w \<in> set ys. seg_addr w = hdr_prev m (seg_addr x) \<and> \<not> seg_free w)"

lemma free_forward:
  fixes s :: "'a heap_scheme"
  assumes hl: "heap_list (mem s) (heap_base_address s) e (ys @ x # zs)" and prev: "prev_used (mem s) ys x"
  defines "m \<equiv> set_free (seg_addr x) True (mem s)"
  shows "free (seg_addr x + sizeof_hdr) s =
    (case zs of [] \<Rightarrow> None
     | z # _ \<Rightarrow> if seg_free z then map_option (\<lambda>m. s\<lparr>mem := m\<rparr>) (heap_merge_forward (seg_addr x) m) else Some (s\<lparr>mem := m\<rparr>))"
proof -
  let ?x = "Seg (seg_addr x) (seg_size x) True"
  have L: "heap_list m (heap_base_address s) e (ys @ ?x # zs)" unfolding m_def by (rule heap_list_set_free [OF hl])
  note N = heap_list_next [OF L, unfolded seg.sel]
  have "hdr_prev m (seg_addr x) = 0 \<or> \<not> hdr_free m (hdr_prev m (seg_addr x))"
  proof -
    have "\<not> hdr_free m (seg_addr w)" if w: "w \<in> set ys" "\<not> seg_free w" for w
    proof -
      from w(1) obtain as bs where "ys = as @ w # bs" by (meson split_list)
      with L w(2) show ?thesis using heap_list_nth_free(1) [of m _ _ as w] by simp
    qed
    with prev show ?thesis unfolding prev_used_def m_def by (metis hdr_set_free(1))
  qed
  moreover have "seg_addr z \<noteq> 0" "hdr_free m (seg_addr z) = seg_free z" if "zs = z # zs'" for z zs'
  proof -
    have "heap_list m (heap_base_address s) e ((ys @ [?x]) @ z # zs')" using L that by simp
    then show "seg_addr z \<noteq> 0" "hdr_free m (seg_addr z) = seg_free z"
      by (rule heap_list_next(2), rule heap_list_nth_free(1))
  qed
  ultimately show ?thesis
    using find_segment [OF hl, of "seg_addr x"] N
    by (cases zs) (auto simp: free_def Let_def m_def [symmetric])
qed

lemma free_no_merge:
  fixes s :: "'a heap_scheme"
  assumes "heap_list (mem s) (heap_base_address s) e (ys @ x # z # zs)" and "\<not> seg_free z" and "prev_used (mem s) ys x"
  shows "free (seg_addr x + sizeof_hdr) s = Some (s\<lparr>mem := set_free (seg_addr x) True (mem s)\<rparr>)"
  using free_forward [OF assms(1,3)] assms(2) by simp

lemma cleared_header: "seg_ok (memset w 0 sizeof_hdr m) (unat w + 21) (Seg w 0 False)"
proof -
  let ?m = "memset w 0 sizeof_hdr m"
  have at: "?m (w + of_nat k) = 0" if "k < 21" for k
    using that by (simp add: memset_eq sizeof_hdr_def in_range_def unat_of_nat take_bit_nat_eq_self)
  have l: "load_le n ?m (w + of_nat j) = 0" if "j + n \<le> 21" for n j
    using that
  proof (induction n arbitrary: j)
    case (Suc n)
    then show ?case using at [of j] Suc.IH [of "Suc j"] by (simp add: ac_simps)
  qed simp
  show ?thesis
    using l [where j = 8 and n = 8] l [where j = 16 and n = 4] at [of 20]
    by (simp add: seg_ok_def seg_end_def hdr_size_def hdr_next_def hdr_free_def load32_def load64_def)
qed

text \<open>A merge reaches through the null pointer when the segment behind is the last one.\<close>

lemma heap_merge_last:
  assumes hl: "heap_list m base e (ys @ [x, z])"
  shows "heap_merge_forward (seg_addr x) m = None"
proof -
  have z: "heap_list m base e ((ys @ [x]) @ [z])" using hl by simp
  have ap: "apart (seg_addr z) (seg_addr x)" using heap_list_apart_headers [of m base e ys x "[z]" z] hl by simp
  show ?thesis
    using heap_list_next [of m base e ys x "[z]"] heap_list_next [OF z] hl by (simp add: heap_merge_forward_def Let_def hdr_other [OF ap])
qed

lemma heap_merge_eq:
  assumes hl: "heap_list m base e (ys @ x # z # w # zs)"
  defines "v \<equiv> ucast (ucast (hdr_size m (seg_addr x)) + (sizeof_hdr + ucast (hdr_size m (seg_addr z))) :: u64)"
  shows "heap_merge_forward (seg_addr x) m =
    Some (memset (seg_addr w) 0 sizeof_hdr (set_next (seg_addr x) (seg_addr w) (set_size (seg_addr x) v m)))"
proof -
  have z: "heap_list m base e ((ys @ [x]) @ z # w # zs)" "heap_list m base e ((ys @ [x, z]) @ w # zs)" using hl by simp_all
  have ap: "apart (seg_addr z) (seg_addr x)" using heap_list_apart_headers [OF hl, of z] by simp
  show ?thesis
    using heap_list_next [OF hl] heap_list_next [OF z(1)] heap_list_next(2) [OF z(2)]
    by (simp add: heap_merge_forward_def Let_def hdr_other [OF ap] v_def)
qed

text \<open>Behind a merged segment lies a cleared header, which ends the list and is not free.\<close>

lemma heap_merge_behind:
  assumes hl: "heap_list m base e (ys @ x # z # w # zs)"
  shows "\<exists>m'. heap_merge_forward (seg_addr x) m = Some m' \<and> hdr_next m' (seg_addr x) = seg_addr w \<and> \<not> hdr_free m' (seg_addr w)"
proof -
  define m1 where "m1 = set_next (seg_addr x) (seg_addr w) (set_size (seg_addr x)
    (ucast (ucast (hdr_size m (seg_addr x)) + (sizeof_hdr + ucast (hdr_size m (seg_addr z))) :: u64)) m)"
  let ?m = "memset (seg_addr w) 0 sizeof_hdr m1"
  have ap: "apart (seg_addr w) (seg_addr x)" using heap_list_apart_headers [OF hl, of w] by simp
  have ms: "within (unat (seg_addr w)) (unat (seg_addr w) + 21) m1 ?m"
    using ap within_range [of "seg_addr w" 0 21 ?m m1 "unat (seg_addr w) + 21"] by (simp add: apart_def memset_eq sizeof_hdr_def)
  have "hdr_next ?m (seg_addr x) = hdr_next m1 (seg_addr x)"
    using ap by (intro hdr_within [OF ms]) (auto simp: apart_def)
  then show ?thesis
    using heap_merge_eq [OF hl] cleared_header [of "seg_addr w" m1] by (simp add: m1_def seg_ok_def)
qed

text \<open>\<open>free\<close> of a segment whose link leads back to a free one.\<close>

lemma free_backward:
  fixes s :: "'a heap_scheme"
  assumes hl: "heap_list (mem s) (heap_base_address s) e (ys @ w # vs @ x # zs)"
    and prev: "hdr_prev (mem s) (seg_addr x) = seg_addr w" "seg_free w"
  shows "free (seg_addr x + sizeof_hdr) s = None \<longleftrightarrow> vs = [] \<and> zs = []"
proof -
  let ?x = "Seg (seg_addr x) (seg_size x) True"
  define m where "m = set_free (seg_addr x) True (mem s)"
  have hx: "heap_list (mem s) (heap_base_address s) e ((ys @ w # vs) @ x # zs)" using hl by simp
  then have "heap_list m (heap_base_address s) e ((ys @ w # vs) @ ?x # zs)" unfolding m_def by (rule heap_list_set_free)
  then have L: "heap_list m (heap_base_address s) e (ys @ w # vs @ ?x # zs)" by simp
  have w: "hdr_prev m (seg_addr x) = seg_addr w" "seg_addr w \<noteq> 0" "hdr_free m (seg_addr w)"
    using prev heap_list_next(2) [OF hl] heap_list_nth_free(1) [OF L] by (simp_all add: m_def)
  have free: "free (seg_addr x + sizeof_hdr) s =
    (case heap_merge_forward (seg_addr w) m of None \<Rightarrow> None
     | Some m \<Rightarrow>
       (if hdr_next m (seg_addr w) = 0 then None
        else if hdr_free m (hdr_next m (seg_addr w)) then map_option (\<lambda>m. s\<lparr>mem := m\<rparr>) (heap_merge_forward (seg_addr w) m)
        else Some (s\<lparr>mem := m\<rparr>)))"
    using find_segment [OF hx, of "seg_addr x"] w by (simp add: free_def Let_def m_def [symmetric] split: option.split)
  show ?thesis
  proof (cases "vs = [] \<and> zs = []")
    case True
    then show ?thesis using L heap_merge_last [of m _ e ys w ?x] by (simp add: free)
  next
    case False
    then obtain z t r where zt: "vs @ ?x # zs = z # t # r" by (cases vs; cases zs; cases "tl vs") auto
    have "heap_list m (heap_base_address s) e ((ys @ [w, z]) @ t # r)" using L zt by simp
    then have "seg_addr t \<noteq> 0" by (rule heap_list_next(2))
    then show ?thesis using heap_merge_behind [OF L [unfolded zt]] False by (auto simp: free)
  qed
qed

lemma heap_merge_next:
  fixes m :: memory
  assumes hl: "heap_list m base e (ys @ x # z # w # zs)" and lim: "seg_size x + 21 + seg_size z < 2 ^ 32"
  shows "\<exists>m'. heap_merge_forward (seg_addr x) m = Some m' \<and> heap_list m' base (unat (seg_addr w) + 21)
    (ys @ [Seg (seg_addr x) (seg_size x + 21 + seg_size z) (seg_free x), Seg (seg_addr w) 0 False])"
proof -
  let ?x = "seg_addr x" and ?z = "seg_addr z" and ?w = "seg_addr w"
  from hl have c: "e < 2 ^ 64" "0 < unat base" "chain m e (unat base) ys (unat ?x)" "seg_ok m e x" "unat ?z = seg_end x"
    "seg_ok m e z" "unat ?w = seg_end z" "seg_ok m e w" by (simp_all add: heap_list_split)
  have bd: "unat ?x + 21 + seg_size x = unat ?z" "unat ?z + 21 + seg_size z = unat ?w" "unat ?w + 21 \<le> e"
    using c(5,7,8) by (simp_all add: seg_end_def seg_ok_def)
  define v where "v = (ucast (ucast (hdr_size m ?x) + (sizeof_hdr + ucast (hdr_size m ?z)) :: u64) :: u32)"
  define m1 where "m1 = set_next ?x ?w (set_size ?x v m)"
  have eq: "heap_merge_forward ?x m = Some (memset ?w 0 sizeof_hdr m1)"
    using heap_merge_eq [OF hl] by (simp add: v_def m1_def)
  have uv: "unat v = seg_size x + 21 + seg_size z"
  proof -
    have "unat (ucast (hdr_size m ?x) :: u64) = seg_size x" "unat (ucast (hdr_size m ?z) :: u64) = seg_size z"
      using hdr_size_u64 [OF c(4)] hdr_size_u64 [OF c(6)] by simp_all
    then have "unat (ucast (hdr_size m ?x) + (sizeof_hdr + ucast (hdr_size m ?z)) :: u64) = seg_size x + 21 + seg_size z"
      using lim unat_add_lem [THEN iffD1, of "sizeof_hdr" "ucast (hdr_size m ?z)"]
        unat_add_lem [THEN iffD1, of "ucast (hdr_size m ?x)" "sizeof_hdr + ucast (hdr_size m ?z)"]
      by (simp add: sizeof_hdr_def)
    then show ?thesis using lim by (simp add: v_def unat_u32)
  qed
  have m1: "within (unat ?x) (unat ?x + 21) m m1"
    unfolding m1_def using bd c(1) by (intro within_trans [OF within_set(3) within_set(2)]) simp_all
  have ms: "within (unat ?w) (unat ?w + 21) m1 (memset ?w 0 sizeof_hdr m1)"
    using bd(3) c(1) within_range [of ?w 0 21 "memset ?w 0 sizeof_hdr m1" m1 "unat ?w + 21"]
    by (simp add: memset_eq sizeof_hdr_def)
  let ?m = "memset ?w 0 sizeof_hdr m1" and ?e = "unat ?w + 21"
  have "unat ?x + 21 \<le> unat ?w" "unat ?x + 21 \<le> 2 ^ 64" using bd c(1) by simp_all
  note H = hdr_within [OF ms disjI1, OF this]
  have h1: "hdr_size m1 ?x = v" "hdr_free m1 ?x = hdr_free m ?x" "hdr_next m1 ?x = ?w" by (simp_all add: m1_def)
  have x: "seg_ok ?m ?e (Seg ?x (seg_size x + 21 + seg_size z) (seg_free x))"
    using c(4) bd uv by (simp add: seg_ok_def seg_end_def H h1)
  have w: "seg_ok ?m ?e (Seg ?w 0 False)" by (rule cleared_header)
  have "chain m ?e (unat base) ys (unat ?x)"
    using c(3) bd by (intro chain_shrink [OF c(3)]) simp_all
  moreover have "within (unat ?x) (unat ?x + 21) m m1" by (rule m1)
  ultimately have "chain m1 ?e (unat base) ys (unat ?x)"
    using bd c(1) by (intro chain_within [OF _ m1]) simp_all
  then have "chain ?m ?e (unat base) ys (unat ?x)"
    using bd c(1) by (intro chain_within [OF _ ms]) simp_all
  then show ?thesis
    unfolding eq option.inject using x w bd c(1,2) by (simp add: heap_list_def chain_append seg_end_def)
qed

section \<open>Copying a block\<close>

text \<open>Copying forwards is right when the target does not begin inside the source.\<close>

lemma forward_distance:
  fixes p q :: u64
  assumes "unat q + n \<le> unat p \<or> unat p < unat q \<and> unat q + n \<le> 2 ^ 64"
  shows "n \<le> unat (p - q)"
proof (cases "unat q + n \<le> unat p")
  case True
  then show ?thesis using unat_diff_ge [of q p] by simp
next
  case False
  with assms have q: "unat p < unat q" "unat q + n \<le> 2 ^ 64" by auto
  then have "unat (p - q) = 2 ^ 64 - (unat q - unat p)"
    using unat_neg_diff [of p q] unat_diff_ge [of p q] by auto
  then show ?thesis using q by simp
qed

lemma realloc_block:
  fixes s :: "'a heap_scheme"
  assumes hl: "heap_list (mem s) (heap_base_address s) e xs" and y: "y \<in> set xs" "\<not> seg_free y"
    and ff: "first_fit sz xs = Some (p, xs')"
  defines "ptr \<equiv> seg_addr y + sizeof_hdr"
  shows "\<exists>m'. realloc ptr sz s = Some (p, s\<lparr>mem := m'\<rparr>) \<and> heap_list m' (heap_base_address s) e xs' \<and>
    y \<in> set xs' \<and> (\<forall>i < min (seg_size y) (unat sz). m' (p + of_nat i) = mem s (ptr + of_nat i)) \<and>
    (\<exists>x \<in> set xs. seg_free x \<and> p = seg_addr x + sizeof_hdr \<and> unat sz \<le> seg_size x \<and>
      within (unat (seg_addr x)) (seg_end x) (mem s) m')"
proof -
  from first_fit_Some [OF ff] obtain ys x zs where x: "xs = ys @ x # zs"
    "\<And>y. y \<in> set ys \<Longrightarrow> \<not> fits sz y" "fits sz x" "p = seg_addr x + sizeof_hdr" "xs' = ys @ place sz x @ zs" by blast
  note hx = hl [unfolded x(1)]
  from malloc_hit [OF hx x(2,3)] obtain m1 where m1: "malloc sz s = Some (p, s\<lparr>mem := m1\<rparr>)"
    "heap_list m1 (heap_base_address s) e xs'" "within (unat (seg_addr x)) (seg_end x) (mem s) m1" by (metis x(4,5))
  have yx: "y \<in> set ys \<union> set zs" using y x(1,3) by (auto simp: fits_def)
  then have y': "y \<in> set xs'" using x(5) by auto
  then obtain as bs where "xs' = as @ y # bs" by (meson split_list)
  note h1 = m1(2) [unfolded this]
  define n where "n = min (seg_size y) (unat sz)"
  define k where "k = (if (ucast (hdr_size m1 (seg_addr y)) :: u64) < sz then ucast (hdr_size m1 (seg_addr y)) else sz)"
  have "seg_ok m1 e y" using h1 by (simp add: heap_list_split)
  from hdr_size_u64(1) [OF this] have k: "unat k = n" by (auto simp: k_def n_def word_less_nat_alt)
  have apart: "seg_end y \<le> unat (seg_addr x) \<or> seg_end x \<le> unat (seg_addr y)" by (rule heap_list_apart [OF hx yx])
  have up: "unat p = unat (seg_addr x) + 21" "unat ptr = unat (seg_addr y) + 21"
    unfolding x(4) ptr_def by (rule seg_block [OF hx], rule seg_block [OF h1])
  have sz: "n \<le> seg_size x" "n \<le> seg_size y" "n \<le> unat sz" using x(3) by (auto simp: n_def fits_def)
  note Bx = heap_list_bounds [OF hx] and By = heap_list_bounds [OF h1]
  have "unat k \<le> unat (p - ptr)" unfolding k by (rule forward_distance) (use apart up sz By(2-4) Bx(2) in auto)
  then have "p = ptr \<or> unat k \<le> unat (p - ptr)" ..
  note M = memcpy_eq [OF this, of m1, unfolded k]
  let ?m = "memcpy p ptr k m1"
  have w: "within (unat p) (unat p + n) m1 ?m"
    using within_range [of p 0 n ?m m1 "unat p + n"] up Bx sz by (simp add: M)
  have "realloc ptr sz s = Some (p, s\<lparr>mem := ?m\<rparr>)"
    using find_segment [OF hl, of "seg_addr y"] y(1) m1(1) heap_block_not_null [OF hx]
    by (simp add: realloc_def ptr_def Let_def k_def x(4))
  moreover have "?m (p + of_nat i) = mem s (ptr + of_nat i)" if i: "i < n" for i
  proof -
    have "in_range (p + of_nat i) p n"
      using i sz(3) unat_u64_less [of sz] by (simp add: in_range_def unat_of_nat take_bit_nat_eq_self)
    then have "?m (p + of_nat i) = m1 (ptr + of_nat i)" by (simp add: M add.commute)
    moreover have "unat (ptr + of_nat i) = unat ptr + i" using i sz up By by (intro unat_plus) simp
    then have "unat (ptr + of_nat i) < unat (seg_addr x) \<or> seg_end x \<le> unat (ptr + of_nat i)"
      using apart i sz up By(2) by linarith
    then have "m1 (ptr + of_nat i) = mem s (ptr + of_nat i)" using m1(3) unfolding within_def by blast
    ultimately show ?thesis by simp
  qed
  moreover have "heap_list ?m (heap_base_address s) e xs'"
  proof -
    obtain t ts where t: "place sz x = t # ts" "seg_addr t = seg_addr x" "n \<le> seg_size t"
      using sz by (cases "unat sz + 21 < seg_size x") (auto intro: that simp: place_def)
    then have h: "heap_list m1 (heap_base_address s) e (ys @ t # ts @ zs)" using m1(2) x(5) by simp
    have "within (unat (seg_addr t) + 21) (seg_end t) m1 ?m"
      by (rule within_mono [OF w]) (use t up in \<open>simp_all add: seg_end_def\<close>)
    from heap_list_payload [OF h this] show ?thesis using t(1) x(5) by simp
  qed
  moreover have "within (unat (seg_addr x)) (seg_end x) (mem s) ?m"
    by (rule within_trans [OF m1(3) within_mono [OF w]]) (use up Bx(2) sz in simp_all)
  ultimately show ?thesis using y' x(1,3,4) unfolding n_def fits_def by auto
qed

section \<open>A small heap\<close>

definition blank_heap :: heap where
  "blank_heap = demo_machine (heap.fields 0 0)\<lparr>heap_base_address := 0, heap_size := 0\<rparr>"

definition demo_heap_base :: u64 where "demo_heap_base = 0xFFFFFF0000000000"

definition demo_heap :: heap where
  "demo_heap = heap_init demo_heap_base blank_heap"

lemma blank_heap_room: "heap_room (blank_heap\<lparr>heap_base_address := demo_heap_base\<rparr>) demo_root 3"
proof -
  let ?d = "demo_machine (heap.fields 0 0) :: heap"
  let ?s = "blank_heap\<lparr>heap_base_address := demo_heap_base\<rparr>"
  have st: "same_tables ?d ?s" by (simp add: same_tables_def blank_heap_def)
  note S = same_tables [OF st] and D = demo_machine_inv [where x = "heap.fields 0 0"]
    and low = demo_machine_bytes(2) [where x = "heap.fields 0 0"]
  show ?thesis
    unfolding heap_room_def
  proof (intro conjI allI impI)
    show "vmm_inv ?s demo_root" by (simp add: S D)
    show "pml4 ?s = demo_root + vmm_page_tables_offset ?s" using D(4) by (simp add: blank_heap_def)
    show "4 * 3 \<le> card (free_pages ?s)" by (simp add: S D)
    show "heap_end ?s + 4096 * 3 < 2 ^ 64" by (simp add: heap_end_def blank_heap_def demo_heap_base_def)
    fix y :: u64 assume "unat (heap_base_address ?s) \<le> unat y \<and> unat y < heap_end ?s + 4096 * 3"
    then have "y \<notin> vmm_bytes ?d demo_root" using low [of y] by (auto simp: demo_heap_base_def)
    then show "y \<notin> vmm_bytes ?s demo_root" by (simp add: S)
    show "no_huge_page ?s demo_root y" unfolding no_huge_page_def S using D(6) by (simp del: tab.simps)
  qed
qed

lemma heap_room_print:
  assumes "heap_room s root n"
  shows "heap_room (print f as s) root n"
proof -
  have st: "same_tables s (print f as s)" by simp
  have "heap_base_address (print f as s) = heap_base_address s" "heap_end (print f as s) = heap_end s"
    "pml4 (print f as s) = pml4 s" by (simp_all add: print_def heap_end_def)
  with assms show ?thesis unfolding heap_room_def no_huge_page_def same_tables [OF st] by simp
qed

lemma heap_init:
  fixes s :: "'a heap_scheme"
  assumes "heap_room (s\<lparr>heap_base_address := base\<rparr>) root (Suc n)" "heap_size s = 0" "0 < unat base"
  defines "s' \<equiv> heap_init base s"
  shows "heap_room s' root n" "heap_base_address s' = base" "heap_end s' = unat base + 4096"
    "heap_list (mem s') base (unat base + 4096) [Seg base 4075 True]"
    "\<exists>a \<in> free_pages s. a \<notin> free_pages s' \<and> (\<forall>p. length p = 4 \<longrightarrow> translate s' root p =
      (if p = path_of base then Some (addr (convert_to_phys s (a + higher_half_offset s))) else translate s root p))"
proof -
  let ?s = "s\<lparr>heap_base_address := base\<rparr>"
  define t where "t = heap_add_page ?s"
  define m where "m = set_size base 4075 (set_free base True (set_next base 0 (set_prev base 0 (mem t))))"
  note T = heap_add_page [OF assms(1), folded t_def]
  have z: "heap_end ?s = unat base" using assms(2) by (simp add: heap_end_def)
  have lim: "unat base + 4096 + 4096 * n < 2 ^ 64" using assms(1) unfolding heap_room_def z by simp
  have t: "heap_base_address t = base" "heap_end t = unat base + 4096" using T(2,3) z by simp_all
  have "vmm_inv ?s root" using assms(1) unfolding heap_room_def by blast
  then have "only_pmm ?s (snd (pmm_allocz ?s))" by (intro only_pmm_allocz vmm_invD(2))
  note a = only_pmm_heap [OF this]
  have "heap_size t = 1" using t by (simp add: heap_end_def word_unat_eq_iff)
  then have t1: "t = (vmm_map_page (fst (pmm_allocz ?s)) base (snd (pmm_allocz ?s)))\<lparr>heap_size := 1\<rparr>"
    using assms(2) a by (simp add: t_def heap_add_page_def Let_def split_beta)
  have tb: "heap_base_address (vmm_map_page (fst (pmm_allocz ?s)) base (snd (pmm_allocz ?s))) = base"
    using t(1) by (simp add: t1)
  have eq: "s' = print (''%C[Heap]%C - Initialised heap allocator at address %X'' @ newline)
    [PInt (ucast COLOUR_KERNEL_INFO), PInt (ucast COLOUR_PRINT), PInt base] (t\<lparr>mem := m\<rparr>)"
    using a tb by (simp add: s'_def heap_init_def Let_def split_beta t1 m_def sizeof_hdr_def)
  have out: "m x = mem t x" if x: "\<not> (unat (heap_base_address t) \<le> unat x \<and> unat x < heap_end t)" for x
  proof -
    from x have "unat x < unat base \<or> unat base + 21 \<le> unat x" using t by auto
    moreover have "within (unat base) (unat base + 21) (mem t) m"
    proof -
      have b: "unat base + 21 \<le> 2 ^ 64" using lim by simp
      show ?thesis unfolding m_def
        by (rule within_trans [OF within_trans [OF within_trans]]) (rule within_set [OF b])+
    qed
    ultimately show ?thesis unfolding within_def by blast
  qed
  note K = heap_room_mem [OF T(1) out]
  have "heap_room (t\<lparr>mem := m\<rparr>) root n" using K(1) by blast
  then show "heap_room s' root n" unfolding eq by (rule heap_room_print)
  have st: "same_tables (t\<lparr>mem := m\<rparr>) s'" "same_tables s ?s" unfolding eq by (simp_all add: same_tables_def print_def)
  have "entry_value ?s = entry_value s" "next_table ?s = next_table s"
    by (simp_all add: fun_eq_iff entry_value_def next_table_def)
  note same = this
  have conv: "convert_to_phys ?s v = convert_to_phys s v" for v
    unfolding convert_to_phys_def vmm_virt_to_phys_def same by simp
  have at: "heap_base_address ?s + heap_size ?s * 0x1000 = base" "higher_half_offset ?s = higher_half_offset s" using assms(2) by simp_all
  from T(5) [unfolded at conv same_tables(2,5) [OF st(2)]] obtain a where a: "a \<in> free_pages s" "a \<notin> free_pages t"
    "\<forall>p. length p = 4 \<longrightarrow> translate t root p =
      (if p = path_of base then Some (addr (convert_to_phys s (a + higher_half_offset s))) else translate s root p)" by blast
  have "free_pages s' = free_pages t" using K(2) unfolding same_tables(5) [OF st(1)] by blast
  moreover have "translate s' root p = translate t root p" if "length p = 4" for p
    using K(3) that unfolding same_tables(2) [OF st(1)] by blast
  ultimately show "\<exists>a \<in> free_pages s. a \<notin> free_pages s' \<and> (\<forall>p. length p = 4 \<longrightarrow> translate s' root p =
      (if p = path_of base then Some (addr (convert_to_phys s (a + higher_half_offset s))) else translate s root p))"
    using a by (intro bexI [of _ a]) simp_all
  show "heap_base_address s' = base" "heap_end s' = unat base + 4096"
    using t by (simp_all add: eq heap_end_def print_def)
  show "heap_list (mem s') base (unat base + 4096) [Seg base 4075 True]"
    using assms(3) lim by (simp add: eq heap_list_def seg_ok_def seg_end_def m_def)
qed

lemma demo_heap:
  "heap_room demo_heap demo_root 2" "heap_base_address demo_heap = demo_heap_base"
  "heap_end demo_heap = unat demo_heap_base + 4096"
  "heap_list (mem demo_heap) demo_heap_base (unat demo_heap_base + 4096) [Seg demo_heap_base 4075 True]"
proof -
  have "heap_room (blank_heap\<lparr>heap_base_address := demo_heap_base\<rparr>) demo_root (Suc 2)"
    using blank_heap_room by simp
  note H = heap_init [OF this]
  show "heap_room demo_heap demo_root 2" "heap_base_address demo_heap = demo_heap_base"
    "heap_end demo_heap = unat demo_heap_base + 4096"
    "heap_list (mem demo_heap) demo_heap_base (unat demo_heap_base + 4096) [Seg demo_heap_base 4075 True]"
    unfolding demo_heap_def by (rule H; simp add: blank_heap_def demo_heap_base_def)+
qed

section \<open>Properties\<close>

text \<open>
  C34. \<open>heap_init\<close> takes one free page, maps it at the base address, leaving every other mapping alone, and turns it into a heap of a single free
  segment of 4096 - 21 bytes; the address space stays well-formed and keeps room for the remaining pages. What is entered is
  \<open>convert_to_phys\<close> of the page's address in the direct map: the page itself when the direct map leads there.
\<close>

theorem heap_init_correct:
  fixes s :: "'a heap_scheme"
  assumes "heap_room (s\<lparr>heap_base_address := base\<rparr>) root (Suc n)" and "heap_size s = 0" and "0 < unat base"
  shows "heap_list (mem (heap_init base s)) base (unat base + 4096) [Seg base 4075 True] \<and>
    heap_base_address (heap_init base s) = base \<and> heap_end (heap_init base s) = unat base + 4096 \<and>
    heap_room (heap_init base s) root n \<and>
    (\<exists>a \<in> free_pages s. a \<notin> free_pages (heap_init base s) \<and>
      (\<forall>p. length p = 4 \<longrightarrow> translate (heap_init base s) root p =
        (if p = path_of base then Some (addr (convert_to_phys s (a + higher_half_offset s))) else translate s root p)) \<and>
      (vmm_initialised s \<and> translate s root (path_of (a + higher_half_offset s)) = Some a \<longrightarrow>
        translate (heap_init base s) root (path_of base) = Some a))"
proof -
  note H = heap_init [OF assms]
  from H(5) obtain a where a: "a \<in> free_pages s" "a \<notin> free_pages (heap_init base s)"
    "\<And>p. length p = 4 \<Longrightarrow> translate (heap_init base s) root p =
      (if p = path_of base then Some (addr (convert_to_phys s (a + higher_half_offset s))) else translate s root p)" by blast
  have st: "same_tables s (s\<lparr>heap_base_address := base\<rparr>)" by (simp add: same_tables_def)
  have "vmm_inv (s\<lparr>heap_base_address := base\<rparr>) root"
    "pml4 (s\<lparr>heap_base_address := base\<rparr>) = root + vmm_page_tables_offset (s\<lparr>heap_base_address := base\<rparr>)"
    using assms(1) unfolding heap_room_def by blast+
  then have "vmm_inv s root" "pml4 s = root + vmm_page_tables_offset s"
    unfolding same_tables(1) [OF st] by simp_all
  note P = convert_to_phys_page [OF this, of _ a]
  have direct: "translate (heap_init base s) root (path_of base) = Some a"
    if "vmm_initialised s \<and> translate s root (path_of (a + higher_half_offset s)) = Some a"
    using a(3) [OF path_take(2)] P [OF conjunct1 [OF that] conjunct2 [OF that] a(1)] by simp
  have "\<forall>p. length p = 4 \<longrightarrow> translate (heap_init base s) root p =
      (if p = path_of base then Some (addr (convert_to_phys s (a + higher_half_offset s))) else translate s root p)"
    using a(3) by simp
  with a(1,2) direct show ?thesis by (intro conjI H(1-4) bexI [of _ a] impI)
qed

theorem heap_init_correct_witness:
  "heap_list (mem demo_heap) demo_heap_base (unat demo_heap_base + 4096) [Seg demo_heap_base 4075 True] \<and>
    (\<exists>a \<in> free_pages blank_heap. a \<notin> free_pages demo_heap \<and> translate demo_heap demo_root (path_of demo_heap_base) =
      Some (addr (convert_to_phys blank_heap (a + higher_half_offset blank_heap))))"
proof -
  have r: "heap_room (blank_heap\<lparr>heap_base_address := demo_heap_base\<rparr>) demo_root (Suc 2)" using blank_heap_room by simp
  have z: "heap_size blank_heap = 0" "0 < unat demo_heap_base" by (simp_all add: blank_heap_def demo_heap_base_def)
  note W = heap_init_correct [where s = blank_heap and base = demo_heap_base and root = demo_root and n = 2, OF r z, folded demo_heap_def]
  note C = conjunct1 [OF W] conjunct2 [OF conjunct2 [OF conjunct2 [OF conjunct2 [OF W]]]]
  from C(2) obtain a where a: "a \<in> free_pages blank_heap" "a \<notin> free_pages demo_heap"
    "\<forall>p. length p = 4 \<longrightarrow> translate demo_heap demo_root p =
      (if p = path_of demo_heap_base then Some (addr (convert_to_phys blank_heap (a + higher_half_offset blank_heap)))
       else translate blank_heap demo_root p)" by (elim bexE conjE)
  have "translate demo_heap demo_root (path_of demo_heap_base) = Some (addr (convert_to_phys blank_heap (a + higher_half_offset blank_heap)))"
    using a(3) [rule_format, OF path_take(2), of demo_heap_base] by simp
  with a(1,2) show ?thesis by (intro conjI C(1) bexI [of _ a])
qed

text \<open>
  C4. \<open>malloc\<close> refines first fit: when the list of segments has a free one that is large enough, the
  pointer and the new list are those of \<open>first_fit\<close>, and nothing but the bytes of the segment taken changes.
\<close>

theorem malloc_first_fit:
  fixes s :: "'a heap_scheme"
  assumes "heap_list (mem s) (heap_base_address s) e xs" and "first_fit sz xs = Some (p, xs')"
  shows "\<exists>m' x. malloc sz s = Some (p, s\<lparr>mem := m'\<rparr>) \<and> heap_list m' (heap_base_address s) e xs' \<and>
    x \<in> set xs \<and> seg_free x \<and> unat sz \<le> seg_size x \<and> p = seg_addr x + sizeof_hdr \<and>
    (\<forall>a. unat a < unat (seg_addr x) \<or> seg_end x \<le> unat a \<longrightarrow> m' a = mem s a)"
  using malloc_fit [OF assms] unfolding within_def by metis

theorem malloc_first_fit_witness:
  "\<exists>m'. malloc 100 demo_heap = Some (demo_heap_base + 21, demo_heap\<lparr>mem := m'\<rparr>) \<and>
    heap_list m' demo_heap_base (unat demo_heap_base + 4096)
      [Seg demo_heap_base 100 False, Seg (121 + demo_heap_base) 3954 True]"
  using malloc_first_fit [of demo_heap _ _ 100, unfolded demo_heap(2), OF demo_heap(4)]
  by (fastforce simp: fits_def place_def sizeof_hdr_def)

text \<open>
  C18. A sequence of allocations that first fit can serve returns blocks that are pairwise disjoint and
  lie in segments that were free before the sequence.
\<close>

theorem malloc_many:
  fixes s :: "'a heap_scheme"
  assumes "heap_list (mem s) (heap_base_address s) e xs" and "first_fits szs xs = Some (ps, xs')"
  shows "\<exists>m'. mallocs szs s = Some (ps, s\<lparr>mem := m'\<rparr>) \<and> heap_list m' (heap_base_address s) e xs' \<and>
    length ps = length szs \<and> sorted_wrt blocks_apart (zip ps szs) \<and>
    (\<forall>b \<in> set (zip ps szs). \<exists>x \<in> set xs. seg_free x \<and> block_in b x)"
  using assms by (rule first_fits_blocks)

theorem malloc_many_witness:
  "\<exists>m'. mallocs [100, 200, 300] demo_heap =
    Some ([demo_heap_base + 21, demo_heap_base + 142, demo_heap_base + 363], demo_heap\<lparr>mem := m'\<rparr>)"
proof -
  have "first_fits [100, 200, 300] [Seg demo_heap_base 4075 True] =
    Some ([demo_heap_base + 21, demo_heap_base + 142, demo_heap_base + 363],
      [Seg demo_heap_base 100 False, Seg (demo_heap_base + 121) 200 False, Seg (demo_heap_base + 342) 300 False,
       Seg (demo_heap_base + 663) 3412 True])"
    by (simp add: fits_def place_def sizeof_hdr_def demo_heap_base_def)
  with malloc_many [of demo_heap, unfolded demo_heap(2), OF demo_heap(4)] show ?thesis by blast
qed

text \<open>
  C35. When no segment fits, \<open>malloc\<close> grows the heap by \<open>size / 4096 + 1\<close> pages, which all go to the last
  segment, and returns a block in that segment; the room in the address space suffices for it.
\<close>

theorem malloc_extends:
  fixes s :: "'a heap_scheme"
  assumes "heap_list (mem s) (heap_base_address s) (heap_end s) (ys @ [x])" and "first_fit sz (ys @ [x]) = None"
    and "heap_room s root (unat (sz div 0x1000 + 1))" and "seg_size x + 4096 * unat (sz div 0x1000 + 1) < 2 ^ 32"
  shows "\<exists>s'. malloc sz s = Some (seg_addr x + sizeof_hdr, s') \<and> heap_base_address s' = heap_base_address s \<and>
    heap_end s' = heap_end s + 4096 * unat (sz div 0x1000 + 1) \<and> heap_room s' root 0 \<and>
    heap_list (mem s') (heap_base_address s) (heap_end s')
      (ys @ place sz (Seg (seg_addr x) (seg_size x + 4096 * unat (sz div 0x1000 + 1)) (seg_free x)))"
proof -
  have no: "\<not> fits sz y" if "y \<in> set (ys @ [x])" for y using that assms(2) unfolding first_fit_None by blast
  from malloc_miss [OF assms(1) no assms(3) refl assms(4)] show ?thesis by metis
qed

theorem malloc_extends_witness:
  "\<exists>s'. malloc 5000 demo_heap = Some (demo_heap_base + 21, s') \<and> heap_end s' = unat demo_heap_base + 12288"
  using malloc_extends [of demo_heap "[]" "Seg demo_heap_base 4075 True" 5000 demo_root] demo_heap
  by (fastforce simp: fits_def sizeof_hdr_def)

text \<open>
  C36. The last segment is grown and handed out whether it is free or not: after an allocation that
  takes the last segment, the next one that no segment can serve returns the same pointer.
\<close>

theorem malloc_same_pointer_twice:
  fixes s :: "'a heap_scheme"
  assumes hl: "heap_list (mem s) (heap_base_address s) (heap_end s) (ys @ [x])"
    and "first_fit sz ys = None" and "first_fit sz' ys = None"
    and "seg_free x" and "unat sz \<le> seg_size x" and "seg_size x \<le> unat sz + 21"
    and "heap_room s root (unat (sz' div 0x1000 + 1))" and "seg_size x + 4096 * unat (sz' div 0x1000 + 1) < 2 ^ 32"
  shows "\<exists>p s1 s2. malloc sz s = Some (p, s1) \<and> malloc sz' s1 = Some (p, s2)"
proof -
  let ?x = "Seg (seg_addr x) (seg_size x) False"
  have no: "\<not> fits sz y" "\<not> fits sz' y" if "y \<in> set ys" for y using that assms(2,3) unfolding first_fit_None by blast+
  have pl: "place sz x = [?x]" using assms(6) by (simp add: place_def)
  from malloc_hit [OF hl no(1)] assms(4,5) obtain m' where m':
    "malloc sz s = Some (seg_addr x + sizeof_hdr, s\<lparr>mem := m'\<rparr>)"
    "heap_list m' (heap_base_address s) (heap_end s) (ys @ [?x])"
    "within (unat (seg_addr x)) (seg_end x) (mem s) m'" unfolding pl by (auto simp: fits_def)
  have room: "heap_room (s\<lparr>mem := m'\<rparr>) root (unat (sz' div 0x1000 + 1))"
  proof (rule heap_room_mem(1) [OF assms(7)])
    fix a :: u64 assume "\<not> (unat (heap_base_address s) \<le> unat a \<and> unat a < heap_end s)"
    then have "unat a < unat (seg_addr x) \<or> seg_end x \<le> unat a"
      using heap_list_bounds [OF hl] by auto
    then show "m' a = mem s a" using m'(3) unfolding within_def by blast
  qed
  have hl': "heap_list (mem (s\<lparr>mem := m'\<rparr>)) (heap_base_address (s\<lparr>mem := m'\<rparr>)) (heap_end (s\<lparr>mem := m'\<rparr>)) (ys @ [?x])"
    using m'(2) by (simp add: heap_end_def)
  have "\<not> fits sz' y" if "y \<in> set (ys @ [?x])" for y using that no(2) by (auto simp: fits_def)
  from malloc_miss [OF hl' this room refl] assms(8) m'(1) show ?thesis by (metis seg.sel(1,2))
qed

theorem malloc_same_pointer_twice_witness:
  "\<exists>p s1 s2. malloc 4075 demo_heap = Some (p, s1) \<and> malloc 10 s1 = Some (p, s2)"
proof -
  have "heap_room demo_heap demo_root 1"
    using demo_heap(1) unfolding heap_room_def by auto
  then show ?thesis
    using malloc_same_pointer_twice [of demo_heap "[]" "Seg demo_heap_base 4075 True" 4075 10 demo_root] demo_heap
    by simp
qed

text \<open>
  C19. On a well-formed heap \<open>malloc\<close> returns, and so does \<open>realloc\<close>, unless a block is to be copied and \<open>malloc\<close> gives the null
  pointer: the searches visit every segment at most once. \<open>free\<close> ignores a pointer that is not the address of a segment's bytes. For one that
  is, let the link \<open>prev\<close> of the segment be 0 or lead to an earlier segment \<open>w\<close>. When no merge with \<open>w\<close> happens, because there is no \<open>w\<close> or it is in
  use, \<open>free\<close> fails to return exactly for the last segment and for the one before it when the last one is free; when \<open>w\<close> is free, exactly for the last
  segment directly behind \<open>w\<close>. In these cases the code reaches a header through the null pointer.
\<close>

theorem heap_operations_return:
  fixes s :: "'a heap_scheme"
  assumes "heap_list (mem s) (heap_base_address s) e xs"
  shows "(\<exists>p s'. malloc sz s = Some (p, s') \<and>
      (p \<noteq> 0 \<or> ptr - sizeof_hdr \<notin> seg_addr ` set xs \<longrightarrow> (\<exists>r. realloc ptr sz s = Some r))) \<and>
    (ptr - sizeof_hdr \<notin> seg_addr ` set xs \<longrightarrow> free ptr s = Some s) \<and>
    (\<forall>ys x zs. xs = ys @ x # zs \<and> ptr = seg_addr x + sizeof_hdr \<and>
        (hdr_prev (mem s) (seg_addr x) = 0 \<or> (\<exists>w \<in> set ys. seg_addr w = hdr_prev (mem s) (seg_addr x) \<and> \<not> seg_free w)) \<longrightarrow>
      (free ptr s = None \<longleftrightarrow> zs = [] \<or> (\<exists>z. zs = [z] \<and> seg_free z))) \<and>
    (\<forall>ys w vs x zs. xs = ys @ w # vs @ x # zs \<and> ptr = seg_addr x + sizeof_hdr \<and>
        hdr_prev (mem s) (seg_addr x) = seg_addr w \<and> seg_free w \<longrightarrow>
      (free ptr s = None \<longleftrightarrow> vs = [] \<and> zs = []))"
proof -
  have "\<exists>r. malloc sz s = Some r"
  proof (cases "first_fit sz xs")
    case (Some r)
    then obtain p xs' where "first_fit sz xs = Some (p, xs')" by force
    from first_fit_Some [OF this] assms malloc_hit show ?thesis by metis
  next
    case None
    then have no: "\<not> fits sz y" if "y \<in> set xs" for y using that unfolding first_fit_None by blast
    obtain ys x where "xs = ys @ [x]" using assms by (metis heap_list_def rev_exhaust)
    with assms no malloc_search_miss [of "mem s" "heap_base_address s" e ys x sz] show ?thesis
      by (simp add: malloc_def)
  qed
  then obtain p s' where m: "malloc sz s = Some (p, s')" by force
  have f: "find_segment (heap_base_address s) (ptr - sizeof_hdr) (mem s) = Some (ptr - sizeof_hdr \<in> seg_addr ` set xs)"
    by (rule find_segment [OF assms])
  have r: "\<exists>r. realloc ptr sz s = Some r" if "p \<noteq> 0 \<or> ptr - sizeof_hdr \<notin> seg_addr ` set xs"
    using that f m by (cases "ptr - sizeof_hdr \<in> seg_addr ` set xs") (simp_all add: realloc_def Let_def)
  have fwd: "free ptr s = None \<longleftrightarrow> zs = [] \<or> (\<exists>z. zs = [z] \<and> seg_free z)"
    if xs: "xs = ys @ x # zs" "ptr = seg_addr x + sizeof_hdr" "prev_used (mem s) ys x" for ys x zs
  proof -
    note hl = assms [unfolded xs(1)]
    note F = free_forward [OF hl xs(3), folded xs(2)] and L = heap_list_set_free [OF hl, of True]
    show ?thesis
    proof (cases zs)
      case (Cons z rest)
      note L = L [unfolded Cons]
      show ?thesis
      proof (cases rest)
        case Nil
        then show ?thesis using heap_merge_last [OF L [unfolded Nil]] by (simp add: F Cons)
      next
        case (Cons t r)
        then show ?thesis using heap_merge_behind [OF L [unfolded Cons]] by (auto simp: F \<open>zs = z # rest\<close>)
      qed
    qed (simp add: F)
  qed
  have bwd: "free ptr s = None \<longleftrightarrow> vs = [] \<and> zs = []"
    if "xs = ys @ w # vs @ x # zs" "ptr = seg_addr x + sizeof_hdr" "hdr_prev (mem s) (seg_addr x) = seg_addr w" "seg_free w"
    for ys w vs x zs
    using free_backward [OF assms [unfolded that(1)] that(3,4)] that(2) by simp
  have other: "ptr - sizeof_hdr \<notin> seg_addr ` set xs \<longrightarrow> free ptr s = Some s"
    using f by (simp add: free_def Let_def)
  show ?thesis
  proof (rule conjI)
    show "\<exists>p s'. malloc sz s = Some (p, s') \<and> (p \<noteq> 0 \<or> ptr - sizeof_hdr \<notin> seg_addr ` set xs \<longrightarrow> (\<exists>r. realloc ptr sz s = Some r))"
      using m r by blast
  qed (rule conjI [OF other], rule conjI; (intro allI impI, elim conjE, rule fwd [unfolded prev_used_def] bwd; assumption))
qed

text \<open>
  C37. \<open>free\<close> marks the segment of a valid pointer as free and changes nothing else when its neighbours
  are in use and it is not the last one; any other pointer is ignored.
\<close>

theorem free_correct:
  fixes s :: "'a heap_scheme"
  assumes "heap_list (mem s) (heap_base_address s) e (ys @ x # z # zs)" and "\<not> seg_free z"
    and "hdr_prev (mem s) (seg_addr x) = 0 \<or>
      (\<exists>w \<in> set ys. seg_addr w = hdr_prev (mem s) (seg_addr x) \<and> \<not> seg_free w)"
  shows "free (seg_addr x + sizeof_hdr) s = Some (s\<lparr>mem := (mem s)(seg_addr x + 20 := 1)\<rparr>) \<and>
    heap_list ((mem s)(seg_addr x + 20 := 1)) (heap_base_address s) e (ys @ Seg (seg_addr x) (seg_size x) True # z # zs) \<and>
    (\<forall>ptr. ptr - sizeof_hdr \<notin> seg_addr ` set (ys @ x # z # zs) \<longrightarrow> free ptr s = Some s)"
  using free_no_merge [OF assms(1,2) assms(3) [folded prev_used_def]] heap_list_set_free [OF assms(1), of True] find_segment [OF assms(1)]
  by (auto simp: set_free_def free_def Let_def)

text \<open>
  \<open>heap_merge_forward\<close> clears the header behind the merged segment instead of the merged one, so
  the heap ends there: the segment behind it shrinks to 0 bytes and every later segment is lost.
\<close>

theorem heap_merge_loses_segments:
  assumes "heap_list m base e (ys @ x # z # w # zs)" and "seg_size x + 21 + seg_size z < 2 ^ 32"
  shows "\<exists>m'. heap_merge_forward (seg_addr x) m = Some m' \<and> heap_list m' base (unat (seg_addr w) + 21)
    (ys @ [Seg (seg_addr x) (seg_size x + 21 + seg_size z) (seg_free x), Seg (seg_addr w) 0 False])"
  using assms by (rule heap_merge_next)

text \<open>
  C20. \<open>realloc\<close> of a valid pointer allocates a new block by first fit, copies the smaller of the two sizes into
  it, leaves the heap well-formed and does not release the old block.
\<close>

theorem realloc_copies:
  fixes s :: "'a heap_scheme"
  assumes "heap_list (mem s) (heap_base_address s) e xs" and "y \<in> set xs" and "\<not> seg_free y"
    and "first_fit sz xs = Some (p, xs')"
  shows "\<exists>m'. realloc (seg_addr y + sizeof_hdr) sz s = Some (p, s\<lparr>mem := m'\<rparr>) \<and>
    heap_list m' (heap_base_address s) e xs' \<and> y \<in> set xs' \<and>
    (\<forall>i < min (seg_size y) (unat sz). m' (p + of_nat i) = mem s (seg_addr y + sizeof_hdr + of_nat i))"
  using realloc_block [OF assms] by blast

section \<open>A heap of four segments\<close>

definition put_header :: "u64 \<Rightarrow> u64 \<Rightarrow> bool \<Rightarrow> memory \<Rightarrow> memory" where
  "put_header h n f m = set_free h f (set_size h 10 (set_next h n m))"

definition four_segments :: memory where
  "four_segments = put_header 0x1000 0x101F False (put_header 0x101F 0x103E False
    (put_header 0x103E 0x105D False (put_header 0x105D 0 True (\<lambda>_. 0))))"

definition four_heap :: heap where
  "four_heap = blank_heap\<lparr>heap_base_address := 0x1000, mem := four_segments\<rparr>"

lemma load_le_zero: "load_le n (\<lambda>_. 0) a = 0"
  by (induction n arbitrary: a) simp_all

lemma four_list:
  "heap_list four_segments 0x1000 0x107C
    [Seg 0x1000 10 False, Seg 0x101F 10 False, Seg 0x103E 10 False, Seg 0x105D 10 True]"
  "hdr_prev four_segments 0x1000 = 0" "hdr_prev four_segments 0x103E = 0" "hdr_prev four_segments 0x105D = 0"
proof -
  show "heap_list four_segments 0x1000 0x107C
    [Seg 0x1000 10 False, Seg 0x101F 10 False, Seg 0x103E 10 False, Seg 0x105D 10 True]"
    by (simp add: heap_list_def seg_ok_def seg_end_def four_segments_def put_header_def hdr_other apart_def)
  show "hdr_prev four_segments 0x1000 = 0" "hdr_prev four_segments 0x103E = 0" "hdr_prev four_segments 0x105D = 0"
    by (simp_all add: four_segments_def put_header_def hdr_other apart_def)
      (simp_all add: hdr_prev_def load64_def load_le_zero)
qed

text \<open>Of these segments the first can be freed. The third has the free last one behind it.\<close>

theorem heap_operations_return_witness:
  "(\<exists>r. malloc 9000 four_heap = Some r) \<and> (\<exists>r. realloc 0 9000 four_heap = Some r) \<and> free 0 four_heap = Some four_heap \<and>
    free 0x1015 four_heap \<noteq> None \<and> free 0x1053 four_heap = None \<and> free 0x1072 four_heap = None"
proof -
  have hl: "heap_list (mem four_heap) (heap_base_address four_heap) 0x107C
    ([Seg 0x1000 10 False, Seg 0x101F 10 False, Seg 0x103E 10 False, Seg 0x105D 10 True])"
    using four_list(1) by (simp add: four_heap_def)
  have p: "hdr_prev (mem four_heap) 0x1000 = 0" "hdr_prev (mem four_heap) 0x103E = 0" "hdr_prev (mem four_heap) 0x105D = 0"
    using four_list(2-4) by (simp_all add: four_heap_def)
  note H = heap_operations_return [OF hl, where sz = 9000]
  note A = conjunct1 [OF H [of 0]] and F = conjunct1 [OF conjunct2 [OF conjunct2 [OF H]], rule_format]
  have "free 0 four_heap = Some four_heap" using conjunct1 [OF conjunct2 [OF H [of 0]]] by (simp add: sizeof_hdr_def)
  moreover have "(\<exists>r. malloc 9000 four_heap = Some r) \<and> (\<exists>r. realloc 0 9000 four_heap = Some r)"
    using A by (auto simp: sizeof_hdr_def)
  moreover have "free 0x1015 four_heap \<noteq> None"
    using F [of "[]" "Seg 0x1000 10 False" _ "0x1015"] p(1) by (simp add: sizeof_hdr_def)
  moreover have "free 0x1053 four_heap = None"
    using F [of "[Seg 0x1000 10 False, Seg 0x101F 10 False]" "Seg 0x103E 10 False" _ "0x1053"] p(2) by (simp add: sizeof_hdr_def)
  moreover have "free 0x1072 four_heap = None"
    using F [of "[Seg 0x1000 10 False, Seg 0x101F 10 False, Seg 0x103E 10 False]" "Seg 0x105D 10 True" _ "0x1072"] p(3)
    by (simp add: sizeof_hdr_def)
  ultimately show ?thesis by blast
qed

theorem free_correct_witness:
  "free 0x1015 four_heap = Some (four_heap\<lparr>mem := four_segments(0x1014 := 1)\<rparr>)"
  using free_correct [of four_heap "0x107C" "[]" "Seg 0x1000 10 False" "Seg 0x101F 10 False"] four_list
  by (simp add: four_heap_def sizeof_hdr_def)

theorem heap_merge_loses_segments_witness:
  "\<exists>m'. heap_merge_forward 0x1000 four_segments = Some m' \<and> heap_list m' 0x1000 0x1053 [Seg 0x1000 41 False, Seg 0x103E 0 False]"
  using heap_merge_loses_segments [of four_segments "0x1000" "0x107C" "[]" "Seg 0x1000 10 False" "Seg 0x101F 10 False"
      "Seg 0x103E 10 False" "[Seg 0x105D 10 True]"]
    four_list(1) by simp

theorem realloc_copies_witness:
  "\<exists>m'. realloc 0x1015 8 four_heap = Some (0x1072, four_heap\<lparr>mem := m'\<rparr>)"
  using realloc_copies [of four_heap "0x107C" _ "Seg 0x1000 10 False" 8] four_list(1)
  by (fastforce simp: four_heap_def sizeof_hdr_def fits_def place_def)

end
