(* ===== verification/Vmm_Runs.thy ===== *)
theory Vmm_Runs
  imports Vmm_Map_Pages
begin

text \<open>
  Runs of \<open>vmm_map_pages_pml4\<close> that go beyond one page table. The cursor of the loop is the page number \<open>P\<close> of the next page:
  whichever indices carry, the tables that the code enters are those on the path of that page.
\<close>

section \<open>Page numbers\<close>

definition page_path :: "nat \<Rightarrow> path" where
  "page_path P = [of_nat (P div 512 div 512 div 512), of_nat (P div 512 div 512), of_nat (P div 512), of_nat P]"

lemma index_mod: "(of_nat (n mod 512) :: 9 word) = of_nat n"
  by (simp add: word_unat_eq_iff unat_of_nat take_bit_eq_mod)

lemma index_eq: "(of_nat n :: 9 word) = of_nat k \<longleftrightarrow> n mod 512 = k mod 512"
  by (simp add: word_unat_eq_iff unat_of_nat take_bit_eq_mod)

lemma slot_index: "slot (t + vmm_page_tables_offset s) (of_nat (n mod 512)) = entry_ptr s t (of_nat n)"
  using slot_entry [of "n mod 512" t s] by (simp add: index_mod)

lemma div_mod_eqI: "n mod 512 = k mod 512 \<Longrightarrow> n div 512 = k div 512 \<Longrightarrow> n = (k :: nat)"
  by (metis div_mult_mod_eq)

lemma page_path_inject:
  assumes "P < 2 ^ 36" "Q < 2 ^ 36"
  shows "page_path P = page_path Q \<longleftrightarrow> P = Q"
proof
  assume "page_path P = page_path Q"
  then have m: "P mod 512 = Q mod 512" "P div 512 mod 512 = Q div 512 mod 512"
    "P div 512 div 512 mod 512 = Q div 512 div 512 mod 512" "P div 512 div 512 div 512 mod 512 = Q div 512 div 512 div 512 mod 512"
    by (simp_all only: page_path_def list.inject index_eq)
  have "R div 512 div 512 div 512 div 512 = 0" if "R < 2 ^ 36" for R :: nat using that by (simp add: div_mult2_eq [symmetric])
  then have "P div 512 div 512 div 512 div 512 = Q div 512 div 512 div 512 div 512" using assms by simp
  with m show "P = Q" by (blast intro: div_mod_eqI)
qed simp

lemma page_path_mod: "page_path (N mod (512 * 512 * 512 * 512 * m)) = page_path N"
proof -
  have d: "n mod (512 * k) div 512 = n div 512 mod k" "n mod (512 * k) mod 512 = n mod 512" for n k :: nat
    by (simp_all add: mod_mult2_eq)
  show ?thesis by (simp only: page_path_def index_eq list.inject mult.assoc d simp_thms)
qed

lemma path_of_page: "path_of v = page_path (unat v div 4096)"
proof -
  have "unat (drop_bit n v) = unat v div 2 ^ n" for n by (subst unat_drop_bit_eq) (rule drop_bit_eq_div)
  then have "(ucast (drop_bit n v) :: 9 word) = of_nat (unat v div 2 ^ n)" for n
    by (simp only: word_unat_eq_iff unsigned_ucast_eq unat_of_nat take_bit_eq_mod)
  then show ?thesis by (simp add: path_of_def page_path_def div_mult2_eq [symmetric])
qed

lemma path_of_add: "path_of (v + of_nat (4096 * j)) = page_path (unat v div 4096 mod 2 ^ 36 + j)"
proof -
  let ?m = "512 * 512 * 512 * 512 * 65536 :: nat"
  have "unat (v + of_nat (4096 * j)) = (unat v + 4096 * j) mod (4096 * ?m)"
    by (simp add: unat_word_ariths unat_of_nat take_bit_eq_mod mod_add_right_eq del: of_nat_mult)
  also have "\<dots> div 4096 = (unat v + 4096 * j) div 4096 mod ?m"
    by (subst mod_mult2_eq, subst div_mult_self4) simp_all
  also have "(unat v + 4096 * j) div 4096 = unat v div 4096 + j" by simp
  finally have "path_of (v + of_nat (4096 * j)) = page_path (unat v div 4096 + j)"
    by (simp only: path_of_page page_path_mod)
  also have "\<dots> = page_path ((unat v div 4096 + j) mod (512 * 512 * 512 * 512 * 1))" by (simp only: page_path_mod)
  also have "\<dots> = page_path ((unat v div 4096 mod 2 ^ 36 + j) mod (512 * 512 * 512 * 512 * 1))" by (simp add: mod_add_left_eq)
  also have "\<dots> = page_path (unat v div 4096 mod 2 ^ 36 + j)" by (simp only: page_path_mod)
  finally show ?thesis .
qed

section \<open>Entering the tables of a page\<close>

definition at_page :: "nat \<Rightarrow> cursor \<Rightarrow> cursor" where
  "at_page P c = c\<lparr>pml4_i := of_nat (P div 512 div 512 div 512 mod 512), pdpt_i := of_nat (P div 512 div 512 mod 512),
    pd_i := of_nat (P div 512 mod 512), pt_i := of_nat (P mod 512)\<rparr>"

definition enter_tables :: "u64 \<Rightarrow> cursor \<times> 'a vmm_scheme \<Rightarrow> cursor \<times> 'a vmm_scheme" where
  "enter_tables p_pml4 cs = enter_pt (enter_pd (enter_pdpt p_pml4 cs))"

text \<open>The cursor points to the tables on a path.\<close>

definition points_to :: "u64 \<Rightarrow> path \<Rightarrow> u64 \<Rightarrow> 'a vmm_scheme \<Rightarrow> cursor \<Rightarrow> bool" where
  "points_to root p t s c \<longleftrightarrow> (\<exists>t1 t2. tab s root [p ! 0] = Some t1 \<and> tab s root [p ! 0, p ! 1] = Some t2 \<and>
    tab s root [p ! 0, p ! 1, p ! 2] = Some t \<and>
    pdpt c = t1 + vmm_page_tables_offset s \<and> pdpt_entry c = entry_ptr s t1 (p ! 1) \<and>
    pd c = t2 + vmm_page_tables_offset s \<and> pd_entry c = entry_ptr s t2 (p ! 2) \<and> pt c = t + vmm_page_tables_offset s)"

definition linked :: "u64 \<Rightarrow> nat \<Rightarrow> u64 \<Rightarrow> 'a vmm_scheme \<Rightarrow> cursor \<Rightarrow> bool" where
  "linked root P t s c \<longleftrightarrow> at_page P c = c \<and> points_to root (page_path P) t s c"

lemma points_to_cong:
  assumes "take 3 p = take 3 q"
  shows "points_to root p t s c = points_to root q t s c"
proof -
  have e: "p ! k = q ! k" if "k < 3" for k
    using nth_take [OF that, of p] nth_take [OF that, of q] assms by simp
  have "p ! 0 = q ! 0" "p ! 1 = q ! 1" "p ! 2 = q ! 2" by (rule e; simp)+
  then show ?thesis by (simp only: points_to_def)
qed

lemma points_to_fields [simp]: "points_to root p t s (c\<lparr>pt_i := i\<rparr>) = points_to root p t s c"
  "points_to root p t s (c\<lparr>current_phys := a\<rparr>) = points_to root p t s c"
  "points_to root p t s (c\<lparr>pt_entry := a\<rparr>) = points_to root p t s c"
  by (simp_all add: points_to_def)

lemma at_pageI:
  "pml4_i c = of_nat (P div 512 div 512 div 512 mod 512) \<Longrightarrow> pdpt_i c = of_nat (P div 512 div 512 mod 512) \<Longrightarrow>
    pd_i c = of_nat (P div 512 mod 512) \<Longrightarrow> pt_i c = of_nat (P mod 512) \<Longrightarrow> at_page P c = c"
  by (rule cursor.equality) (simp_all add: at_page_def)

text \<open>No page of 1 GiB or 2 MiB on a path.\<close>

definition no_large :: "'a vmm_scheme \<Rightarrow> u64 \<Rightarrow> path \<Rightarrow> bool" where
  "no_large s root p \<longleftrightarrow> (\<forall>k < 3. \<forall>t. tab s root (take k p) = Some t \<longrightarrow> \<not> large (ent s t (p ! k)))"

lemma no_largeD:
  assumes "no_large s root (page_path P)"
  shows "tab s root [] = Some t \<Longrightarrow> \<not> large (ent s t (page_path P ! 0))"
    "tab s root [page_path P ! 0] = Some t \<Longrightarrow> \<not> large (ent s t (page_path P ! 1))"
    "tab s root [page_path P ! 0, page_path P ! 1] = Some t \<Longrightarrow> \<not> large (ent s t (page_path P ! 2))"
proof -
  have *: "take 0 (page_path P) = []" "take 1 (page_path P) = [page_path P ! 0]"
    "take 2 (page_path P) = [page_path P ! 0, page_path P ! 1]" by (simp_all add: page_path_def)
  note D = assms [unfolded no_large_def, rule_format]
  show "tab s root [] = Some t \<Longrightarrow> \<not> large (ent s t (page_path P ! 0))"
    "tab s root [page_path P ! 0] = Some t \<Longrightarrow> \<not> large (ent s t (page_path P ! 1))"
    "tab s root [page_path P ! 0, page_path P ! 1] = Some t \<Longrightarrow> \<not> large (ent s t (page_path P ! 2))"
    by (rule D [of 0, unfolded *] D [of 1, unfolded *] D [of 2, unfolded *]; simp del: tab.simps)+
qed

lemma enter_tables:
  fixes s :: "'a vmm_scheme"
  assumes "vmm_inv s root" "no_large s root (page_path P)" "3 \<le> card (free_pages s)"
  obtains t c' s' where "enter_tables (root + vmm_page_tables_offset s) (at_page P c, s) = (c', s')" "grows 3 root s s'"
    "linked root P t s' c'" "current_phys c' = current_phys c"
proof -
  define i1 i2 i3 where i: "i1 = page_path P ! 0" "i2 = page_path P ! 1" "i3 = page_path P ! 2"
  let ?off = "vmm_page_tables_offset s"
  have nl: "tab s root [] = Some t \<Longrightarrow> \<not> large (ent s t i1)" "tab s root [i1] = Some t \<Longrightarrow> \<not> large (ent s t i2)"
    "tab s root [i1, i2] = Some t \<Longrightarrow> \<not> large (ent s t i3)" for t
    using no_largeD(2,3) [OF assms(2)] no_largeD(1) [OF assms(2)] by (simp_all add: i)
  define s1 where "s1 = ensure_present (entry_ptr s root i1) s"
  define t1 where "t1 = addr (ent s1 root i1)"
  note L1 = descend_level [OF assms(1), where p = "[]" and t = root and i = i1, folded s1_def, folded t1_def]
  have G1: "grows 1 root s s1" and T1: "tab s1 root [i1] = Some t1" using L1 assms(3) nl(1) by simp_all
  note S1 = grows_same [OF G1]
  define s2 where "s2 = ensure_present (entry_ptr s1 t1 i2) s1"
  define t2 where "t2 = addr (ent s2 t1 i2)"
  have n2: "\<not> large (ent s1 t1 i2)" using nl(2) growsD(5) [OF G1 _ T1, of i2] by auto
  have c1: "2 \<le> card (free_pages s1)" using growsD(6) [OF G1] assms(3) by simp
  note L2 = descend_level [OF growsD(1) [OF G1] T1 _ _ n2, folded s2_def, folded t2_def]
  have G2: "grows 1 root s1 s2" and T2: "tab s2 root [i1, i2] = Some t2" using L2 c1 by simp_all
  note S2 = grows_same [OF G2]
  define s3 where "s3 = ensure_present (entry_ptr s2 t2 i3) s2"
  define t3 where "t3 = addr (ent s3 t2 i3)"
  have n3: "\<not> large (ent s2 t2 i3)" using nl(3) growsD(5) [OF grows_trans [OF G1 G2] _ T2, of i3] by auto
  have c2: "1 \<le> card (free_pages s2)" using growsD(6) [OF G2] c1 by simp
  note L3 = descend_level [OF growsD(1) [OF G2] T2 _ _ n3, folded s3_def, folded t3_def]
  have G3: "grows 1 root s2 s3" and T3: "tab s3 root [i1, i2, i3] = Some t3" using L3 c2 by simp_all
  note S3 = grows_same [OF G3]
  have ptr: "slot (t + ?off) (of_nat (P div 512 div 512 div 512 mod 512)) = entry_ptr s t i1"
    "slot (t + ?off) (of_nat (P div 512 div 512 mod 512)) = entry_ptr s t i2"
    "slot (t + ?off) (of_nat (P div 512 mod 512)) = entry_ptr s t i3" for t
    unfolding slot_index by (simp_all add: i page_path_def)
  have n: "next_table s1 (entry_ptr s root i1) = t1 + ?off" "next_table s2 (entry_ptr s t1 i2) = t2 + ?off"
    "next_table s3 (entry_ptr s t2 i3) = t3 + ?off"
    using next_table_ptr [of s1 root i1] next_table_ptr [of s2 t1 i2] next_table_ptr [of s3 t2 i3]
    by (simp_all add: S1 S2 S3 t1_def t2_def t3_def)
  define c' where "c' = (at_page P c)\<lparr>pdpt := t1 + ?off, pdpt_entry := entry_ptr s t1 i2, pd := t2 + ?off,
    pd_entry := entry_ptr s t2 i3, pt := t3 + ?off\<rparr>"
  have "enter_tables (root + ?off) (at_page P c, s) = (c', s3)"
    by (simp add: enter_tables_def enter_pdpt_def enter_pd_def enter_pt_def Let_def at_page_def ptr n c'_def
        s1_def [symmetric] s2_def [unfolded S1, symmetric] s3_def [unfolded S2 S1, symmetric])
  moreover have "grows 3 root s s3" using grows_trans [OF grows_trans [OF G1 G2] G3] by (simp add: numeral_3_eq_3)
  moreover have "linked root P t3 s3 c'"
    using growsD(4) [OF grows_trans [OF G2 G3] _ T1] growsD(4) [OF G3 _ T2] T3
    unfolding linked_def points_to_def i [symmetric] by (simp add: S1 S2 S3 c'_def at_page_def del: tab.simps)
  moreover have "current_phys c' = current_phys c" by (simp add: c'_def at_page_def)
  ultimately show thesis by (rule that)
qed

section \<open>One round\<close>

lemma Suc_mod_512: "Suc P mod 512 = (if P mod 512 = 511 then 0 else Suc (P mod 512))" for P :: nat
  by (simp add: mod_Suc)

lemma Suc_div_512: "Suc P div 512 = (if P mod 512 = 511 then Suc (P div 512) else P div 512)" for P :: nat
  by (simp add: div_Suc mod_Suc)

lemma index_carry: "\<not> of_nat (n mod 512) + 1 > (511 :: u64) \<longleftrightarrow> n mod 512 \<noteq> 511"
  "(of_nat (n mod 512) + 1 :: u64) = of_nat (Suc (n mod 512))"
proof -
  have "unat (of_nat (Suc (n mod 512)) :: u64) = Suc (n mod 512)"
    using mod_less_divisor [of 512 n] by (simp add: unat_of_nat take_bit_nat_eq_self del: of_nat_Suc)
  then have "\<not> of_nat (Suc (n mod 512)) > (511 :: u64) \<longleftrightarrow> n mod 512 \<noteq> 511"
    using mod_less_divisor [of 512 n] by (simp add: word_less_nat_alt del: of_nat_Suc) linarith
  then show "\<not> of_nat (n mod 512) + 1 > (511 :: u64) \<longleftrightarrow> n mod 512 \<noteq> 511" by (simp add: add.commute)
  show "(of_nat (n mod 512) + 1 :: u64) = of_nat (Suc (n mod 512))" by simp
qed

text \<open>The tables above the level of the carry are in place, so entering them again changes nothing.\<close>

lemma enter_in_place:
  fixes s :: "'a vmm_scheme"
  assumes "linked root P t s c"
  shows "pml4_i c' = pml4_i c \<Longrightarrow> pdpt c' = pdpt c \<Longrightarrow> enter_pdpt (root + vmm_page_tables_offset s) (c', s) = (c', s)"
    "pdpt_i c' = pdpt_i c \<Longrightarrow> pdpt c' = pdpt c \<Longrightarrow> pdpt_entry c' = pdpt_entry c \<Longrightarrow> pd c' = pd c \<Longrightarrow> enter_pd (c', s) = (c', s)"
proof -
  define i1 i2 i3 where i: "i1 = page_path P ! 0" "i2 = page_path P ! 1" "i3 = page_path P ! 2"
  let ?off = "vmm_page_tables_offset s"
  obtain t1 t2 where c: "at_page P c = c" "tab s root [i1] = Some t1" "tab s root [i1, i2] = Some t2" "pdpt c = t1 + ?off"
    "pdpt_entry c = entry_ptr s t1 i2" "pd c = t2 + ?off"
    using assms unfolding linked_def points_to_def i [symmetric] by blast
  have ix: "pml4_i c = of_nat (P div 512 div 512 div 512 mod 512)" "pdpt_i c = of_nat (P div 512 div 512 mod 512)"
    using arg_cong [OF c(1), of pml4_i] arg_cong [OF c(1), of pdpt_i] by (simp_all add: at_page_def)
  have ptr: "slot (u + ?off) (pml4_i c) = entry_ptr s u i1" "slot (u + ?off) (pdpt_i c) = entry_ptr s u i2" for u
    unfolding ix slot_index by (simp_all add: i page_path_def)
  have T: "tab s root (i1 # []) \<noteq> None" "tab s (addr (ent s root i1)) (i2 # []) \<noteq> None"
    using c(2,3) by (auto split: if_splits)
  have t: "addr (ent s root i1) = t1" "addr (ent s t1 i2) = t2" using c(2,3) by (auto split: if_splits)
  note S = present_step(1,2) [OF T(1)] present_step(1,2) [OF T(2)]
  show "enter_pdpt (root + ?off) (c', s) = (c', s)" if "pml4_i c' = pml4_i c" "pdpt c' = pdpt c"
    using that by (simp add: enter_pdpt_def Let_def ptr S t c(4))
  show "enter_pd (c', s) = (c', s)" if "pdpt_i c' = pdpt_i c" "pdpt c' = pdpt c" "pdpt_entry c' = pdpt_entry c" "pd c' = pd c"
    using that S(3,4) by (simp add: enter_pd_def Let_def ptr t c(4-6))
qed

lemma linked_indices:
  assumes "linked root P t s c"
  shows "pml4_i c = of_nat (P div 512 div 512 div 512 mod 512)" "pdpt_i c = of_nat (P div 512 div 512 mod 512)"
    "pd_i c = of_nat (P div 512 mod 512)" "pt_i c = of_nat (P mod 512)"
proof -
  have "at_page P c = c" using assms by (simp add: linked_def)
  from arg_cong [OF this, of pml4_i] arg_cong [OF this, of pdpt_i] arg_cong [OF this, of pd_i] arg_cong [OF this, of pt_i]
  show "pml4_i c = of_nat (P div 512 div 512 div 512 mod 512)" "pdpt_i c = of_nat (P div 512 div 512 mod 512)"
    "pd_i c = of_nat (P div 512 mod 512)" "pt_i c = of_nat (P mod 512)" by (simp_all add: at_page_def)
qed

lemma next_page_run:
  fixes s :: "'a vmm_scheme" and a :: u64
  assumes "linked root P t s c" "Suc P < 2 ^ 36"
  defines "c1 \<equiv> c\<lparr>pt_i := pt_i c + 1, current_phys := a\<rparr>"
  shows "P mod 512 \<noteq> 511 \<Longrightarrow> next_page (root + vmm_page_tables_offset s) c1 s = Some (enter_page (c1, s)) \<and> linked root (Suc P) t s c1"
    "P mod 512 = 511 \<Longrightarrow> next_page (root + vmm_page_tables_offset s) c1 s =
      Some (enter_page (enter_tables (root + vmm_page_tables_offset s) (at_page (Suc P) c1, s)))"
proof -
  note ix = linked_indices [OF assms(1)] and in_place = enter_in_place [OF assms(1)]
  let ?root = "root + vmm_page_tables_offset s"
  show "next_page ?root c1 s = Some (enter_page (c1, s)) \<and> linked root (Suc P) t s c1" if "P mod 512 \<noteq> 511"
  proof
    show "next_page ?root c1 s = Some (enter_page (c1, s))" using that by (simp add: next_page_def c1_def ix(4) index_carry(1))
    have "take 3 (page_path (Suc P)) = take 3 (page_path P)" using that by (simp add: page_path_def Suc_div_512)
    from points_to_cong [OF this] have "points_to root (page_path (Suc P)) t s c = points_to root (page_path P) t s c" .
    then have "points_to root (page_path (Suc P)) t s c1" using assms(1) by (simp add: linked_def c1_def)
    moreover have "at_page (Suc P) c1 = c1" using that by (intro at_pageI) (simp_all add: c1_def ix Suc_div_512 Suc_mod_512)
    ultimately show "linked root (Suc P) t s c1" by (simp add: linked_def)
  qed
  assume carry: "P mod 512 = 511"
  let ?c = "at_page (Suc P) c1"
  show "next_page ?root c1 s = Some (enter_page (enter_tables ?root (?c, s)))"
  proof (cases "P div 512 mod 512 = 511")
    case False
    then have c: "?c = c1\<lparr>pt_i := 0, pd_i := pd_i c + 1\<rparr>"
      using carry by (intro cursor.equality) (simp_all add: at_page_def c1_def ix Suc_div_512 Suc_mod_512)
    have "enter_tables ?root (?c, s) = enter_pt (?c, s)"
      unfolding enter_tables_def c using in_place(1) [of "c1\<lparr>pt_i := 0, pd_i := pd_i c + 1\<rparr>"]
        in_place(2) [of "c1\<lparr>pt_i := 0, pd_i := pd_i c + 1\<rparr>"] by (simp add: c1_def)
    then show ?thesis
      unfolding c using carry False by (simp add: next_page_def c1_def ix(3,4) index_carry(1))
  next
    case pd: True
    show ?thesis
    proof (cases "P div 512 div 512 mod 512 = 511")
      case False
      then have c: "?c = c1\<lparr>pt_i := 0, pd_i := 0, pdpt_i := pdpt_i c + 1\<rparr>"
        using carry pd by (intro cursor.equality) (simp_all add: at_page_def c1_def ix Suc_div_512 Suc_mod_512)
      have "enter_tables ?root (?c, s) = enter_pt (enter_pd (?c, s))"
        unfolding enter_tables_def c using in_place(1) [of "c1\<lparr>pt_i := 0, pd_i := 0, pdpt_i := pdpt_i c + 1\<rparr>"] by (simp add: c1_def)
      then show ?thesis
        unfolding c using carry pd False by (simp add: next_page_def c1_def ix(2-4) index_carry(1))
    next
      case True
      have "P div 512 div 512 div 512 < 512" using assms(2) by (simp add: less_mult_imp_div_less)
      moreover have "Suc P div 512 div 512 div 512 < 512" using assms(2) by (simp add: less_mult_imp_div_less)
      ultimately have "P div 512 div 512 div 512 mod 512 \<noteq> 511" using carry pd True by (simp add: Suc_div_512)
      then have top: "P div 512 div 512 div 512 mod 512 \<noteq> 511" "\<not> pml4_i c + 1 > 511"
        using index_carry(1) [of "P div 512 div 512 div 512"] by (simp_all only: ix(1) simp_thms)
      have c: "?c = c1\<lparr>pt_i := 0, pd_i := 0, pdpt_i := 0, pml4_i := pml4_i c + 1\<rparr>"
        using carry pd True by (intro cursor.equality) (simp_all add: at_page_def c1_def ix Suc_div_512 Suc_mod_512 top(1))
      then show ?thesis
        unfolding c using carry pd True by (simp add: next_page_def enter_tables_def c1_def ix(2-4) index_carry(1) top(2))
    qed
  qed
qed

section \<open>What a run changes\<close>

definition run_maps :: "u64 \<Rightarrow> path set \<Rightarrow> 'a vmm_scheme \<Rightarrow> 'a vmm_scheme \<Rightarrow> bool" where
  "run_maps root U s s' \<longleftrightarrow> vmm_inv s' root \<and> only_pmm s s' \<and> free_pages s' \<subseteq> free_pages s \<and>
    (\<forall>q. length q = 4 \<longrightarrow> q \<notin> U \<longrightarrow> translate s' root q = translate s root q) \<and>
    (\<forall>q t i. length q \<le> 2 \<longrightarrow> tab s' root q = Some t \<longrightarrow> large (ent s' t i) \<longrightarrow> tab s root q = Some t \<and> large (ent s t i)) \<and>
    vmm_bytes s' root \<subseteq> vmm_bytes s root \<and> (\<forall>x. x \<notin> vmm_bytes s root \<longrightarrow> mem s' x = mem s x)"

lemma run_mapsD:
  assumes "run_maps root U s s'"
  shows "vmm_inv s' root" "only_pmm s s'" "free_pages s' \<subseteq> free_pages s"
    "length q = 4 \<Longrightarrow> q \<notin> U \<Longrightarrow> translate s' root q = translate s root q"
    "length q \<le> 2 \<Longrightarrow> tab s' root q = Some t \<Longrightarrow> large (ent s' t i) \<Longrightarrow> tab s root q = Some t \<and> large (ent s t i)"
    "vmm_bytes s' root \<subseteq> vmm_bytes s root" "x \<notin> vmm_bytes s root \<Longrightarrow> mem s' x = mem s x"
  using assms unfolding run_maps_def by blast+

lemma run_maps_trans:
  assumes "run_maps root U s s1" "run_maps root V s1 s2"
  shows "run_maps root (U \<union> V) s s2"
proof -
  note A = run_mapsD [OF assms(1)] and B = run_mapsD [OF assms(2)]
  have "only_pmm s s2" using A(2) B(2) by (rule only_pmm_trans)
  moreover have "translate s2 root q = translate s root q" if "length q = 4" "q \<notin> U \<union> V" for q using A(4) B(4) that by simp
  moreover have "mem s2 x = mem s x" if "x \<notin> vmm_bytes s root" for x using A(6,7) B(7) that by (metis subsetD)
  ultimately show ?thesis unfolding run_maps_def using A(3,5,6) B(1,3,5,6) by blast
qed

lemma run_maps_mono: "run_maps root U s s' \<Longrightarrow> U \<subseteq> V \<Longrightarrow> run_maps root V s s'"
  unfolding run_maps_def by blast

lemma run_maps_grows: "grows n root s s' \<Longrightarrow> run_maps root {} s s'"
  unfolding grows_def run_maps_def by blast

lemma run_maps_leaves:
  assumes "leaves root U s s'"
  shows "run_maps root U s s'"
proof -
  note L = leavesD [OF assms]
  have "tab s root q = Some t \<and> large (ent s t i)"
    if "length q \<le> 2" "tab s' root q = Some t" "large (ent s' t i)" for q t i
    using L(4) [of q] L(10) [of q t i] that by simp
  with L show ?thesis unfolding run_maps_def by blast
qed

lemma no_large_run: "run_maps root U s s' \<Longrightarrow> no_large s root p \<Longrightarrow> no_large s' root p"
  unfolding no_large_def
proof (intro allI impI notI)
  fix k t
  assume *: "run_maps root U s s'" "\<forall>k < 3. \<forall>t. tab s root (take k p) = Some t \<longrightarrow> \<not> large (ent s t (p ! k))"
    "k < 3" "tab s' root (take k p) = Some t" "large (ent s' t (p ! k))"
  have "length (take k p) \<le> 2" using *(3) by simp
  from run_mapsD(5) [OF *(1) this *(4,5)] *(2,3) show False by blast
qed

lemma linked_leaves: "leaves root U s s' \<Longrightarrow> linked root P t s c \<Longrightarrow> linked root P t s' c"
  by (simp add: linked_def points_to_def leavesD del: tab.simps)

section \<open>The loop\<close>

definition at_leaf :: "u64 \<Rightarrow> nat \<Rightarrow> u64 \<Rightarrow> 'a vmm_scheme \<Rightarrow> cursor \<Rightarrow> bool" where
  "at_leaf root P t s c \<longleftrightarrow> vmm_inv s root \<and> linked root P t s c \<and> pt_entry c = entry_ptr s t (of_nat P) \<and> present (ent s t (of_nat P))"

lemma page_path_snoc: "page_path P = [page_path P ! 0, page_path P ! 1, page_path P ! 2] @ [of_nat P]"
  by (simp add: page_path_def)

lemma linked_tab: "linked root P t s c \<Longrightarrow> tab s root [page_path P ! 0, page_path P ! 1, page_path P ! 2] = Some t"
  unfolding linked_def points_to_def by blast

lemma enter_leaf:
  fixes s :: "'a vmm_scheme"
  assumes "vmm_inv s root" "linked root P t s c" "0 < card (free_pages s)" "enter_page (c, s) = (c2, s2)"
  shows "at_leaf root P t s2 c2" "leaves root {page_path P} s s2" "card (free_pages s) \<le> card (free_pages s2) + 1"
    "current_phys c2 = current_phys c"
proof -
  have fr: "present (ent s t (of_nat P)) \<or> free_pages s \<noteq> {}" using assms(3) by auto
  have ptr: "slot (pt c) (pt_i c) = entry_ptr s t (of_nat P)"
    using assms(2) linked_indices(4) [OF assms(2)] slot_index [of t s P] unfolding linked_def points_to_def by auto
  then have c2: "c2 = c\<lparr>pt_entry := entry_ptr s t (of_nat P)\<rparr>" "s2 = ensure_present (entry_ptr s t (of_nat P)) s"
    using assms(4) by (simp_all add: enter_page_def Let_def)
  note E = ensure_leaf [OF assms(1) linked_tab [OF assms(2)] _ fr, folded c2(2), folded page_path_snoc]
  show l: "leaves root {page_path P} s s2" using E(1) by simp
  have "linked root P t s2 c" using l assms(2) by (rule linked_leaves)
  then have "linked root P t s2 c2"
    using linked_indices [OF assms(2)] unfolding linked_def c2(1) by (intro conjI at_pageI) simp_all
  then show "at_leaf root P t s2 c2"
    unfolding at_leaf_def using leavesD(1,9) [OF l] E(2) by (simp add: c2(1))
  show "card (free_pages s) \<le> card (free_pages s2) + 1" using E(3) by (simp split: if_splits)
  show "current_phys c2 = current_phys c" by (simp add: c2)
qed

text \<open>The pages that the rounds behind the first one take: one for each entry of the last level, three for each table entered.\<close>

fun run_cost :: "nat \<Rightarrow> nat \<Rightarrow> nat" where
  "run_cost P 0 = 0"
| "run_cost P (Suc r) = (if P mod 512 = 511 then 4 else 1) + run_cost (Suc P) r"

lemma run_cost: "run_cost P r = r + 3 * ((P mod 512 + r) div 512)"
proof (induction r arbitrary: P)
  case (Suc r)
  have "(511 + Suc r) div 512 = Suc (r div 512)" by simp
  then show ?case using Suc.IH [of "Suc P"] by (simp add: Suc_mod_512)
qed (simp add: div_eq_0_iff)

lemma next_round:
  fixes s :: "'a vmm_scheme" and a :: u64
  assumes "at_leaf root P t s c" "Suc P < 2 ^ 36" "no_large s root (page_path (Suc P))"
    and "(if P mod 512 = 511 then 4 else 1) \<le> card (free_pages s)"
  defines "s1 \<equiv> set_entry_address (pt_entry c) a s"
  shows "\<exists>t2 c2 s2. next_page (root + vmm_page_tables_offset s) (c\<lparr>pt_i := pt_i c + 1, current_phys := a + 0x1000\<rparr>) s1 = Some (c2, s2) \<and>
    at_leaf root (Suc P) t2 s2 c2 \<and> current_phys c2 = a + 0x1000 \<and> run_maps root {page_path P, page_path (Suc P)} s s2 \<and>
    translate s2 root (page_path P) = Some (addr a) \<and>
    card (free_pages s) \<le> card (free_pages s2) + (if P mod 512 = 511 then 4 else 1)"
proof -
  let ?c = "c\<lparr>pt_i := pt_i c + 1, current_phys := a + 0x1000\<rparr>" and ?root = "root + vmm_page_tables_offset s"
  have A: "vmm_inv s root" "linked root P t s c" "pt_entry c = entry_ptr s t (of_nat P)" "present (ent s t (of_nat P))"
    using assms(1) by (simp_all add: at_leaf_def)
  note S = set_leaf_address [OF A(1) linked_tab [OF A(2)] _ A(4), where a = a, folded A(3), folded s1_def, folded page_path_snoc, simplified]
  note S1 = leavesD [OF S(1)]
  have l1: "linked root P t s1 c" using S(1) A(2) by (rule linked_leaves)
  note N = next_page_run [OF l1 assms(2), of "a + 0x1000", unfolded S1(8)]
  have nl: "no_large s1 root (page_path (Suc P))" using run_maps_leaves [OF S(1)] assms(3) by (rule no_large_run)
  obtain t2 c1 s' n where m: "next_page ?root ?c s1 = Some (enter_page (c1, s'))" "linked root (Suc P) t2 s' c1" "vmm_inv s' root"
    "grows 3 root s1 s'" "current_phys c1 = a + 0x1000" "n = (if P mod 512 = 511 then 3 else 0)"
    "card (free_pages s1) \<le> card (free_pages s') + n"
  proof (cases "P mod 512 = 511")
    case False
    with N(1) S1(1) show thesis by (intro that [of ?c s1 t 0]) (simp_all add: grows_refl)
  next
    case True
    have "3 \<le> card (free_pages s1)" using assms(4) True S(3) by simp
    from enter_tables [OF S1(1) nl this, of ?c] obtain t2 c' s' where e: "enter_tables ?root (at_page (Suc P) ?c, s1) = (c', s')"
      "grows 3 root s1 s'" "linked root (Suc P) t2 s' c'" "current_phys c' = current_phys ?c" unfolding S1(8) by blast
    from N(2) [OF True] e show thesis
      using growsD(1,6) [OF e(2)] True by (intro that [of c' s' t2 3]) simp_all
  qed
  obtain c2 s2 where e: "enter_page (c1, s') = (c2, s2)" by fastforce
  have "0 < card (free_pages s')" using m(6,7) assms(4) S(3) by (auto split: if_splits)
  note E = enter_leaf [OF m(3,2) this e]
  have q: "length (page_path P) = 4" "page_path P \<noteq> page_path (Suc P)"
    using page_path_inject [of P "Suc P"] assms(2) by (simp_all add: page_path_def)
  have "translate s2 root (page_path P) = translate s' root (page_path P)" using leavesD(5) [OF E(2) q(1)] q(2) by simp
  also have "\<dots> = Some (addr a)" using growsD(3) [OF m(4) q(1)] S(2) by simp
  finally have tr: "translate s2 root (page_path P) = Some (addr a)" .
  have "run_maps root ({page_path P} \<union> ({} \<union> {page_path (Suc P)})) s s2"
    by (intro run_maps_trans [OF run_maps_leaves [OF S(1)] run_maps_trans [OF run_maps_grows [OF m(4)] run_maps_leaves [OF E(2)]]])
  then have rm: "run_maps root {page_path P, page_path (Suc P)} s s2" by (simp add: insert_commute)
  have "card (free_pages s) \<le> card (free_pages s2) + (if P mod 512 = 511 then 4 else 1)"
    using m(6,7) E(3) S(3) by (simp split: if_splits)
  then show ?thesis
    using m(1,5) e E(1,4) tr rm by (intro exI [of _ t2] exI [of _ c2] exI [of _ s2]) simp
qed

lemma small_round_run:
  assumes "linked root P t s c" "unat n = unat i + Suc r" "P mod 512 = 0 \<longrightarrow> Suc r \<le> 513"
  shows "small_round n i c" "i < n"
proof -
  show i: "i < n" using assms(2) by (simp add: word_less_nat_alt)
  show "small_round n i c"
  proof (cases "P mod 512 = 0")
    case True
    then show ?thesis using assms(2,3) i by (intro small_round) simp_all
  next
    case False
    have "pt_i c \<noteq> 0"
      using False linked_indices(4) [OF assms(1)] mod_less_divisor [of 512 P]
      by (simp add: word_unat_eq_iff unat_of_nat take_bit_nat_eq_self)
    then show ?thesis by (simp add: small_round_def huge_round_def large_round_def)
  qed
qed

lemma run_insert: "(\<lambda>j. page_path (P + j)) ` {..<Suc n} = insert (page_path P) ((\<lambda>j. page_path (Suc P + j)) ` {..<n})"
  by (simp only: lessThan_Suc_eq_insert_0 image_insert image_image add_Suc_right add_Suc add_0_right)

lemma map_pages_loop_run:
  fixes s :: "'a vmm_scheme"
  assumes "at_leaf root P t s c" "unat n = unat i + Suc r" "P + Suc r \<le> 2 ^ 36"
    and "P mod 512 + Suc r \<le> (if P mod 512 = 0 then 513 else 1025)"
    and "\<forall>j < Suc r. no_large s root (page_path (P + j))" and "run_cost P r \<le> card (free_pages s)"
  defines "s' \<equiv> map_pages_loop (root + vmm_page_tables_offset s) n i c s"
  shows "run_maps root ((\<lambda>j. page_path (P + j)) ` {..<Suc r}) s s' \<and>
    (\<forall>j < Suc r. translate s' root (page_path (P + j)) = Some (addr (current_phys c + of_nat (4096 * j))))"
  using assms(1-6) unfolding s'_def
proof (induction r arbitrary: P t s c i)
  case (0 P t s c i)
  then have A: "vmm_inv s root" "linked root P t s c" "pt_entry c = entry_ptr s t (of_nat P)" "present (ent s t (of_nat P))"
    by (simp_all add: at_leaf_def)
  have "map_pages_loop (root + vmm_page_tables_offset s) n i c s = set_entry_address (pt_entry c) (current_phys c) s"
    using 0(2) by (simp add: map_pages_small [OF small_round_run [OF A(2) 0(2)]] Let_def)
  then show ?case
    using set_leaf_address(1,2) [OF A(1) linked_tab [OF A(2)] _ A(4), where a = "current_phys c", folded A(3), folded page_path_snoc]
    by (simp add: lessThan_Suc run_maps_leaves)
next
  case (Suc r P t s c i)
  let ?root = "root + vmm_page_tables_offset s"
  have l: "linked root P t s c" using Suc.prems(1) by (simp add: at_leaf_def)
  have small: "P mod 512 = 0 \<longrightarrow> Suc (Suc r) \<le> 513" using Suc.prems(4) by auto
  note R = small_round_run [OF l Suc.prems(2) small]
  have P: "Suc P < 2 ^ 36" and nl: "no_large s root (page_path (Suc P))"
    and c: "(if P mod 512 = 511 then 4 else 1) \<le> card (free_pages s)"
    using Suc.prems(3,6) Suc.prems(5) [rule_format, of 1] by (simp_all split: if_splits)
  define s1 where "s1 = set_entry_address (pt_entry c) (current_phys c) s"
  obtain t2 c2 s2 where N: "next_page ?root (c\<lparr>pt_i := pt_i c + 1, current_phys := current_phys c + 0x1000\<rparr>) s1 = Some (c2, s2)"
    "at_leaf root (Suc P) t2 s2 c2" "current_phys c2 = current_phys c + 0x1000" "run_maps root {page_path P, page_path (Suc P)} s s2"
    "translate s2 root (page_path P) = Some (addr (current_phys c))"
    "card (free_pages s) \<le> card (free_pages s2) + (if P mod 512 = 511 then 4 else 1)"
    using next_round [OF Suc.prems(1) P nl c, of "current_phys c", folded s1_def] by blast
  note off = only_pmm_vmm(1) [OF run_mapsD(2) [OF N(4)]]
  let ?s' = "map_pages_loop ?root n (i + 1) c2 s2"
  have step: "map_pages_loop ?root n i c s = ?s'"
    using Suc.prems(2) N(1) by (simp add: map_pages_small [OF R] Let_def s1_def)
  have "run_maps root ((\<lambda>j. page_path (Suc P + j)) ` {..<Suc r}) s2 (map_pages_loop (root + vmm_page_tables_offset s2) n (i + 1) c2 s2) \<and>
    (\<forall>j < Suc r. translate (map_pages_loop (root + vmm_page_tables_offset s2) n (i + 1) c2 s2) root (page_path (Suc P + j)) =
      Some (addr (current_phys c2 + of_nat (4096 * j))))"
  proof (rule Suc.IH [OF N(2)])
    show "unat n = unat (i + 1) + Suc r" using Suc.prems(2) u64_Suc [OF R(2)] by simp
    show "Suc P mod 512 + Suc r \<le> (if Suc P mod 512 = 0 then 513 else 1025)"
      using Suc.prems(4) mod_less_divisor [of 512 P] by (simp add: Suc_mod_512 split: if_splits)
    show "\<forall>j < Suc r. no_large s2 root (page_path (Suc P + j))"
      using Suc.prems(5) no_large_run [OF N(4)] by (metis Suc_less_eq add_Suc_shift)
    show "run_cost (Suc P) r \<le> card (free_pages s2)" using Suc.prems(6) N(6) by simp
  qed (use Suc.prems(3) in simp)
  note IH = conjunct1 [OF this, unfolded off] conjunct2 [OF this, unfolded off]
  have "page_path (Suc P) \<in> (\<lambda>j. page_path (Suc P + j)) ` {..<Suc r}" by (rule image_eqI [of _ _ 0]) simp_all
  then have rm: "run_maps root ((\<lambda>j. page_path (P + j)) ` {..<Suc (Suc r)}) s ?s'"
    unfolding run_insert [of P "Suc r"] by (intro run_maps_mono [OF run_maps_trans [OF N(4) IH(1)]]) blast
  have "page_path P \<noteq> page_path (Suc P + j)" if "j < Suc r" for j
    using page_path_inject [of P "Suc P + j"] Suc.prems(3) that by simp
  then have "translate ?s' root (page_path P) = Some (addr (current_phys c))"
    using run_mapsD(4) [OF IH(1), of "page_path P"] N(5) by (auto simp: page_path_def [of P])
  then have "translate ?s' root (page_path (P + j)) = Some (addr (current_phys c + of_nat (4096 * j)))" if "j < Suc (Suc r)" for j
    using that IH(2) N(3) by (cases j) (simp_all add: algebra_simps)
  then show ?case unfolding step using rm by blast
qed

lemma map_pages_start:
  fixes s :: "'a vmm_scheme" and v a :: u64
  defines "P \<equiv> unat v div 4096 mod 2 ^ 36"
  assumes "vmm_inv s root" "no_large s root (page_path P)" "3 < card (free_pages s)"
  obtains t c s1 where "vmm_map_pages_pml4 (root + vmm_page_tables_offset s) a v n s = map_pages_loop (root + vmm_page_tables_offset s) n 0 c s1"
    "at_leaf root P t s1 c" "current_phys c = convert_to_phys s a" "run_maps root {page_path P} s s1"
    "card (free_pages s) \<le> card (free_pages s1) + 4"
proof -
  let ?root = "root + vmm_page_tables_offset s"
  let ?c = "\<lparr>pml4_i = PML4_INDEX v, pdpt_i = PDPT_INDEX v, pd_i = PD_INDEX v, pt_i = PT_INDEX v,
    pdpt = 0, pdpt_entry = 0, pd = 0, pd_entry = 0, pt = 0, pt_entry = 0, current_phys = convert_to_phys s a\<rparr>"
  have "page_path P = path_of v" using path_of_add [of v 0] by (simp add: P_def)
  then have ix: "PML4_INDEX v = ucast (page_path P ! 0)" "PDPT_INDEX v = ucast (page_path P ! 1)"
    "PD_INDEX v = ucast (page_path P ! 2)" "PT_INDEX v = ucast (page_path P ! 3)" by (simp_all only: index_path)
  have "ucast (of_nat k :: 9 word) = (of_nat (k mod 512) :: u64)" for k using small_index [of "k mod 512"] by (simp add: index_mod)
  then have c: "?c = at_page P ?c" using ix by (simp add: at_page_def page_path_def)
  have "3 \<le> card (free_pages s)" using assms(4) by simp
  then obtain t c1 s' where e: "enter_tables ?root (?c, s) = (c1, s')" "grows 3 root s s'" "linked root P t s' c1"
    "current_phys c1 = current_phys ?c" by (rule enter_tables [OF assms(2,3), of ?c, folded c])
  note G = growsD [OF e(2)]
  obtain c2 s2 where l: "enter_page (c1, s') = (c2, s2)" by fastforce
  have "0 < card (free_pages s')" using G(6) assms(4) by simp
  note L = enter_leaf [OF G(1) e(3) this l]
  have "run_maps root ({} \<union> {page_path P}) s s2" by (rule run_maps_trans [OF run_maps_grows [OF e(2)] run_maps_leaves [OF L(2)]])
  moreover have "vmm_map_pages_pml4 ?root a v n s = map_pages_loop ?root n 0 c2 s2"
    using e(1) l by (simp add: vmm_map_pages_pml4_def Let_def enter_tables_def)
  moreover have "card (free_pages s) \<le> card (free_pages s2) + 4" using G(6) L(3) by simp
  ultimately show thesis using L(1,4) e(4) by (intro that) simp_all
qed

section \<open>Property\<close>

text \<open>
  C11. A run of pages is mapped page by page across the borders of page tables, page directories and directory pointer tables, whether the
  tables exist or not: the page behind each address leads to the next physical page, every other translation stays, and
  only the bytes of tables, free pages and the bitmap are written. The run is short enough to be mapped by pages of 4 KiB, stays
  below the last entry of the root table, and meets no large page, which the code would take for a table.
\<close>

theorem vmm_map_pages_run:
  fixes s :: "'a vmm_scheme" and a v n root :: u64
  defines "page \<equiv> \<lambda>j. v + of_nat (4096 * j)" and "s' \<equiv> vmm_map_pages_pml4 (root + vmm_page_tables_offset s) a v n s"
    and "k \<equiv> unat (path_of v ! 3)"
  assumes "vmm_inv s root" and "0 < n" and "k + unat n \<le> (if k = 0 then 513 else 1025)"
    and "unat v div 4096 mod 2 ^ 36 + unat n \<le> 2 ^ 36"
    and "\<forall>j < unat n. no_large s root (path_of (page j))"
    and "unat n + 3 * Suc ((k + unat n - 1) div 512) \<le> card (free_pages s)"
  shows "vmm_inv s' root \<and>
    (\<forall>j < unat n. translate s' root (path_of (page j)) = Some (addr (convert_to_phys s a + of_nat (4096 * j)))) \<and>
    (\<forall>q. length q = 4 \<and> q \<notin> (\<lambda>j. path_of (page j)) ` {..<unat n} \<longrightarrow> translate s' root q = translate s root q) \<and>
    (\<forall>x. x \<notin> vmm_bytes s root \<longrightarrow> mem s' x = mem s x) \<and> free_pages s' \<subseteq> free_pages s"
proof -
  define P where "P = unat v div 4096 mod 2 ^ 36"
  have p: "path_of (page j) = page_path (P + j)" for j unfolding page_def P_def by (rule path_of_add)
  have k: "P mod 512 = k" by (simp add: P_def k_def unat_path mod_mod_cancel)
  obtain r where r: "unat n = Suc r" using assms(5) by (cases "unat n") (simp_all add: word_less_nat_alt)
  have nl: "no_large s root (page_path (P + j))" if "j < Suc r" for j using assms(8) that unfolding p r by blast
  have c: "3 < card (free_pages s)" using assms(9) r by simp
  obtain t c s1 where S: "s' = map_pages_loop (root + vmm_page_tables_offset s) n 0 c s1"
    "at_leaf root P t s1 c" "current_phys c = convert_to_phys s a" "run_maps root {page_path P} s s1"
    "card (free_pages s) \<le> card (free_pages s1) + 4"
    unfolding s'_def P_def by (rule map_pages_start [OF assms(4) _ c, of v a n]) (use nl [of 0] in \<open>simp_all add: P_def\<close>)
  note off = only_pmm_vmm(1) [OF run_mapsD(2) [OF S(4)]]
  have "run_maps root ((\<lambda>j. page_path (P + j)) ` {..<Suc r}) s1 s' \<and>
    (\<forall>j < Suc r. translate s' root (page_path (P + j)) = Some (addr (current_phys c + of_nat (4096 * j))))"
    unfolding S(1) off [symmetric]
  proof (rule map_pages_loop_run [OF S(2)])
    show "P mod 512 + Suc r \<le> (if P mod 512 = 0 then 513 else 1025)"
      using assms(6) r k by simp
    show "run_cost P r \<le> card (free_pages s1)" using assms(9) S(5) r k by (simp add: run_cost)
    show "\<forall>j < Suc r. no_large s1 root (page_path (P + j))" using nl no_large_run [OF S(4)] by blast
  qed (use assms(7) r in \<open>simp_all add: P_def\<close>)
  then have R: "run_maps root ((\<lambda>j. page_path (P + j)) ` {..<Suc r}) s1 s'"
    "\<forall>j < Suc r. translate s' root (page_path (P + j)) = Some (addr (convert_to_phys s a + of_nat (4096 * j)))"
    unfolding S(3) by blast+
  have "page_path P \<in> (\<lambda>j. page_path (P + j)) ` {..<Suc r}" by (rule image_eqI [of _ _ 0]) simp_all
  then have "run_maps root ((\<lambda>j. page_path (P + j)) ` {..<Suc r}) s s'"
    by (intro run_maps_mono [OF run_maps_trans [OF S(4) R(1)]]) blast
  from run_mapsD(1,3,4,7) [OF this] R(2) show ?thesis unfolding p r by blast
qed

theorem vmm_map_pages_run_witness:
  "translate (vmm_map_pages_pml4 (demo_root + vmm_page_tables_offset demo_vmm) 0x20000000 0x3FFFF000 3 demo_vmm)
    demo_root [0, 1, 0, 1] = Some 0x20002000"
proof -
  have p: "path_of (0x3FFFF000 + of_nat (4096 * 2)) = [0, 1, 0, 1]" "path_of 0x3FFFF000 = [0, 0, 511, 511]" by (simp_all add: path_of_def)
  have "vmm_virt_to_phys demo_vmm a = UINT64_MAX" for a
    using virt_to_phys [OF demo_vmm_inv(1,4,3), of a] demo_vmm_inv(5) by (simp add: path_of_def del: translate.simps)
  then have a: "convert_to_phys demo_vmm a = a" for a by (simp add: convert_to_phys_def)
  have nl: "no_large demo_vmm demo_root (path_of w)" for w
    unfolding no_large_def
  proof (intro allI impI)
    fix k t assume *: "k < 3" "tab demo_vmm demo_root (take k (path_of w)) = Some t"
    obtain i q where w: "path_of w = i # q" by (simp add: path_of_def)
    have "k = 0" using * demo_vmm_inv(6) by (cases k) (simp_all add: w del: tab.simps)
    moreover have "entry_ok 0 (ent demo_vmm demo_root (path_of w ! 0))"
      using vmm_invD(6) [OF demo_vmm_inv(1), of "[]" demo_root] by simp
    ultimately show "\<not> large (ent demo_vmm t (path_of w ! k))" using *(2) by (simp add: entry_ok_def)
  qed
  have "\<forall>j < unat (3 :: u64). translate (vmm_map_pages_pml4 (demo_root + vmm_page_tables_offset demo_vmm) 0x20000000 0x3FFFF000 3 demo_vmm)
    demo_root (path_of (0x3FFFF000 + of_nat (4096 * j))) = Some (addr (convert_to_phys demo_vmm 0x20000000 + of_nat (4096 * j)))"
    using vmm_map_pages_run [OF demo_vmm_inv(1), of 3 "0x3FFFF000" "0x20000000"] nl by (simp add: p(2) demo_vmm_inv(2) del: of_nat_mult translate.simps)
  then have "translate (vmm_map_pages_pml4 (demo_root + vmm_page_tables_offset demo_vmm) 0x20000000 0x3FFFF000 3 demo_vmm)
    demo_root (path_of (0x3FFFF000 + of_nat (4096 * 2))) = Some (addr (0x20000000 + of_nat (4096 * 2)))"
    unfolding a by (elim allE [of _ 2]) (simp del: translate.simps)
  then show ?thesis unfolding p(1) by (simp add: vmm_pt_entry_get_address_def del: translate.simps)
qed

end
