(* ===== verification/Vector.thy ===== *)
theory Vector
  imports Heap_Correct
begin

text \<open>
  \<open>src/inc/vector.c\<close>: growing arrays of pointers. The structure \<open>vector_t\<close> (a 64-bit \<open>length\<close> and the pointer
  \<open>items\<close>, 16 bytes) and the array live in heap blocks. An operation that calls the allocator is \<open>None\<close>
  when that does not return. The loops read \<open>v->length\<close> from memory in every round, as the code does.

  The section on the specification says what a vector is, a list of words, and ties it to the heap: structure and
  array are two segments in use. Growing, inserting and deleting are then list operations.
\<close>

section \<open>The operations\<close>

definition vector_length :: "memory \<Rightarrow> u64 \<Rightarrow> u64" where "vector_length m v = load64 m v"
definition vector_items :: "memory \<Rightarrow> u64 \<Rightarrow> u64" where "vector_items m v = load64 m (v + 8)"
definition set_length :: "u64 \<Rightarrow> u64 \<Rightarrow> 'a heap_scheme \<Rightarrow> 'a heap_scheme" where
  "set_length v n s = s\<lparr>mem := store64 (mem s) v n\<rparr>"
definition set_items :: "u64 \<Rightarrow> u64 \<Rightarrow> 'a heap_scheme \<Rightarrow> 'a heap_scheme" where
  "set_items v p s = s\<lparr>mem := store64 (mem s) (v + 8) p\<rparr>"

text \<open>\<open>v->items[i]\<close>, read and written.\<close>

definition item :: "memory \<Rightarrow> u64 \<Rightarrow> u64 \<Rightarrow> u64" where
  "item m v i = load64 m (vector_items m v + 8 * i)"
definition set_item :: "u64 \<Rightarrow> u64 \<Rightarrow> u64 \<Rightarrow> 'a heap_scheme \<Rightarrow> 'a heap_scheme" where
  "set_item v i x s = s\<lparr>mem := store64 (mem s) (vector_items (mem s) v + 8 * i) x\<rparr>"

definition vector_init :: "'a heap_scheme \<Rightarrow> (u64 \<times> 'a heap_scheme) option" where
  "vector_init s =
    (case malloc 16 s of None \<Rightarrow> None
     | Some (v, s) \<Rightarrow>
       (let s = set_length v 0 s
        in case malloc 8 s of None \<Rightarrow> None
           | Some (p, s) \<Rightarrow> Some (v, set_items v p s)))"

definition vector_free :: "u64 \<Rightarrow> 'a heap_scheme \<Rightarrow> 'a heap_scheme option" where
  "vector_free v s =
    (let s = set_length v 0 s
     in case free (vector_items (mem s) v) s of None \<Rightarrow> None | Some s \<Rightarrow> free v s)"

definition vector_size :: "'a heap_scheme \<Rightarrow> u64 \<Rightarrow> u64" where
  "vector_size s v = vector_length (mem s) v"

definition vector_grow :: "u64 \<Rightarrow> 'a heap_scheme \<Rightarrow> 'a heap_scheme option" where
  "vector_grow v s =
    (let s = set_length v (vector_length (mem s) v + 1) s
     in case realloc (vector_items (mem s) v) (vector_length (mem s) v * 8) s of None \<Rightarrow> None
        | Some (p, s) \<Rightarrow> Some (set_items v p s))"

definition vector_add :: "u64 \<Rightarrow> u64 \<Rightarrow> 'a heap_scheme \<Rightarrow> 'a heap_scheme option" where
  "vector_add v address s =
    (case vector_grow v s of None \<Rightarrow> None
     | Some s \<Rightarrow> Some (set_item v (vector_length (mem s) v - 1) address s))"

definition vector_get :: "'a heap_scheme \<Rightarrow> u64 \<Rightarrow> u64 \<Rightarrow> u64" where
  "vector_get s v index =
    (if index \<ge> vector_length (mem s) v then 0 else item (mem s) v index)"

function shift_up :: "u64 \<Rightarrow> u64 \<Rightarrow> u64 \<Rightarrow> 'a heap_scheme \<Rightarrow> 'a heap_scheme" where
  "shift_up v index i s =
    (if i > index then shift_up v index (i - 1) (set_item v i (item (mem s) v (i - 1)) s) else s)"
  by pat_completeness auto
termination
  by (relation "measure (\<lambda>(_, _, i, _). unat i)") (auto simp: word_less_nat_alt unat_sub_if_size)

declare shift_up.simps [simp del]

definition vector_insert :: "u64 \<Rightarrow> u64 \<Rightarrow> u64 \<Rightarrow> 'a heap_scheme \<Rightarrow> 'a heap_scheme option" where
  "vector_insert v index address s =
    (if index > vector_length (mem s) v then Some s
     else case vector_grow v s of None \<Rightarrow> None
       | Some s \<Rightarrow>
         Some (set_item v index address (shift_up v index (vector_length (mem s) v - 1) s)))"

definition vector_delete_all :: "u64 \<Rightarrow> 'a heap_scheme \<Rightarrow> 'a heap_scheme option" where
  "vector_delete_all v s =
    (let s = set_length v 0 s
     in case free (vector_items (mem s) v) s of None \<Rightarrow> None
        | Some s \<Rightarrow>
          (case malloc 8 s of None \<Rightarrow> None | Some (p, s) \<Rightarrow> Some (set_items v p s)))"

partial_function (option) free_items :: "u64 \<Rightarrow> u64 \<Rightarrow> 'a heap_scheme \<Rightarrow> 'a heap_scheme option" where
  "free_items v i s =
    (if i < vector_length (mem s) v then
       (case free (item (mem s) v i) s of None \<Rightarrow> None | Some s \<Rightarrow> free_items v (i + 1) s)
     else Some s)"

definition vector_free_all :: "u64 \<Rightarrow> 'a heap_scheme \<Rightarrow> 'a heap_scheme option" where
  "vector_free_all v s = (case free_items v 0 s of None \<Rightarrow> None | Some s \<Rightarrow> vector_delete_all v s)"

partial_function (option) shift_down :: "u64 \<Rightarrow> u64 \<Rightarrow> 'a heap_scheme \<Rightarrow> 'a heap_scheme option" where
  "shift_down v i s =
    (if i < vector_length (mem s) v then shift_down v (i + 1) (set_item v (i - 1) (item (mem s) v i) s)
     else Some s)"

definition vector_delete_at :: "u64 \<Rightarrow> u64 \<Rightarrow> 'a heap_scheme \<Rightarrow> 'a heap_scheme option" where
  "vector_delete_at v index s =
    (case (if index + 1 < vector_length (mem s) v then shift_down v (index + 1) s else Some s) of
       None \<Rightarrow> None
     | Some s \<Rightarrow> Some (set_length v (vector_length (mem s) v - 1) s))"

section \<open>Specification\<close>

text \<open>
  The two segments are \<open>x\<close>, with the structure, and \<open>y\<close>, with the array; \<open>cap\<close> is the number of items
  that the array can hold.
\<close>

definition elems :: "memory \<Rightarrow> u64 \<Rightarrow> nat \<Rightarrow> u64 list" where
  "elems m p n = map (\<lambda>i. load64 m (p + of_nat 8 * of_nat i)) [0..<n]"

definition is_vec :: "memory \<Rightarrow> u64 \<Rightarrow> nat \<Rightarrow> seg list \<Rightarrow> seg \<Rightarrow> seg \<Rightarrow> u64 list \<Rightarrow> bool" where
  "is_vec m base e hs x y xs \<longleftrightarrow> heap_list m base e hs \<and> x \<in> set hs \<and> y \<in> set hs \<and> x \<noteq> y \<and>
    \<not> seg_free x \<and> \<not> seg_free y \<and> 16 \<le> seg_size x \<and> 8 * length xs \<le> seg_size y \<and>
    vector_length m (seg_addr x + sizeof_hdr) = of_nat (length xs) \<and>
    vector_items m (seg_addr x + sizeof_hdr) = seg_addr y + sizeof_hdr \<and>
    elems m (seg_addr y + sizeof_hdr) (length xs) = xs"

definition is_vector :: "memory \<Rightarrow> u64 \<Rightarrow> nat \<Rightarrow> seg list \<Rightarrow> u64 \<Rightarrow> u64 list \<Rightarrow> bool" where
  "is_vector m base e hs v xs \<longleftrightarrow> (\<exists>x y. v = seg_addr x + sizeof_hdr \<and> is_vec m base e hs x y xs)"

section \<open>Memory of arrays\<close>

lemma load64_within:
  assumes "within lo hi m m'" "unat a + 8 \<le> lo \<or> hi \<le> unat a" "unat a + 8 \<le> 2 ^ 64"
  shows "load64 m' a = load64 m a"
proof (rule cell64.rd_cong)
  fix k :: nat assume "k < 8"
  then have "unat (a + of_nat k) = unat a + k" using assms(3) by (intro unat_plus) simp
  then show "m' (a + of_nat k) = m (a + of_nat k)"
    using assms(1,2) \<open>k < 8\<close> unfolding within_def by auto
qed

lemma store64_within: "unat a + 8 \<le> 2 ^ 64 \<Longrightarrow> within (unat a) (unat a + 8) m (store64 m a w)"
  using within_range [of a 0 8 "store64 m a w" m "unat a + 8"] by (simp add: cell64.wr_outside)

lemma length_elems [simp]: "length (elems m p n) = n"
  by (simp add: elems_def)

lemma elems_nth: "i < n \<Longrightarrow> elems m p n ! i = load64 m (p + of_nat 8 * of_nat i)"
  by (simp add: elems_def)

lemma unat_item: "unat (p :: u64) + 8 * n \<le> 2 ^ 64 \<Longrightarrow> i < n \<Longrightarrow> unat (p + of_nat 8 * of_nat i) = unat p + 8 * i"
  using unat_plus [of p "8 * i"] by simp

lemma elems_cong:
  assumes "unat p + 8 * n \<le> 2 ^ 64" "within lo hi m m'" "unat p + 8 * n \<le> lo \<or> hi \<le> unat p"
  shows "elems m' p n = elems m p n"
proof -
  have "load64 m' (p + of_nat 8 * of_nat i) = load64 m (p + of_nat 8 * of_nat i)" if "i < n" for i
    by (rule load64_within [OF assms(2)]) (use assms(1,3) that unat_item [OF assms(1) that] in auto)
  then show ?thesis by (simp add: elems_def)
qed

lemma elems_store:
  assumes "unat p + 8 * n \<le> 2 ^ 64" "i < n"
  shows "elems (store64 m (p + of_nat 8 * of_nat i) w) p n = (elems m p n)[i := w]"
proof (rule nth_equalityI)
  fix j assume "j < length (elems (store64 m (p + of_nat 8 * of_nat i) w) p n)"
  then have j: "j < n" by simp
  have u: "unat (of_nat i :: u64) = i" "unat (of_nat j :: u64) = j"
    using assms j by (simp_all add: unat_of_nat take_bit_nat_eq_self)
  have "8 * (unat (of_nat i :: u64) + 1) \<le> 2 ^ 64" "8 * (unat (of_nat j :: u64) + 1) \<le> 2 ^ 64"
    using assms j unfolding u by simp_all
  then have "load64 (store64 m (p + of_nat 8 * of_nat i) w) (p + of_nat 8 * of_nat j) =
      (if (of_nat j :: u64) = of_nat i then w else load64 m (p + of_nat 8 * of_nat j))"
    by (intro cell64.rd_wr_slot)
  moreover have "(of_nat j :: u64) = of_nat i \<longleftrightarrow> j = i" using u by metis
  ultimately show "elems (store64 m (p + of_nat 8 * of_nat i) w) p n ! j = (elems m p n)[i := w] ! j"
    using j by (simp add: elems_nth nth_list_update)
qed simp

section \<open>Vectors in the heap\<close>

lemma heap_list_write:
  assumes "heap_list m base e hs" "x \<in> set hs" "within (unat (seg_addr x) + 21) (seg_end x) m m'"
  shows "heap_list m' base e hs"
proof -
  obtain ys zs where "hs = ys @ x # zs" using assms(2) by (meson split_list)
  with assms heap_list_payload show ?thesis by metis
qed

lemma heap_list_distinct_segs:
  assumes "heap_list m base e hs" "x \<in> set hs" "y \<in> set hs" "x \<noteq> y"
  shows "seg_end y \<le> unat (seg_addr x) \<or> seg_end x \<le> unat (seg_addr y)"
proof -
  obtain ys zs where hs: "hs = ys @ x # zs" using assms(2) by (meson split_list)
  then have "y \<in> set ys \<union> set zs" using assms(3,4) by auto
  with heap_list_apart assms(1) hs show ?thesis by metis
qed

lemma heap_list_seg:
  assumes "heap_list m base e hs" "x \<in> set hs"
  shows "unat (seg_addr x + sizeof_hdr) = unat (seg_addr x) + 21"
    "unat (seg_addr x) + 21 + seg_size x = seg_end x" "seg_end x < 2 ^ 64" "seg_size x < 2 ^ 32"
proof -
  obtain ys zs where hs: "hs = ys @ x # zs" using assms(2) by (meson split_list)
  with assms(1) have h: "heap_list m base e (ys @ x # zs)" by simp
  show "unat (seg_addr x + sizeof_hdr) = unat (seg_addr x) + 21" by (rule seg_block [OF h])
  show "unat (seg_addr x) + 21 + seg_size x = seg_end x" "seg_end x < 2 ^ 64"
    using heap_list_bounds [OF h] by simp_all
  have "seg_ok m e x" using h by (simp add: heap_list_split)
  then show "seg_size x < 2 ^ 32" by (rule hdr_size_u64)
qed

lemma is_vecD:
  assumes "is_vec m base e hs x y xs"
  shows "heap_list m base e hs" "x \<in> set hs" "y \<in> set hs" "x \<noteq> y" "\<not> seg_free x" "\<not> seg_free y"
    "16 \<le> seg_size x" "8 * length xs \<le> seg_size y"
    "vector_length m (seg_addr x + sizeof_hdr) = of_nat (length xs)"
    "vector_items m (seg_addr x + sizeof_hdr) = seg_addr y + sizeof_hdr"
    "elems m (seg_addr y + sizeof_hdr) (length xs) = xs"
    "unat (seg_addr x + sizeof_hdr) = unat (seg_addr x) + 21" "unat (seg_addr y + sizeof_hdr) = unat (seg_addr y) + 21"
    "unat (seg_addr x) + 21 + seg_size x = seg_end x" "unat (seg_addr y) + 21 + seg_size y = seg_end y"
    "seg_end x < 2 ^ 64" "seg_end y < 2 ^ 64" "seg_size y < 2 ^ 32"
    "seg_end y \<le> unat (seg_addr x) \<or> seg_end x \<le> unat (seg_addr y)"
    "unat (of_nat (length xs) :: u64) = length xs"
proof -
  show *: "heap_list m base e hs" "x \<in> set hs" "y \<in> set hs" "x \<noteq> y" "\<not> seg_free x" "\<not> seg_free y"
    "16 \<le> seg_size x" "8 * length xs \<le> seg_size y"
    "vector_length m (seg_addr x + sizeof_hdr) = of_nat (length xs)"
    "vector_items m (seg_addr x + sizeof_hdr) = seg_addr y + sizeof_hdr"
    "elems m (seg_addr y + sizeof_hdr) (length xs) = xs"
    using assms by (simp_all add: is_vec_def)
  show "unat (seg_addr x + sizeof_hdr) = unat (seg_addr x) + 21" "unat (seg_addr y + sizeof_hdr) = unat (seg_addr y) + 21"
    "unat (seg_addr x) + 21 + seg_size x = seg_end x" "unat (seg_addr y) + 21 + seg_size y = seg_end y"
    "seg_end x < 2 ^ 64" "seg_end y < 2 ^ 64" and lt: "seg_size y < 2 ^ 32"
    using heap_list_seg [OF *(1,2)] heap_list_seg [OF *(1,3)] by simp_all
  show "seg_end y \<le> unat (seg_addr x) \<or> seg_end x \<le> unat (seg_addr y)"
    using *(1-4) by (rule heap_list_distinct_segs)
  show "unat (of_nat (length xs) :: u64) = length xs"
    using *(8) lt by (simp add: unat_of_nat take_bit_nat_eq_self)
qed

text \<open>The two fields of the structure.\<close>

lemma vector_fields:
  "vector_length (store64 m v w) v = w" "vector_items (store64 m (v + 8) w) v = w"
  "vector_items (store64 m v w) v = vector_items m v" "vector_length (store64 m (v + 8) w) v = vector_length m v"
  using disj_offsets [of 0 8 8 8 v]
  by (simp_all add: vector_length_def vector_items_def cell64.rd_wr cell64.rd_wr_disj disj_sym)

lemma field_within:
  assumes "is_vec m base e hs x y xs"
  shows "within (unat (seg_addr x) + 21) (seg_end x) m0 (store64 m0 (seg_addr x + sizeof_hdr) w)"
    "within (unat (seg_addr x) + 21) (seg_end x) m0 (store64 m0 (seg_addr x + sizeof_hdr + 8) w)"
proof -
  note D = is_vecD [OF assms]
  have u: "unat (seg_addr x + sizeof_hdr + of_nat 8) = unat (seg_addr x) + 29"
    using D(7,12,14,16) by (subst unat_plus) simp_all
  show "within (unat (seg_addr x) + 21) (seg_end x) m0 (store64 m0 (seg_addr x + sizeof_hdr) w)"
    by (rule within_mono [OF store64_within]) (use D(7,12,14,16) in simp_all)
  show "within (unat (seg_addr x) + 21) (seg_end x) m0 (store64 m0 (seg_addr x + sizeof_hdr + 8) w)"
    by (rule within_mono [OF store64_within]) (use u D(7,14,16) in simp_all)
qed

lemma is_vec_take:
  assumes "is_vec m base e hs x y xs" "n \<le> length xs"
  shows "is_vec (store64 m (seg_addr x + sizeof_hdr) (of_nat n)) base e hs x y (take n xs)"
proof -
  note D = is_vecD [OF assms(1)]
  let ?m = "store64 m (seg_addr x + sizeof_hdr) (of_nat n)"
  note w = field_within(1) [OF assms(1), of m "of_nat n"]
  have "elems ?m (seg_addr y + sizeof_hdr) n = elems m (seg_addr y + sizeof_hdr) n"
    by (rule elems_cong [OF _ w]) (use D assms(2) in auto)
  also have "\<dots> = take n (elems m (seg_addr y + sizeof_hdr) (length xs))"
    using assms(2) by (simp add: elems_def take_map)
  finally show ?thesis
    using D assms(2) heap_list_write [OF D(1,2) w] by (simp add: is_vec_def vector_fields min_def)
qed

lemma is_vec_set_item:
  assumes "is_vec m base e hs x y xs" "i < length xs"
  shows "is_vec (store64 m (seg_addr y + sizeof_hdr + 8 * of_nat i) w) base e hs x y (xs[i := w])"
proof -
  note D = is_vecD [OF assms(1)]
  let ?p = "seg_addr y + sizeof_hdr"
  let ?m = "store64 m (?p + of_nat 8 * of_nat i) w"
  have u: "unat (?p + of_nat 8 * of_nat i) = unat ?p + 8 * i"
    by (rule unat_item [OF _ assms(2)]) (use D in simp)
  have wi: "within (unat (seg_addr y) + 21) (seg_end y) m ?m"
    by (rule within_mono [OF store64_within]) (use u D assms(2) in simp_all)
  have "load64 ?m (seg_addr x + sizeof_hdr) = load64 m (seg_addr x + sizeof_hdr)"
    by (rule load64_within [OF wi]) (use D in auto)
  moreover have "load64 ?m (seg_addr x + sizeof_hdr + 8) = load64 m (seg_addr x + sizeof_hdr + 8)"
  proof (rule load64_within [OF wi])
    have "unat (seg_addr x + sizeof_hdr + of_nat 8) = unat (seg_addr x) + 29"
      using D(7,12,14,16) by (subst unat_plus) simp_all
    then show "unat (seg_addr x + sizeof_hdr + 8) + 8 \<le> unat (seg_addr y) + 21 \<or>
        seg_end y \<le> unat (seg_addr x + sizeof_hdr + 8)" "unat (seg_addr x + sizeof_hdr + 8) + 8 \<le> 2 ^ 64"
      using D by auto
  qed
  moreover have "elems ?m ?p (length xs) = xs[i := w]"
    using elems_store [OF _ assms(2), of ?p m w] D by simp
  ultimately show ?thesis
    using D heap_list_write [OF D(1,3) wi] by (simp add: is_vec_def vector_length_def vector_items_def)
qed

section \<open>What allocations leave alone\<close>

text \<open>
  \<open>frame base e hs hs' X m m'\<close>: only bytes of the heap change; the segments in use stay in the list, and those
  outside \<open>X\<close> keep their bytes.
\<close>

definition frame :: "u64 \<Rightarrow> nat \<Rightarrow> seg list \<Rightarrow> seg list \<Rightarrow> seg set \<Rightarrow> memory \<Rightarrow> memory \<Rightarrow> bool" where
  "frame base e hs hs' X m m' \<longleftrightarrow> within (unat base) e m m' \<and>
    (\<forall>z \<in> set hs. \<not> seg_free z \<longrightarrow> z \<in> set hs' \<and>
      (z \<notin> X \<longrightarrow> (\<forall>a. unat (seg_addr z) + 21 \<le> unat a \<and> unat a < seg_end z \<longrightarrow> m' a = m a)))"

lemma frame_refl [simp]: "frame base e hs hs X m m"
  by (simp add: frame_def)

lemma frame_trans [trans]:
  assumes "frame base e hs hs1 X m m1" "frame base e hs1 hs2 Y m1 m2"
  shows "frame base e hs hs2 (X \<union> Y) m m2"
  using assms within_trans unfolding frame_def by (metis UnCI)

lemma frame_drop:
  "frame base e hs hs' X m m' \<Longrightarrow> (\<And>z. z \<in> set hs \<Longrightarrow> \<not> seg_free z \<Longrightarrow> z \<in> X \<Longrightarrow> z \<in> Y) \<Longrightarrow> frame base e hs hs' Y m m'"
  unfolding frame_def by blast

lemma heap_list_segs:
  assumes "heap_list m base e hs" "x \<in> set hs"
  shows "unat base \<le> unat (seg_addr x)" "seg_end x \<le> e"
proof -
  obtain ys zs where hs: "hs = ys @ x # zs" using assms(2) by (meson split_list)
  from heap_list_bounds [OF assms(1) [unfolded hs]]
  show "unat base \<le> unat (seg_addr x)" "seg_end x \<le> e" by simp_all
qed

lemma frame_used:
  assumes "heap_list m base e hs" "x \<in> set hs" "within (unat (seg_addr x) + 21) (seg_end x) m0 m'"
  shows "frame base e hs hs {x} m0 m'"
proof -
  have "m' a = m0 a" if "z \<in> set hs" "z \<noteq> x" "unat (seg_addr z) + 21 \<le> unat a" "unat a < seg_end z" for z a
    using heap_list_distinct_segs [OF assms(1,2) that(1)] that assms(3) unfolding within_def by (metis add_leD1 le_trans not_le order_less_le_trans trans_less_add1)
  then show ?thesis
    using heap_list_segs [OF assms(1,2)] assms(3) unfolding frame_def by (auto intro: within_mono)
qed

lemma frame_free:
  assumes "heap_list m base e hs" "x \<in> set hs" "within (unat (seg_addr x)) (seg_end x) m0 m'"
    and "\<And>y. y \<in> set hs \<Longrightarrow> \<not> seg_free y \<Longrightarrow> y \<in> set hs' \<and>
      (seg_end y \<le> unat (seg_addr x) \<or> seg_end x \<le> unat (seg_addr y))"
  shows "frame base e hs hs' {} m0 m'"
proof -
  have "m' a = m0 a" if "z \<in> set hs" "\<not> seg_free z" "unat (seg_addr z) + 21 \<le> unat a" "unat a < seg_end z" for z a
    using assms(4) [OF that(1,2)] that assms(3) unfolding within_def by (metis add_leD1 le_trans order_less_le_trans)
  then show ?thesis
    using heap_list_segs [OF assms(1,2)] assms(3,4) unfolding frame_def by (auto intro: within_mono)
qed

section \<open>Growing\<close>

lemma first_fit_seg:
  assumes "heap_list m base e hs" "first_fit sz hs = Some (p, hs')"
  obtains t x where "x \<in> set hs" "seg_free x" "t \<in> set hs'" "\<not> seg_free t" "seg_addr t = seg_addr x"
    "p = seg_addr t + sizeof_hdr" "unat sz \<le> seg_size t"
    "\<And>y. y \<in> set hs \<Longrightarrow> \<not> seg_free y \<Longrightarrow> y \<in> set hs' \<and> y \<noteq> t \<and>
      (seg_end y \<le> unat (seg_addr x) \<or> seg_end x \<le> unat (seg_addr y))"
proof -
  from first_fit_Some [OF assms(2)] obtain ys x zs where x: "hs = ys @ x # zs" "fits sz x"
    "p = seg_addr x + sizeof_hdr" "hs' = ys @ place sz x @ zs" by metis
  obtain t ts where t: "place sz x = t # ts" "seg_addr t = seg_addr x" "unat sz \<le> seg_size t" "\<not> seg_free t"
    using x(2) by (cases "unat sz + 21 < seg_size x") (auto intro: that simp: place_def fits_def)
  have y: "y \<in> set hs' \<and> y \<noteq> t \<and> (seg_end y \<le> unat (seg_addr x) \<or> seg_end x \<le> unat (seg_addr y))"
    if "y \<in> set hs" "\<not> seg_free y" for y
  proof -
    have "y \<noteq> x" using that(2) x(2) by (auto simp: fits_def)
    then have ap: "seg_end y \<le> unat (seg_addr x) \<or> seg_end x \<le> unat (seg_addr y)"
      using heap_list_distinct_segs [OF assms(1), of x y] x(1) that(1) by auto
    then have "seg_addr y \<noteq> seg_addr x" by (auto simp: seg_end_def)
    then show ?thesis using ap \<open>y \<noteq> x\<close> x(1,4) t(2) that(1) by auto
  qed
  show thesis using x t y by (intro that [of x t]) (auto simp: fits_def)
qed

text \<open>What a frame says of the segments in use, whatever happens outside of the heap.\<close>

definition kept_segs :: "seg list \<Rightarrow> seg list \<Rightarrow> seg set \<Rightarrow> memory \<Rightarrow> memory \<Rightarrow> bool" where
  "kept_segs hs hs' X m m' \<longleftrightarrow> (\<forall>z \<in> set hs. \<not> seg_free z \<longrightarrow> z \<in> set hs' \<and>
    (z \<notin> X \<longrightarrow> (\<forall>a. unat (seg_addr z) + 21 \<le> unat a \<and> unat a < seg_end z \<longrightarrow> m' a = m a)))"

lemma frame_kept: "frame base e hs hs' X m m' \<Longrightarrow> kept_segs hs hs' X m m'"
  unfolding frame_def kept_segs_def by (erule conjunct2)

lemma kept_segs_trans [trans]: "kept_segs hs hs1 X m m1 \<Longrightarrow> kept_segs hs1 hs2 X m1 m2 \<Longrightarrow> kept_segs hs hs2 X m m2"
  unfolding kept_segs_def by (metis (no_types, lifting))

lemma kept_load64:
  assumes "kept_segs hs hs' X m m'" "z \<in> set hs" "\<not> seg_free z" "z \<notin> X"
    and "unat (seg_addr z) + 21 \<le> unat a" "unat a + 8 \<le> seg_end z" "seg_end z < 2 ^ 64"
  shows "load64 m' a = load64 m a"
proof (rule cell64.rd_cong)
  fix k :: nat assume "k < 8"
  then have "unat (a + of_nat k) = unat a + k" using assms(6,7) by (intro unat_plus) simp
  then show "m' (a + of_nat k) = m (a + of_nat k)"
    using assms(1-6) \<open>k < 8\<close> unfolding kept_segs_def by simp
qed

lemmas frame_load64 = kept_load64 [OF frame_kept]

lemma malloc_frame:
  fixes s :: "'a heap_scheme"
  assumes "heap_list (mem s) (heap_base_address s) e hs" "first_fit sz hs = Some (p, hs')"
  shows "\<exists>m'. malloc sz s = Some (p, s\<lparr>mem := m'\<rparr>) \<and> heap_list m' (heap_base_address s) e hs' \<and>
    frame (heap_base_address s) e hs hs' {} (mem s) m'"
proof -
  from malloc_fit [OF assms] obtain m' x where m': "malloc sz s = Some (p, s\<lparr>mem := m'\<rparr>)"
    "heap_list m' (heap_base_address s) e hs'" "x \<in> set hs" "p = seg_addr x + sizeof_hdr"
    "within (unat (seg_addr x)) (seg_end x) (mem s) m'" by metis
  from first_fit_seg [OF assms] obtain t x0 where t: "x0 \<in> set hs" "seg_addr t = seg_addr x0" "p = seg_addr t + sizeof_hdr"
    "\<And>y. y \<in> set hs \<Longrightarrow> \<not> seg_free y \<Longrightarrow> y \<in> set hs' \<and> y \<noteq> t \<and>
      (seg_end y \<le> unat (seg_addr x0) \<or> seg_end x0 \<le> unat (seg_addr y))" by metis
  have "x = x0"
  proof (rule ccontr)
    assume "x \<noteq> x0"
    from heap_list_distinct_segs [OF assms(1) m'(3) t(1) this] t(2,3) m'(4) show False by (simp add: seg_end_def)
  qed
  with m' t(4) show ?thesis using frame_free [OF assms(1) m'(3,5)] by blast
qed

lemma elems_bytes:
  assumes "\<And>i. i < 8 * n \<Longrightarrow> m' (q + of_nat i) = m (p + of_nat i)"
  shows "elems m' q n = elems m p n"
proof -
  have "load64 m' (q + of_nat 8 * of_nat i) = load64 m (p + of_nat 8 * of_nat i)" if "i < n" for i
  proof -
    have "load_le k m' (q + of_nat j) = load_le k m (p + of_nat j)" if "j + k \<le> 8 * n" for j k
      using that
    proof (induction k arbitrary: j)
      case (Suc k)
      then show ?case using assms [of j] Suc.IH [of "Suc j"] by (simp add: ac_simps)
    qed simp
    from this [of "8 * i" 8] that show ?thesis by (simp add: load64_def)
  qed
  then show ?thesis by (simp add: elems_def)
qed

text \<open>A block in use is copied to a new one.\<close>

lemma realloc_fresh:
  fixes s :: "'a heap_scheme"
  assumes hl: "heap_list (mem s) (heap_base_address s) e hs" and y: "y \<in> set hs" "\<not> seg_free y"
    and f: "first_fit n hs = Some (p, hs')"
  obtains m' t where "realloc (seg_addr y + sizeof_hdr) n s = Some (p, s\<lparr>mem := m'\<rparr>)" "heap_list m' (heap_base_address s) e hs'"
    "frame (heap_base_address s) e hs hs' {} (mem s) m'" "t \<in> set hs'" "\<not> seg_free t" "p = seg_addr t + sizeof_hdr"
    "unat n \<le> seg_size t" "\<And>w. w \<in> set hs \<Longrightarrow> \<not> seg_free w \<Longrightarrow> w \<in> set hs' \<and> w \<noteq> t"
    "\<And>i. i < min (seg_size y) (unat n) \<Longrightarrow> m' (p + of_nat i) = mem s (seg_addr y + sizeof_hdr + of_nat i)"
proof -
  from realloc_block [OF hl y f] obtain m' x where r:
    "realloc (seg_addr y + sizeof_hdr) n s = Some (p, s\<lparr>mem := m'\<rparr>)" "heap_list m' (heap_base_address s) e hs'"
    "\<And>i. i < min (seg_size y) (unat n) \<Longrightarrow> m' (p + of_nat i) = mem s (seg_addr y + sizeof_hdr + of_nat i)"
    "x \<in> set hs" "seg_free x" "p = seg_addr x + sizeof_hdr" "within (unat (seg_addr x)) (seg_end x) (mem s) m'" by blast
  from first_fit_seg [OF hl f] obtain t x0 where t: "x0 \<in> set hs" "seg_free x0" "t \<in> set hs'" "\<not> seg_free t"
    "seg_addr t = seg_addr x0" "p = seg_addr t + sizeof_hdr" "unat n \<le> seg_size t"
    "\<And>y. y \<in> set hs \<Longrightarrow> \<not> seg_free y \<Longrightarrow> y \<in> set hs' \<and> y \<noteq> t \<and>
      (seg_end y \<le> unat (seg_addr x0) \<or> seg_end x0 \<le> unat (seg_addr y))" by metis
  have "x = x0"
  proof (rule ccontr)
    assume "x \<noteq> x0"
    from heap_list_distinct_segs [OF hl r(4) t(1) this] t(5,6) r(6) show False by (simp add: seg_end_def)
  qed
  with r(7) have "frame (heap_base_address s) e hs hs' {} (mem s) m'" by (intro frame_free [OF hl t(1)]) (use t(8) in blast)+
  with r(1-3) t(3,4,6-8) show thesis by (intro that) blast+
qed

lemma vector_grow:
  fixes s :: "'a heap_scheme"
  assumes v: "is_vec (mem s) (heap_base_address s) e hs x y xs"
    and f: "first_fit (8 * (of_nat (length xs) + 1)) hs = Some (p, hs')"
  shows "\<exists>m' z w. vector_grow (seg_addr x + sizeof_hdr) s = Some (s\<lparr>mem := m'\<rparr>) \<and>
    is_vec m' (heap_base_address s) e hs' x z (xs @ [w]) \<and> (\<forall>y \<in> set hs. \<not> seg_free y \<longrightarrow> y \<noteq> z) \<and>
    p = seg_addr z + sizeof_hdr \<and> frame (heap_base_address s) e hs hs' {x} (mem s) m'"
proof -
  note D = is_vecD [OF v]
  let ?v = "seg_addr x + sizeof_hdr" and ?n = "of_nat (length xs) + 1 :: u64" and ?base = "heap_base_address s"
  define m1 where "m1 = store64 (mem s) ?v ?n"
  note w1 = field_within(1) [OF v, of "mem s" ?n, folded m1_def]
  have h1: "heap_list m1 ?base e hs" by (rule heap_list_write [OF D(1,2) w1])
  have i1: "vector_length m1 ?v = ?n" "vector_items m1 ?v = seg_addr y + sizeof_hdr"
    using D(10) by (simp_all add: m1_def vector_fields)
  have "elems m1 (seg_addr y + sizeof_hdr) (length xs) = elems (mem s) (seg_addr y + sizeof_hdr) (length xs)"
    by (rule elems_cong [OF _ w1]) (use D in auto)
  then have e1: "elems m1 (seg_addr y + sizeof_hdr) (length xs) = xs" by (simp only: D(11))
  have "length xs < 2 ^ 32" using D(8,18) by simp
  then have un: "unat ?n = length xs + 1" "unat (8 * ?n) = 8 * (length xs + 1)"
    using D(20) unat_add_lem [THEN iffD1, of "of_nat (length xs) :: u64" 1]
      unat_mult_lem [THEN iffD1, of 8 ?n] by simp_all
  have "heap_list (mem (s\<lparr>mem := m1\<rparr>)) (heap_base_address (s\<lparr>mem := m1\<rparr>)) e hs" using h1 by simp
  from realloc_fresh [OF this D(3,6) f] obtain m2 t where r:
    "realloc (seg_addr y + sizeof_hdr) (8 * ?n) (s\<lparr>mem := m1\<rparr>) = Some (p, s\<lparr>mem := m2\<rparr>)" "heap_list m2 ?base e hs'"
    "frame ?base e hs hs' {} m1 m2" "t \<in> set hs'" "\<not> seg_free t" "p = seg_addr t + sizeof_hdr" "unat (8 * ?n) \<le> seg_size t"
    "\<And>w. w \<in> set hs \<Longrightarrow> \<not> seg_free w \<Longrightarrow> w \<in> set hs' \<and> w \<noteq> t"
    "\<And>i. i < min (seg_size y) (unat (8 * ?n)) \<Longrightarrow> m2 (p + of_nat i) = m1 (seg_addr y + sizeof_hdr + of_nat i)"
    by auto
  note xt = r(8) [OF D(2,5)]
  have u8: "unat (?v + 8) = unat (seg_addr x) + 29" using unat_plus [of ?v 8] D(7,12,14,16) by simp
  have f2: "vector_length m2 ?v = ?n" "vector_items m2 ?v = seg_addr y + sizeof_hdr"
    unfolding i1 [symmetric] vector_length_def vector_items_def
    by (rule frame_load64 [OF r(3) D(2,5)]; use D(7,12,14,16) u8 in simp)+
  define m3 where "m3 = store64 m2 (?v + 8) p"
  have w3: "within (unat (seg_addr x) + 21) (seg_end x) m2 m3"
    unfolding m3_def by (rule field_within(2) [OF v])
  have h3: "heap_list m3 ?base e hs'" by (rule heap_list_write [OF r(2) _ w3]) (use xt in blast)
  note T = heap_list_seg [OF r(2,4)]
  have ap: "seg_end t \<le> unat (seg_addr x) \<or> seg_end x \<le> unat (seg_addr t)"
    by (rule heap_list_distinct_segs [OF r(2)]) (use xt r(4) in blast)+
  have b: "unat p = unat (seg_addr t) + 21" "unat p + 8 * (length xs + 1) \<le> seg_end t"
    using T r(6,7) un by simp_all
  have "elems m3 p (length xs + 1) = elems m2 p (length xs + 1)"
    by (rule elems_cong [OF _ w3]) (use b T(3) ap in auto)
  also have "\<dots> = elems m2 p (length xs) @ [load64 m2 (p + of_nat 8 * of_nat (length xs))]"
    by (simp add: elems_def)
  also have "elems m2 p (length xs) = elems m1 (seg_addr y + sizeof_hdr) (length xs)"
    by (rule elems_bytes) (use r(9) D(8) un in simp)
  finally have e3: "elems m3 p (length xs + 1) = xs @ [load64 m2 (p + of_nat 8 * of_nat (length xs))]"
    by (simp only: e1)
  have "vector_grow ?v s = Some (s\<lparr>mem := m3\<rparr>)"
    using r(1) D(9) i1 by (simp add: vector_grow_def Let_def set_length_def set_items_def m1_def [symmetric] m3_def mult.commute)
  moreover have "is_vec m3 ?base e hs' x t (xs @ [load64 m2 (p + of_nat 8 * of_nat (length xs))])"
    using h3 xt r(4-7) D(5,7) un f2 e3 by (simp add: is_vec_def m3_def vector_fields add.commute)
  moreover have "frame ?base e hs hs' ({x} \<union> ({} \<union> {x})) (mem s) m3"
    by (intro frame_trans [OF frame_used [OF D(1,2) w1] frame_trans [OF r(3) frame_used [OF r(2) _ w3]]]) (use xt in blast)
  ultimately show ?thesis using r(6,8) by auto
qed

section \<open>Moving items\<close>

lemma item_nth:
  assumes "is_vec m base e hs x y xs" "i < length xs"
  shows "item m (seg_addr x + sizeof_hdr) (of_nat i) = xs ! i"
proof -
  note D = is_vecD [OF assms(1)]
  have "elems m (seg_addr y + sizeof_hdr) (length xs) ! i = xs ! i" by (simp only: D(11))
  then show ?thesis using assms(2) by (simp add: item_def D(10) elems_nth)
qed

lemma set_item_vec:
  assumes "is_vec (mem s) base e hs x y xs" "i < length xs"
  obtains m' where "set_item (seg_addr x + sizeof_hdr) (of_nat i) w s = s\<lparr>mem := m'\<rparr>"
    "is_vec m' base e hs x y (xs[i := w])"
  using is_vec_set_item [OF assms] by (intro that) (simp_all add: set_item_def is_vecD(10) [OF assms(1)])

lemma vec_index_less:
  assumes "is_vec m base e hs x y xs" "j \<le> length xs"
  shows "of_nat j < vector_length m (seg_addr x + sizeof_hdr) \<longleftrightarrow> j < length xs" "unat (of_nat j :: u64) = j"
proof -
  note D = is_vecD [OF assms(1)]
  show u: "unat (of_nat j :: u64) = j"
    using assms(2) D(8,18) by (simp add: unat_of_nat take_bit_nat_eq_self)
  show "of_nat j < vector_length m (seg_addr x + sizeof_hdr) \<longleftrightarrow> j < length xs"
    unfolding D(9) by (simp only: word_less_nat_alt u D(20))
qed

lemma shift_down_vec:
  fixes s :: "'a heap_scheme"
  assumes "is_vec (mem s) base e hs x y xs" "0 < j" "j \<le> length xs"
  shows "\<exists>m'. shift_down (seg_addr x + sizeof_hdr) (of_nat j) s = Some (s\<lparr>mem := m'\<rparr>) \<and>
    is_vec m' base e hs x y (take (j - 1) xs @ drop j xs @ [last xs])"
  using assms
proof (induction "length xs - j" arbitrary: s xs j)
  case 0
  then have j: "j = length xs" by simp
  have "shift_down (seg_addr x + sizeof_hdr) (of_nat j) s = Some s"
    using vec_index_less(1) [OF 0(2,4)] j by (subst shift_down.simps) simp
  moreover have "take (j - 1) xs @ drop j xs @ [last xs] = xs"
    using append_butlast_last_id [of xs] 0(3) j by (simp add: butlast_conv_take)
  ultimately show ?case using 0(2) by (intro exI [of _ "mem s"]) simp
next
  case (Suc k)
  then have j: "j < length xs" by simp
  have succ: "of_nat j + 1 = (of_nat (j + 1) :: u64)" by (simp add: add.commute)
  have pred: "of_nat j - 1 = (of_nat (j - 1) :: u64)" using Suc.prems(2) by (simp add: of_nat_diff)
  have jl: "j - 1 < length xs" using j by simp
  from set_item_vec [OF Suc.prems(1) jl] obtain m1 where
    m1: "set_item (seg_addr x + sizeof_hdr) (of_nat (j - 1)) (xs ! j) s = s\<lparr>mem := m1\<rparr>"
    "is_vec m1 base e hs x y (xs[j - 1 := xs ! j])" by blast
  let ?ys = "xs[j - 1 := xs ! j]"
  have step: "shift_down (seg_addr x + sizeof_hdr) (of_nat j) s =
      shift_down (seg_addr x + sizeof_hdr) (of_nat (j + 1)) (s\<lparr>mem := m1\<rparr>)"
    by (subst shift_down.simps)
      (simp only: vec_index_less(1) [OF Suc.prems(1,3)] j if_True item_nth [OF Suc.prems(1) j] pred m1(1) succ)
  have "k = length ?ys - (j + 1)" using Suc.hyps(2) by simp
  from Suc.hyps(1) [OF this, of "s\<lparr>mem := m1\<rparr>"] m1(2) j obtain m' where m':
    "shift_down (seg_addr x + sizeof_hdr) (of_nat (j + 1)) (s\<lparr>mem := m1\<rparr>) = Some (s\<lparr>mem := m'\<rparr>)"
    "is_vec m' base e hs x y (take (j + 1 - 1) ?ys @ drop (j + 1) ?ys @ [last ?ys])" by auto
  have "take j ?ys = take (j - 1) xs @ [xs ! j]"
    using j Suc.prems(2) by (cases j) (simp_all add: take_Suc_conv_app_nth)
  moreover have "drop j xs = xs ! j # drop (j + 1) xs" using j by (simp add: Cons_nth_drop_Suc)
  moreover have "drop (j + 1) ?ys = drop (j + 1) xs" using Suc.prems(2) by simp
  moreover have "last ?ys = last xs"
    using j Suc.prems(2) last_list_update [of xs "j - 1" "xs ! j"] by (cases xs) auto
  ultimately show ?case using m' step by (intro exI [of _ m']) simp
qed

text \<open>The loop from index 0: the items move to the word \<open>b\<close> before the array and upwards.\<close>

lemma shift_down_wrap:
  fixes s :: "'a heap_scheme"
  assumes b: "unat b + 8 * (n + 1) \<le> 2 ^ 64"
    and v: "unat v + 16 \<le> unat b \<or> unat b + 8 * (n + 1) \<le> unat v" "unat v + 16 \<le> 2 ^ 64"
  shows "j \<le> n \<Longrightarrow> vector_length m v = of_nat n \<Longrightarrow> vector_items m v = b + 8 \<Longrightarrow>
    \<exists>m'. shift_down v (of_nat j) (s\<lparr>mem := m\<rparr>) = Some (s\<lparr>mem := m'\<rparr>) \<and>
      within (unat b + 8 * j) (unat b + 8 * n) m m' \<and>
      (\<forall>k. j \<le> k \<and> k < n \<longrightarrow> load64 m' (b + of_nat 8 * of_nat k) = load64 m (b + of_nat 8 * of_nat (k + 1)))"
proof (induction "n - j" arbitrary: j m)
  case 0
  then have "shift_down v (of_nat j) (s\<lparr>mem := m\<rparr>) = Some (s\<lparr>mem := m\<rparr>)" by (subst shift_down.simps) simp
  with 0 show ?case by (intro exI [of _ m]) (auto simp: within_def)
next
  case (Suc l)
  then have j: "j < n" by simp
  have at: "unat (b + of_nat 8 * of_nat k) = unat b + 8 * k" if "k \<le> n" for k
    using unat_item [OF b, of k] that by simp
  define m1 where "m1 = store64 m (b + of_nat 8 * of_nat j) (load64 m (b + of_nat 8 * of_nat (j + 1)))"
  have w: "within (unat b + 8 * j) (unat b + 8 * (j + 1)) m m1"
    using store64_within [of "b + of_nat 8 * of_nat j"] at [of j] j b by (simp add: m1_def algebra_simps)
  have v8: "unat (v + 8) = unat v + 8" using unat_plus [of v 8] v(2) by simp
  have f: "vector_length m1 v = vector_length m v" "vector_items m1 v = vector_items m v"
    unfolding vector_length_def vector_items_def using v v8 j by (intro load64_within [OF w]; auto)+
  have u: "unat (of_nat j :: u64) = j" "unat (of_nat n :: u64) = n"
    using b j by (simp_all add: unat_of_nat take_bit_nat_eq_self)
  have it: "item m v (of_nat j) = load64 m (b + of_nat 8 * of_nat (j + 1))" by (simp add: item_def Suc.prems(3) algebra_simps)
  have at_j: "vector_items m v + 8 * (of_nat j - 1) = b + of_nat 8 * of_nat j" by (simp add: Suc.prems(3) algebra_simps)
  have "mem (s\<lparr>mem := m\<rparr>) = m" by simp
  note set = at_j this
  have set: "set_item v (of_nat j - 1) (item m v (of_nat j)) (s\<lparr>mem := m\<rparr>) = s\<lparr>mem := m1\<rparr>"
    unfolding it m1_def set_item_def set by simp
  have "(of_nat j :: u64) < vector_length m v" using j u by (simp add: Suc.prems(2) word_less_nat_alt)
  then have "shift_down v (of_nat j) (s\<lparr>mem := m\<rparr>) = shift_down v (of_nat j + 1) (s\<lparr>mem := m1\<rparr>)"
    using set by (subst shift_down.simps) simp
  also have "of_nat j + 1 = (of_nat (j + 1) :: u64)" by simp
  finally have step: "shift_down v (of_nat j) (s\<lparr>mem := m\<rparr>) = shift_down v (of_nat (j + 1)) (s\<lparr>mem := m1\<rparr>)" .
  have "l = n - (j + 1)" "j + 1 \<le> n" using Suc.hyps(2) j by simp_all
  from Suc.hyps(1) [OF this, of m1] f Suc.prems obtain m' where m':
    "shift_down v (of_nat (j + 1)) (s\<lparr>mem := m1\<rparr>) = Some (s\<lparr>mem := m'\<rparr>)"
    "within (unat b + 8 * (j + 1)) (unat b + 8 * n) m1 m'"
    "\<And>k. j + 1 \<le> k \<and> k < n \<Longrightarrow> load64 m' (b + of_nat 8 * of_nat k) = load64 m1 (b + of_nat 8 * of_nat (k + 1))"
    by auto
  have "load64 m' (b + of_nat 8 * of_nat k) = load64 m (b + of_nat 8 * of_nat (k + 1))" if k: "j \<le> k" "k < n" for k
  proof (cases "k = j")
    case True
    have "load64 m' (b + of_nat 8 * of_nat j) = load64 m1 (b + of_nat 8 * of_nat j)"
      by (rule load64_within [OF m'(2)]) (use at [of j] j b in auto)
    then show ?thesis using True by (simp add: m1_def cell64.rd_wr)
  next
    case False
    have "load64 m1 (b + of_nat 8 * of_nat (k + 1)) = load64 m (b + of_nat 8 * of_nat (k + 1))"
      by (rule load64_within [OF w]) (use at [of "k + 1"] k False b in auto)
    with m'(3) [of k] k False show ?thesis by simp
  qed
  moreover have "within (unat b + 8 * j) (unat b + 8 * n) m m'"
    using w m'(2) j unfolding within_def by auto
  ultimately show ?case using step m'(1) by (intro exI [of _ m']) simp
qed

lemma delete_at_wrap:
  fixes s :: "'a heap_scheme"
  assumes "is_vec (mem s) base e hs x y xs" "xs \<noteq> []"
  shows "\<exists>m'. vector_delete_at (seg_addr x + sizeof_hdr) UINT64_MAX s = Some (s\<lparr>mem := m'\<rparr>) \<and>
    vector_length m' (seg_addr x + sizeof_hdr) = of_nat (length xs - 1) \<and>
    (\<forall>k < length xs. load64 m' (vector_items (mem s) (seg_addr x + sizeof_hdr) - 8 + 8 * of_nat k) = xs ! k)"
proof -
  note D = is_vecD [OF assms(1)]
  let ?v = "seg_addr x + sizeof_hdr" and ?p = "seg_addr y + sizeof_hdr" and ?n = "length xs"
  have b: "unat (?p - 8) = unat (seg_addr y) + 13" using D(13) by (subst unat_sub) (simp_all add: word_le_nat_alt)
  have fits: "unat (?p - 8) + 8 * (?n + 1) \<le> 2 ^ 64" "unat ?v + 16 \<le> 2 ^ 64"
    "unat ?v + 16 \<le> unat (?p - 8) \<or> unat (?p - 8) + 8 * (?n + 1) \<le> unat ?v"
    using D(7,8,12,14-17,19) unfolding b by auto
  from shift_down_wrap [OF fits(1,3,2), of 0 "mem s" s] D(9,10) obtain m1 where m1:
    "shift_down ?v 0 s = Some (s\<lparr>mem := m1\<rparr>)" "within (unat (?p - 8)) (unat (?p - 8) + 8 * ?n) (mem s) m1"
    "\<And>k. k < ?n \<Longrightarrow> load64 m1 (?p - 8 + of_nat 8 * of_nat k) = load64 (mem s) (?p - 8 + of_nat 8 * of_nat (k + 1))"
    by auto
  have len: "vector_length m1 ?v = of_nat ?n"
    using load64_within [OF m1(2), of ?v] fits D(9) by (auto simp: vector_length_def)
  have z: "UINT64_MAX + 1 = (0 :: u64)" by (simp add: word_unat_eq_iff)
  have pos: "UINT64_MAX + 1 < vector_length (mem s) ?v"
    unfolding z using D(9,20) assms(2) by (simp add: word_less_nat_alt)
  define m' where "m' = store64 m1 ?v (of_nat ?n - 1)"
  have "vector_delete_at ?v UINT64_MAX s = Some (s\<lparr>mem := m'\<rparr>)"
    using pos m1(1) len unfolding vector_delete_at_def z by (simp add: set_length_def m'_def)
  moreover have "vector_length m' ?v = of_nat (?n - 1)"
    using assms(2) by (simp add: m'_def vector_fields of_nat_diff Suc_leI)
  moreover have "load64 m' (?p - 8 + 8 * of_nat k) = xs ! k" if k: "k < ?n" for k
  proof -
    have at: "unat (?p - 8 + of_nat 8 * of_nat k) = unat (?p - 8) + 8 * k" using unat_item [OF fits(1), of k] k by simp
    have "load64 m' (?p - 8 + of_nat 8 * of_nat k) = load64 m1 (?p - 8 + of_nat 8 * of_nat k)"
      unfolding m'_def by (rule load64_within [OF store64_within]) (use fits at k in auto)
    also have "\<dots> = load64 (mem s) (?p + of_nat 8 * of_nat k)" using m1(3) [OF k] by (simp add: algebra_simps)
    also have "\<dots> = xs ! k" using elems_nth [OF k, of "mem s" ?p] D(11) by simp
    finally show ?thesis by simp
  qed
  ultimately show ?thesis unfolding D(10) by blast
qed

lemma shift_up_vec:
  fixes s :: "'a heap_scheme"
  assumes "is_vec (mem s) base e hs x y ys" "k \<le> i" "i < length ys"
  shows "\<exists>m'. shift_up (seg_addr x + sizeof_hdr) (of_nat k) (of_nat i) s = s\<lparr>mem := m'\<rparr> \<and>
    is_vec m' base e hs x y (take (k + 1) ys @ drop k (take i ys) @ drop (i + 1) ys)"
  using assms
proof (induction i arbitrary: s ys)
  case 0
  then show ?case
    by (intro exI [of _ "mem s"]) (subst shift_up.simps, simp)
next
  case (Suc i)
  have u: "unat (of_nat (Suc i) :: u64) = Suc i" "unat (of_nat k :: u64) = k"
    using vec_index_less(2) [OF Suc.prems(1), of "Suc i"] vec_index_less(2) [OF Suc.prems(1), of k] Suc.prems by auto
  show ?case
  proof (cases "k = Suc i")
    case True
    then have "shift_up (seg_addr x + sizeof_hdr) (of_nat k) (of_nat (Suc i)) s = s"
      by (subst shift_up.simps) simp
    with True Suc.prems show ?thesis by (intro exI [of _ "mem s"]) simp
  next
    case False
    then have k: "k \<le> i" "(of_nat k :: u64) < of_nat (Suc i)"
      using Suc.prems(2) unfolding word_less_nat_alt u by simp_all
    obtain m1 where m1: "set_item (seg_addr x + sizeof_hdr) (of_nat (Suc i)) (ys ! i) s = s\<lparr>mem := m1\<rparr>"
      "is_vec m1 base e hs x y (ys[Suc i := ys ! i])"
      using set_item_vec [OF Suc.prems(1,3), of "ys ! i"] by auto
    have it: "item (mem s) (seg_addr x + sizeof_hdr) (of_nat i) = ys ! i"
      by (rule item_nth [OF Suc.prems(1)]) (use Suc.prems(3) in simp)
    have step: "shift_up (seg_addr x + sizeof_hdr) (of_nat k) (of_nat (Suc i)) s =
        shift_up (seg_addr x + sizeof_hdr) (of_nat k) (of_nat i) (s\<lparr>mem := m1\<rparr>)"
      using k(2) m1(1) it by (subst shift_up.simps) simp
    let ?zs = "ys[Suc i := ys ! i]"
    from Suc.IH [of "s\<lparr>mem := m1\<rparr>" ?zs] m1(2) k(1) Suc.prems(3) obtain m' where m':
      "shift_up (seg_addr x + sizeof_hdr) (of_nat k) (of_nat i) (s\<lparr>mem := m1\<rparr>) = s\<lparr>mem := m'\<rparr>"
      "is_vec m' base e hs x y (take (k + 1) ?zs @ drop k (take i ?zs) @ drop (i + 1) ?zs)" by auto
    have "drop (i + 1) ?zs = ys ! i # drop (Suc i + 1) ys"
      using Suc.prems(3) by (simp add: drop_update_swap Cons_nth_drop_Suc [symmetric])
    moreover have "drop k (take (Suc i) ys) = drop k (take i ys) @ [ys ! i]"
      using k(1) Suc.prems(3) by (simp add: take_Suc_conv_app_nth)
    ultimately have "take (k + 1) ?zs @ drop k (take i ?zs) @ drop (i + 1) ?zs =
        take (k + 1) ys @ drop k (take (Suc i) ys) @ drop (Suc i + 1) ys"
      using k(1) by simp
    with m' step show ?thesis by (intro exI [of _ m']) simp
  qed
qed

section \<open>A new vector\<close>

lemma vector_init_vec:
  fixes s :: "'a heap_scheme"
  assumes hl: "heap_list (mem s) (heap_base_address s) e hs" and f: "first_fits [16, 8] hs = Some ([v, p], hs')"
  shows "\<exists>m' x y. vector_init s = Some (v, s\<lparr>mem := m'\<rparr>) \<and> v = seg_addr x + sizeof_hdr \<and>
    is_vec m' (heap_base_address s) e hs' x y [] \<and> (\<forall>z \<in> set hs. \<not> seg_free z \<longrightarrow> z \<noteq> x \<and> z \<noteq> y) \<and>
    frame (heap_base_address s) e hs hs' {} (mem s) m'"
proof -
  let ?base = "heap_base_address s"
  from f obtain hs1 where f1: "first_fit 16 hs = Some (v, hs1)" and f2: "first_fit 8 hs1 = Some (p, hs')"
    by (auto split: option.splits)
  from first_fit_seg [OF hl f1] obtain x where x: "x \<in> set hs1" "\<not> seg_free x" "v = seg_addr x + sizeof_hdr"
    "unat (16 :: u64) \<le> seg_size x" "\<And>z. z \<in> set hs \<Longrightarrow> \<not> seg_free z \<Longrightarrow> z \<in> set hs1 \<and> z \<noteq> x" by metis
  from malloc_frame [OF hl f1] obtain m1 where m1:
    "malloc 16 s = Some (v, s\<lparr>mem := m1\<rparr>)" "heap_list m1 ?base e hs1" "frame ?base e hs hs1 {} (mem s) m1" by blast
  define m2 where "m2 = store64 m1 v 0"
  note S = heap_list_seg [OF m1(2) x(1)]
  have w2: "within (unat (seg_addr x) + 21) (seg_end x) m1 m2"
    unfolding m2_def by (rule within_mono [OF store64_within]) (use S x(3,4) in simp_all)
  then have h2: "heap_list m2 ?base e hs1" by (rule heap_list_write [OF m1(2) x(1)])
  from first_fit_seg [OF h2 f2] obtain y x0 where y: "x0 \<in> set hs1" "seg_free x0" "y \<in> set hs'" "\<not> seg_free y"
    "p = seg_addr y + sizeof_hdr" "x \<in> set hs'" "x \<noteq> y" "\<And>z. z \<in> set hs1 \<Longrightarrow> \<not> seg_free z \<Longrightarrow> z \<noteq> y"
    using x(1,2) by metis
  have "heap_list (mem (s\<lparr>mem := m2\<rparr>)) (heap_base_address (s\<lparr>mem := m2\<rparr>)) e hs1" using h2 by simp
  from malloc_frame [OF this f2] obtain m3 where
    "malloc 8 (s\<lparr>mem := m2\<rparr>) = Some (p, s\<lparr>mem := m2\<rparr>\<lparr>mem := m3\<rparr>)"
    "heap_list m3 (heap_base_address (s\<lparr>mem := m2\<rparr>)) e hs'"
    "frame (heap_base_address (s\<lparr>mem := m2\<rparr>)) e hs1 hs' {} (mem (s\<lparr>mem := m2\<rparr>)) m3" by blast
  then have m3: "malloc 8 (s\<lparr>mem := m2\<rparr>) = Some (p, s\<lparr>mem := m3\<rparr>)" "heap_list m3 ?base e hs'"
    "frame ?base e hs1 hs' {} m2 m3" by simp_all
  have u8: "unat (v + 8) = unat (seg_addr x) + 29"
    using unat_plus [of v 8] S x(3,4) by simp
  have l3: "vector_length m3 v = 0"
  proof -
    have "load64 m3 v = load64 m2 v"
      by (rule frame_load64 [OF m3(3) x(1,2)]) (use S x(3,4) in simp_all)
    then show ?thesis by (simp add: vector_length_def m2_def cell64.rd_wr)
  qed
  define m4 where "m4 = store64 m3 (v + 8) p"
  have w4: "within (unat (seg_addr x) + 21) (seg_end x) m3 m4"
    unfolding m4_def by (rule within_mono [OF store64_within]) (use S x(3,4) u8 in simp_all)
  then have "heap_list m4 ?base e hs'" by (rule heap_list_write [OF m3(2) y(6)])
  then have "is_vec m4 ?base e hs' x y []"
    using x y l3 by (simp add: is_vec_def m4_def vector_fields elems_def)
  moreover have "vector_init s = Some (v, s\<lparr>mem := m4\<rparr>)"
    using m1(1) m3(1) by (simp add: vector_init_def set_length_def set_items_def m2_def m4_def)
  moreover have "frame ?base e hs hs' {} (mem s) m4"
  proof -
    have "frame ?base e hs hs1 {} (mem s) m1" by (rule m1(3))
    also have "frame ?base e hs1 hs1 {x} m1 m2" using m1(2) x(1) w2 by (rule frame_used)
    also have "frame ?base e hs1 hs' {} m2 m3" by (rule m3(3))
    also have "frame ?base e hs' hs' {x} m3 m4" using m3(2) y(6) w4 by (rule frame_used)
    finally show ?thesis by (rule frame_drop) (use x(5) in auto)
  qed
  moreover have "\<forall>z \<in> set hs. \<not> seg_free z \<longrightarrow> z \<noteq> x \<and> z \<noteq> y" using x(5) y(8) by blast
  ultimately show ?thesis using x(3) by blast
qed

lemma vector_init:
  fixes s :: "'a heap_scheme"
  assumes "heap_list (mem s) (heap_base_address s) e hs" and "first_fits [16, 8] hs = Some ([v, p], hs')"
  shows "\<exists>m'. vector_init s = Some (v, s\<lparr>mem := m'\<rparr>) \<and> is_vector m' (heap_base_address s) e hs' v []"
  using vector_init_vec [OF assms] unfolding is_vector_def by blast

definition demo_vector :: heap where "demo_vector = snd (the (vector_init demo_heap))"

lemma demo_vector:
  "vector_init demo_heap = Some (demo_heap_base + 21, demo_vector)"
  "is_vector (mem demo_vector) (heap_base_address demo_vector) (unat demo_heap_base + 4096)
    [Seg demo_heap_base 16 False, Seg (demo_heap_base + 37) 8 False, Seg (demo_heap_base + 66) 4009 True]
    (demo_heap_base + 21) []"
proof -
  have f: "first_fits [16, 8] [Seg demo_heap_base 4075 True] = Some ([demo_heap_base + 21, demo_heap_base + 58],
    [Seg demo_heap_base 16 False, Seg (demo_heap_base + 37) 8 False, Seg (demo_heap_base + 66) 4009 True])"
    by (simp add: fits_def place_def sizeof_hdr_def demo_heap_base_def)
  from vector_init [of demo_heap, unfolded demo_heap(2), OF demo_heap(4) f] obtain m' where m':
    "vector_init demo_heap = Some (demo_heap_base + 21, demo_heap\<lparr>mem := m'\<rparr>)"
    "is_vector m' demo_heap_base (unat demo_heap_base + 4096)
      [Seg demo_heap_base 16 False, Seg (demo_heap_base + 37) 8 False, Seg (demo_heap_base + 66) 4009 True]
      (demo_heap_base + 21) []" by blast
  then have "demo_vector = demo_heap\<lparr>mem := m'\<rparr>" by (simp add: demo_vector_def)
  note eq = this
  have "mem demo_vector = m'" "heap_base_address demo_vector = demo_heap_base" unfolding eq by (simp_all add: demo_heap(2))
  moreover have "vector_init demo_heap = Some (demo_heap_base + 21, demo_vector)" unfolding eq by (rule m'(1))
  ultimately show "vector_init demo_heap = Some (demo_heap_base + 21, demo_vector)"
    "is_vector (mem demo_vector) (heap_base_address demo_vector) (unat demo_heap_base + 4096)
    [Seg demo_heap_base 16 False, Seg (demo_heap_base + 37) 8 False, Seg (demo_heap_base + 66) 4009 True]
    (demo_heap_base + 21) []" using m'(2) by (simp_all only:)
qed

section \<open>Properties\<close>

lemma vector_size_get:
  assumes "is_vector (mem s) base e hs v xs"
  shows "vector_size s v = of_nat (length xs) \<and> unat (vector_size s v) = length xs \<and>
    vector_get s v i = (if unat i < length xs then xs ! unat i else 0)"
proof -
  from assms obtain x y where v: "v = seg_addr x + sizeof_hdr" "is_vec (mem s) base e hs x y xs"
    unfolding is_vector_def by blast
  note D = is_vecD [OF v(2)]
  have "i \<ge> vector_length (mem s) v \<longleftrightarrow> \<not> unat i < length xs"
    using D(9,20) by (simp add: v(1) word_le_nat_alt not_less)
  moreover have "item (mem s) v i = xs ! unat i" if "unat i < length xs"
    using item_nth [OF v(2) that] by (simp add: v(1))
  ultimately show ?thesis using D(9,20) by (simp add: vector_get_def vector_size_def v(1))
qed

text \<open>
  \<open>vector_init\<close> returns an empty vector, and \<open>vector_get\<close> reads the vector as a list: an index within
  the length gives the item, any other index gives \<open>NULL\<close>.
\<close>

theorem vector_get_refines:
  assumes "is_vector (mem s) base e hs v xs"
  shows "vector_size s v = of_nat (length xs) \<and> unat (vector_size s v) = length xs \<and>
    vector_get s v i = (if unat i < length xs then xs ! unat i else 0)"
  using assms by (rule vector_size_get)

theorem vector_get_refines_witness:
  "vector_init demo_heap = Some (demo_heap_base + 21, demo_vector) \<and> vector_get demo_vector (demo_heap_base + 21) 0 = 0"
  using vector_get_refines [OF demo_vector(2), of 0] demo_vector(1) by simp

text \<open>
  C21. \<open>vector_insert\<close> at an index up to the length inserts into the list, moving the later items up by one;
  \<open>vector_add\<close> is the insertion at the end. The array is reallocated by first fit. Beyond the length
  nothing happens.
\<close>

theorem vector_insert_correct:
  fixes s :: "'a heap_scheme"
  assumes "is_vector (mem s) (heap_base_address s) e hs v xs" and "first_fit (8 * (of_nat (length xs) + 1)) hs = Some (p, hs')"
  shows "(\<forall>k \<le> length xs. \<exists>m'. vector_insert v (of_nat k) a s = Some (s\<lparr>mem := m'\<rparr>) \<and>
      is_vector m' (heap_base_address s) e hs' v (take k xs @ a # drop k xs)) \<and>
    vector_add v a s = vector_insert v (of_nat (length xs)) a s \<and>
    (\<forall>i. length xs < unat i \<longrightarrow> vector_insert v i a s = Some s)"
proof -
  from assms(1) obtain x y where v: "v = seg_addr x + sizeof_hdr" "is_vec (mem s) (heap_base_address s) e hs x y xs"
    unfolding is_vector_def by blast
  note D = is_vecD [OF v(2)]
  from vector_grow [OF v(2) assms(2)] obtain m1 z w where g: "vector_grow v s = Some (s\<lparr>mem := m1\<rparr>)"
    "is_vec m1 (heap_base_address s) e hs' x z (xs @ [w])" unfolding v(1) by blast
  note E = is_vecD [OF g(2)]
  have pred: "vector_length m1 v - 1 = of_nat (length xs)" using E(9) by (simp add: v(1))
  have ins: "\<exists>m'. vector_insert v (of_nat k) a s = Some (s\<lparr>mem := m'\<rparr>) \<and>
      is_vec m' (heap_base_address s) e hs' x z (take k xs @ a # drop k xs)" if k: "k \<le> length xs" for k
  proof -
    from shift_up_vec [of "s\<lparr>mem := m1\<rparr>", OF _ k, of _ e hs' x z "xs @ [w]"] g(2) obtain m2 where m2:
      "shift_up v (of_nat k) (of_nat (length xs)) (s\<lparr>mem := m1\<rparr>) = s\<lparr>mem := m2\<rparr>"
      "is_vec m2 (heap_base_address s) e hs' x z (take (k + 1) (xs @ [w]) @ drop k xs)"
      by (auto simp: v(1))
    have len: "length (take (k + 1) (xs @ [w])) = k + 1" using k by simp
    have "is_vec (mem (s\<lparr>mem := m2\<rparr>)) (heap_base_address s) e hs' x z (take (k + 1) (xs @ [w]) @ drop k xs)"
      "k < length (take (k + 1) (xs @ [w]) @ drop k xs)" using m2(2) len by simp_all
    from set_item_vec [OF this, of a] obtain m3 where
      "set_item (seg_addr x + sizeof_hdr) (of_nat k) a (s\<lparr>mem := m2\<rparr>) = s\<lparr>mem := m2\<rparr>\<lparr>mem := m3\<rparr>"
      "is_vec m3 (heap_base_address s) e hs' x z ((take (k + 1) (xs @ [w]) @ drop k xs)[k := a])" by blast
    then have m3: "set_item v (of_nat k) a (s\<lparr>mem := m2\<rparr>) = s\<lparr>mem := m3\<rparr>"
      "is_vec m3 (heap_base_address s) e hs' x z ((take (k + 1) (xs @ [w]) @ drop k xs)[k := a])"
      by (simp_all add: v(1))
    have "(take (k + 1) (xs @ [w]) @ drop k xs)[k := a] = take k xs @ a # drop k xs"
      using k by (simp add: take_Suc_conv_app_nth list_update_append)
    moreover have "\<not> of_nat k > vector_length (mem s) v"
      using vec_index_less(2) [OF v(2) k] D(9,20) k by (simp add: v(1) word_less_nat_alt)
    ultimately show ?thesis
      using g(1) m2(1) m3 pred by (intro exI [of _ m3]) (simp add: vector_insert_def)
  qed
  show ?thesis
  proof (intro conjI allI impI)
    show "\<exists>m'. vector_insert v (of_nat k) a s = Some (s\<lparr>mem := m'\<rparr>) \<and>
      is_vector m' (heap_base_address s) e hs' v (take k xs @ a # drop k xs)" if "k \<le> length xs" for k
      using ins [OF that] v(1) unfolding is_vector_def by blast
    show "vector_add v a s = vector_insert v (of_nat (length xs)) a s"
      using D(9) g(1) pred by (simp add: vector_add_def vector_insert_def v(1) [symmetric]) (subst shift_up.simps, simp)
    show "vector_insert v i a s = Some s" if "length xs < unat i" for i
      using D(9,20) that by (simp add: vector_insert_def v(1) word_less_nat_alt)
  qed
qed

theorem vector_insert_correct_witness:
  "\<exists>m' hs. vector_add (demo_heap_base + 21) 7 demo_vector = Some (demo_vector\<lparr>mem := m'\<rparr>) \<and>
    is_vector m' (heap_base_address demo_vector) (unat demo_heap_base + 4096) hs (demo_heap_base + 21) [7]"
proof -
  have "first_fit (8 * (of_nat (length ([] :: u64 list)) + 1))
      [Seg demo_heap_base 16 False, Seg (demo_heap_base + 37) 8 False, Seg (demo_heap_base + 66) 4009 True] =
    Some (demo_heap_base + 87, [Seg demo_heap_base 16 False, Seg (demo_heap_base + 37) 8 False,
      Seg (demo_heap_base + 66) 8 False, Seg (demo_heap_base + 95) 3980 True])"
    by (simp add: fits_def place_def sizeof_hdr_def)
  from vector_insert_correct [OF demo_vector(2) this, of 7] show ?thesis
    by (metis append_Nil drop_Nil le_zero_eq length_0_conv list.size(3) take_Nil)
qed

text \<open>
  C38. \<open>vector_delete_at\<close> within the length removes the item and moves the later ones down. An index
  beyond it is not rejected: the last item goes, and the length of an empty vector wraps to \<open>2 ^ 64 - 1\<close>. For the index
  \<open>2 ^ 64 - 1\<close> the test of the code wraps to 0 and every item moves down by one word: the first one overwrites the
  word before the array, the end of its segment header.
\<close>

theorem vector_delete_at_correct:
  fixes s :: "'a heap_scheme"
  assumes "is_vector (mem s) (heap_base_address s) e hs v xs"
  shows "(\<forall>k < length xs. \<exists>m'. vector_delete_at v (of_nat k) s = Some (s\<lparr>mem := m'\<rparr>) \<and>
      is_vector m' (heap_base_address s) e hs v (take k xs @ drop (k + 1) xs)) \<and>
    (\<forall>i. length xs \<le> unat i \<and> i \<noteq> UINT64_MAX \<and> xs \<noteq> [] \<longrightarrow>
      (\<exists>m'. vector_delete_at v i s = Some (s\<lparr>mem := m'\<rparr>) \<and>
        is_vector m' (heap_base_address s) e hs v (butlast xs))) \<and>
    (xs \<noteq> [] \<longrightarrow> (\<exists>m'. vector_delete_at v UINT64_MAX s = Some (s\<lparr>mem := m'\<rparr>) \<and>
      vector_length m' v = of_nat (length xs - 1) \<and>
      (\<forall>k < length xs. load64 m' (vector_items (mem s) v - 8 + 8 * of_nat k) = xs ! k))) \<and>
    (\<forall>i. xs = [] \<longrightarrow> map_option (\<lambda>s. vector_size s v) (vector_delete_at v i s) = Some UINT64_MAX)"
proof -
  from assms obtain x y where v: "v = seg_addr x + sizeof_hdr" "is_vec (mem s) (heap_base_address s) e hs x y xs"
    unfolding is_vector_def by blast
  note D = is_vecD [OF v(2)]
  have cut: "\<exists>m'. set_length v (vector_length m v - 1) (s\<lparr>mem := m\<rparr>) = s\<lparr>mem := m'\<rparr> \<and>
      is_vector m' (heap_base_address s) e hs v (butlast ys)"
    if "is_vec m (heap_base_address s) e hs x y ys" "ys \<noteq> []" for m ys
  proof -
    have "vector_length m v - 1 = of_nat (length ys - 1)"
      using is_vecD(9) [OF that(1)] that(2) by (simp add: v(1) of_nat_diff Suc_leI)
    with is_vec_take [OF that(1), of "length ys - 1"] show ?thesis
      unfolding is_vector_def by (auto simp: set_length_def v(1) butlast_conv_take)
  qed
  show ?thesis
  proof (intro conjI allI impI)
    show "\<exists>m'. vector_delete_at v (of_nat k) s = Some (s\<lparr>mem := m'\<rparr>) \<and>
      is_vector m' (heap_base_address s) e hs v (take k xs @ drop (k + 1) xs)" if k: "k < length xs" for k
    proof -
      let ?ys = "take k xs @ drop (k + 1) xs @ [last xs]"
      have succ: "of_nat k + 1 = (of_nat (k + 1) :: u64)" by (simp add: add.commute)
      have k1: "k + 1 \<le> length xs" "0 < k + 1" using k by simp_all
      from shift_down_vec [OF v(2) k1(2,1)] obtain m1 where m1:
        "shift_down v (of_nat (k + 1)) s = Some (s\<lparr>mem := m1\<rparr>)" "is_vec m1 (heap_base_address s) e hs x y ?ys"
        by (auto simp: v(1))
      have "(if of_nat k + 1 < vector_length (mem s) v then shift_down v (of_nat k + 1) s else Some s) = Some (s\<lparr>mem := m1\<rparr>)"
      proof (cases "of_nat k + 1 < vector_length (mem s) v")
        case True
        with m1(1) show ?thesis by (simp only: succ if_True)
      next
        case False
        then have "shift_down v (of_nat k + 1) s = Some s" by (subst shift_down.simps) simp
        with m1(1) False show ?thesis by (simp only: succ if_False)
      qed
      with cut [OF m1(2)] show ?thesis by (simp add: vector_delete_at_def butlast_append)
    qed
    show "\<exists>m'. vector_delete_at v i s = Some (s\<lparr>mem := m'\<rparr>) \<and> is_vector m' (heap_base_address s) e hs v (butlast xs)"
      if i: "length xs \<le> unat i \<and> i \<noteq> UINT64_MAX \<and> xs \<noteq> []" for i
    proof -
      have "unat i \<noteq> unat UINT64_MAX" using i by (simp only: word_unat_eq_iff not_False_eq_True)
      then have ne: "unat i + 1 \<noteq> 2 ^ 64" by simp
      have "unat i < 2 ^ 64" by simp
      from Suc_leI [OF this, unfolded Suc_eq_plus1] ne have "unat i + 1 < 2 ^ 64" by (rule order.not_eq_order_implies_strict [rotated])
      then have "unat (i + 1) = unat i + 1" using unat_add_lem [THEN iffD1, of i 1] by simp
      then have "\<not> i + 1 < vector_length (mem s) v" using D(9,20) i by (simp add: v(1) word_less_nat_alt)
      with cut [OF v(2)] i show ?thesis by (simp add: vector_delete_at_def)
    qed
    show "\<exists>m'. vector_delete_at v UINT64_MAX s = Some (s\<lparr>mem := m'\<rparr>) \<and> vector_length m' v = of_nat (length xs - 1) \<and>
      (\<forall>k < length xs. load64 m' (vector_items (mem s) v - 8 + 8 * of_nat k) = xs ! k)" if "xs \<noteq> []"
      using delete_at_wrap [OF v(2) that] unfolding v(1) .
    show "map_option (\<lambda>s. vector_size s v) (vector_delete_at v i s) = Some UINT64_MAX" if "xs = []" for i
      using D(9) that by (simp add: vector_delete_at_def v(1) set_length_def vector_size_def vector_fields)
  qed
qed

theorem vector_delete_at_correct_witness:
  "\<exists>s w s'. vector_grow (demo_heap_base + 21) demo_vector = Some s \<and> vector_get s (demo_heap_base + 21) 0 = w \<and>
    vector_delete_at (demo_heap_base + 21) UINT64_MAX s = Some s' \<and> vector_size s' (demo_heap_base + 21) = 0 \<and>
    load64 (mem s') (demo_heap_base + 79) = w"
proof -
  let ?hs = "[Seg demo_heap_base 16 False, Seg (demo_heap_base + 37) 8 False, Seg (demo_heap_base + 66) 4009 True]"
  have f: "first_fit (8 * (of_nat (length ([] :: u64 list)) + 1)) ?hs =
    Some (demo_heap_base + 87, [Seg demo_heap_base 16 False, Seg (demo_heap_base + 37) 8 False,
      Seg (demo_heap_base + 66) 8 False, Seg (demo_heap_base + 95) 3980 True])"
    by (simp add: fits_def place_def sizeof_hdr_def)
  from demo_vector(2) obtain x y where x: "demo_heap_base + 21 = seg_addr x + sizeof_hdr"
    "is_vec (mem demo_vector) (heap_base_address demo_vector) (unat demo_heap_base + 4096) ?hs x y []"
    unfolding is_vector_def by blast
  from vector_grow [OF x(2) f] obtain m z w hs where g:
    "vector_grow (demo_heap_base + 21) demo_vector = Some (demo_vector\<lparr>mem := m\<rparr>)"
    "is_vec m (heap_base_address demo_vector) (unat demo_heap_base + 4096) hs x z [w]" "demo_heap_base + 87 = seg_addr z + sizeof_hdr"
    unfolding x(1) by auto
  let ?s = "demo_vector\<lparr>mem := m\<rparr>"
  have v: "is_vector (mem ?s) (heap_base_address ?s) (unat demo_heap_base + 4096) hs (demo_heap_base + 21) [w]"
    using g(2) x(1) unfolding is_vector_def by auto
  have p: "vector_items m (demo_heap_base + 21) = demo_heap_base + 87" using is_vecD(10) [OF g(2)] unfolding x(1) g(3) .
  have "vector_get ?s (demo_heap_base + 21) 0 = w" using vector_size_get [OF v, of 0] by simp
  moreover obtain m' where "vector_delete_at (demo_heap_base + 21) UINT64_MAX ?s = Some (?s\<lparr>mem := m'\<rparr>)"
    "vector_length m' (demo_heap_base + 21) = 0" "load64 m' (demo_heap_base + 79) = w"
    using vector_delete_at_correct [OF v] p by (auto simp: algebra_simps)
  ultimately show ?thesis using g(1) by (intro exI [of _ ?s] exI [of _ w] exI [of _ "?s\<lparr>mem := m'\<rparr>"]) (simp add: vector_size_def)
qed

end
