(* ===== verification/CString_Correct.thy ===== *)
theory CString_Correct
  imports CString
begin

text \<open>
  The string functions on 0-terminated strings, and what \<open>memmove\<close> does in each of its branches.
\<close>

lemma end_with_loop_nth:
  assumes "cstring m p xs" "cstring m q ys" "length ys \<le> length xs"
  shows "end_with_loop 0 (of_nat (length xs)) (of_nat (length ys)) p q m \<longleftrightarrow>
    (\<forall>k < length ys. xs ! (length xs - 1 - k) = ys ! (length ys - 1 - k))"
proof -
  have len: "length xs < 2 ^ 64" "length ys < 2 ^ 64" using assms(1,2) by (simp_all add: cstring_def)
  have minus: "(of_nat n :: u64) - 1 - of_nat k = of_nat (n - 1 - k)" if "k < n" for n k
    using that by (simp add: of_nat_diff)
  have "end_with_loop 0 (of_nat (length xs)) (of_nat (length ys)) p q m \<longleftrightarrow>
    (\<forall>k < length ys. m (p + (of_nat (length xs) - 1 - of_nat k)) = m (q + (of_nat (length ys) - 1 - of_nat k)))"
  proof -
    have "(\<forall>k :: u64. k < of_nat (length ys) \<longrightarrow> P k) \<longleftrightarrow> (\<forall>k < length ys. P (of_nat k))" for P
    proof (intro iffI allI impI)
      fix k assume P: "\<forall>k :: u64. k < of_nat (length ys) \<longrightarrow> P k" and k: "k < length ys"
      then have "(of_nat k :: u64) < of_nat (length ys)" using len by (simp add: word_less_nat_alt take_bit_nat_eq_self unat_of_nat)
      with P show "P (of_nat k)" by blast
    next
      fix k :: u64 assume P: "\<forall>k < length ys. P (of_nat k)" and k: "k < of_nat (length ys)"
      then have "unat k < length ys" using len by (simp add: word_less_nat_alt take_bit_nat_eq_self unat_of_nat)
      with P have "P (of_nat (unat k))" by blast
      then show "P k" by simp
    qed
    then show ?thesis by (simp add: end_with_loop_iff)
  qed
  also have "\<dots> \<longleftrightarrow> (\<forall>k < length ys. xs ! (length xs - 1 - k) = ys ! (length ys - 1 - k))"
  proof (intro all_cong1 imp_cong refl)
    fix k assume k: "k < length ys"
    then show "(m (p + (of_nat (length xs) - 1 - of_nat k)) = m (q + (of_nat (length ys) - 1 - of_nat k))) =
      (xs ! (length xs - 1 - k) = ys ! (length ys - 1 - k))"
      using assms(3) cstring_nth [OF assms(1), of "length xs - 1 - k"] cstring_nth [OF assms(2), of "length ys - 1 - k"]
      by (simp add: minus)
  qed
  finally show ?thesis .
qed

lemma suffix_nth:
  "suffix ys xs \<longleftrightarrow> length ys \<le> length xs \<and> (\<forall>k < length ys. xs ! (length xs - 1 - k) = ys ! (length ys - 1 - k))"
proof -
  have "suffix ys xs \<longleftrightarrow> prefix (rev ys) (rev xs)" by (simp add: suffix_to_prefix)
  also have "\<dots> \<longleftrightarrow> length ys \<le> length xs \<and> take (length ys) (rev xs) = rev ys"
    by (metis append_eq_conv_conj length_rev prefix_def prefix_length_le take_is_prefix)
  also have "\<dots> \<longleftrightarrow> length ys \<le> length xs \<and> (\<forall>k < length ys. xs ! (length xs - 1 - k) = ys ! (length ys - 1 - k))"
    by (auto simp: list_eq_iff_nth_eq rev_nth)
  finally show ?thesis .
qed

lemma end_with_suffix:
  assumes "cstring m str xs" and "cstring m suf ys"
  shows "does_string_end_with str suf m = Some (suffix ys xs)"
proof -
  have len: "length xs < 2 ^ 64" "length ys < 2 ^ 64" using assms(1,2) by (simp_all add: cstring_def)
  then have less: "(of_nat (length xs) :: u64) < of_nat (length ys) \<longleftrightarrow> length xs < length ys"
    by (simp add: word_less_nat_alt take_bit_nat_eq_self unat_of_nat)
  show ?thesis
    using end_with_loop_nth [OF assms] less
    by (auto simp: does_string_end_with_def strlen_cstring [OF assms(1)] strlen_cstring [OF assms(2)] suffix_nth not_less)
qed

text \<open>
  On two 0-terminated strings \<open>does_string_end_with\<close> returns, and says whether the second string is
  a suffix of the first.
\<close>

theorem does_string_end_with_suffix:
  assumes "cstring m str xs" and "cstring m suf ys"
  shows "does_string_end_with str suf m = Some (suffix ys xs)"
  using assms by (rule end_with_suffix)

lemma does_string_end_with_suffix_witness:
  "does_string_end_with 0 4 ((\<lambda>_. 0)(0 := 0x61, 1 := 0x62, 4 := 0x62)) = Some True \<and>
   does_string_end_with 4 0 ((\<lambda>_. 0)(0 := 0x61, 1 := 0x62, 4 := 0x62)) = Some False"
proof -
  have "cstring ((\<lambda>_. 0)(0 := 0x61, 1 := 0x62, 4 := 0x62)) 0 [0x61, 0x62]"
    "cstring ((\<lambda>_. 0)(0 := 0x61, 1 := 0x62, 4 := 0x62)) 4 [0x62]"
    by (simp_all add: cstring_def bytes_at_def less_Suc_eq all_conj_distrib imp_conjL)
  then show ?thesis by (simp add: does_string_end_with_suffix suffix_def)
qed

text \<open>
  C39. \<open>memmove\<close> to an address that is not above the source copies the range as it was, also when source and
  destination overlap. To an address above the source it does not return.
\<close>

theorem memmove_correct:
  assumes "unat s2 + unat n \<le> 2 ^ 64"
  shows "memmove s1 s2 n m =
    (if s2 < s1 then None else Some (\<lambda>x. if in_range x s1 (unat n) then m (x - s1 + s2) else m x))"
proof (cases "s2 < s1")
  case True
  then show ?thesis by (simp add: memmove_def memmove_back_None)
next
  case False
  have "s1 = s2 \<or> unat n \<le> unat (s1 - s2)"
    using False assms unat_u64_less [of s1] by (auto simp: word_less_nat_alt word_unat_eq_iff unat_sub_if_size word_size)
  then show ?thesis using False by (simp add: memmove_def memcpy_loop_eq)
qed

lemma memmove_correct_witness:
  "memmove 1 2 2 ((\<lambda>_. 0)(2 := 7, 3 := 8)) = Some ((\<lambda>_. 0)(1 := 7, 2 := 8, 3 := 8)) \<and>
   memmove 2 1 2 (\<lambda>_. 0) = None"
proof -
  have "(\<lambda>x. if in_range x 1 2 then ((\<lambda>_. 0)(2 := 7, 3 := 8)) (x - 1 + 2) else ((\<lambda>_. 0)(2 := 7, 3 := 8)) x) =
    ((\<lambda>_. 0)(1 := 7, 2 := 8, 3 := 8) :: memory)"
  proof
    fix x :: u64
    have "in_range x 1 2 \<longleftrightarrow> x = 1 \<or> x = 2" by (simp add: in_range_Suc numeral_2_eq_2)
    then show "(if in_range x 1 2 then ((\<lambda>_. 0)(2 := 7, 3 := 8)) (x - 1 + 2) else ((\<lambda>_. 0)(2 := 7, 3 := 8)) x) =
      ((\<lambda>_. 0)(1 := 7, 2 := 8, 3 := 8) :: memory) x" by auto
  qed
  then show ?thesis by (simp add: memmove_correct [of 2 2 1] memmove_correct [of 1 2 2])
qed

end
