(* ===== verification/Acpi_Tables.thy ===== *)
theory Acpi_Tables
  imports Vector Faults
begin

text \<open>
  The part of \<open>src/acpi/acpi.c\<close> that finds and validates tables: the root pointer, the root tables RSDT and XSDT, the
  lookup of a table by its signature and the list of the tables already parsed. Tables are read from the
  byte memory at the offsets of the packed structures of \<open>src/acpi/acpi.h\<close>. A signature that is passed to a function is the list
  of its bytes.
\<close>

section \<open>Structures\<close>

definition signature_at :: "memory \<Rightarrow> u64 \<Rightarrow> nat \<Rightarrow> u8 list" where
  "signature_at m a n = map (\<lambda>i. m (a + of_nat i)) [0..<n]"

definition sig :: "string \<Rightarrow> u8 list" where
  "sig cs = map of_char cs"

text \<open>\<open>rsdp_v1_t\<close>: signature (8 bytes), checksum, OEMID (6), revision, RSDT address (4).\<close>

definition sizeof_rsdp_v1 :: u64 where "sizeof_rsdp_v1 = 8 + 1 + 6 + 1 + 4"
definition rsdp_revision :: "memory \<Rightarrow> u64 \<Rightarrow> u8" where "rsdp_revision m a = m (a + 15)"
definition rsdt_address :: "memory \<Rightarrow> u64 \<Rightarrow> u32" where "rsdt_address m a = load32 m (a + 16)"

text \<open>\<open>rsdp_v2_t\<close>: the first version, length (4), XSDT address (8), extended checksum, reserved (3).\<close>

definition sizeof_rsdp_v2 :: u64 where "sizeof_rsdp_v2 = sizeof_rsdp_v1 + 4 + 8 + 1 + 3"
definition xsdt_address :: "memory \<Rightarrow> u64 \<Rightarrow> u64" where "xsdt_address m a = load64 m (a + 24)"

text \<open>
  \<open>sdt_hdr_t\<close>: signature (4), length (4), revision, checksum, OEMID (6), OEM table id (8), OEM revision (4),
  creator id (4), creator revision (4).
\<close>

definition sizeof_sdt_hdr :: u64 where "sizeof_sdt_hdr = 4 + 4 + 1 + 1 + 6 + 8 + 4 + 4 + 4"
definition sdt_length :: "memory \<Rightarrow> u64 \<Rightarrow> u32" where "sdt_length m hdr = load32 m (hdr + 4)"

text \<open>
  \<open>acpi_handlers\<close> is the address of the static array \<open>handlers\<close>, \<open>local_handler\<close> that of the local copy of one of its
  elements in \<open>acpi_parse_xsdt_tables\<close>.
\<close>

record acpi = heap +
  acpi_is_xsdt :: bool
  rsdp_v1 :: u64
  rsdp_v2 :: u64
  rsdt :: u64
  xsdt :: u64
  acpi_higher_half_offset :: u64
  acpi_parsed_tables :: u64
  acpi_handlers :: u64
  local_handler :: u64

section \<open>Signatures and checksums\<close>

definition acpi_signatures_equal :: "u8 list \<Rightarrow> u8 list \<Rightarrow> bool" where
  "acpi_signatures_equal s1 s2 \<longleftrightarrow> list_all (\<lambda>i. \<not> s1 ! i \<noteq> s2 ! i) [0..<4]"

definition acpi_header_signature_equals :: "memory \<Rightarrow> u64 \<Rightarrow> u8 list \<Rightarrow> bool" where
  "acpi_header_signature_equals m hdr signature \<longleftrightarrow> acpi_signatures_equal (signature_at m hdr 4) signature"

definition byte_sum :: "memory \<Rightarrow> u64 \<Rightarrow> u64 \<Rightarrow> u64" where
  "byte_sum m a n = for_u64 0 n (\<lambda>i sum. sum + ucast (m (a + i))) 0"

definition acpi_is_valid_sdt_checksum :: "memory \<Rightarrow> u64 \<Rightarrow> bool" where
  "acpi_is_valid_sdt_checksum m hdr \<longleftrightarrow> byte_sum m hdr (ucast (sdt_length m hdr)) mod 0x100 = 0"

section \<open>Root pointer and root tables\<close>

definition acpi_parse_rsdp ::
  "u64 \<Rightarrow> 'a acpi_scheme \<Rightarrow> ('a acpi_scheme, 'a acpi_scheme) outcome" where
  "acpi_parse_rsdp address s =
    (let table_v1 = address + acpi_higher_half_offset s;
         valid_signature = list_all (\<lambda>i. \<not> mem s (table_v1 + of_nat i) \<noteq> sig ''RSD PTR '' ! i) [0..<8]
     in and_then (faults_assert valid_signature ''Invalid RSDP V1 signature'' s)
       (\<lambda>s. and_then (faults_assert (byte_sum (mem s) table_v1 sizeof_rsdp_v1 mod 0x100 = 0) ''Invalid RSDP V1 checksum'' s)
       (\<lambda>s. if rsdp_revision (mem s) table_v1 = 0 then Done (s\<lparr>rsdp_v1 := table_v1\<rparr>)
            else if rsdp_revision (mem s) table_v1 = 2 then
              (let table_v2 = address + acpi_higher_half_offset s
               in and_then (faults_assert (byte_sum (mem s) table_v2 sizeof_rsdp_v2 mod 0x100 = 0) ''Invalid RSDP V2 checksum'' s)
                 (\<lambda>s. Done (s\<lparr>rsdp_v2 := table_v2\<rparr>)))
            else Done s)))"

definition acpi_parse_rsdt :: "'a acpi_scheme \<Rightarrow> ('a acpi_scheme, 'a acpi_scheme) outcome" where
  "acpi_parse_rsdt s =
    (let rsdt_hdr = ucast (rsdt_address (mem s) (rsdp_v1 s)) + acpi_higher_half_offset s
     in and_then (faults_assert (acpi_header_signature_equals (mem s) rsdt_hdr (sig ''RSDT'')) ''Invalid RSDT header signature'' s)
       (\<lambda>s. and_then (faults_assert (acpi_is_valid_sdt_checksum (mem s) rsdt_hdr) ''Invalid RSDT header checksum'' s)
       (\<lambda>s. Done (s\<lparr>rsdt := rsdt_hdr\<rparr>))))"

definition acpi_parse_xsdt :: "'a acpi_scheme \<Rightarrow> ('a acpi_scheme, 'a acpi_scheme) outcome" where
  "acpi_parse_xsdt s =
    (let xsdt_hdr = xsdt_address (mem s) (rsdp_v2 s) + acpi_higher_half_offset s
     in and_then (faults_assert (acpi_header_signature_equals (mem s) xsdt_hdr (sig ''XSDT'')) ''Invalid XSDT header signature'' s)
       (\<lambda>s. and_then (faults_assert (acpi_is_valid_sdt_checksum (mem s) xsdt_hdr) ''Invalid XSDT header checksum'' s)
       (\<lambda>s. Done (s\<lparr>xsdt := xsdt_hdr\<rparr>))))"

section \<open>Lookup\<close>

text \<open>The number of pointers behind a root table's header, and the \<open>i\<close>-th pointer.\<close>

definition rsdt_entries :: "'a acpi_scheme \<Rightarrow> u64" where
  "rsdt_entries s = (ucast (sdt_length (mem s) (rsdt s)) - sizeof_sdt_hdr) div 4"
definition xsdt_entries :: "'a acpi_scheme \<Rightarrow> u64" where
  "xsdt_entries s = (ucast (sdt_length (mem s) (xsdt s)) - sizeof_sdt_hdr) div 8"
definition rsdt_sdt :: "'a acpi_scheme \<Rightarrow> u64 \<Rightarrow> u64" where
  "rsdt_sdt s i = ucast (load32 (mem s) (rsdt s + sizeof_sdt_hdr + 4 * i))"
definition xsdt_sdt :: "'a acpi_scheme \<Rightarrow> u64 \<Rightarrow> u64" where
  "xsdt_sdt s i = load64 (mem s) (xsdt s + sizeof_sdt_hdr + 8 * i)"

text \<open>The loop over the tables: the first of the addresses \<open>table i\<close>, \<dots>, \<open>table (entries - 1)\<close> with the signature.\<close>

function find_table :: "(u64 \<Rightarrow> u64) \<Rightarrow> u64 \<Rightarrow> u64 \<Rightarrow> u8 list \<Rightarrow> memory \<Rightarrow> u64 option" where
  "find_table table entries i signature m =
    (if i < entries then
       (if acpi_header_signature_equals m (table i) signature then Some (table i)
        else find_table table entries (i + 1) signature m)
     else None)"
  by pat_completeness auto
termination
  by (relation "measure (\<lambda>(_, n, i, _). unat n - unat i)") (auto simp: u64_Suc word_less_nat_alt)

declare find_table.simps [simp del]

definition acpi_get_table :: "u8 list \<Rightarrow> 'a acpi_scheme \<Rightarrow> u64" where
  "acpi_get_table signature s =
    (case (if acpi_is_xsdt s
           then find_table (\<lambda>i. xsdt_sdt s i + acpi_higher_half_offset s) (xsdt_entries s) 0 signature (mem s)
           else find_table (\<lambda>i. rsdt_sdt s i + acpi_higher_half_offset s) (rsdt_entries s) 0 signature (mem s)) of
       Some hdr \<Rightarrow> hdr
     | None \<Rightarrow> 0)"

definition acpi_table_exists :: "u8 list \<Rightarrow> 'a acpi_scheme \<Rightarrow> bool" where
  "acpi_table_exists signature s = (find_table (xsdt_sdt s) (xsdt_entries s) 0 signature (mem s) \<noteq> None)"

function has_parsed_from :: "u64 \<Rightarrow> u8 list \<Rightarrow> 'a acpi_scheme \<Rightarrow> bool" where
  "has_parsed_from i signature s =
    (if i < vector_size s (acpi_parsed_tables s) then
       (let sig2 = vector_get s (acpi_parsed_tables s) i
        in if acpi_signatures_equal signature (signature_at (mem s) sig2 4) then True
           else has_parsed_from (i + 1) signature s)
     else False)"
  by pat_completeness auto
termination
  by (relation "measure (\<lambda>(i, _, s). unat (vector_size s (acpi_parsed_tables s)) - unat i)")
    (auto simp: u64_Suc word_less_nat_alt)

declare has_parsed_from.simps [simp del]

definition acpi_has_parsed :: "u8 list \<Rightarrow> 'a acpi_scheme \<Rightarrow> bool" where
  "acpi_has_parsed signature s = has_parsed_from 0 signature s"

end
