(* ===== verification/Madt.thy ===== *)
theory Madt
  imports Acpi_Tables
begin

text \<open>
  \<open>src/acpi/madt.c\<close>: the walk over the entries of the MADT. Each entry starts with its type and its length; known
  entries are copied to the heap and collected in vectors. The walk advances by the length that the
  entry states, so it is a partial function.
\<close>

record madt = acpi +
  madt_hdr :: u64
  local_apic_addr :: u64
  lapics :: u64
  ioapics :: u64
  interrupt_source_overrides :: u64
  interrupt_ioapic_nmis :: u64
  interrupt_lapic_nmis :: u64

section \<open>Structures\<close>

text \<open>
  The packed structures by their sizes: \<open>madt_local_apic_addr_t\<close> (address and flags, 4 bytes each),
  \<open>madt_entry_info_t\<close> (type and length, one byte each), \<open>madt_local_apic_t\<close> (processor id, APIC id, flags (4)),
  \<open>madt_ioapic_t\<close> (id, reserved, address (4), GSI base (4)), \<open>madt_int_src_override_t\<close> (bus, IRQ, GSI (4), flags),
  \<open>madt_ioapic_nmi_src_t\<close> (flags, GSI (4)), \<open>madt_lapic_nmi_t\<close> (processor id, flags, LINT). The bit fields of
  \<open>madt_flags_t\<close> (2, 2 and 12 bits) take two bytes.
\<close>

definition sizeof_madt_local_apic_addr :: u64 where "sizeof_madt_local_apic_addr = 4 + 4"
definition sizeof_madt_entry_info :: u64 where "sizeof_madt_entry_info = 1 + 1"
definition sizeof_madt_flags :: u64 where "sizeof_madt_flags = 2"
definition sizeof_madt_local_apic :: u64 where "sizeof_madt_local_apic = 1 + 1 + 4"
definition sizeof_madt_ioapic :: u64 where "sizeof_madt_ioapic = 1 + 1 + 4 + 4"
definition sizeof_madt_int_src_override :: u64 where "sizeof_madt_int_src_override = 1 + 1 + 4 + sizeof_madt_flags"
definition sizeof_madt_ioapic_nmi_src :: u64 where "sizeof_madt_ioapic_nmi_src = sizeof_madt_flags + 4"
definition sizeof_madt_lapic_nmi :: u64 where "sizeof_madt_lapic_nmi = 1 + sizeof_madt_flags + 1"

definition entry_type :: "memory \<Rightarrow> u64 \<Rightarrow> u8" where "entry_type m info = m info"
definition entry_length :: "memory \<Rightarrow> u64 \<Rightarrow> u8" where "entry_length m info = m (info + 1)"

text \<open>\<open>madt_lapic_addr_override_t\<close>: reserved (2), address (8).\<close>

definition lapic_override_address :: "memory \<Rightarrow> u64 \<Rightarrow> u64" where
  "lapic_override_address m override = load64 m (override + 2)"

section \<open>The operations\<close>

text \<open>A copy of \<open>n\<close> bytes on the heap, added to a vector.\<close>

definition add_copy :: "u64 \<Rightarrow> u64 \<Rightarrow> u64 \<Rightarrow> 'a heap_scheme \<Rightarrow> 'a heap_scheme option" where
  "add_copy v src n s =
    (case malloc n s of None \<Rightarrow> None
     | Some (copy, s) \<Rightarrow> vector_add v copy (s\<lparr>mem := memcpy copy src n (mem s)\<rparr>))"

text \<open>The \<open>switch\<close>: \<open>Some (False, s)\<close> is the early return of an unknown type.\<close>

definition madt_entry :: "u64 \<Rightarrow> 'a madt_scheme \<Rightarrow> (bool \<times> 'a madt_scheme) option" where
  "madt_entry info s =
    (let t = entry_type (mem s) info; body = info + sizeof_madt_entry_info in
     if t = 0 then map_option (Pair True) (add_copy (lapics s) body sizeof_madt_local_apic s)
     else if t = 1 then map_option (Pair True) (add_copy (ioapics s) body sizeof_madt_ioapic s)
     else if t = 2 then
       map_option (Pair True) (add_copy (interrupt_source_overrides s) body sizeof_madt_int_src_override s)
     else if t = 3 then map_option (Pair True) (add_copy (interrupt_ioapic_nmis s) body sizeof_madt_ioapic_nmi_src s)
     else if t = 4 then map_option (Pair True) (add_copy (interrupt_lapic_nmis s) body sizeof_madt_lapic_nmi s)
     else if t = 5 then Some (True, s\<lparr>local_apic_addr := lapic_override_address (mem s) body\<rparr>)
     else if t = 9 \<or> t = 10 then Some (True, s)
     else Some (False, print (''%C[MADT]%C - Error - encountered entry of type %d'' @ newline)
       [PInt (ucast COLOUR_KERNEL_INFO), PInt (ucast COLOUR_PRINT), PInt (ucast t)] s))"

partial_function (option) madt_entries :: "u64 \<Rightarrow> 'a madt_scheme \<Rightarrow> (bool \<times> 'a madt_scheme) option" where
  "madt_entries i s =
    (if i < ucast (sdt_length (mem s) (madt_hdr s)) then
       (case madt_entry (madt_hdr s + i) s of
          None \<Rightarrow> None
        | Some (ok, s') \<Rightarrow>
            if ok then madt_entries (i + ucast (entry_length (mem s') (madt_hdr s + i))) s'
            else Some (False, s'))
     else Some (True, s))"

definition init_vectors :: "'a madt_scheme \<Rightarrow> 'a madt_scheme option" where
  "init_vectors s =
    (case vector_init s of None \<Rightarrow> None | Some (v, s) \<Rightarrow> let s = s\<lparr>lapics := v\<rparr> in
     case vector_init s of None \<Rightarrow> None | Some (v, s) \<Rightarrow> let s = s\<lparr>ioapics := v\<rparr> in
     case vector_init s of None \<Rightarrow> None | Some (v, s) \<Rightarrow> let s = s\<lparr>interrupt_source_overrides := v\<rparr> in
     case vector_init s of None \<Rightarrow> None | Some (v, s) \<Rightarrow> let s = s\<lparr>interrupt_ioapic_nmis := v\<rparr> in
     case vector_init s of None \<Rightarrow> None | Some (v, s) \<Rightarrow> Some (s\<lparr>interrupt_lapic_nmis := v\<rparr>))"

definition madt_summary :: "'a madt_scheme \<Rightarrow> 'a madt_scheme" where
  "madt_summary s =
    (let num_ioapics = vector_size s (ioapics s);
         num_lapics = vector_size s (lapics s);
         s = print ''%C[MADT]%C - Found %d I/O APIC''
           [PInt (ucast COLOUR_KERNEL_INFO), PInt (ucast COLOUR_PRINT), PInt num_ioapics] s;
         s = (if num_ioapics > 1 then print ''s'' [] s else s);
         s = print '' and %d Local APIC'' [PInt num_lapics] s;
         s = (if num_lapics > 1 then print ''s'' [] s else s)
     in print newline [] s)"

definition acpi_parse_madt :: "'a madt_scheme \<Rightarrow> (bool \<times> 'a madt_scheme) option" where
  "acpi_parse_madt s =
    (let s = s\<lparr>madt_hdr := acpi_get_table (sig ''APIC'') s\<rparr> in
     if madt_hdr s = 0 then Some (False, s)
     else if \<not> acpi_is_valid_sdt_checksum (mem s) (madt_hdr s) then
       Some (False, print (''%C[MADT]%C - Invalid MADT checksum'' @ newline)
         [PInt (ucast COLOUR_KERNEL_INFO), PInt (ucast COLOUR_PRINT)] s)
     else
       (case init_vectors s of None \<Rightarrow> None
        | Some s \<Rightarrow>
          (let s = s\<lparr>local_apic_addr := ucast (load32 (mem s) (madt_hdr s + sizeof_sdt_hdr))\<rparr>
           in case madt_entries (sizeof_sdt_hdr + sizeof_madt_local_apic_addr) s of
                None \<Rightarrow> None
              | Some (ok, s) \<Rightarrow> Some (if ok then (True, madt_summary s) else (False, s)))))"

definition acpi_get_lapic_addr :: "'a madt_scheme \<Rightarrow> u64" where
  "acpi_get_lapic_addr s = local_apic_addr s"
definition acpi_get_lapics :: "'a madt_scheme \<Rightarrow> u64" where
  "acpi_get_lapics s = lapics s"
definition acpi_get_ioapics :: "'a madt_scheme \<Rightarrow> u64" where
  "acpi_get_ioapics s = ioapics s"

end
