(* ===== verification/Mcfg.thy ===== *)
theory Mcfg
  imports Madt
begin

text \<open>
  \<open>src/acpi/mcfg.c\<close>: the segment groups of the MCFG are copied to the heap and collected in a vector.
\<close>

text \<open>\<open>mcfg_hdr_t\<close>: a table header and 8 reserved bytes.\<close>

definition sizeof_mcfg_hdr :: u64 where "sizeof_mcfg_hdr = sizeof_sdt_hdr + 8"

text \<open>\<open>mcfg_segment_group_t\<close>: base address (8), segment group (2), first bus, last bus, reserved (4).\<close>

definition sizeof_segment_group :: u64 where "sizeof_segment_group = 8 + 2 + 1 + 1 + 4"
definition sg_base_address :: "memory \<Rightarrow> u64 \<Rightarrow> u64" where "sg_base_address m g = load64 m g"
definition sg_start_bus :: "memory \<Rightarrow> u64 \<Rightarrow> u8" where "sg_start_bus m g = m (g + 10)"
definition sg_end_bus :: "memory \<Rightarrow> u64 \<Rightarrow> u8" where "sg_end_bus m g = m (g + 11)"

record mcfg = madt +
  mcfg_hdr :: u64
  mcfg_segment_groups :: u64

text \<open>The loop over the entries.\<close>

function copy_groups :: "u64 \<Rightarrow> u64 \<Rightarrow> 'a mcfg_scheme \<Rightarrow> 'a mcfg_scheme option" where
  "copy_groups i entries s =
    (if i < entries then
       (let config = mcfg_hdr s + sizeof_mcfg_hdr + i * sizeof_segment_group
        in case add_copy (mcfg_segment_groups s) config sizeof_segment_group s of
             None \<Rightarrow> None
           | Some s \<Rightarrow> copy_groups (i + 1) entries s)
     else Some s)"
  by pat_completeness auto
termination
  by (relation "measure (\<lambda>(i, n, _). unat n - unat i)") (auto simp: u64_Suc word_less_nat_alt)

declare copy_groups.simps [simp del]

definition acpi_parse_mcfg :: "'a mcfg_scheme \<Rightarrow> (bool \<times> 'a mcfg_scheme) option" where
  "acpi_parse_mcfg s =
    (let s = s\<lparr>mcfg_hdr := acpi_get_table (sig ''MCFG'') s\<rparr> in
     if mcfg_hdr s = 0 then Some (False, s)
     else if \<not> acpi_is_valid_sdt_checksum (mem s) (mcfg_hdr s) then
       Some (False, print (''%C[MCFG]%C - Invalid MCFG checksum'' @ newline)
         [PInt (ucast COLOUR_KERNEL_INFO), PInt (ucast COLOUR_PRINT)] s)
     else
       (case vector_init s of None \<Rightarrow> None
        | Some (v, s) \<Rightarrow>
          (let s = s\<lparr>mcfg_segment_groups := v\<rparr>;
               entries = (ucast (sdt_length (mem s) (mcfg_hdr s)) - sizeof_mcfg_hdr) div sizeof_segment_group
           in case copy_groups 0 entries s of None \<Rightarrow> None
              | Some s \<Rightarrow> Some (True, print (''%C[MCFG]%C - Parsed MCFG'' @ newline)
                  [PInt (ucast COLOUR_KERNEL_INFO), PInt (ucast COLOUR_PRINT)] s))))"

definition acpi_get_mcfg :: "'a mcfg_scheme \<Rightarrow> u64" where
  "acpi_get_mcfg s = mcfg_hdr s"
definition acpi_mcfg_get_segment_groups :: "'a mcfg_scheme \<Rightarrow> u64" where
  "acpi_mcfg_get_segment_groups s = mcfg_segment_groups s"

end
