(* ===== verification/Vector_Copies.thy ===== *)
theory Vector_Copies
  imports Madt
begin

text \<open>
  Vectors of copies: what the parsers of the MADT and the MCFG build. A copy is a segment in use that holds bytes that were
  read below the heap. Allocations for one vector leave the other vectors and all copies alone.
\<close>

lemma heap_list_agree:
  assumes "heap_list m base e hs" "\<And>a. unat base \<le> unat a \<Longrightarrow> unat a < e \<Longrightarrow> m' a = m a"
  shows "heap_list m' base e hs"
  using assms chain_agree [of m e "unat base" hs e m'] unfolding heap_list_def by blast

section \<open>Vectors under a frame\<close>

lemma is_vec_kept:
  assumes v: "is_vec m base e hs x y xs" and f: "kept_segs hs hs' X m m'" and h: "heap_list m' base e hs'"
    and X: "x \<notin> X" "y \<notin> X"
  shows "is_vec m' base e hs' x y xs"
proof -
  note D = is_vecD [OF v]
  have u8: "unat (seg_addr x + sizeof_hdr + 8) = unat (seg_addr x) + 29"
    using unat_plus [of "seg_addr x + sizeof_hdr" 8] D(7,12,14,16) by simp
  have "load64 m' (seg_addr x + sizeof_hdr) = load64 m (seg_addr x + sizeof_hdr)"
    by (rule kept_load64 [OF f D(2,5) X(1)]) (use D in simp_all)
  moreover have "load64 m' (seg_addr x + sizeof_hdr + 8) = load64 m (seg_addr x + sizeof_hdr + 8)"
    by (rule kept_load64 [OF f D(2,5) X(1)]) (use D u8 in simp_all)
  moreover have "elems m' (seg_addr y + sizeof_hdr) (length xs) = elems m (seg_addr y + sizeof_hdr) (length xs)"
  proof -
    have "load64 m' (seg_addr y + sizeof_hdr + of_nat 8 * of_nat i) = load64 m (seg_addr y + sizeof_hdr + of_nat 8 * of_nat i)"
      if "i < length xs" for i
    proof (rule kept_load64 [OF f D(3,6) X(2)])
      have "unat (seg_addr y + sizeof_hdr + of_nat 8 * of_nat i) = unat (seg_addr y + sizeof_hdr) + 8 * i"
        by (rule unat_item [OF _ that]) (use D in simp)
      then show "unat (seg_addr y) + 21 \<le> unat (seg_addr y + sizeof_hdr + of_nat 8 * of_nat i)"
        "unat (seg_addr y + sizeof_hdr + of_nat 8 * of_nat i) + 8 \<le> seg_end y"
        using D that by simp_all
    qed (rule D(17))
    then show ?thesis by (simp add: elems_def)
  qed
  moreover have "x \<in> set hs'" "y \<in> set hs'" using f D(2,3,5,6) by (auto simp: kept_segs_def)
  ultimately show ?thesis
    using D h by (simp add: is_vec_def vector_length_def vector_items_def)
qed

lemmas is_vec_frame = is_vec_kept [OF _ frame_kept]

section \<open>Copies\<close>

definition copied :: "memory \<Rightarrow> seg list \<Rightarrow> seg set \<Rightarrow> u64 \<Rightarrow> (nat \<Rightarrow> u8) \<Rightarrow> nat \<Rightarrow> bool" where
  "copied m hs X c bytes n \<longleftrightarrow> (\<exists>t \<in> set hs. \<not> seg_free t \<and> t \<notin> X \<and> c = seg_addr t + sizeof_hdr \<and> n \<le> seg_size t \<and>
    (\<forall>i < n. m (c + of_nat i) = bytes i))"

lemma copied_bytes: "copied m hs X c bytes n \<Longrightarrow> i < n \<Longrightarrow> m (c + of_nat i) = bytes i"
  by (auto simp: copied_def)

lemma copied_kept:
  assumes "copied m hs X c bytes n" "kept_segs hs hs' Y m m'" "heap_list m base e hs" "Y \<subseteq> X"
  shows "copied m' hs' X c bytes n"
proof -
  from assms(1) obtain t where t: "t \<in> set hs" "\<not> seg_free t" "t \<notin> X" "c = seg_addr t + sizeof_hdr" "n \<le> seg_size t"
    "\<And>i. i < n \<Longrightarrow> m (c + of_nat i) = bytes i" unfolding copied_def by blast
  note S = heap_list_seg [OF assms(3) t(1)]
  have "m' (c + of_nat i) = m (c + of_nat i)" if "i < n" for i
  proof -
    have "unat (c + of_nat i) = unat (seg_addr t) + 21 + i"
      using unat_plus [of c i] S t(4,5) that by simp
    then show ?thesis using assms(2,4) t S that unfolding kept_segs_def by auto
  qed
  with t assms(2) show ?thesis unfolding copied_def kept_segs_def by (intro bexI [of _ t]) auto
qed

lemmas copied_frame = copied_kept [OF _ frame_kept]

lemma copied_weaken:
  "copied m hs X c bytes n \<Longrightarrow> (\<And>t. t \<in> set hs \<Longrightarrow> \<not> seg_free t \<Longrightarrow> t \<in> Y \<Longrightarrow> t \<in> X) \<Longrightarrow> copied m hs Y c bytes n"
  unfolding copied_def by blast

lemma memcpy_block:
  assumes "heap_list m base e hs" "t \<in> set hs" "unat n \<le> seg_size t" "unat src + unat n \<le> unat base"
  defines "c \<equiv> seg_addr t + sizeof_hdr"
  shows "within (unat (seg_addr t) + 21) (seg_end t) m (memcpy c src n m)"
    "i < unat n \<Longrightarrow> memcpy c src n m (c + of_nat i) = m (src + of_nat i)"
proof -
  note S = heap_list_seg [OF assms(1,2)] and B = heap_list_segs [OF assms(1,2)]
  have c: "unat c = unat (seg_addr t) + 21" unfolding c_def by (rule S(1))
  have "unat (c - src) = unat c - unat src"
    using c B(1) assms(4) by (simp add: unat_sub_if_size)
  then have "unat n \<le> unat (c - src)" using c B(1) assms(4) by simp
  then have eq: "memcpy c src n m = (\<lambda>x. if in_range x c (unat n) then m (x - c + src) else m x)"
    by (intro memcpy_eq) simp
  show "within (unat (seg_addr t) + 21) (seg_end t) m (memcpy c src n m)"
    using within_range [of c 0 "unat n" "memcpy c src n m" m "seg_end t"] S(2,3) c assms(3) by (simp add: eq)
  show "memcpy c src n m (c + of_nat i) = m (src + of_nat i)" if "i < unat n"
  proof -
    have "i < 18446744073709551616" using that unat_u64_less [of n] by linarith
    then have "unat (of_nat i :: u64) = i" by (simp add: unat_of_nat take_bit_nat_eq_self)
    then show ?thesis using that by (simp add: eq in_range_def add.commute)
  qed
qed

text \<open>A block that has just been allocated may be written at once.\<close>

lemma malloc_block:
  fixes s :: "'a heap_scheme"
  assumes h: "heap_list (mem s) (heap_base_address s) e hs" and f: "first_fit n hs = Some (c, hs1)"
  obtains m1 t where "malloc n s = Some (c, s\<lparr>mem := m1\<rparr>)" "heap_list m1 (heap_base_address s) e hs1"
    "frame (heap_base_address s) e hs hs1 {} (mem s) m1"
    "t \<in> set hs1" "\<not> seg_free t" "c = seg_addr t + sizeof_hdr" "unat n \<le> seg_size t"
    "\<And>w. w \<in> set hs \<Longrightarrow> \<not> seg_free w \<Longrightarrow> w \<in> set hs1 \<and> w \<noteq> t"
    "\<And>m2. within (unat (seg_addr t) + 21) (seg_end t) m1 m2 \<Longrightarrow>
      heap_list m2 (heap_base_address s) e hs1 \<and> frame (heap_base_address s) e hs hs1 {} (mem s) m2"
proof -
  let ?base = "heap_base_address s"
  from malloc_frame [OF h f] obtain m1 where m1: "malloc n s = Some (c, s\<lparr>mem := m1\<rparr>)"
    "heap_list m1 ?base e hs1" "frame ?base e hs hs1 {} (mem s) m1" by blast
  from first_fit_seg [OF h f] obtain t where t: "t \<in> set hs1" "\<not> seg_free t" "c = seg_addr t + sizeof_hdr"
    "unat n \<le> seg_size t" "\<And>w. w \<in> set hs \<Longrightarrow> \<not> seg_free w \<Longrightarrow> w \<in> set hs1 \<and> w \<noteq> t" by metis
  have w: "heap_list m2 ?base e hs1 \<and> frame ?base e hs hs1 {} (mem s) m2"
    if "within (unat (seg_addr t) + 21) (seg_end t) m1 m2" for m2
  proof
    show "heap_list m2 ?base e hs1" using m1(2) t(1) that by (rule heap_list_write)
    have "frame ?base e hs hs1 {} (mem s) m1" by (rule m1(3))
    also have "frame ?base e hs1 hs1 {t} m1 m2" using m1(2) t(1) that by (rule frame_used)
    finally show "frame ?base e hs hs1 {} (mem s) m2" by (rule frame_drop) (use t(5) in blast)
  qed
  show thesis by (rule that [OF m1 t w])
qed

lemma vector_add_vec:
  fixes s :: "'a heap_scheme"
  assumes v: "is_vec (mem s) (heap_base_address s) e hs x y xs"
    and f: "first_fit (8 * (of_nat (length xs) + 1)) hs = Some (p, hs')"
  shows "\<exists>m' z. vector_add (seg_addr x + sizeof_hdr) a s = Some (s\<lparr>mem := m'\<rparr>) \<and>
    is_vec m' (heap_base_address s) e hs' x z (xs @ [a]) \<and> (\<forall>w \<in> set hs. \<not> seg_free w \<longrightarrow> w \<noteq> z) \<and>
    frame (heap_base_address s) e hs hs' {x} (mem s) m'"
proof -
  let ?base = "heap_base_address s" and ?v = "seg_addr x + sizeof_hdr"
  from vector_grow [OF v f] obtain m1 z w where
    g: "vector_grow ?v s = Some (s\<lparr>mem := m1\<rparr>)" "is_vec m1 ?base e hs' x z (xs @ [w])"
    "\<And>y. y \<in> set hs \<Longrightarrow> \<not> seg_free y \<Longrightarrow> y \<noteq> z" "frame ?base e hs hs' {x} (mem s) m1" by blast
  note G = is_vecD [OF g(2)]
  define m2 where "m2 = store64 m1 (seg_addr z + sizeof_hdr + 8 * of_nat (length xs)) a"
  have v2: "is_vec m2 ?base e hs' x z (xs @ [a])"
    using is_vec_set_item [OF g(2), of "length xs" a] by (simp add: m2_def)
  have fr: "frame ?base e hs' hs' {z} m1 m2"
  proof (rule frame_used [OF G(1,3)])
    have "unat (seg_addr z + sizeof_hdr + of_nat 8 * of_nat (length xs)) = unat (seg_addr z + sizeof_hdr) + 8 * length xs"
      by (rule unat_item [of _ "length xs + 1"]) (use G in simp_all)
    then show "within (unat (seg_addr z) + 21) (seg_end z) m1 m2"
      unfolding m2_def using G
      by (intro within_mono [OF store64_within [of "seg_addr z + sizeof_hdr + 8 * of_nat (length xs)"]]) simp_all
  qed
  have "vector_length m1 ?v - 1 = of_nat (length xs)" using G(9) by simp
  then have "vector_add ?v a s = Some (s\<lparr>mem := m2\<rparr>)"
    using g(1) G(10) by (simp add: vector_add_def set_item_def m2_def)
  moreover have "frame ?base e hs hs' {x} (mem s) m2"
  proof -
    have "frame ?base e hs hs' {x} (mem s) m1" by (rule g(4))
    also have "frame ?base e hs' hs' {z} m1 m2" by (rule fr)
    finally show ?thesis by (rule frame_drop) (use g(3) in blast)
  qed
  ultimately show ?thesis using v2 g(3) by blast
qed

lemma add_copy_vec:
  fixes s :: "'a heap_scheme"
  assumes v: "is_vec (mem s) (heap_base_address s) e hs x y xs"
    and f: "first_fits [n, 8 * (of_nat (length xs) + 1)] hs = Some (ps, hs')"
    and src: "unat src + unat n \<le> unat (heap_base_address s)"
  shows "\<exists>m' z c. add_copy (seg_addr x + sizeof_hdr) src n s = Some (s\<lparr>mem := m'\<rparr>) \<and>
    is_vec m' (heap_base_address s) e hs' x z (xs @ [c]) \<and>
    (\<forall>w \<in> set hs. \<not> seg_free w \<longrightarrow> w \<noteq> z) \<and>
    copied m' hs' (insert z (set hs)) c (\<lambda>i. mem s (src + of_nat i)) (unat n) \<and>
    frame (heap_base_address s) e hs hs' {x} (mem s) m'"
proof -
  let ?base = "heap_base_address s" and ?v = "seg_addr x + sizeof_hdr"
  note D = is_vecD [OF v]
  from f obtain c p hs1 where f1: "first_fit n hs = Some (c, hs1)"
    and f2: "first_fit (8 * (of_nat (length xs) + 1)) hs1 = Some (p, hs')"
    by (auto split: option.splits)
  from D(1) f1 obtain m1 t where m1: "malloc n s = Some (c, s\<lparr>mem := m1\<rparr>)" "heap_list m1 ?base e hs1"
    "frame ?base e hs hs1 {} (mem s) m1"
    and t: "t \<in> set hs1" "\<not> seg_free t" "c = seg_addr t + sizeof_hdr" "unat n \<le> seg_size t"
      "\<And>w. w \<in> set hs \<Longrightarrow> \<not> seg_free w \<Longrightarrow> w \<in> set hs1 \<and> w \<noteq> t"
    and fill: "\<And>m2. within (unat (seg_addr t) + 21) (seg_end t) m1 m2 \<Longrightarrow>
      heap_list m2 ?base e hs1 \<and> frame ?base e hs hs1 {} (mem s) m2"
    by (rule malloc_block) blast
  define m2 where "m2 = memcpy c src n m1"
  have w2: "within (unat (seg_addr t) + 21) (seg_end t) m1 m2"
    unfolding m2_def t(3) using m1(2) t(1,4) src by (rule memcpy_block(1))
  note h2 = conjunct1 [OF fill [OF w2]] and fr2 = conjunct2 [OF fill [OF w2]]
  have "is_vec (mem (s\<lparr>mem := m2\<rparr>)) (heap_base_address (s\<lparr>mem := m2\<rparr>)) e hs1 x y xs"
    using is_vec_frame [OF v fr2 h2] by simp
  from vector_add_vec [OF this f2, of c] obtain m4 z where
    a: "vector_add ?v c (s\<lparr>mem := m2\<rparr>) = Some (s\<lparr>mem := m4\<rparr>)" "is_vec m4 ?base e hs' x z (xs @ [c])"
    "\<And>w. w \<in> set hs1 \<Longrightarrow> \<not> seg_free w \<Longrightarrow> w \<noteq> z" "frame ?base e hs1 hs' {x} m2 m4" by auto
  have "add_copy ?v src n s = Some (s\<lparr>mem := m4\<rparr>)"
    using m1(1) a(1) by (simp add: add_copy_def m2_def)
  moreover have "frame ?base e hs hs' {x} (mem s) m4" using frame_trans [OF fr2 a(4)] by simp
  moreover have "copied m4 hs' (insert z (set hs)) c (\<lambda>i. mem s (src + of_nat i)) (unat n)"
  proof -
    have "m2 (c + of_nat i) = mem s (src + of_nat i)" if i: "i < unat n" for i
    proof -
      have "m2 (c + of_nat i) = m1 (src + of_nat i)"
        unfolding m2_def t(3) using m1(2) t(1,4) src i by (rule memcpy_block(2))
      also have "unat (src + of_nat i) < unat ?base"
        using unat_plus [of src i] src i unat_u64_less [of ?base] by simp
      then have "m1 (src + of_nat i) = mem s (src + of_nat i)" using m1(3) by (simp add: frame_def within_def)
      finally show ?thesis .
    qed
    then have "copied m2 hs1 {w. w \<noteq> t} c (\<lambda>i. mem s (src + of_nat i)) (unat n)"
      using t unfolding copied_def by blast
    moreover have "x \<noteq> t" "z \<noteq> t" "t \<notin> set hs" using t(2,5) D(2,5) a(3) [OF t(1,2)] by auto
    ultimately have c4: "copied m4 hs' {w. w \<noteq> t} c (\<lambda>i. mem s (src + of_nat i)) (unat n)"
      by (intro copied_frame [OF _ a(4) h2]) simp_all
    show ?thesis using \<open>z \<noteq> t\<close> \<open>t \<notin> set hs\<close> by (intro copied_weaken [OF c4]) auto
  qed
  moreover have "\<forall>w \<in> set hs. \<not> seg_free w \<longrightarrow> w \<noteq> z" using t(5) a(3) by blast
  ultimately show ?thesis using a(2) by blast
qed

lemma first_fits_append:
  "first_fits (as @ bs) hs =
    (case first_fits as hs of None \<Rightarrow> None
     | Some (ps, hs1) \<Rightarrow> map_option (\<lambda>(qs, hs2). (ps @ qs, hs2)) (first_fits bs hs1))"
proof (induction as arbitrary: hs)
  case Nil
  then show ?case by (simp add: option.map_ident_strong)
next
  case (Cons a as)
  then show ?case by (auto simp: option.map_comp comp_def case_prod_unfold split: option.splits)
qed

section \<open>A heap above given tables\<close>

definition with_tables :: "memory \<Rightarrow> memory" where
  "with_tables tables a = (if a < demo_heap_base then tables a else mem demo_heap a)"

lemma with_tables_heap:
  "heap_list (with_tables tables) demo_heap_base (unat demo_heap_base + 4096) [Seg demo_heap_base 4075 True]"
  by (rule heap_list_agree [OF demo_heap(4)]) (simp add: with_tables_def word_less_nat_alt)

end
