(* ===== verification/CMemory_Eval.thy ===== *)
theory CMemory_Eval
  imports CMemory
begin

text \<open>Typed loads as sums of bytes, by which concrete memories are evaluated.\<close>

lemma load16_bytes [mem_simps]: "load16 m a = of_nat (unat (m a) + 256 * unat (m (a + 1)))"
proof -
  have two: "(2 :: nat) = Suc (Suc 0)" by simp
  show ?thesis unfolding load16_def two load_le.simps by simp
qed

lemma load32_bytes [mem_simps]:
  "load32 m a = of_nat (unat (m a) + 256 * (unat (m (a + 1)) + 256 * (unat (m (a + 2)) + 256 * unat (m (a + 3)))))"
proof -
  have four: "(4 :: nat) = Suc (Suc (Suc (Suc 0)))" by simp
  show ?thesis unfolding load32_def four load_le.simps by (simp add: add.assoc)
qed

lemma load64_bytes [mem_simps]:
  "load64 m a = of_nat (unat (m a) + 256 * (unat (m (a + 1)) + 256 * (unat (m (a + 2)) + 256 * (unat (m (a + 3)) + 256 *
    (unat (m (a + 4)) + 256 * (unat (m (a + 5)) + 256 * (unat (m (a + 6)) + 256 * (unat (m (a + 7))))))))))"
proof -
  have eight: "(8 :: nat) = Suc (Suc (Suc (Suc (Suc (Suc (Suc (Suc 0)))))))" by simp
  show ?thesis unfolding load64_def eight load_le.simps by (simp add: add.assoc)
qed

end
