(* ===== verification/Acpi_Correct.thy ===== *)
theory Acpi_Correct
  imports Acpi_Tables CMemory_Eval
begin

text \<open>
  What the table lookup of \<open>src/acpi/acpi.c\<close> computes: a checksum is a sum of bytes, a signature matches when its four
  bytes are equal, and the searches are \<open>find\<close> on the list of tables.
\<close>

section \<open>Signatures and checksums\<close>

lemma length_signature [simp]: "length (signature_at m a n) = n"
  by (simp add: signature_at_def)

lemma signatures_equal_iff:
  "length s1 = 4 \<Longrightarrow> length s2 = 4 \<Longrightarrow> acpi_signatures_equal s1 s2 \<longleftrightarrow> s1 = s2"
  by (auto simp: acpi_signatures_equal_def list_eq_iff_nth_eq list_all_iff)

lemma header_signature_iff:
  "length sg = 4 \<Longrightarrow> acpi_header_signature_equals m hdr sg \<longleftrightarrow> signature_at m hdr 4 = sg"
  by (simp add: acpi_header_signature_equals_def signatures_equal_iff)

definition checksum_ok :: "memory \<Rightarrow> u64 \<Rightarrow> nat \<Rightarrow> bool" where
  "checksum_ok m a n \<longleftrightarrow> 256 dvd (\<Sum>i<n. unat (m (a + of_nat i)))"

lemma byte_sum_eq: "unat (byte_sum m a n) mod 256 = (\<Sum>i<unat n. unat (m (a + of_nat i))) mod 256"
  unfolding byte_sum_def
proof (rule for_u64_invariant [where P = "\<lambda>k sum. unat sum mod 256 = (\<Sum>i<k. unat (m (a + of_nat i))) mod 256"])
  fix j sum :: u64
  assume IH: "unat sum mod 256 = (\<Sum>i<unat j. unat (m (a + of_nat i))) mod 256"
  have "unat (sum + ucast (m (a + j))) mod 256 = (unat sum + unat (m (a + j))) mod 256"
  proof -
    have "unat (ucast (m (a + j)) :: u64) = unat (m (a + j))"
      by (simp add: unsigned_ucast_eq take_bit_nat_eq_self_iff order.strict_trans [OF unsigned_less])
    then have "unat (sum + ucast (m (a + j))) = (unat sum + unat (m (a + j))) mod 2 ^ 64"
      by (simp add: unat_word_ariths)
    then show ?thesis by (simp add: mod_mod_cancel)
  qed
  also have "\<dots> = (\<Sum>i<Suc (unat j). unat (m (a + of_nat i))) mod 256"
    using IH by (simp add: mod_simps) (metis mod_add_left_eq)
  finally show "unat (sum + ucast (m (a + j))) mod 256 = (\<Sum>i<Suc (unat j). unat (m (a + of_nat i))) mod 256" .
qed simp_all

lemma byte_sum_zero: "byte_sum m a n mod 0x100 = 0 \<longleftrightarrow> checksum_ok m a (unat n)"
proof -
  have "byte_sum m a n mod 0x100 = 0 \<longleftrightarrow> unat (byte_sum m a n) mod 256 = 0"
    by (simp add: word_unat_eq_iff unat_mod)
  then show ?thesis by (simp add: byte_sum_eq checksum_ok_def dvd_eq_mod_eq_0)
qed

lemma rsdp_signature:
  "list_all (\<lambda>i. \<not> m (a + of_nat i) \<noteq> sig ''RSD PTR '' ! i) [0..<8] \<longleftrightarrow> signature_at m a 8 = sig ''RSD PTR ''"
proof -
  have "length (sig ''RSD PTR '') = 8" by (simp add: sig_def)
  then show ?thesis by (auto simp: list_eq_iff_nth_eq list_all_iff signature_at_def)
qed

text \<open>
  C29. \<open>acpi_parse_rsdp\<close> hangs with a message exactly when the signature is not the one of a root pointer, when the bytes of
  the first version do not sum up to 0 modulo 256, or when on revision 2 those of the second version do not. It
  otherwise records the root pointer of its revision and nothing else; in particular \<open>acpi_is_xsdt\<close> stays
  as it was on every revision.
\<close>

theorem acpi_parse_rsdp_correct:
  "acpi_parse_rsdp address s =
    (let t = address + acpi_higher_half_offset s in
     if signature_at (mem s) t 8 \<noteq> sig ''RSD PTR '' then faults_panic ''Invalid RSDP V1 signature'' s
     else if \<not> checksum_ok (mem s) t 20 then faults_panic ''Invalid RSDP V1 checksum'' s
     else if rsdp_revision (mem s) t = 0 then Done (s\<lparr>rsdp_v1 := t\<rparr>)
     else if rsdp_revision (mem s) t = 2 then
       (if checksum_ok (mem s) t 36 then Done (s\<lparr>rsdp_v2 := t\<rparr>) else faults_panic ''Invalid RSDP V2 checksum'' s)
     else Done s)"
  unfolding acpi_parse_rsdp_def Let_def rsdp_signature byte_sum_zero
  by (simp add: faults_assert_def faults_panic_def faults_hang_def sizeof_rsdp_v1_def sizeof_rsdp_v2_def)

section \<open>Lookup\<close>

definition root_tables :: "'a acpi_scheme \<Rightarrow> u64 list" where
  "root_tables s =
    (if acpi_is_xsdt s
     then map (\<lambda>i. xsdt_sdt s (of_nat i) + acpi_higher_half_offset s) [0..<(unat (sdt_length (mem s) (xsdt s)) - 36) div 8]
     else map (\<lambda>i. rsdt_sdt s (of_nat i) + acpi_higher_half_offset s) [0..<(unat (sdt_length (mem s) (rsdt s)) - 36) div 4])"

lemma find_table_find:
  assumes "length sg = 4"
  shows "find_table table n i sg m =
    find (\<lambda>hdr. signature_at m hdr 4 = sg) (map (\<lambda>i. table (of_nat i)) [unat i..<unat n])"
  using assms
proof (induction table n i sg m rule: find_table.induct)
  case (1 table n i sg m)
  show ?case
  proof (cases "i < n")
    case False
    then show ?thesis by (subst find_table.simps) (simp add: word_less_nat_alt)
  next
    case True
    then have "[unat i..<unat n] = unat i # [unat (i + 1)..<unat n]"
      by (simp add: upt_conv_Cons u64_Suc [OF True] word_less_nat_alt)
    then show ?thesis
      using 1 True by (subst find_table.simps) (simp add: header_signature_iff)
  qed
qed

lemma unat_ucast_u32: "unat (ucast (l :: u32) :: u64) = unat l"
  by (simp add: unsigned_ucast_eq take_bit_nat_eq_self_iff order.strict_trans [OF unsigned_less])

lemma entries_unat:
  assumes "36 \<le> unat (l :: u32)"
  shows "unat ((ucast l - sizeof_sdt_hdr) div d :: u64) = (unat l - 36) div unat d"
  using assms by (simp add: unat_div unat_sub_if_size sizeof_sdt_hdr_def unat_ucast_u32)

lemma get_table_find:
  assumes "length signature = 4" and "36 \<le> unat (sdt_length (mem s) (if acpi_is_xsdt s then xsdt s else rsdt s))"
  shows "acpi_get_table signature s =
    (case find (\<lambda>hdr. signature_at (mem s) hdr 4 = signature) (root_tables s) of None \<Rightarrow> 0 | Some hdr \<Rightarrow> hdr)"
  using assms
  by (auto simp: acpi_get_table_def root_tables_def find_table_find rsdt_entries_def xsdt_entries_def entries_unat
      split: option.splits)

text \<open>
  C24. On a root table of at least the size of its header \<open>acpi_get_table\<close> returns the first of its tables that has
  the signature, a null pointer when there is none.
\<close>

theorem acpi_get_table_refines:
  assumes "length signature = 4" and "36 \<le> unat (sdt_length (mem s) (if acpi_is_xsdt s then xsdt s else rsdt s))"
  shows "acpi_get_table signature s =
    (case find (\<lambda>hdr. signature_at (mem s) hdr 4 = signature) (root_tables s) of None \<Rightarrow> 0 | Some hdr \<Rightarrow> hdr)"
  using assms by (rule get_table_find)

definition demo_acpi :: "memory \<Rightarrow> u64 \<Rightarrow> acpi" where
  "demo_acpi m tables =
    (heap.extend (blank_vmm (heap.fields 0 0)) (acpi.fields False 0 0 0x1000 0 0 tables 0 0))\<lparr>mem := m\<rparr>"

lemma demo_acpi_simps [simp]:
  "mem (demo_acpi m v) = m" "rsdt (demo_acpi m v) = 0x1000" "acpi_is_xsdt (demo_acpi m v) = False"
  "acpi_higher_half_offset (demo_acpi m v) = 0" "acpi_parsed_tables (demo_acpi m v) = v"
  by (simp_all add: demo_acpi_def heap.defs acpi.defs blank_vmm_def)

text \<open>A root table with two entries, the tables at 0x2000 and (with the signature \<open>APIC\<close>) at 0x3000.\<close>

definition demo_tables :: memory where
  "demo_tables = (\<lambda>_. 0)(0x1004 := 44, 0x1025 := 0x20, 0x1029 := 0x30,
    0x3000 := 0x41, 0x3001 := 0x50, 0x3002 := 0x49, 0x3003 := 0x43)"

lemma acpi_get_table_refines_witness:
  "acpi_get_table (sig ''APIC'') (demo_acpi demo_tables 0) = 0x3000 \<and>
   acpi_get_table (sig ''MCFG'') (demo_acpi demo_tables 0) = 0"
proof -
  let ?s = "demo_acpi demo_tables 0"
  have len: "sdt_length demo_tables 0x1000 = 44"
    by (simp add: sdt_length_def mem_simps demo_tables_def)
  have "load32 demo_tables 0x1024 = 0x2000" "load32 demo_tables 0x1028 = 0x3000"
    by (simp_all add: mem_simps demo_tables_def)
  then have "root_tables ?s = [0x2000, 0x3000]"
    by (simp add: root_tables_def len rsdt_sdt_def sizeof_sdt_hdr_def upt_rec)
  moreover have "signature_at demo_tables 0x2000 4 = [0, 0, 0, 0]" "signature_at demo_tables 0x3000 4 = [0x41, 0x50, 0x49, 0x43]"
    by (simp_all add: signature_at_def demo_tables_def upt_rec)
  moreover have "sig ''APIC'' = [0x41, 0x50, 0x49, 0x43]" "sig ''MCFG'' = [0x4D, 0x43, 0x46, 0x47]"
    by (simp_all add: sig_def)
  ultimately show ?thesis
    using acpi_get_table_refines [of "sig ''APIC''" ?s] acpi_get_table_refines [of "sig ''MCFG''" ?s] by (simp add: len)
qed

section \<open>The list of parsed tables\<close>

lemma has_parsed_from_iff:
  assumes "length sg = 4" "is_vector (mem s) base e hs (acpi_parsed_tables s) xs"
  shows "has_parsed_from i sg s \<longleftrightarrow> (\<exists>k. unat i \<le> k \<and> k < length xs \<and> signature_at (mem s) (xs ! k) 4 = sg)"
  using assms
proof (induction i sg s rule: has_parsed_from.induct)
  case (1 i sg s)
  note V = vector_size_get [OF 1(3)]
  have less: "i < vector_size s (acpi_parsed_tables s) \<longleftrightarrow> unat i < length xs" using V [of i] by (metis word_less_nat_alt)
  show ?case
  proof (cases "unat i < length xs")
    case False
    then show ?thesis using less by (subst has_parsed_from.simps) auto
  next
    case True
    note lt = iffD2 [OF less True]
    have "(\<exists>k. unat i \<le> k \<and> k < length xs \<and> signature_at (mem s) (xs ! k) 4 = sg) \<longleftrightarrow>
      signature_at (mem s) (xs ! unat i) 4 = sg \<or>
      (\<exists>k. unat (i + 1) \<le> k \<and> k < length xs \<and> signature_at (mem s) (xs ! k) 4 = sg)"
      using True by (simp add: u64_Suc [OF lt] Suc_le_eq) (metis le_neq_implies_less less_imp_le_nat order_refl)
    moreover have "has_parsed_from i sg s \<longleftrightarrow>
        signature_at (mem s) (xs ! unat i) 4 = sg \<or> has_parsed_from (i + 1) sg s"
      using lt V [of i] True 1(2) by (subst has_parsed_from.simps) (auto simp: signatures_equal_iff)
    ultimately show ?thesis
      using 1(1) [OF lt refl _ 1(2,3)] V [of i] True 1(2)
      by (cases "signature_at (mem s) (xs ! unat i) 4 = sg") (auto simp: signatures_equal_iff)
  qed
qed

text \<open>
  With a vector of pointers to signatures \<open>acpi_has_parsed\<close> says whether one of them points to the signature.
\<close>

theorem acpi_has_parsed_refines:
  assumes "length signature = 4" and "is_vector (mem s) base e hs (acpi_parsed_tables s) xs"
  shows "acpi_has_parsed signature s \<longleftrightarrow> (\<exists>p \<in> set xs. signature_at (mem s) p 4 = signature)"
  using has_parsed_from_iff [OF assms, of 0] unfolding acpi_has_parsed_def by (simp add: Bex_def in_set_conv_nth) metis

lemma acpi_has_parsed_refines_witness:
  "\<not> acpi_has_parsed (sig ''MCFG'') (demo_acpi (mem demo_vector) (demo_heap_base + 21))"
  using acpi_has_parsed_refines [of "sig ''MCFG''" "demo_acpi (mem demo_vector) (demo_heap_base + 21)"]
    demo_vector(2) by (simp add: sig_def)

end
