(* ===== verification/Mcfg_Correct.thy ===== *)
theory Mcfg_Correct
  imports Mcfg Vector_Copies Acpi_Correct
begin

text \<open>
  What \<open>acpi_parse_mcfg\<close> builds: a vector of pointers to copies of the segment groups, in their order.
\<close>

section \<open>The loop\<close>

text \<open>The sizes that the loop allocates for the groups with the given indices.\<close>

definition group_requests :: "nat list \<Rightarrow> u64 list" where
  "group_requests ks = concat (map (\<lambda>k. [sizeof_segment_group, 8 * (of_nat k + 1)]) ks)"

lemma group_requests_Cons: "group_requests (k # ks) = [sizeof_segment_group, 8 * (of_nat k + 1)] @ group_requests ks"
  by (simp add: group_requests_def)

text \<open>The groups that have been copied, and the round that copies the next one.\<close>

definition groups_copied ::
  "memory \<Rightarrow> u64 \<Rightarrow> u64 \<Rightarrow> nat \<Rightarrow> seg \<Rightarrow> seg list \<Rightarrow> seg \<Rightarrow> u64 list \<Rightarrow> memory \<Rightarrow> bool" where
  "groups_copied m0 hdr base e x hs y ps m \<longleftrightarrow> is_vec m base e hs x y ps \<and> (\<forall>a. unat a < unat base \<longrightarrow> m a = m0 a) \<and>
    (\<forall>k < length ps. copied m hs {x} (ps ! k) (\<lambda>j. m0 (hdr + of_nat (44 + 16 * k + j))) 16)"

lemma copy_group:
  fixes s :: "'a mcfg_scheme"
  assumes G: "groups_copied m0 hdr (heap_base_address s) e x hs y ps (mem s)"
    and f: "first_fits [sizeof_segment_group, 8 * (of_nat (length ps) + 1)] hs = Some (qs, hs')"
    and b: "unat hdr + 44 + 16 * length ps + 16 \<le> unat (heap_base_address s)"
  obtains m' z c where
    "add_copy (seg_addr x + sizeof_hdr) (hdr + of_nat (44 + 16 * length ps)) sizeof_segment_group s = Some (s\<lparr>mem := m'\<rparr>)"
    "groups_copied m0 hdr (heap_base_address s) e x hs' z (ps @ [c]) m'"
proof -
  let ?base = "heap_base_address s" and ?src = "hdr + of_nat (44 + 16 * length ps)"
  note G' = G [unfolded groups_copied_def]
  have v: "is_vec (mem s) ?base e hs x y ps" using G' by blast
  have blt: "unat ?base < 2 ^ 64" by simp
  have u: "unat (hdr + of_nat (44 + 16 * length ps + j)) = unat hdr + (44 + 16 * length ps + j)" if "j < 16" for j
    by (rule unat_plus) (use b that blt in linarith)
  have src: "unat ?src + unat sizeof_segment_group \<le> unat ?base" using u [of 0] b by (simp add: sizeof_segment_group_def)
  from add_copy_vec [OF v f src] obtain m' z c where A: "add_copy (seg_addr x + sizeof_hdr) ?src sizeof_segment_group s = Some (s\<lparr>mem := m'\<rparr>)"
    "is_vec m' ?base e hs' x z (ps @ [c])"
    "copied m' hs' (insert z (set hs)) c (\<lambda>j. mem s (?src + of_nat j)) (unat sizeof_segment_group)"
    "frame ?base e hs hs' {x} (mem s) m'" by blast
  have "mem s (?src + of_nat j) = m0 (hdr + of_nat (44 + 16 * length ps + j))" if "j < 16" for j
  proof -
    have "mem s (hdr + of_nat (44 + 16 * length ps + j)) = m0 (hdr + of_nat (44 + 16 * length ps + j))"
      using G' u [OF that] b that by simp
    then show ?thesis by (simp add: add.assoc)
  qed
  then have "copied m' hs' (insert z (set hs)) c (\<lambda>j. m0 (hdr + of_nat (44 + 16 * length ps + j))) 16"
    using A(3) unfolding copied_def by (auto simp: sizeof_segment_group_def)
  then have new: "copied m' hs' {x} c (\<lambda>j. m0 (hdr + of_nat (44 + 16 * length ps + j))) 16"
    by (rule copied_weaken) (use is_vecD(2) [OF v] in simp)
  have "copied m' hs' {x} ((ps @ [c]) ! k) (\<lambda>j. m0 (hdr + of_nat (44 + 16 * k + j))) 16" if "k < Suc (length ps)" for k
    using that new copied_frame [OF _ A(4) is_vecD(1) [OF v], of "{x}" "ps ! k"] G' by (cases "k < length ps") (auto simp: nth_append less_Suc_eq)
  then have "groups_copied m0 hdr ?base e x hs' z (ps @ [c]) m'"
    using A(2,4) G' by (auto simp: groups_copied_def frame_def within_def)
  with A(1) show thesis by (rule that)
qed

lemma copy_groups_vec:
  fixes s :: "'a mcfg_scheme"
  assumes "groups_copied m0 (mcfg_hdr s) (heap_base_address s) e x hs y ps (mem s)"
    and "mcfg_segment_groups s = seg_addr x + sizeof_hdr"
    and "length ps \<le> n" and "first_fits (group_requests [length ps..<n]) hs = Some (qs, hs')"
    and "unat (mcfg_hdr s) + 44 + 16 * n \<le> unat (heap_base_address s)"
  shows "\<exists>m' z cs. copy_groups (of_nat (length ps)) (of_nat n) s = Some (s\<lparr>mem := m'\<rparr>) \<and> length cs = n \<and>
    groups_copied m0 (mcfg_hdr s) (heap_base_address s) e x hs' z cs m'"
  using assms
proof (induction "n - length ps" arbitrary: s hs y ps qs)
  case 0
  then have "length ps = n" by simp
  with 0 have "copy_groups (of_nat (length ps)) (of_nat n) s = Some (s\<lparr>mem := mem s\<rparr>)" by (subst copy_groups.simps) simp
  with 0 \<open>length ps = n\<close> show ?case
    by (intro exI [of _ "mem s"] exI [of _ y] exI [of _ ps]) (simp add: group_requests_def)
next
  case (Suc d)
  let ?i = "length ps"
  have i: "?i < n" using Suc.hyps(2) by simp
  have nb: "16 * n < 18446744073709551616" using Suc.prems(5) unat_u64_less [of "heap_base_address s"] by linarith
  have lt: "(of_nat ?i :: u64) < of_nat n"
    using i nb by (simp add: word_less_nat_alt unat_of_nat take_bit_nat_eq_self)
  have "[?i..<n] = ?i # [Suc ?i..<n]" using i by (simp add: upt_conv_Cons)
  with Suc.prems(4) obtain ps1 hs1 qs1 where f1: "first_fits [sizeof_segment_group, 8 * (of_nat ?i + 1)] hs = Some (ps1, hs1)"
    and f2: "first_fits (group_requests [Suc ?i..<n]) hs1 = Some (qs1, hs')"
    by (simp only: group_requests_Cons first_fits_append) (auto split: option.splits)
  have "unat (mcfg_hdr s) + 44 + 16 * ?i + 16 \<le> unat (heap_base_address s)" using Suc.prems(5) i by simp
  then obtain m1 z c where A:
    "add_copy (seg_addr x + sizeof_hdr) (mcfg_hdr s + of_nat (44 + 16 * ?i)) sizeof_segment_group s = Some (s\<lparr>mem := m1\<rparr>)"
    "groups_copied m0 (mcfg_hdr s) (heap_base_address s) e x hs1 z (ps @ [c]) m1" by (rule copy_group [OF Suc.prems(1) f1])
  have "mcfg_hdr s + sizeof_mcfg_hdr + of_nat ?i * sizeof_segment_group = mcfg_hdr s + of_nat (44 + 16 * ?i)"
    by (simp add: sizeof_mcfg_hdr_def sizeof_sdt_hdr_def sizeof_segment_group_def mult.commute)
  from A(1) [folded this] have step:
    "copy_groups (of_nat ?i) (of_nat n) s = copy_groups (of_nat (length (ps @ [c]))) (of_nat n) (s\<lparr>mem := m1\<rparr>)"
    using lt Suc.prems(2) by (subst copy_groups.simps) (simp add: Let_def add.commute)
  have "d = n - length (ps @ [c])" using Suc.hyps(2) by simp
  from Suc.hyps(1) [OF this, of "s\<lparr>mem := m1\<rparr>" hs1 z qs1] A(2) f2 i Suc.prems(2,5)
  show ?case unfolding step by simp
qed

section \<open>The parser\<close>

definition mcfg_requests :: "nat \<Rightarrow> u64 list" where
  "mcfg_requests n = [16, 8] @ group_requests [0..<n]"

text \<open>
  C23. On a valid MCFG that lies below the heap, with a heap that first-fits the requests for the vector and for
  each of the \<open>n\<close> segment groups, \<open>acpi_parse_mcfg\<close> returns true. The segment groups it then answers are a vector of \<open>n\<close>
  pointers to copies of the groups, 16 bytes each, in the order of the table.
\<close>

theorem acpi_parse_mcfg_correct:
  fixes s :: "'a mcfg_scheme"
  assumes "acpi_get_table (sig ''MCFG'') s = hdr" "hdr \<noteq> 0"
    and "checksum_ok (mem s) hdr (unat (sdt_length (mem s) hdr))"
    and "unat (sdt_length (mem s) hdr) = 44 + 16 * n"
    and "unat hdr + 44 + 16 * n \<le> unat (heap_base_address s)"
    and "heap_list (mem s) (heap_base_address s) e hs" "first_fits (mcfg_requests n) hs = Some (ps, hs')"
  shows "\<exists>s' groups. acpi_parse_mcfg s = Some (True, s') \<and> acpi_get_mcfg s' = hdr \<and>
    is_vector (mem s') (heap_base_address s') e hs' (acpi_mcfg_get_segment_groups s') groups \<and> length groups = n \<and>
    (\<forall>k < n. \<forall>j < 16. mem s' (groups ! k + of_nat j) = mem s (hdr + of_nat (44 + 16 * k + j)))"
proof -
  let ?base = "heap_base_address s" and ?s = "s\<lparr>mcfg_hdr := hdr\<rparr>"
  from assms(7) obtain v p hs1 qs where f1: "first_fits [16, 8] hs = Some ([v, p], hs1)"
    and f2: "first_fits (group_requests [0..<n]) hs1 = Some (qs, hs')"
    unfolding mcfg_requests_def first_fits_append by (auto split: option.splits)
  have "heap_list (mem ?s) (heap_base_address ?s) e hs" using assms(6) by simp
  from vector_init_vec [OF this f1] obtain m1 x y where "vector_init ?s = Some (v, ?s\<lparr>mem := m1\<rparr>)"
    "v = seg_addr x + sizeof_hdr" "is_vec m1 (heap_base_address ?s) e hs1 x y []"
    "frame (heap_base_address ?s) e hs hs1 {} (mem ?s) m1" by blast
  then have V: "vector_init ?s = Some (v, ?s\<lparr>mem := m1\<rparr>)" "v = seg_addr x + sizeof_hdr"
    "is_vec m1 ?base e hs1 x y []" "frame ?base e hs hs1 {} (mem s) m1" by simp_all
  define t where "t = ?s\<lparr>mem := m1, mcfg_segment_groups := v\<rparr>"
  have t: "mem t = m1" "heap_base_address t = ?base" "mcfg_hdr t = hdr" "mcfg_segment_groups t = v"
    by (simp_all add: t_def)
  have "sdt_length m1 hdr = sdt_length (mem s) hdr"
  proof -
    have "m1 (hdr + 4 + of_nat k) = mem s (hdr + 4 + of_nat k)" if "k < 4" for k
    proof -
      have "unat ?base < 2 ^ 64" by simp
      then have "unat hdr + (4 + k) < 2 ^ 64" using assms(5) that by linarith
      from unat_plus [OF this] have "unat (hdr + 4 + of_nat k) < unat ?base" using assms(5) that by (simp add: add.assoc)
      then show ?thesis using V(4) by (simp add: frame_def within_def)
    qed
    then show ?thesis unfolding sdt_length_def by (rule cell32.rd_cong)
  qed
  then have len: "unat (sdt_length m1 hdr) = 44 + 16 * n" using assms(4) by simp
  have entries: "(ucast (sdt_length m1 hdr) - sizeof_mcfg_hdr) div sizeof_segment_group = of_nat n"
  proof (rule unat_eq_of_nat)
    have "unat (ucast (sdt_length m1 hdr) :: u64) = 44 + 16 * n" by (simp only: unat_ucast_u32 len)
    then show "unat ((ucast (sdt_length m1 hdr) - sizeof_mcfg_hdr) div sizeof_segment_group :: u64) = n"
      by (simp add: unat_div unat_sub_if_size sizeof_mcfg_hdr_def sizeof_sdt_hdr_def sizeof_segment_group_def)
  qed
  have "groups_copied (mem s) (mcfg_hdr t) (heap_base_address t) e x hs1 y [] (mem t)"
    using V(3,4) by (simp add: groups_copied_def t frame_def within_def)
  from copy_groups_vec [OF this, of n qs hs'] V(2) f2 assms(5)
  obtain m' z cs where G: "copy_groups 0 (of_nat n) t = Some (t\<lparr>mem := m'\<rparr>)" "length cs = n"
    "groups_copied (mem s) hdr ?base e x hs' z cs m'" by (auto simp: t)
  note C = G(3) [unfolded groups_copied_def]
  define u where "u = print (''%C[MCFG]%C - Parsed MCFG'' @ newline)
    [PInt (ucast COLOUR_KERNEL_INFO), PInt (ucast COLOUR_PRINT)] (t\<lparr>mem := m'\<rparr>)"
  have u: "mem u = m'" "heap_base_address u = ?base" "mcfg_hdr u = hdr" "mcfg_segment_groups u = v"
    by (simp_all add: u_def print_def t)
  have "acpi_is_valid_sdt_checksum (mem s) hdr"
    using assms(3) by (simp only: acpi_is_valid_sdt_checksum_def byte_sum_zero unat_ucast_u32)
  then have "acpi_parse_mcfg s = Some (True, u)"
    using assms(1,2) V(1) entries G(1) by (simp add: acpi_parse_mcfg_def Let_def t_def u_def)
  moreover have "is_vector (mem u) (heap_base_address u) e hs' (acpi_mcfg_get_segment_groups u) cs"
    using C V(2) unfolding is_vector_def acpi_mcfg_get_segment_groups_def u by blast
  moreover have "mem u (cs ! k + of_nat j) = mem s (hdr + of_nat (44 + 16 * k + j))" if "k < n" "j < 16" for k j
  proof -
    have "copied m' hs' {x} (cs ! k) (\<lambda>j. mem s (hdr + of_nat (44 + 16 * k + j))) 16" using C that(1) G(2) by blast
    from copied_bytes [OF this that(2)] show ?thesis by (simp only: u)
  qed
  ultimately show ?thesis using G(2) u(3) by (intro exI [of _ u] exI [of _ cs]) (simp add: acpi_get_mcfg_def)
qed

text \<open>
  A machine with a root table at 0x1000 that lists one table, an MCFG at 0x3000 with the group of bus 0 to 255 at
  0xE0000000, and the heap of one free page.
\<close>

definition mcfg_tables :: memory where
  "mcfg_tables = (\<lambda>_. 0)(0x1004 := 40, 0x1025 := 0x30,
    0x3000 := 0x4D, 0x3001 := 0x43, 0x3002 := 0x46, 0x3003 := 0x47, 0x3004 := 60, 0x3009 := 200,
    0x302F := 0xE0, 0x3037 := 0xFF)"

definition demo_mcfg :: mcfg where
  "demo_mcfg = (madt.extend (acpi.extend (heap.extend (blank_vmm (heap.fields demo_heap_base 0))
      (acpi.fields False 0 0 0x1000 0 0 0 0 0)) (madt.fields 0 0 0 0 0 0 0)) (mcfg.fields 0 0))
    \<lparr>mem := with_tables mcfg_tables\<rparr>"

lemma demo_mcfg_simps:
  "mem demo_mcfg = with_tables mcfg_tables"
  "rsdt demo_mcfg = 0x1000" "acpi_is_xsdt demo_mcfg = False" "acpi_higher_half_offset demo_mcfg = 0"
  "heap_base_address demo_mcfg = demo_heap_base"
  by (simp_all add: demo_mcfg_def heap.defs acpi.defs madt.defs mcfg.defs blank_vmm_def)

lemma demo_mcfg:
  "heap_list (mem demo_mcfg) (heap_base_address demo_mcfg) (unat demo_heap_base + 4096) [Seg demo_heap_base 4075 True]"
  "sdt_length (mem demo_mcfg) 0x3000 = 60" "checksum_ok (mem demo_mcfg) 0x3000 60"
  "acpi_get_table (sig ''MCFG'') demo_mcfg = 0x3000"
proof -
  show "heap_list (mem demo_mcfg) (heap_base_address demo_mcfg) (unat demo_heap_base + 4096) [Seg demo_heap_base 4075 True]"
    unfolding demo_mcfg_simps by (rule with_tables_heap)
  note [simp] = demo_mcfg_simps with_tables_def demo_heap_base_def
  have l: "sdt_length (mem demo_mcfg) 0x1000 = 40" "sdt_length (mem demo_mcfg) 0x3000 = 60"
    "load32 (mem demo_mcfg) 0x1024 = 0x3000"
    by (simp_all add: sdt_length_def mem_simps mcfg_tables_def)
  show "sdt_length (mem demo_mcfg) 0x3000 = 60" by (rule l(2))
  show "checksum_ok (mem demo_mcfg) 0x3000 60"
    by (simp add: checksum_ok_def mcfg_tables_def lessThan_nat_numeral lessThan_Suc)
  have "root_tables demo_mcfg = [0x3000]"
    using l(1,3) by (simp add: root_tables_def rsdt_sdt_def sizeof_sdt_hdr_def upt_rec del: demo_mcfg_simps(1))
  moreover have "signature_at (mem demo_mcfg) 0x3000 4 = sig ''MCFG''"
    by (simp add: signature_at_def mcfg_tables_def upt_rec sig_def)
  ultimately show "acpi_get_table (sig ''MCFG'') demo_mcfg = 0x3000"
    using l(1) by (subst get_table_find) (simp_all add: sig_def del: demo_mcfg_simps(1))
qed

lemma acpi_parse_mcfg_correct_witness:
  "\<exists>s' g. acpi_parse_mcfg demo_mcfg = Some (True, s') \<and> acpi_get_mcfg s' = 0x3000 \<and>
    vector_get s' (acpi_mcfg_get_segment_groups s') 0 = g \<and> sg_end_bus (mem s') g = 0xFF"
proof -
  have f: "first_fits (mcfg_requests 1) [Seg demo_heap_base 4075 True] = Some
    ([demo_heap_base + 21, demo_heap_base + 58, demo_heap_base + 87, demo_heap_base + 124],
     [Seg demo_heap_base 16 False, Seg (demo_heap_base + 37) 8 False, Seg (demo_heap_base + 66) 16 False,
      Seg (demo_heap_base + 103) 8 False, Seg (demo_heap_base + 132) 3943 True])"
    by (simp add: mcfg_requests_def group_requests_def fits_def place_def sizeof_hdr_def sizeof_segment_group_def demo_heap_base_def)
  have "unat (sdt_length (mem demo_mcfg) 0x3000) = 44 + 16 * 1" by (simp add: demo_mcfg(2))
  from acpi_parse_mcfg_correct [OF demo_mcfg(4) _ _ this _ demo_mcfg(1) f] obtain s' groups where
    s': "acpi_parse_mcfg demo_mcfg = Some (True, s')" "acpi_get_mcfg s' = 0x3000" "length groups = 1"
    "\<And>j. j < 16 \<Longrightarrow> mem s' (groups ! 0 + of_nat j) = mem demo_mcfg (0x3000 + of_nat (44 + j))"
    "\<exists>hs'. is_vector (mem s') (heap_base_address s') (unat demo_heap_base + 4096) hs' (acpi_mcfg_get_segment_groups s') groups"
    using demo_mcfg(2,3) by (auto simp: demo_mcfg_simps(5) demo_heap_base_def)
  from s'(5) obtain hs' where "is_vector (mem s') (heap_base_address s') (unat demo_heap_base + 4096) hs'
    (acpi_mcfg_get_segment_groups s') groups" by blast
  from vector_size_get [OF this, of 0] have "vector_get s' (acpi_mcfg_get_segment_groups s') 0 = groups ! 0"
    using s'(3) by simp
  moreover have "sg_end_bus (mem s') (groups ! 0) = 0xFF"
    using s'(4) [of 11] by (simp add: sg_end_bus_def demo_mcfg_simps(1) with_tables_def mcfg_tables_def demo_heap_base_def)
  ultimately show ?thesis using s'(1,2) by blast
qed

end
