(* ===== verification/Madt_Correct.thy ===== *)
theory Madt_Correct
  imports Vector_Copies Acpi_Correct
begin

text \<open>
  What \<open>acpi_parse_madt\<close> builds: five vectors of copies, one per kind of entry, each in the order of the table. The
  entries of a table are specified by the walk from entry to entry.
\<close>

section \<open>Several vectors in one heap\<close>

definition vectors :: "nat \<Rightarrow> memory \<Rightarrow> u64 \<Rightarrow> nat \<Rightarrow> seg list \<Rightarrow> (nat \<Rightarrow> seg) \<Rightarrow> (nat \<Rightarrow> seg) \<Rightarrow> (nat \<Rightarrow> u64 list) \<Rightarrow> bool" where
  "vectors n m base e hs X Y P \<longleftrightarrow> heap_list m base e hs \<and> (\<forall>a < n. is_vec m base e hs (X a) (Y a) (P a)) \<and>
    (\<forall>a < n. \<forall>b < n. (a \<noteq> b \<longrightarrow> X a \<noteq> X b) \<and> X a \<noteq> Y b)"

lemma vectors_init:
  fixes s :: "'a heap_scheme"
  assumes V: "vectors n (mem s) (heap_base_address s) e hs X Y P" and f: "first_fits [16, 8] hs = Some (ps, hs')"
  obtains m' x y where "vector_init s = Some (seg_addr x + sizeof_hdr, s\<lparr>mem := m'\<rparr>)"
    "vectors (Suc n) m' (heap_base_address s) e hs' (X(n := x)) (Y(n := y)) (P(n := []))"
    "within (unat (heap_base_address s)) e (mem s) m'"
proof -
  let ?base = "heap_base_address s"
  have hl: "heap_list (mem s) ?base e hs" and vs: "\<And>a. a < n \<Longrightarrow> is_vec (mem s) ?base e hs (X a) (Y a) (P a)"
    and ne: "\<And>a b. a < n \<Longrightarrow> b < n \<Longrightarrow> (a \<noteq> b \<longrightarrow> X a \<noteq> X b) \<and> X a \<noteq> Y b"
    using V by (simp_all add: vectors_def)
  from f obtain v p where "ps = [v, p]" by (auto split: option.splits)
  from vector_init_vec [OF hl f [unfolded this]] obtain m' x y where m':
    "vector_init s = Some (seg_addr x + sizeof_hdr, s\<lparr>mem := m'\<rparr>)" "is_vec m' ?base e hs' x y []"
    "\<And>z. z \<in> set hs \<Longrightarrow> \<not> seg_free z \<Longrightarrow> z \<noteq> x \<and> z \<noteq> y" "frame ?base e hs hs' {} (mem s) m'" by blast
  note D = is_vecD [OF m'(2)]
  have "is_vec m' ?base e hs' (X a) (Y a) (P a)" if "a < n" for a
    using vs [OF that] m'(4) D(1) by (rule is_vec_frame) simp_all
  moreover have "X a \<noteq> x" "X a \<noteq> y" "x \<noteq> Y a" if "a < n" for a
    using m'(3) is_vecD(2,3,5,6) [OF vs [OF that]] by metis+
  ultimately have "vectors (Suc n) m' ?base e hs' (X(n := x)) (Y(n := y)) (P(n := []))"
    using D(1,4) m'(2) ne by (auto simp: vectors_def less_Suc_eq)
  moreover have "within (unat ?base) e (mem s) m'" using m'(4) by (simp add: frame_def)
  ultimately show thesis by (rule that [OF m'(1)])
qed

lemma vectors_add_copy:
  fixes s :: "'a heap_scheme"
  assumes V: "vectors n (mem s) (heap_base_address s) e hs X Y P" and a: "a < n"
    and f: "first_fits [sz, 8 * (of_nat (length (P a)) + 1)] hs = Some (ps, hs')"
    and src: "unat src + unat sz \<le> unat (heap_base_address s)"
  obtains m' y c where "add_copy (seg_addr (X a) + sizeof_hdr) src sz s = Some (s\<lparr>mem := m'\<rparr>)"
    "vectors n m' (heap_base_address s) e hs' X (Y(a := y)) (P(a := P a @ [c]))"
    "copied m' hs' (X ` {..<n}) c (\<lambda>i. mem s (src + of_nat i)) (unat sz)"
    "frame (heap_base_address s) e hs hs' (X ` {..<n}) (mem s) m'"
proof -
  let ?base = "heap_base_address s"
  have hl: "heap_list (mem s) ?base e hs" and vs: "\<And>a. a < n \<Longrightarrow> is_vec (mem s) ?base e hs (X a) (Y a) (P a)"
    and ne: "\<And>a b. a < n \<Longrightarrow> b < n \<Longrightarrow> (a \<noteq> b \<longrightarrow> X a \<noteq> X b) \<and> X a \<noteq> Y b"
    using V by (simp_all add: vectors_def)
  from add_copy_vec [OF vs [OF a] f src] obtain m' z c where m':
    "add_copy (seg_addr (X a) + sizeof_hdr) src sz s = Some (s\<lparr>mem := m'\<rparr>)" "is_vec m' ?base e hs' (X a) z (P a @ [c])"
    "\<And>w. w \<in> set hs \<Longrightarrow> \<not> seg_free w \<Longrightarrow> w \<noteq> z"
    "copied m' hs' (insert z (set hs)) c (\<lambda>i. mem s (src + of_nat i)) (unat sz)"
    "frame ?base e hs hs' {X a} (mem s) m'" by blast
  note D = is_vecD [OF m'(2)]
  have "is_vec m' ?base e hs' (X b) (Y b) (P b)" if "b < n" "b \<noteq> a" for b
    using vs [OF that(1)] m'(5) D(1) by (rule is_vec_frame) (use ne [OF that(1) a] ne [OF a that(1)] that(2) in auto)
  moreover have "X b \<noteq> z" if "b < n" for b using m'(3) is_vecD(2,5) [OF vs [OF that]] by metis
  ultimately have "vectors n m' ?base e hs' X (Y(a := z)) (P(a := P a @ [c]))"
    using D(1) m'(2) ne a by (auto simp: vectors_def)
  moreover have "copied m' hs' (X ` {..<n}) c (\<lambda>i. mem s (src + of_nat i)) (unat sz)"
    by (rule copied_weaken [OF m'(4)]) (use is_vecD(2) [OF vs] in auto)
  moreover have "frame ?base e hs hs' (X ` {..<n}) (mem s) m'"
    by (rule frame_drop [OF m'(5)]) (use a in auto)
  ultimately show thesis using m'(1) by (intro that)
qed

section \<open>The walk\<close>

text \<open>\<open>madt_walk t len i es\<close>: from offset \<open>i\<close> on, the table \<open>t\<close> of \<open>len\<close> bytes has the entries \<open>es\<close>, each an offset and a type.\<close>

inductive madt_walk :: "(nat \<Rightarrow> u8) \<Rightarrow> nat \<Rightarrow> nat \<Rightarrow> (nat \<times> u8) list \<Rightarrow> bool" for t len where
  madt_end: "len \<le> i \<Longrightarrow> madt_walk t len i []"
| madt_next: "i < len \<Longrightarrow> 0 < unat (t (i + 1)) \<Longrightarrow> madt_walk t len (i + unat (t (i + 1))) es \<Longrightarrow>
    madt_walk t len i ((i, t i) # es)"

definition of_type :: "nat \<Rightarrow> (nat \<times> u8) list \<Rightarrow> nat list" where
  "of_type a es = map fst (filter (\<lambda>(_, t). unat t = a) es)"

definition body_size :: "nat \<Rightarrow> u64" where
  "body_size a = [sizeof_madt_local_apic, sizeof_madt_ioapic, sizeof_madt_int_src_override,
    sizeof_madt_ioapic_nmi_src, sizeof_madt_lapic_nmi] ! a"

definition madt_vector :: "nat \<Rightarrow> 'a madt_scheme \<Rightarrow> u64" where
  "madt_vector a s = [lapics s, ioapics s, interrupt_source_overrides s, interrupt_ioapic_nmis s,
    interrupt_lapic_nmis s] ! a"

definition known_type :: "u8 \<Rightarrow> bool" where
  "known_type t \<longleftrightarrow> t \<le> 5 \<or> t = 9 \<or> t = 10"

text \<open>The address of the local APIC: the last override, if there is one.\<close>

fun lapic_address :: "memory \<Rightarrow> u64 \<Rightarrow> (nat \<times> u8) list \<Rightarrow> u64 \<Rightarrow> u64" where
  "lapic_address m hdr [] a = a"
| "lapic_address m hdr ((i, t) # es) a =
    lapic_address m hdr es (if t = 5 then load64 m (hdr + of_nat (i + 4)) else a)"

text \<open>The sizes that the walk allocates; \<open>count a\<close> is the length of the vector of type \<open>a\<close>.\<close>

fun entry_requests :: "(nat \<Rightarrow> nat) \<Rightarrow> (nat \<times> u8) list \<Rightarrow> u64 list" where
  "entry_requests count [] = []"
| "entry_requests count ((i, t) # es) =
    (let a = unat t in
     if a < 5 then [body_size a, 8 * (of_nat (count a) + 1)] @ entry_requests (count(a := count a + 1)) es
     else entry_requests count es)"

lemma body_sizes [simp]:
  "body_size 0 = 6" "body_size (Suc 0) = 10" "body_size 2 = 8" "body_size 3 = 6" "body_size 4 = 4"
  by (simp_all add: body_size_def sizeof_madt_local_apic_def sizeof_madt_ioapic_def sizeof_madt_int_src_override_def
      sizeof_madt_ioapic_nmi_src_def sizeof_madt_lapic_nmi_def sizeof_madt_flags_def)

lemma less_5: "(a :: nat) < 5 \<longleftrightarrow> a = 0 \<or> a = Suc 0 \<or> a = 2 \<or> a = 3 \<or> a = 4"
  by auto

lemma body_size_le: "a < 5 \<Longrightarrow> unat (body_size a) \<le> 10"
  unfolding less_5 by auto

lemma madt_entry_copy:
  assumes "unat (entry_type (mem s) info) = a" "a < 5"
  shows "madt_entry info s = map_option (Pair True) (add_copy (madt_vector a s) (info + 2) (body_size a) s)"
proof -
  have "entry_type (mem s) info = of_nat (unat (entry_type (mem s) info))" by simp
  then have "entry_type (mem s) info = of_nat a" by (simp only: assms(1))
  then show ?thesis
    using assms(2) unfolding less_5
    by (elim disjE) (simp_all add: madt_entry_def madt_vector_def body_size_def sizeof_madt_entry_info_def)
qed

text \<open>Reading below the heap.\<close>

definition same_below :: "u64 \<Rightarrow> memory \<Rightarrow> memory \<Rightarrow> bool" where
  "same_below base m m0 \<longleftrightarrow> (\<forall>x. unat x < unat base \<longrightarrow> m x = m0 x)"

lemma same_below_within: "within (unat base) e m m' \<Longrightarrow> same_below base m m0 \<Longrightarrow> same_below base m' m0"
  by (simp add: same_below_def within_def)

lemma unat_below:
  assumes "unat (a :: u64) + n \<le> unat (base :: u64)" "k < n"
  shows "unat (a + of_nat k) = unat a + k"
proof -
  have "unat base < 2 ^ 64" by simp
  then show ?thesis using assms by (intro unat_plus) linarith
qed

lemma load_below:
  assumes "same_below base m m0"
  shows "unat a + 4 \<le> unat base \<Longrightarrow> load32 m a = load32 m0 a" "unat a + 8 \<le> unat base \<Longrightarrow> load64 m a = load64 m0 a"
    "unat a < unat base \<Longrightarrow> m a = m0 a"
proof -
  show "load32 m a = load32 m0 a" if "unat a + 4 \<le> unat base"
  proof (rule cell32.rd_cong)
    fix k :: nat assume "k < 4"
    with unat_below [OF that this] that assms show "m (a + of_nat k) = m0 (a + of_nat k)" by (simp add: same_below_def)
  qed
  show "load64 m a = load64 m0 a" if "unat a + 8 \<le> unat base"
  proof (rule cell64.rd_cong)
    fix k :: nat assume "k < 8"
    with unat_below [OF that this] that assms show "m (a + of_nat k) = m0 (a + of_nat k)" by (simp add: same_below_def)
  qed
qed (use assms in \<open>simp add: same_below_def\<close>)

definition collected :: "memory \<Rightarrow> seg list \<Rightarrow> seg set \<Rightarrow> u64 list \<Rightarrow> nat list \<Rightarrow> (nat \<Rightarrow> u8) \<Rightarrow> nat \<Rightarrow> bool" where
  "collected m hs X ps os t n \<longleftrightarrow> list_all2 (\<lambda>p i. copied m hs X p (\<lambda>j. t (i + 2 + j)) n) ps os"

lemma of_type_simps [simp]:
  "of_type a [] = []" "of_type a ((i, t) # es) = (if unat t = a then i # of_type a es else of_type a es)"
  by (simp_all add: of_type_def)

text \<open>The length of the table is read again in each round; the rounds do not change it.\<close>

lemma madt_continues:
  assumes "same_below (heap_base_address s) (mem s) m0" "unat (madt_hdr s) + 8 \<le> unat (heap_base_address s)"
    and "len = unat (sdt_length m0 (madt_hdr s))" "i \<le> len + 255"
  shows "of_nat i < (ucast (sdt_length (mem s) (madt_hdr s)) :: u64) \<longleftrightarrow> i < len"
proof -
  have "unat (madt_hdr s + of_nat 4) = unat (madt_hdr s) + 4" by (rule unat_below [OF assms(2)]) simp
  then have "sdt_length (mem s) (madt_hdr s) = sdt_length m0 (madt_hdr s)"
    unfolding sdt_length_def using assms(2) by (intro load_below(1) [OF assms(1)]) simp
  moreover have "len < 2 ^ 32" using assms(3) unsigned_less [of "sdt_length m0 (madt_hdr s)", where 'a = nat] by simp
  then have "i < 2 ^ 64" using assms(4) by simp
  then have "unat (of_nat i :: u64) = i" by (simp add: unat_of_nat take_bit_nat_eq_self)
  ultimately show ?thesis unfolding word_less_nat_alt by (simp only: unat_ucast_u32 assms(3))
qed

lemma madt_entries_step:
  assumes "of_nat i < (ucast (sdt_length (mem s) (madt_hdr s)) :: u64)" "madt_entry (madt_hdr s + of_nat i) s = Some (True, s')"
    and "mem s' (madt_hdr s + of_nat (i + 1)) = w"
  shows "madt_entries (of_nat i) s = madt_entries (of_nat (i + unat w)) s'"
proof -
  have "of_nat i + ucast (entry_length (mem s') (madt_hdr s + of_nat i)) = (of_nat (i + unat w) :: u64)"
    using assms(3) by (simp add: entry_length_def ac_simps)
  with assms(1,2) show ?thesis by (subst madt_entries.simps) simp
qed

lemma collected_frame:
  assumes "collected m hs X ps os t n" "frame base e hs hs' X m m'" "heap_list m base e hs"
  shows "collected m' hs' X ps os t n"
  using assms(1) unfolding collected_def
  by (rule list_all2_mono) (use copied_frame [OF _ assms(2,3) subset_refl] in blast)

text \<open>The table \<open>t\<close> of \<open>len\<close> bytes lies below the heap, with room for the last entry.\<close>

definition table_below :: "u64 \<Rightarrow> memory \<Rightarrow> u64 \<Rightarrow> (nat \<Rightarrow> u8) \<Rightarrow> nat \<Rightarrow> bool" where
  "table_below base m0 hdr t len \<longleftrightarrow> (\<forall>j. t j = m0 (hdr + of_nat j)) \<and> len = unat (sdt_length m0 hdr) \<and>
    unat hdr + len + 12 \<le> unat base"

lemma table_read:
  assumes "table_below base m0 hdr t len" "same_below base m m0" "j < len + 12"
  shows "m (hdr + of_nat j) = t j" "unat (hdr + of_nat j) = unat hdr + j"
    "j + 8 \<le> len + 12 \<Longrightarrow> load64 m (hdr + of_nat j) = load64 m0 (hdr + of_nat j)"
proof -
  note T = assms(1) [unfolded table_below_def]
  show u: "unat (hdr + of_nat j) = unat hdr + j" by (rule unat_below [of hdr "len + 12" base]) (use T assms(3) in simp_all)
  show "m (hdr + of_nat j) = t j" using load_below(3) [OF assms(2), of "hdr + of_nat j"] u T assms(3) by simp
  show "j + 8 \<le> len + 12 \<Longrightarrow> load64 m (hdr + of_nat j) = load64 m0 (hdr + of_nat j)"
    using load_below(2) [OF assms(2), of "hdr + of_nat j"] u T by simp
qed

text \<open>The state between two rounds: the five vectors in the heap \<open>hs\<close> have the items \<open>P\<close>.\<close>

definition collecting ::
  "u64 \<Rightarrow> memory \<Rightarrow> u64 \<Rightarrow> nat \<Rightarrow> (nat \<Rightarrow> seg) \<Rightarrow> seg list \<Rightarrow> (nat \<Rightarrow> seg) \<Rightarrow> (nat \<Rightarrow> u64 list) \<Rightarrow> 'a madt_scheme \<Rightarrow> bool" where
  "collecting base m0 hdr e X hs Y P s \<longleftrightarrow> same_below base (mem s) m0 \<and> vectors 5 (mem s) base e hs X Y P \<and>
    (\<forall>a < 5. madt_vector a s = seg_addr (X a) + sizeof_hdr) \<and> madt_hdr s = hdr \<and> heap_base_address s = base"

lemma collectingD:
  assumes "collecting base m0 hdr e X hs Y P s"
  shows "same_below base (mem s) m0" "vectors 5 (mem s) base e hs X Y P" "a < 5 \<Longrightarrow> madt_vector a s = seg_addr (X a) + sizeof_hdr"
    "madt_hdr s = hdr" "heap_base_address s = base"
  using assms by (simp_all add: collecting_def)

lemma collecting_address [simp]:
  "collecting base m0 hdr e X hs Y P (s\<lparr>local_apic_addr := v\<rparr>) = collecting base m0 hdr e X hs Y P s"
  by (simp add: collecting_def madt_vector_def)

text \<open>An entry whose body is copied.\<close>

lemma collect_entry:
  fixes s :: "'a madt_scheme"
  assumes T: "table_below base m0 hdr t len" and C: "collecting base m0 hdr e X hs Y P s" and "i < len" and a: "unat (t i) = a" "a < 5"
    and f: "first_fits [body_size a, 8 * (of_nat (length (P a)) + 1)] hs = Some (ps, hs')"
  obtains m' y c where "madt_entry (hdr + of_nat i) s = Some (True, s\<lparr>mem := m'\<rparr>)"
    "collecting base m0 hdr e X hs' (Y(a := y)) (P(a := P a @ [c])) (s\<lparr>mem := m'\<rparr>)"
    "copied m' hs' (X ` {..<5}) c (\<lambda>j. t (i + 2 + j)) (unat (body_size a))"
    "frame base e hs hs' (X ` {..<5}) (mem s) m'"
proof -
  note C' = collectingD [OF C] and rd = table_read [OF T collectingD(1) [OF C]]
  have bs: "unat (body_size a) \<le> 10" using a(2) by (rule body_size_le)
  have src: "unat (hdr + of_nat (i + 2)) + unat (body_size a) \<le> unat (heap_base_address s)"
    using rd(2) [of "i + 2"] bs assms(3) T by (simp add: table_below_def C'(5))
  have "vectors 5 (mem s) (heap_base_address s) e hs X Y P" using C'(2,5) by simp
  from vectors_add_copy [OF this a(2) f src] obtain m' y c where A:
    "add_copy (seg_addr (X a) + sizeof_hdr) (hdr + of_nat (i + 2)) (body_size a) s = Some (s\<lparr>mem := m'\<rparr>)"
    "vectors 5 m' base e hs' X (Y(a := y)) (P(a := P a @ [c]))"
    "copied m' hs' (X ` {..<5}) c (\<lambda>j. mem s (hdr + of_nat (i + 2) + of_nat j)) (unat (body_size a))"
    "frame base e hs hs' (X ` {..<5}) (mem s) m'" unfolding C'(5) by blast
  have "entry_type (mem s) (hdr + of_nat i) = t i" using rd(1) [of i] assms(3) by (simp add: entry_type_def)
  then have "madt_entry (hdr + of_nat i) s = Some (True, s\<lparr>mem := m'\<rparr>)"
    using madt_entry_copy [of s "hdr + of_nat i" a] a A(1) C'(3) [OF a(2)] by (simp add: ac_simps)
  moreover have "same_below base m' m0" using A(4) C'(1) same_below_within [of base e "mem s" m' m0] by (simp add: frame_def)
  then have "collecting base m0 hdr e X hs' (Y(a := y)) (P(a := P a @ [c])) (s\<lparr>mem := m'\<rparr>)"
    using A(2) C'(3-5) by (simp add: collecting_def madt_vector_def)
  moreover have "mem s (hdr + of_nat (i + 2) + of_nat j) = t (i + 2 + j)" if "j < unat (body_size a)" for j
  proof -
    have "hdr + of_nat (i + 2) + of_nat j = hdr + of_nat (i + 2 + j)" by (simp add: ac_simps)
    moreover have "mem s (hdr + of_nat (i + 2 + j)) = t (i + 2 + j)" using that bs assms(3) by (intro rd(1)) simp
    ultimately show ?thesis by (simp only:)
  qed
  then have "copied m' hs' (X ` {..<5}) c (\<lambda>j. t (i + 2 + j)) (unat (body_size a))"
    using A(3) unfolding copied_def by auto
  ultimately show thesis using A(4) by (intro that)
qed

text \<open>The other known entries: an override of the local APIC's address, and two types that are passed over.\<close>

lemma pass_entry:
  fixes s :: "'a madt_scheme"
  assumes T: "table_below base m0 hdr t len" and C: "collecting base m0 hdr e X hs Y P s" and "i < len" and ty: "t i = 5 \<or> t i = 9 \<or> t i = 10"
  shows "madt_entry (hdr + of_nat i) s =
    Some (True, s\<lparr>local_apic_addr := if t i = 5 then load64 m0 (hdr + of_nat (i + 4)) else local_apic_addr s\<rparr>)"
proof -
  note rd = table_read [OF T collectingD(1) [OF C]]
  have ty': "entry_type (mem s) (hdr + of_nat i) = t i" using rd(1) [of i] assms(3) by (simp add: entry_type_def)
  have "load64 (mem s) (hdr + of_nat (i + 4)) = load64 m0 (hdr + of_nat (i + 4))" using rd(3) [of "i + 4"] assms(3) by simp
  moreover have "hdr + of_nat i + (1 + 1) + 2 = hdr + of_nat (i + 4)" by simp
  ultimately have over: "lapic_override_address (mem s) (hdr + of_nat i + sizeof_madt_entry_info) = load64 m0 (hdr + of_nat (i + 4))"
    unfolding lapic_override_address_def sizeof_madt_entry_info_def by (simp only:)
  show ?thesis using ty unfolding madt_entry_def Let_def ty' over by (elim disjE) simp_all
qed

lemma madt_entries_vectors:
  fixes s :: "'a madt_scheme"
  assumes "madt_walk t len i es" and T: "table_below base m0 hdr t len"
    and "\<forall>(k, ty) \<in> set es. known_type ty" and "i \<le> len + 255" and "collecting base m0 hdr e X hs Y P s"
    and "first_fits (entry_requests (\<lambda>a. length (P a)) es) hs = Some (qs, hs')"
  shows "\<exists>m' Y' Q. madt_entries (of_nat i) s =
      Some (True, s\<lparr>mem := m', local_apic_addr := lapic_address m0 hdr es (local_apic_addr s)\<rparr>) \<and>
    vectors 5 m' base e hs' X Y' (\<lambda>a. P a @ Q a) \<and> frame base e hs hs' (X ` {..<5}) (mem s) m' \<and>
    (\<forall>a < 5. collected m' hs' (X ` {..<5}) (Q a) (of_type a es) t (unat (body_size a)))"
  using assms(1,3-)
proof (induction i es arbitrary: s hs Y P qs rule: madt_walk.induct)
  case (madt_end i)
  note C = collectingD [OF madt_end.prems(3)]
  have "\<not> of_nat i < (ucast (sdt_length (mem s) (madt_hdr s)) :: u64)"
    using madt_continues [of s m0 len i] madt_end C T by (simp add: table_below_def)
  then have "madt_entries (of_nat i) s = Some (True, s\<lparr>mem := mem s, local_apic_addr := local_apic_addr s\<rparr>)"
    by (subst madt_entries.simps) simp
  with madt_end C show ?case
    by (intro exI [of _ "mem s"] exI [of _ Y] exI [of _ "\<lambda>_. []"]) (simp add: collected_def)
next
  case (madt_next i es)
  note prems = madt_next.prems and C = collectingD [OF madt_next.prems(3)]
  have lt: "of_nat i < (ucast (sdt_length (mem s) (madt_hdr s)) :: u64)"
    using madt_continues [of s m0 len i] madt_next C T by (simp add: table_below_def)
  let ?i = "i + unat (t (i + 1))"
  have i': "?i \<le> len + 255" using madt_next.hyps(1) unsigned_less [of "t (i + 1)", where 'a = nat] by simp
  have step: "madt_entries (of_nat i) s = madt_entries (of_nat ?i) s'"
    if "madt_entry (hdr + of_nat i) s = Some (True, s')" "same_below base (mem s') m0" for s'
    using madt_entries_step [OF lt, of s' "t (i + 1)"] table_read(1) [OF T that(2), of "i + 1"] that(1) madt_next.hyps(1)
    by (simp add: C(4))
  have kn: "\<forall>(k, ty) \<in> set es. known_type ty" "known_type (t i)" using prems(1) by auto
  then consider "unat (t i) < 5" | "t i = 5 \<or> t i = 9 \<or> t i = 10"
    unfolding known_type_def by (auto simp: word_le_nat_alt word_unat_eq_iff le_eq_less_or_eq)
  then show ?case
  proof cases
    case 1
    define a where "a = unat (t i)"
    have a: "unat (t i) = a" "a < 5" using 1 by (simp_all add: a_def)
    have "first_fits ([body_size a, 8 * (of_nat (length (P a)) + 1)] @
        entry_requests ((\<lambda>a. length (P a))(a := length (P a) + 1)) es) hs = Some (qs, hs')"
      using prems(4) a by (simp only: entry_requests.simps Let_def if_True)
    then obtain ps1 hs1 qs1 where f1: "first_fits [body_size a, 8 * (of_nat (length (P a)) + 1)] hs = Some (ps1, hs1)"
      and f2: "first_fits (entry_requests ((\<lambda>a. length (P a))(a := length (P a) + 1)) es) hs1 = Some (qs1, hs')"
      unfolding first_fits_append by (auto split: option.splits)
    obtain m1 y c where A: "madt_entry (hdr + of_nat i) s = Some (True, s\<lparr>mem := m1\<rparr>)"
      "collecting base m0 hdr e X hs1 (Y(a := y)) (P(a := P a @ [c])) (s\<lparr>mem := m1\<rparr>)"
      "copied m1 hs1 (X ` {..<5}) c (\<lambda>j. t (i + 2 + j)) (unat (body_size a))" "frame base e hs hs1 (X ` {..<5}) (mem s) m1"
      by (rule collect_entry [OF T prems(3) madt_next.hyps(1) a f1])
    note C1 = collectingD [OF A(2)]
    have "(\<lambda>b. length ((P(a := P a @ [c])) b)) = (\<lambda>a. length (P a))(a := length (P a) + 1)" by auto
    with f2 have "first_fits (entry_requests (\<lambda>b. length ((P(a := P a @ [c])) b)) es) hs1 = Some (qs1, hs')" by (simp only:)
    from madt_next.IH [OF kn(1) i' A(2) this] obtain m' Y' Q where R: "madt_entries (of_nat ?i) (s\<lparr>mem := m1\<rparr>) =
        Some (True, s\<lparr>mem := m', local_apic_addr := lapic_address m0 hdr es (local_apic_addr s)\<rparr>)"
      "vectors 5 m' base e hs' X Y' (\<lambda>b. (P(a := P a @ [c])) b @ Q b)" "frame base e hs1 hs' (X ` {..<5}) m1 m'"
      "\<And>b. b < 5 \<Longrightarrow> collected m' hs' (X ` {..<5}) (Q b) (of_type b es) t (unat (body_size b))" by auto
    have "heap_list m1 base e hs1" using C1(2) by (simp add: vectors_def)
    with A(3) R(3) have "copied m' hs' (X ` {..<5}) c (\<lambda>j. t (i + 2 + j)) (unat (body_size a))" by (rule copied_frame) simp
    then have "collected m' hs' (X ` {..<5}) ((Q(a := c # Q a)) b) (of_type b ((i, t i) # es)) t (unat (body_size b))" if "b < 5" for b
      using R(4) [OF that] by (auto simp: collected_def a_def)
    moreover have "(\<lambda>b. (P(a := P a @ [c])) b @ Q b) = (\<lambda>b. P b @ (Q(a := c # Q a)) b)" by auto
    then have "vectors 5 m' base e hs' X Y' (\<lambda>b. P b @ (Q(a := c # Q a)) b)" using R(2) by (simp only:)
    moreover have "t i \<noteq> 5" using 1 by auto
    then have "madt_entries (of_nat i) s =
        Some (True, s\<lparr>mem := m', local_apic_addr := lapic_address m0 hdr ((i, t i) # es) (local_apic_addr s)\<rparr>)"
      using step [OF A(1)] C1(1) R(1) by simp
    moreover have "frame base e hs hs' (X ` {..<5}) (mem s) m'" using frame_trans [OF A(4) R(3)] by simp
    ultimately show ?thesis by blast
  next
    case 2
    define v where "v = (if t i = 5 then load64 m0 (hdr + of_nat (i + 4)) else local_apic_addr s)"
    have ge: "\<not> unat (t i) < 5" using 2 by auto
    have "first_fits (entry_requests (\<lambda>b. length (P b)) es) hs = Some (qs, hs')" using prems(4) ge by simp
    from madt_next.IH [OF kn(1) i' _ this, where s = "s\<lparr>local_apic_addr := v\<rparr>" and Y = Y] prems(3)
    obtain m' Y' Q where R: "madt_entries (of_nat ?i) (s\<lparr>local_apic_addr := v\<rparr>) =
        Some (True, s\<lparr>mem := m', local_apic_addr := lapic_address m0 hdr es v\<rparr>)"
      "vectors 5 m' base e hs' X Y' (\<lambda>b. P b @ Q b)" "frame base e hs hs' (X ` {..<5}) (mem s) m'"
      "\<forall>b < 5. collected m' hs' (X ` {..<5}) (Q b) (of_type b es) t (unat (body_size b))" by auto
    have "madt_entries (of_nat i) s =
        Some (True, s\<lparr>mem := m', local_apic_addr := lapic_address m0 hdr ((i, t i) # es) (local_apic_addr s)\<rparr>)"
      using step [OF pass_entry [OF T prems(3) madt_next.hyps(1) 2]] C(1) R(1) by (simp add: v_def)
    moreover have "\<forall>b < 5. collected m' hs' (X ` {..<5}) (Q b) (of_type b ((i, t i) # es)) t (unat (body_size b))"
      using R(4) ge by auto
    ultimately show ?thesis using R(2,3) by blast
  qed
qed

section \<open>The parser\<close>

text \<open>The first \<open>n\<close> of the five empty vectors have been made.\<close>

definition ready :: "'a madt_scheme \<Rightarrow> nat \<Rightarrow> nat \<Rightarrow> seg list \<Rightarrow> (nat \<Rightarrow> seg) \<Rightarrow> (nat \<Rightarrow> seg) \<Rightarrow> 'a madt_scheme \<Rightarrow> bool" where
  "ready s e n hs X Y t \<longleftrightarrow> vectors n (mem t) (heap_base_address s) e hs X Y (\<lambda>_. []) \<and>
    within (unat (heap_base_address s)) e (mem s) (mem t) \<and> heap_base_address t = heap_base_address s \<and>
    madt_hdr t = madt_hdr s"

lemma ready_fields [simp]:
  "ready s e n hs X Y (t\<lparr>lapics := v\<rparr>) = ready s e n hs X Y t"
  "ready s e n hs X Y (t\<lparr>ioapics := v\<rparr>) = ready s e n hs X Y t"
  "ready s e n hs X Y (t\<lparr>interrupt_source_overrides := v\<rparr>) = ready s e n hs X Y t"
  "ready s e n hs X Y (t\<lparr>interrupt_ioapic_nmis := v\<rparr>) = ready s e n hs X Y t"
  "ready s e n hs X Y (t\<lparr>interrupt_lapic_nmis := v\<rparr>) = ready s e n hs X Y t"
  by (simp_all add: ready_def)

lemma ready_next:
  assumes "ready s e n hs X Y t" "first_fits [16, 8] hs = Some (ps, hs')"
  obtains m' x y where "vector_init t = Some (seg_addr x + sizeof_hdr, t\<lparr>mem := m'\<rparr>)"
    "ready s e (Suc n) hs' (X(n := x)) (Y(n := y)) (t\<lparr>mem := m'\<rparr>)"
proof -
  have "vectors n (mem t) (heap_base_address t) e hs X Y (\<lambda>_. [])" using assms(1) by (simp add: ready_def)
  from vectors_init [OF this assms(2)] obtain m' x y where
    "vector_init t = Some (seg_addr x + sizeof_hdr, t\<lparr>mem := m'\<rparr>)"
    "vectors (Suc n) m' (heap_base_address t) e hs' (X(n := x)) (Y(n := y)) ((\<lambda>_. [])(n := []))"
    "within (unat (heap_base_address t)) e (mem t) m'" by blast
  with assms(1) show thesis
    by (intro that [of x m' y]) (auto simp: ready_def fun_upd_idem intro: within_trans)
qed

lemma five_vectors: "concat (replicate 5 [16, 8 :: u64]) = [16, 8] @ [16, 8] @ [16, 8] @ [16, 8] @ [16, 8]"
  by (simp add: eval_nat_numeral)

lemma init_vectors_ok:
  fixes s :: "'a madt_scheme"
  assumes hl: "heap_list (mem s) (heap_base_address s) e hs" and f: "first_fits (concat (replicate 5 [16, 8])) hs = Some (ps, hs')"
  shows "\<exists>s' X Y. init_vectors s = Some s' \<and> ready s e 5 hs' X Y s' \<and>
    (\<forall>a < 5. madt_vector a s' = seg_addr (X a) + sizeof_hdr)"
proof -
  from f obtain h1 h2 h3 h4 p1 p2 p3 p4 p5 where ff: "first_fits [16, 8] hs = Some (p1, h1)" "first_fits [16, 8] h1 = Some (p2, h2)"
    "first_fits [16, 8] h2 = Some (p3, h3)" "first_fits [16, 8] h3 = Some (p4, h4)" "first_fits [16, 8] h4 = Some (p5, hs')"
    unfolding five_vectors first_fits_append by (auto split: option.splits simp del: first_fits.simps)
  obtain X0 Y0 :: "nat \<Rightarrow> seg" where "ready s e 0 hs X0 Y0 s" using hl by (auto simp: ready_def vectors_def)
  note r0 = this
  obtain m1 x1 y1 where v1: "vector_init s = Some (seg_addr x1 + sizeof_hdr, s\<lparr>mem := m1\<rparr>)"
    and "ready s e (Suc 0) h1 (X0(0 := x1)) (Y0(0 := y1)) (s\<lparr>mem := m1\<rparr>)"
    by (rule ready_next [OF r0 ff(1)])
  define s1 where "s1 = s\<lparr>mem := m1\<rparr>\<lparr>lapics := seg_addr x1 + sizeof_hdr\<rparr>"
  have r1: "ready s e (Suc 0) h1 (X0(0 := x1)) (Y0(0 := y1)) s1"
    using \<open>ready s e (Suc 0) _ _ _ _\<close> by (simp add: s1_def)
  obtain m2 x2 y2 where v2: "vector_init s1 = Some (seg_addr x2 + sizeof_hdr, s1\<lparr>mem := m2\<rparr>)"
    and "ready s e (Suc (Suc 0)) h2 ((X0(0 := x1))(Suc 0 := x2)) ((Y0(0 := y1))(Suc 0 := y2)) (s1\<lparr>mem := m2\<rparr>)"
    by (rule ready_next [OF r1 ff(2)])
  define s2 where "s2 = s1\<lparr>mem := m2\<rparr>\<lparr>ioapics := seg_addr x2 + sizeof_hdr\<rparr>"
  have r2: "ready s e 2 h2 ((X0(0 := x1))(Suc 0 := x2)) ((Y0(0 := y1))(Suc 0 := y2)) s2"
    using \<open>ready s e (Suc (Suc 0)) _ _ _ _\<close> by (simp add: s2_def numeral_2_eq_2)
  obtain m3 x3 y3 where v3: "vector_init s2 = Some (seg_addr x3 + sizeof_hdr, s2\<lparr>mem := m3\<rparr>)"
    and "ready s e (Suc 2) h3 (((X0(0 := x1))(Suc 0 := x2))(2 := x3)) (((Y0(0 := y1))(Suc 0 := y2))(2 := y3)) (s2\<lparr>mem := m3\<rparr>)"
    by (rule ready_next [OF r2 ff(3)])
  define s3 where "s3 = s2\<lparr>mem := m3\<rparr>\<lparr>interrupt_source_overrides := seg_addr x3 + sizeof_hdr\<rparr>"
  have r3: "ready s e 3 h3 (((X0(0 := x1))(Suc 0 := x2))(2 := x3)) (((Y0(0 := y1))(Suc 0 := y2))(2 := y3)) s3"
    using \<open>ready s e (Suc 2) _ _ _ _\<close> by (simp add: s3_def)
  obtain m4 x4 y4 where v4: "vector_init s3 = Some (seg_addr x4 + sizeof_hdr, s3\<lparr>mem := m4\<rparr>)"
    and "ready s e (Suc 3) h4 ((((X0(0 := x1))(Suc 0 := x2))(2 := x3))(3 := x4)) ((((Y0(0 := y1))(Suc 0 := y2))(2 := y3))(3 := y4)) (s3\<lparr>mem := m4\<rparr>)"
    by (rule ready_next [OF r3 ff(4)])
  define s4 where "s4 = s3\<lparr>mem := m4\<rparr>\<lparr>interrupt_ioapic_nmis := seg_addr x4 + sizeof_hdr\<rparr>"
  have r4: "ready s e 4 h4 ((((X0(0 := x1))(Suc 0 := x2))(2 := x3))(3 := x4)) ((((Y0(0 := y1))(Suc 0 := y2))(2 := y3))(3 := y4)) s4"
    using \<open>ready s e (Suc 3) _ _ _ _\<close> by (simp add: s4_def)
  obtain m5 x5 y5 where v5: "vector_init s4 = Some (seg_addr x5 + sizeof_hdr, s4\<lparr>mem := m5\<rparr>)"
    and "ready s e (Suc 4) hs' (((((X0(0 := x1))(Suc 0 := x2))(2 := x3))(3 := x4))(4 := x5)) (((((Y0(0 := y1))(Suc 0 := y2))(2 := y3))(3 := y4))(4 := y5)) (s4\<lparr>mem := m5\<rparr>)"
    by (rule ready_next [OF r4 ff(5)])
  define s5 where "s5 = s4\<lparr>mem := m5\<rparr>\<lparr>interrupt_lapic_nmis := seg_addr x5 + sizeof_hdr\<rparr>"
  have r5: "ready s e 5 hs' (((((X0(0 := x1))(Suc 0 := x2))(2 := x3))(3 := x4))(4 := x5)) (((((Y0(0 := y1))(Suc 0 := y2))(2 := y3))(3 := y4))(4 := y5)) s5"
    using \<open>ready s e (Suc 4) _ _ _ _\<close> by (simp add: s5_def)
  have "init_vectors s = Some s5"
    unfolding init_vectors_def Let_def by (simp only: v1 option.case prod.case s1_def [symmetric] v2 s2_def [symmetric]
        v3 s3_def [symmetric] v4 s4_def [symmetric] v5 s5_def [symmetric])
  moreover have "\<forall>a < 5. madt_vector a s5 = seg_addr ((((((X0(0 := x1))(Suc 0 := x2))(2 := x3))(3 := x4))(4 := x5)) a) + sizeof_hdr"
    unfolding less_5 by (auto simp: madt_vector_def s5_def s4_def s3_def s2_def s1_def)
  ultimately show ?thesis using r5 by blast
qed

definition madt_requests :: "(nat \<times> u8) list \<Rightarrow> u64 list" where
  "madt_requests es = concat (replicate 5 [16, 8]) @ entry_requests (\<lambda>_. 0) es"

text \<open>
  C10. On a valid MADT that lies below the heap, whose entries have non-zero lengths and known types, with a
  heap that first-fits the requests, \<open>acpi_parse_madt\<close> returns true. For each of the five kinds of entries that are
  collected it leaves a vector with one pointer per entry, in the order of the table, to a copy of the entry's body; the address
  of the local APIC is that of the table or of its last override.
\<close>

theorem acpi_parse_madt_correct:
  fixes s :: "'a madt_scheme"
  defines "base \<equiv> heap_base_address s"
  assumes "acpi_get_table (sig ''APIC'') s = hdr" "hdr \<noteq> 0"
    and "checksum_ok (mem s) hdr (unat (sdt_length (mem s) hdr))"
    and "unat hdr + unat (sdt_length (mem s) hdr) + 12 \<le> unat base" "40 \<le> unat (sdt_length (mem s) hdr)"
    and "madt_walk (\<lambda>j. mem s (hdr + of_nat j)) (unat (sdt_length (mem s) hdr)) 44 es"
    and "\<forall>(k, ty) \<in> set es. known_type ty"
    and "heap_list (mem s) base e hs" "first_fits (madt_requests es) hs = Some (ps, hs')"
  shows "\<exists>s' P. acpi_parse_madt s = Some (True, s') \<and>
    acpi_get_lapic_addr s' = lapic_address (mem s) hdr es (ucast (load32 (mem s) (hdr + 36))) \<and>
    (\<forall>a < 5. is_vector (mem s') base e hs' (madt_vector a s') (P a) \<and>
      list_all2 (\<lambda>p i. \<forall>j < unat (body_size a). mem s' (p + of_nat j) = mem s (hdr + of_nat (i + 2 + j)))
        (P a) (of_type a es))"
proof -
  let ?s = "s\<lparr>madt_hdr := hdr\<rparr>" and ?len = "unat (sdt_length (mem s) hdr)"
  from assms(10) obtain p1 h1 p2 where ff: "first_fits (concat (replicate 5 [16, 8])) hs = Some (p1, h1)"
    "first_fits (entry_requests (\<lambda>_. 0) es) h1 = Some (p2, hs')"
    unfolding madt_requests_def first_fits_append by (auto split: option.splits)
  have "heap_list (mem ?s) (heap_base_address ?s) e hs" using assms(9) by (simp add: base_def)
  from init_vectors_ok [OF this ff(1)] obtain s1 X Y where s1: "init_vectors ?s = Some s1" "ready ?s e 5 h1 X Y s1"
    "\<And>a. a < 5 \<Longrightarrow> madt_vector a s1 = seg_addr (X a) + sizeof_hdr" by blast
  define t where "t = s1\<lparr>local_apic_addr := ucast (load32 (mem s1) (madt_hdr s1 + sizeof_sdt_hdr))\<rparr>"
  have R: "vectors 5 (mem s1) base e h1 X Y (\<lambda>_. [])" "within (unat base) e (mem s) (mem s1)"
    "heap_base_address s1 = base" "madt_hdr s1 = hdr" using s1(2) by (simp_all add: ready_def base_def)
  have sb: "same_below base (mem s1) (mem s)"
    using same_below_within [OF R(2)] by (simp add: same_below_def)
  have "unat (hdr + of_nat 36) = unat hdr + 36"
    by (rule unat_below [OF assms(5) [unfolded add.assoc]]) (use assms(6) in simp)
  then have "load32 (mem s1) (hdr + 36) = load32 (mem s) (hdr + 36)"
    using assms(5,6) by (intro load_below(1) [OF sb]) simp
  then have t: "mem t = mem s1" "heap_base_address t = base" "madt_hdr t = hdr"
    "local_apic_addr t = ucast (load32 (mem s) (hdr + 36))" "\<And>a. madt_vector a t = madt_vector a s1"
    using R by (simp_all add: t_def madt_vector_def sizeof_sdt_hdr_def)
  have "first_fits (entry_requests (\<lambda>a. length ([] :: u64 list)) es) h1 = Some (p2, hs')" using ff(2) by simp
  moreover have "table_below base (mem s) hdr (\<lambda>j. mem s (hdr + of_nat j)) ?len" using assms(5) by (simp add: table_below_def)
  moreover have "collecting base (mem s) hdr e X h1 Y (\<lambda>_. []) t" using sb R(1) s1(3) by (simp add: collecting_def t)
  ultimately obtain m' Y' Q where E: "madt_entries (of_nat 44) t =
      Some (True, t\<lparr>mem := m', local_apic_addr := lapic_address (mem s) hdr es (local_apic_addr t)\<rparr>)"
    "vectors 5 m' base e hs' X Y' (\<lambda>a. [] @ Q a)"
    "\<And>a. a < 5 \<Longrightarrow> collected m' hs' (X ` {..<5}) (Q a) (of_type a es) (\<lambda>j. mem s (hdr + of_nat j)) (unat (body_size a))"
    using madt_entries_vectors [OF assms(7) _ assms(8), of base "mem s" hdr e X h1 Y "\<lambda>_. []" t p2 hs'] assms(6) by auto
  define u where "u = madt_summary (t\<lparr>mem := m', local_apic_addr := lapic_address (mem s) hdr es (local_apic_addr t)\<rparr>)"
  have u: "mem u = m'" "local_apic_addr u = lapic_address (mem s) hdr es (local_apic_addr t)" "madt_vector a u = madt_vector a t" for a
    by (simp_all add: u_def madt_summary_def Let_def print_def madt_vector_def)
  have "acpi_is_valid_sdt_checksum (mem s) hdr"
    using assms(4) by (simp only: acpi_is_valid_sdt_checksum_def byte_sum_zero unat_ucast_u32)
  moreover have "s1\<lparr>local_apic_addr := ucast (load32 (mem s1) (madt_hdr s1 + 36))\<rparr> = t"
    by (simp add: t_def sizeof_sdt_hdr_def)
  ultimately have "acpi_parse_madt s = Some (True, u)"
    using assms(2,3) s1(1) E(1)
    by (simp add: acpi_parse_madt_def Let_def u_def sizeof_sdt_hdr_def sizeof_madt_local_apic_addr_def)
  moreover have "is_vector (mem u) base e hs' (madt_vector a u) (Q a)" if "a < 5" for a
    using E(2) s1(3) [OF that] that unfolding is_vector_def vectors_def u t(5) by auto
  moreover have "list_all2 (\<lambda>p i. \<forall>j < unat (body_size a). mem u (p + of_nat j) = mem s (hdr + of_nat (i + 2 + j)))
      (Q a) (of_type a es)" if "a < 5" for a
    using E(3) [OF that] unfolding collected_def u by (rule list_all2_mono) (use copied_bytes in blast)
  ultimately show ?thesis using u(2) t(4) by (intro exI [of _ u] exI [of _ Q]) (simp add: acpi_get_lapic_addr_def)
qed

text \<open>
  A machine whose only table is a MADT at 0x3000 with the local APIC at 0xFEE00000, one local APIC (processor 1, id 2) and an
  override of the address.
\<close>

definition madt_tables :: memory where
  "madt_tables = (\<lambda>_. 0)(0x1004 := 40, 0x1025 := 0x30,
    0x3000 := 0x41, 0x3001 := 0x50, 0x3002 := 0x49, 0x3003 := 0x43, 0x3004 := 64, 0x3009 := 168,
    0x3026 := 0xE0, 0x3027 := 0xFE,
    0x302D := 8, 0x302E := 1, 0x302F := 2, 0x3034 := 5, 0x3035 := 12, 0x303C := 1)"

definition demo_madt :: madt where
  "demo_madt = (acpi.extend (heap.extend (blank_vmm (heap.fields demo_heap_base 0))
      (acpi.fields False 0 0 0x1000 0 0 0 0 0)) (madt.fields 0 0 0 0 0 0 0))\<lparr>mem := with_tables madt_tables\<rparr>"

lemma demo_madt_simps:
  "mem demo_madt = with_tables madt_tables" "rsdt demo_madt = 0x1000" "acpi_is_xsdt demo_madt = False"
  "acpi_higher_half_offset demo_madt = 0" "heap_base_address demo_madt = demo_heap_base"
  by (simp_all add: demo_madt_def heap.defs acpi.defs madt.defs blank_vmm_def)

lemma demo_madt:
  "sdt_length (mem demo_madt) 0x3000 = 64" "checksum_ok (mem demo_madt) 0x3000 64"
  "acpi_get_table (sig ''APIC'') demo_madt = 0x3000"
  "madt_walk (\<lambda>j. mem demo_madt (0x3000 + of_nat j)) 64 44 [(44, 0), (52, 5)]"
proof -
  note [simp] = demo_madt_simps with_tables_def demo_heap_base_def madt_tables_def
  have l: "sdt_length (mem demo_madt) 0x1000 = 40" "sdt_length (mem demo_madt) 0x3000 = 64"
    "load32 (mem demo_madt) 0x1024 = 0x3000"
    by (simp_all add: sdt_length_def mem_simps)
  show "sdt_length (mem demo_madt) 0x3000 = 64" by (rule l(2))
  show "checksum_ok (mem demo_madt) 0x3000 64"
    by (simp add: checksum_ok_def lessThan_nat_numeral lessThan_Suc)
  have "root_tables demo_madt = [0x3000]"
    using l(1,3) by (simp add: root_tables_def rsdt_sdt_def sizeof_sdt_hdr_def upt_rec del: demo_madt_simps(1))
  moreover have "signature_at (mem demo_madt) 0x3000 4 = sig ''APIC''"
    by (simp add: signature_at_def upt_rec sig_def)
  ultimately show "acpi_get_table (sig ''APIC'') demo_madt = 0x3000"
    using l(1) by (subst get_table_find) (simp_all add: sig_def del: demo_madt_simps(1))
  let ?t = "\<lambda>j. mem demo_madt (0x3000 + of_nat j)"
  have "madt_walk ?t 64 64 []" by (rule madt_end) simp
  then have "madt_walk ?t 64 52 [(52, ?t 52)]" by (intro madt_next) simp_all
  then have "madt_walk ?t 64 44 [(44, ?t 44), (52, ?t 52)]" by (intro madt_next) simp_all
  then show "madt_walk ?t 64 44 [(44, 0), (52, 5)]" by simp
qed

lemma acpi_parse_madt_correct_witness:
  "\<exists>s' p. acpi_parse_madt demo_madt = Some (True, s') \<and> acpi_get_lapic_addr s' = 0x100000000 \<and>
    vector_get s' (acpi_get_lapics s') 0 = p \<and> mem s' (p + 1) = 2"
proof -
  have "\<exists>ps hs'. first_fits (madt_requests [(44, 0), (52, 5)]) [Seg demo_heap_base 4075 True] = Some (ps, hs')"
    by (simp add: madt_requests_def five_vectors fits_def place_def sizeof_hdr_def demo_heap_base_def)
  then obtain ps hs' where f: "first_fits (madt_requests [(44, 0), (52, 5)]) [Seg demo_heap_base 4075 True] = Some (ps, hs')" by blast
  have bound: "unat (0x3000 :: u64) + unat (sdt_length (mem demo_madt) 0x3000) + 12 \<le> unat (heap_base_address demo_madt)"
    by (simp add: demo_madt(1) demo_madt_simps(5) demo_heap_base_def)
  have walk: "madt_walk (\<lambda>j. mem demo_madt (0x3000 + of_nat j)) (unat (sdt_length (mem demo_madt) 0x3000)) 44 [(44, 0), (52, 5)]"
    using demo_madt(4) by (simp add: demo_madt(1))
  have heap: "heap_list (mem demo_madt) (heap_base_address demo_madt) (unat demo_heap_base + 4096) [Seg demo_heap_base 4075 True]"
    unfolding demo_madt_simps by (rule with_tables_heap)
  have known: "\<forall>(k :: nat, ty) \<in> set [(44, 0), (52, 5)]. known_type ty" by (simp add: known_type_def)
  have sum: "checksum_ok (mem demo_madt) 0x3000 (unat (sdt_length (mem demo_madt) 0x3000))"
    using demo_madt(2) by (simp add: demo_madt(1))
  from acpi_parse_madt_correct [OF demo_madt(3) _ sum bound _ walk known heap f] obtain s' P where
    s': "acpi_parse_madt demo_madt = Some (True, s')"
    "acpi_get_lapic_addr s' = lapic_address (mem demo_madt) 0x3000 [(44, 0), (52, 5)] (ucast (load32 (mem demo_madt) (0x3000 + 36)))"
    "is_vector (mem s') (heap_base_address demo_madt) (unat demo_heap_base + 4096) hs' (madt_vector 0 s') (P 0)"
    "list_all2 (\<lambda>p i. \<forall>j < 6. mem s' (p + of_nat j) = mem demo_madt (0x3000 + of_nat (i + 2 + j))) (P 0) [44]"
    by (auto simp: demo_madt(1) less_5)
  from s'(4) obtain p where p: "P 0 = [p]" "\<And>j. j < 6 \<Longrightarrow> mem s' (p + of_nat j) = mem demo_madt (0x3000 + of_nat (46 + j))"
    by (auto simp: list_all2_Cons2)
  have "vector_get s' (acpi_get_lapics s') 0 = p"
    using vector_size_get [OF s'(3), of 0] p(1) by (simp add: madt_vector_def acpi_get_lapics_def)
  moreover have "mem s' (p + 1) = 2"
    using p(2) [of 1] by (simp add: demo_madt_simps(1) with_tables_def demo_heap_base_def madt_tables_def)
  moreover have "acpi_get_lapic_addr s' = 0x100000000"
    unfolding s'(2) by (simp add: mem_simps demo_madt_simps(1) with_tables_def demo_heap_base_def madt_tables_def)
  ultimately show ?thesis using s'(1) by blast
qed

end
