(* ===== verification/Acpi.thy ===== *)
theory Acpi
  imports Mcfg Acpi_Correct
begin

text \<open>
  \<open>acpi_init\<close> of \<open>src/acpi/acpi.c\<close>: the root tables are validated, and each table they list is handed to the parser of its
  signature. The loop over the array \<open>handlers\<close> is bounded by the array's size in bytes (32), not by
  its two elements, so signatures behind the array are compared as well; were one of them found, the code
  would call whatever address is stored there, which is \<open>None\<close>.
\<close>

definition sizeof_handler :: u64 where "sizeof_handler = 16"
definition sizeof_handlers :: u64 where "sizeof_handlers = 2 * sizeof_handler"

text \<open>The parsers of the two elements.\<close>

definition run_handler :: "u64 \<Rightarrow> 'a mcfg_scheme \<Rightarrow> (bool \<times> 'a mcfg_scheme) option" where
  "run_handler i s =
    (if i = 0 then acpi_parse_madt s else if i = 1 then acpi_parse_mcfg s else None)"

text \<open>
  The element \<open>handlers[i]\<close> in place, and in the local copy that \<open>acpi_parse_xsdt_tables\<close> makes.
\<close>

definition handler_in_place :: "u64 \<Rightarrow> 'a acpi_scheme \<Rightarrow> u64 \<times> 'a acpi_scheme" where
  "handler_in_place i s = (acpi_handlers s + sizeof_handler * i, s)"

definition handler_copied :: "u64 \<Rightarrow> 'a acpi_scheme \<Rightarrow> u64 \<times> 'a acpi_scheme" where
  "handler_copied i s =
    (local_handler s,
     s\<lparr>mem := memcpy (local_handler s) (acpi_handlers s + sizeof_handler * i) sizeof_handler (mem s)\<rparr>)"

function try_handlers ::
  "(u64 \<Rightarrow> 'a mcfg_scheme \<Rightarrow> u64 \<times> 'a mcfg_scheme) \<Rightarrow> u64 \<Rightarrow> u64 \<Rightarrow> bool \<Rightarrow> 'a mcfg_scheme \<Rightarrow>
    (bool \<times> 'a mcfg_scheme) option" where
  "try_handlers element i header has_parsed s =
    (if i < sizeof_handlers then
       (let (handler, s) = element i s in
        if acpi_header_signature_equals (mem s) header (signature_at (mem s) handler 4) then
          (case run_handler i (print '': '' [] s) of None \<Rightarrow> None
           | Some (success, s) \<Rightarrow>
             (case (if success then vector_add (acpi_parsed_tables s) handler s else Some s) of None \<Rightarrow> None
              | Some s \<Rightarrow> try_handlers element (i + 1) header True s))
        else try_handlers element (i + 1) header has_parsed s)
     else Some (has_parsed, s))"
  by pat_completeness auto
termination
  by (relation "measure (\<lambda>(_, i, _). unat sizeof_handlers - unat i)") (auto simp: u64_Suc word_less_nat_alt)

declare try_handlers.simps [simp del]

definition print_signature :: "u64 \<Rightarrow> 'm machine_scheme \<Rightarrow> 'm machine_scheme" where
  "print_signature header s = fold (\<lambda>j s. print ''%c'' [PInt (scast (mem s (header + of_nat j)))] s) [0..<4] s"

text \<open>The loop over the tables; \<open>sdt s i\<close> is the \<open>i\<close>-th pointer of the root table.\<close>

function parse_tables ::
  "('a mcfg_scheme \<Rightarrow> u64 \<Rightarrow> u64) \<Rightarrow> (u64 \<Rightarrow> 'a mcfg_scheme \<Rightarrow> u64 \<times> 'a mcfg_scheme) \<Rightarrow> u64 \<Rightarrow> u64 \<Rightarrow> 'a mcfg_scheme \<Rightarrow>
    'a mcfg_scheme option" where
  "parse_tables sdt element i entries s =
    (if i < entries then
       (let s = print '' - '' [] s;
            header = sdt s i + acpi_higher_half_offset s;
            s = print_signature header s
        in case try_handlers element 0 header False s of None \<Rightarrow> None
           | Some (has_parsed, s) \<Rightarrow>
             parse_tables sdt element (i + 1) entries (if \<not> has_parsed then print newline [] s else s))
     else Some s)"
  by pat_completeness auto
termination
  by (relation "measure (\<lambda>(_, _, i, n, _). unat n - unat i)") (auto simp: u64_Suc word_less_nat_alt)

declare parse_tables.simps [simp del]

definition acpi_parse_rsdt_tables :: "'a mcfg_scheme \<Rightarrow> 'a mcfg_scheme option" where
  "acpi_parse_rsdt_tables s =
    (if acpi_is_xsdt s then Some s else parse_tables rsdt_sdt handler_in_place 0 (rsdt_entries s) s)"

definition acpi_parse_xsdt_tables :: "'a mcfg_scheme \<Rightarrow> 'a mcfg_scheme option" where
  "acpi_parse_xsdt_tables s =
    (if \<not> acpi_is_xsdt s then Some s else parse_tables xsdt_sdt handler_copied 0 (xsdt_entries s) s)"

definition acpi_init :: "boot_data \<Rightarrow> 'a mcfg_scheme \<Rightarrow> ('a mcfg_scheme, 'a mcfg_scheme) outcome" where
  "acpi_init bootdata s =
    (let s = s\<lparr>acpi_higher_half_offset := hh_offset (higher_half bootdata)\<rparr> in
     and_then (acpi_parse_rsdp (rsdp_address (rsdp bootdata)) s) (\<lambda>s.
     and_then (returned (vector_init s)) (\<lambda>(v, s).
     let s = s\<lparr>acpi_parsed_tables := v\<rparr> in
     and_then (if acpi_is_xsdt s then acpi_parse_xsdt s else acpi_parse_rsdt s) (\<lambda>s.
     let s = print ''%C[ACPI]%C - Validated RSDP and '' [PInt (ucast COLOUR_KERNEL_INFO), PInt (ucast COLOUR_PRINT)] s in
     if acpi_is_xsdt s
     then returned (acpi_parse_xsdt_tables (print (''XSDT. Found:'' @ newline) [] s))
     else returned (acpi_parse_rsdt_tables (print (''RSDT. Found:'' @ newline) [] s))))))"

end
