(* ===== verification/Pci.thy ===== *)
theory Pci
  imports Acpi Pci_Tables
begin

unbundle bit_operations_syntax

text \<open>
  \<open>src/pci/pci.c\<close>, \<open>src/pci/pcie.c\<close> and the drivers in \<open>src/dev\<close>: devices are found by probing every function of
  every bus of the segment groups, following bridges to their secondary bus. The configuration space of a
  function is a page that is mapped at its own address before it is read; its registers are bytes of the
  memory. Probing a bridge may come back to the same bus, so the probe is a partial function. The strings
  that describe a device are kept by the address of their \<open>pci_descriptors_t\<close>.
\<close>

lemma u64_rest:
  assumes "i < (n :: u64)"
  shows "18446744073709551616 - unat (i + 1) < 18446744073709551616 - unat i"
  unfolding u64_Suc [OF assms] using unat_u64_less [of i] by linarith

section \<open>Structures\<close>

text \<open>\<open>pci_device_hdr_t\<close>, 16 bytes.\<close>

definition sizeof_device_hdr :: u64 where "sizeof_device_hdr = 2 + 2 + 2 + 2 + 1 + 1 + 1 + 1 + 1 + 1 + 1 + 1"
definition dev_vendor :: "memory \<Rightarrow> u64 \<Rightarrow> u16" where "dev_vendor m hdr = load16 m hdr"
definition dev_device_id :: "memory \<Rightarrow> u64 \<Rightarrow> u16" where "dev_device_id m hdr = load16 m (hdr + 2)"
definition dev_command :: "memory \<Rightarrow> u64 \<Rightarrow> u16" where "dev_command m hdr = load16 m (hdr + 4)"
definition dev_status :: "memory \<Rightarrow> u64 \<Rightarrow> u16" where "dev_status m hdr = load16 m (hdr + 6)"
definition dev_prog_if :: "memory \<Rightarrow> u64 \<Rightarrow> u8" where "dev_prog_if m hdr = m (hdr + 9)"
definition dev_subclass :: "memory \<Rightarrow> u64 \<Rightarrow> u8" where "dev_subclass m hdr = m (hdr + 10)"
definition dev_class :: "memory \<Rightarrow> u64 \<Rightarrow> u8" where "dev_class m hdr = m (hdr + 11)"
definition dev_hdr_type :: "memory \<Rightarrow> u64 \<Rightarrow> u8" where "dev_hdr_type m hdr = m (hdr + 14)"

text \<open>Fields of the headers that follow it: \<open>pci_extended_hdr_t\<close> and \<open>pci_bridge_0x1_hdr_t\<close>.\<close>

definition ext_bar5 :: "memory \<Rightarrow> u64 \<Rightarrow> u32" where "ext_bar5 m ext = load32 m (ext + 20)"
definition bridge_secondary_bus :: "memory \<Rightarrow> u64 \<Rightarrow> u8" where "bridge_secondary_bus m bridge = m (bridge + 9)"

text \<open>\<open>pci_device_t\<close>: four pointers.\<close>

definition sizeof_pci_device :: u64 where "sizeof_pci_device = 8 + 8 + 8 + 8"
definition device_header :: "memory \<Rightarrow> u64 \<Rightarrow> u64" where "device_header m d = load64 m d"
definition device_descriptors :: "memory \<Rightarrow> u64 \<Rightarrow> u64" where "device_descriptors m d = load64 m (d + 8)"
definition device_extended :: "memory \<Rightarrow> u64 \<Rightarrow> u64" where "device_extended m d = load64 m (d + 16)"
definition sizeof_pci_descriptors :: u64 where "sizeof_pci_descriptors = 8 + 8 + 8 + 8"

record pci = mcfg +
  pci_devices :: u64
  descriptors_at :: "u64 \<Rightarrow> pci_descriptors option"

definition PCI_CMD_MEM_SPACE :: u16 where "PCI_CMD_MEM_SPACE = push_bit 1 0b1"
definition PCI_CMD_BUS_MASTER :: u16 where "PCI_CMD_BUS_MASTER = push_bit 2 0b1"
definition PCI_CMD_INT_DISABLE :: u16 where "PCI_CMD_INT_DISABLE = push_bit 10 0b1"
definition PCI_STATUS_CAP_LIST :: u16 where "PCI_STATUS_CAP_LIST = push_bit 4 0b1"

section \<open>Registering devices\<close>

definition register_descriptors :: "u64 \<Rightarrow> 'a pci_scheme \<Rightarrow> (u64 \<times> 'a pci_scheme) option" where
  "register_descriptors hdr s =
    (case malloc sizeof_pci_descriptors s of None \<Rightarrow> None
     | Some (p, s) \<Rightarrow>
       (case pci_get_descriptors (dev_vendor (mem s) hdr) (dev_device_id (mem s) hdr) (dev_class (mem s) hdr)
               (dev_subclass (mem s) hdr) (dev_prog_if (mem s) hdr) of
          None \<Rightarrow> None
        | Some d \<Rightarrow> Some (p, s\<lparr>descriptors_at := (descriptors_at s)(p \<mapsto> d)\<rparr>)))"

text \<open>
  The two conditions of the header type are the same in the code, so the second branch is never taken; for
  any other type the two last pointers keep what the block held.
\<close>

definition fill_device :: "u64 \<Rightarrow> u64 \<Rightarrow> u64 \<Rightarrow> memory \<Rightarrow> memory" where
  "fill_device device hdr descriptors m =
    (let m = store64 m device hdr;
         m = store64 m (device + 8) descriptors
     in if dev_hdr_type m hdr AND 0b01111111 = 0x0 then
          store64 (store64 m (device + 16) (hdr + sizeof_device_hdr)) (device + 24) 0
        else if dev_hdr_type m hdr AND 0b01111111 = 0x0 then
          store64 (store64 m (device + 16) 0) (device + 24) (hdr + sizeof_device_hdr)
        else m)"

definition print_device :: "u64 \<Rightarrow> 'a pci_scheme \<Rightarrow> 'a pci_scheme" where
  "print_device p s =
    (let s = print ''%C [%d]'' [PInt (ucast COLOUR_SPECIAL_INFO), PInt (vector_size s (pci_devices s))] s
     in case descriptors_at s p of None \<Rightarrow> s
        | Some d \<Rightarrow> print ('' - %s | %s - %s'' @ newline) [PStr (d_vendor d), PStr (d_class d), PStr (d_subclass d)] s)"

definition pci_register_device :: "u64 \<Rightarrow> 'a pci_scheme \<Rightarrow> 'a pci_scheme option" where
  "pci_register_device hdr s =
    (case register_descriptors hdr s of None \<Rightarrow> None
     | Some (p, s) \<Rightarrow>
       (case malloc sizeof_pci_device s of None \<Rightarrow> None
        | Some (device, s) \<Rightarrow>
          (let s = s\<lparr>mem := fill_device device hdr p (mem s)\<rparr>
           in map_option (print_device p) (vector_add (pci_devices s) device s))))"

definition pci_is_status_flag_set :: "'m machine_scheme \<Rightarrow> u64 \<Rightarrow> u16 \<Rightarrow> bool" where
  "pci_is_status_flag_set s dev flag \<longleftrightarrow> dev_status (mem s) (device_header (mem s) dev) AND flag > 0"

definition set_command :: "u64 \<Rightarrow> u16 \<Rightarrow> 'm machine_scheme \<Rightarrow> 'm machine_scheme" where
  "set_command hdr c s = s\<lparr>mem := store16 (mem s) (hdr + 4) c\<rparr>"

definition pci_set_command_flag :: "u64 \<Rightarrow> u16 \<Rightarrow> 'm machine_scheme \<Rightarrow> 'm machine_scheme" where
  "pci_set_command_flag dev flag s =
    (let hdr = device_header (mem s) dev in set_command hdr (dev_command (mem s) hdr OR flag) s)"

definition pci_clear_command_flag :: "u64 \<Rightarrow> u16 \<Rightarrow> 'm machine_scheme \<Rightarrow> 'm machine_scheme" where
  "pci_clear_command_flag dev flag s =
    (let hdr = device_header (mem s) dev in set_command hdr (dev_command (mem s) hdr AND NOT flag) s)"

section \<open>Probing\<close>

text \<open>The configuration space of a function, and whether it is a bridge.\<close>

definition function_address :: "u64 \<Rightarrow> u64 \<Rightarrow> u64 \<Rightarrow> u64 \<Rightarrow> u64 \<Rightarrow> u64" where
  "function_address base_addr start_bus bus dev_slot fn =
    base_addr + (push_bit 20 (bus - start_bus) + push_bit 15 dev_slot + push_bit 12 fn)"

definition is_bridge :: "memory \<Rightarrow> u64 \<Rightarrow> bool" where
  "is_bridge m hdr \<longleftrightarrow> dev_hdr_type m hdr AND 0b01111111 = 0x1"

text \<open>
  The nested loops of \<open>pcie_probe_bus\<close>, \<open>pcie_probe_slot\<close> and \<open>pcie_probe_function\<close>, from a slot and a function to the end of the
  bus. A bridge is followed before it is registered.
\<close>

partial_function (option) probe_from ::
  "u64 \<Rightarrow> u64 \<Rightarrow> u64 \<Rightarrow> u64 \<Rightarrow> u64 \<Rightarrow> 'a pci_scheme \<Rightarrow> 'a pci_scheme option" where
  "probe_from base_addr start_bus bus dev_slot fn s =
    (if \<not> dev_slot < 32 then Some s
     else if \<not> fn < 8 then probe_from base_addr start_bus bus (dev_slot + 1) 0 s
     else
       (let address = function_address base_addr start_bus bus dev_slot fn;
            s = vmm_map_page_flags address address (ucast (PT_ENTRY_READ_WRITE OR PT_ENTRY_CACHE_DISABLED)) s
        in if dev_device_id (mem s) address = 0 \<or> dev_device_id (mem s) address = 0xFFFF
           then probe_from base_addr start_bus bus dev_slot (fn + 1) s
           else
             Option.bind
               (if is_bridge (mem s) address
                then probe_from base_addr start_bus
                       (ucast (bridge_secondary_bus (mem s) (address + sizeof_device_hdr))) 0 0 s
                else Some s)
               (\<lambda>s. Option.bind (pci_register_device address s)
                 (\<lambda>s. probe_from base_addr start_bus bus dev_slot (fn + 1) s))))"

definition pcie_probe_bus :: "u64 \<Rightarrow> u64 \<Rightarrow> u64 \<Rightarrow> 'a pci_scheme \<Rightarrow> 'a pci_scheme option" where
  "pcie_probe_bus base_addr start_bus bus s = probe_from base_addr start_bus bus 0 0 s"

function probe_buses :: "u64 \<Rightarrow> u8 \<Rightarrow> 'a pci_scheme \<Rightarrow> 'a pci_scheme option" where
  "probe_buses grp bus s =
    (if bus < sg_end_bus (mem s) grp then
       (case pcie_probe_bus (sg_base_address (mem s) grp) (ucast (sg_start_bus (mem s) grp)) (ucast bus) s of
          None \<Rightarrow> None
        | Some s' \<Rightarrow> probe_buses grp (bus + 1) s')
     else Some s)"
  by pat_completeness auto
termination
proof (relation "measure (\<lambda>(_, bus, _). 256 - unat bus)", simp)
  fix grp :: u64 and bus :: u8 and s s' :: "'a pci_scheme"
  assume "bus < sg_end_bus (mem s) grp"
  then have "unat bus < 255" using unsigned_less [of "sg_end_bus (mem s) grp", where 'a = nat] by (simp add: word_less_nat_alt)
  then show "((grp, bus + 1, s'), grp, bus, s) \<in> measure (\<lambda>(_, bus, _). 256 - unat bus)"
    using unat_add_lem [THEN iffD1, of bus 1] by simp
qed

declare probe_buses.simps [simp del]

function probe_groups :: "u64 \<Rightarrow> 'a pci_scheme \<Rightarrow> 'a pci_scheme option" where
  "probe_groups i s =
    (if i < vector_size s (mcfg_segment_groups s) then
       (let grp = vector_get s (mcfg_segment_groups s) i
        in case probe_buses grp (sg_start_bus (mem s) grp) s of None \<Rightarrow> None
           | Some s' \<Rightarrow> probe_groups (i + 1) s')
     else Some s)"
  by pat_completeness auto
termination
proof (relation "measure (\<lambda>(i, _). 2 ^ 64 - unat i)", simp)
  fix i :: u64 and s s' :: "'a pci_scheme"
  assume "i < vector_size s (mcfg_segment_groups s)"
  from u64_rest [OF this]
  show "((i + 1, s'), i, s) \<in> measure (\<lambda>(i, _). 2 ^ 64 - unat i)" by simp
qed

declare probe_groups.simps [simp del]

definition pcie_probe :: "'a pci_scheme \<Rightarrow> 'a pci_scheme option" where
  "pcie_probe s =
    (if \<not> acpi_has_parsed (sig ''MCFG'') s then Some s
     else if acpi_get_mcfg s = 0 then Some s
     else probe_groups 0 s)"

definition pci_init :: "'a pci_scheme \<Rightarrow> 'a pci_scheme option" where
  "pci_init s =
    (case vector_init s of None \<Rightarrow> None
     | Some (v, s) \<Rightarrow>
       (let s = print ''%C[PCI]'' [PInt (ucast COLOUR_KERNEL_INFO)] (s\<lparr>pci_devices := v\<rparr>)
        in pcie_probe (print ('' - Discovering all PCI devices...'' @ newline) [] s)))"

section \<open>Drivers\<close>

definition AHCI_GHC_HR :: u32 where "AHCI_GHC_HR = 0b1"
definition AHCI_GHC_IE :: u32 where "AHCI_GHC_IE = push_bit 1 0b1"
definition AHCI_GHC_AE :: u32 where "AHCI_GHC_AE = push_bit 31 0b1"
definition AHCI_CAP2_BOH :: u32 where "AHCI_CAP2_BOH = 0b1"

definition nvme_init :: "u64 \<Rightarrow> 'm machine_scheme \<Rightarrow> 'm machine_scheme" where
  "nvme_init device s =
    print (''%C[NVMe]%C - NVMe not initialised - support coming soon'' @ newline)
      [PInt (ucast COLOUR_DRIVER_INFO), PInt (ucast COLOUR_PRINT)] s"

text \<open>Registers of \<open>hba_mem_t\<close>; \<open>or_ghc\<close> is \<open>hba_mem->ghc |= w\<close>.\<close>

definition hba_ghc :: "memory \<Rightarrow> u64 \<Rightarrow> u32" where "hba_ghc m hba = load32 m (hba + 4)"
definition hba_cap2 :: "memory \<Rightarrow> u64 \<Rightarrow> u32" where "hba_cap2 m hba = load32 m (hba + 36)"
definition or_ghc :: "u64 \<Rightarrow> u32 \<Rightarrow> 'm machine_scheme \<Rightarrow> 'm machine_scheme" where
  "or_ghc hba w s = s\<lparr>mem := store32 (mem s) (hba + 4) (hba_ghc (mem s) hba OR w)\<rparr>"

text \<open>
  Waiting for the end of the reset. The controller changes its registers by itself: \<open>hw\<close> is what it does between
  two polls.
\<close>

partial_function (option) wait_reset :: "(memory \<Rightarrow> memory) \<Rightarrow> u64 \<Rightarrow> 'm machine_scheme \<Rightarrow> 'm machine_scheme option" where
  "wait_reset hw hba s =
    (if hba_ghc (mem s) hba AND AHCI_GHC_HR \<noteq> 0 then wait_reset hw hba (s\<lparr>mem := hw (mem s)\<rparr>) else Some s)"

definition ahci_init :: "(memory \<Rightarrow> memory) \<Rightarrow> u64 \<Rightarrow> 'a vmm_scheme \<Rightarrow> ('a vmm_scheme, 'a vmm_scheme) outcome" where
  "ahci_init hw device s =
    (let s = set_command (device_header (mem s) device) 0 s;
         s = pci_set_command_flag device PCI_CMD_MEM_SPACE s;
         s = pci_set_command_flag device PCI_CMD_BUS_MASTER s;
         s = pci_clear_command_flag device PCI_CMD_INT_DISABLE s;
         abar = ucast (ext_bar5 (mem s) (device_extended (mem s) device));
         s = vmm_map_page_flags abar abar (ucast (PT_ENTRY_READ_WRITE OR PT_ENTRY_CACHE_DISABLED)) s
     in and_then (faults_assert (hba_cap2 (mem s) abar AND AHCI_CAP2_BOH = 0) ''AHCI - BOH Unsupported'' s) (\<lambda>s.
        let s = or_ghc abar AHCI_GHC_HR s in
        and_then (returned (wait_reset hw abar s)) (\<lambda>s.
        let s = or_ghc abar AHCI_GHC_AE s;
            s = or_ghc abar AHCI_GHC_IE s
        in Done (print (''%C[AHCI]%C - AHCI driver in development'' @ newline)
             [PInt (ucast COLOUR_DRIVER_INFO), PInt (ucast COLOUR_PRINT)] s))))"

definition init_driver :: "(memory \<Rightarrow> memory) \<Rightarrow> u64 \<Rightarrow> 'a vmm_scheme \<Rightarrow> ('a vmm_scheme, 'a vmm_scheme) outcome" where
  "init_driver hw device s =
    (let hdr = device_header (mem s) device in
     if dev_class (mem s) hdr = 0x1 \<and> dev_subclass (mem s) hdr = 0x8 \<and> dev_prog_if (mem s) hdr = 0x2
     then Done (nvme_init device s)
     else if dev_class (mem s) hdr = 0x1 \<and> dev_subclass (mem s) hdr = 0x6 \<and> dev_prog_if (mem s) hdr = 0x1
     then ahci_init hw device s
     else Done s)"

function init_drivers :: "(memory \<Rightarrow> memory) \<Rightarrow> u64 \<Rightarrow> 'a pci_scheme \<Rightarrow> ('a pci_scheme, 'a pci_scheme) outcome" where
  "init_drivers hw i s =
    (if i < vector_size s (pci_devices s) then
       (case init_driver hw (vector_get s (pci_devices s) i) s of
          Done s' \<Rightarrow> init_drivers hw (i + 1) s'
        | Hung s' \<Rightarrow> Hung s'
        | Undefined \<Rightarrow> Undefined)
     else Done s)"
  by pat_completeness auto
termination
proof (relation "measure (\<lambda>(_, i, _). 2 ^ 64 - unat i)", simp)
  fix hw :: "memory \<Rightarrow> memory" and i :: u64 and s s' :: "'a pci_scheme"
  assume "i < vector_size s (pci_devices s)"
  from u64_rest [OF this]
  show "((hw, i + 1, s'), hw, i, s) \<in> measure (\<lambda>(_, i, _). 2 ^ 64 - unat i)" by simp
qed

declare init_drivers.simps [simp del]

definition pci_init_builtin_drivers ::
  "(memory \<Rightarrow> memory) \<Rightarrow> 'a pci_scheme \<Rightarrow> ('a pci_scheme, 'a pci_scheme) outcome" where
  "pci_init_builtin_drivers hw s = init_drivers hw 0 s"

end
