(* ===== verification/Pci_Correct.thy ===== *)
theory Pci_Correct
  imports Pci Vmm_Pages CMemory_Eval
begin

unbundle bit_operations_syntax

text \<open>
  The AHCI driver: when it returns, and in which state it leaves the controller. The controller is the function \<open>hw\<close>
  that changes the memory between two polls.
\<close>

section \<open>Waiting for the controller\<close>

definition reset_done :: "(memory \<Rightarrow> memory) \<Rightarrow> u64 \<Rightarrow> memory \<Rightarrow> nat \<Rightarrow> bool" where
  "reset_done hw hba m k \<longleftrightarrow> hba_ghc ((hw ^^ k) m) hba AND AHCI_GHC_HR = 0"

lemma wait_reset_returns:
  "reset_done hw hba (mem s) k \<Longrightarrow> (\<And>j. j < k \<Longrightarrow> \<not> reset_done hw hba (mem s) j) \<Longrightarrow>
    wait_reset hw hba s = Some (s\<lparr>mem := (hw ^^ k) (mem s)\<rparr>)"
proof (induction k arbitrary: s)
  case 0
  then show ?case by (subst wait_reset.simps) (simp add: reset_done_def)
next
  case (Suc k)
  let ?s = "s\<lparr>mem := hw (mem s)\<rparr>"
  have "hba_ghc (mem s) hba AND AHCI_GHC_HR \<noteq> 0" using Suc.prems(2) [of 0] by (simp add: reset_done_def)
  then have "wait_reset hw hba s = wait_reset hw hba ?s" by (subst wait_reset.simps) simp
  also have "\<dots> = Some (?s\<lparr>mem := (hw ^^ k) (mem ?s)\<rparr>)"
  proof (rule Suc.IH)
    show "reset_done hw hba (mem ?s) k" using Suc.prems(1) by (simp add: reset_done_def funpow_swap1)
    show "\<not> reset_done hw hba (mem ?s) j" if "j < k" for j
      using Suc.prems(2) [of "Suc j"] that by (simp add: reset_done_def funpow_swap1)
  qed
  finally show ?case by (simp add: funpow_swap1)
qed

lemma wait_reset_spins:
  assumes "wait_reset hw hba s = Some s'"
  shows "\<exists>k. reset_done hw hba (mem s) k"
  using assms
proof (induction rule: wait_reset.raw_induct [rotated 1, consumes 1])
  case (1 wait hw hba s s')
  show ?case
  proof (cases "hba_ghc (mem s) hba AND AHCI_GHC_HR \<noteq> 0")
    case True
    then have "wait hw hba (s\<lparr>mem := hw (mem s)\<rparr>) = Some s'" using 1(2) by simp
    then have "\<exists>k. reset_done hw hba (mem (s\<lparr>mem := hw (mem s)\<rparr>)) k" by (rule 1(1))
    then obtain k where "reset_done hw hba (mem s) (Suc k)" by (auto simp: reset_done_def funpow_swap1)
    then show ?thesis by blast
  next
    case False
    then show ?thesis by (intro exI [of _ 0]) (simp add: reset_done_def)
  qed
qed

lemma wait_reset_eq:
  "wait_reset hw hba s =
    (if \<exists>k. reset_done hw hba (mem s) k then Some (s\<lparr>mem := (hw ^^ (LEAST k. reset_done hw hba (mem s) k)) (mem s)\<rparr>) else None)"
proof (cases "\<exists>k. reset_done hw hba (mem s) k")
  case True
  let ?k = "LEAST k. reset_done hw hba (mem s) k"
  have "reset_done hw hba (mem s) ?k" using True by (rule LeastI_ex)
  then have "wait_reset hw hba s = Some (s\<lparr>mem := (hw ^^ ?k) (mem s)\<rparr>)"
    using not_less_Least by (rule wait_reset_returns)
  with True show ?thesis by simp
next
  case False
  then have "wait_reset hw hba s = None" using wait_reset_spins [of hw hba s] by (metis option.exhaust)
  with False show ?thesis by simp
qed

section \<open>Device registers\<close>

lemma set_command_twice: "set_command hdr c' (set_command hdr c s) = set_command hdr c' s"
  by (simp add: set_command_def store16_def store_le_twice)

lemma dev_command_set: "dev_command (mem (set_command hdr c s)) hdr = c"
  by (simp add: set_command_def dev_command_def cell16.rd_wr)

lemma store32_twice: "store32 (store32 m a v) a w = store32 m a w"
  by (simp add: store32_def store_le_twice)

lemma or_ghc_twice: "or_ghc hba w' (or_ghc hba w s) = s\<lparr>mem := store32 (mem s) (hba + 4) (hba_ghc (mem s) hba OR w OR w')\<rparr>"
  by (simp add: or_ghc_def hba_ghc_def cell32.rd_wr store32_twice or.assoc)

text \<open>
  The command register lies apart from the pointers of the device and from its base address register, and the registers of
  the controller apart from the command register; neither is memory of the tables or the allocator.
\<close>

definition controller_at :: "'a vmm_scheme \<Rightarrow> u64 \<Rightarrow> u64 \<Rightarrow> u64 \<Rightarrow> u64 \<Rightarrow> bool" where
  "controller_at s root device hdr abar \<longleftrightarrow> device_header (mem s) device = hdr \<and>
    ucast (ext_bar5 (mem s) (device_extended (mem s) device)) = abar \<and>
    disj device 8 (hdr + 4) 2 \<and> disj (device + 16) 8 (hdr + 4) 2 \<and>
    disj (device_extended (mem s) device + 20) 4 (hdr + 4) 2 \<and>
    disj (abar + 4) 4 (hdr + 4) 2 \<and> disj (abar + 36) 4 (hdr + 4) 2 \<and>
    (\<forall>x \<in> vmm_bytes s root. \<not> in_range x (hdr + 4) 2 \<and> \<not> in_range x (abar + 4) 4 \<and> \<not> in_range x (abar + 36) 4)"

lemma command_frame:
  fixes s :: "'a vmm_scheme" and c :: u16
  assumes "controller_at s root device hdr abar"
  defines "s1 \<equiv> set_command hdr c s"
  shows "device_header (mem s1) device = hdr" "ucast (ext_bar5 (mem s1) (device_extended (mem s1) device)) = abar"
    "hba_ghc (mem s1) abar = hba_ghc (mem s) abar" "hba_cap2 (mem s1) abar = hba_cap2 (mem s) abar"
    "x \<in> vmm_bytes s root \<Longrightarrow> mem s1 x = mem s x"
proof -
  have m: "mem s1 x = mem s x" if "\<not> in_range x (hdr + 4) 2" for x
    using that by (simp add: s1_def set_command_def cell16.wr_outside)
  note C = assms(1) [unfolded controller_at_def]
  have 64: "load64 (mem s1) a = load64 (mem s) a" if "disj a 8 (hdr + 4) 2" for a
    using m that by (rule cell64.rd_frame)
  have 32: "load32 (mem s1) a = load32 (mem s) a" if "disj a 4 (hdr + 4) 2" for a
    using m that by (rule cell32.rd_frame)
  show "device_header (mem s1) device = hdr" "ucast (ext_bar5 (mem s1) (device_extended (mem s1) device)) = abar"
    "hba_ghc (mem s1) abar = hba_ghc (mem s) abar" "hba_cap2 (mem s1) abar = hba_cap2 (mem s) abar"
    using C 64 32 by (simp_all add: device_header_def device_extended_def ext_bar5_def hba_ghc_def hba_cap2_def)
  show "x \<in> vmm_bytes s root \<Longrightarrow> mem s1 x = mem s x" using C m by blast
qed

text \<open>The driver's accesses to the command register.\<close>

lemma ahci_command:
  assumes "controller_at s root device hdr abar"
  shows "pci_clear_command_flag device PCI_CMD_INT_DISABLE (pci_set_command_flag device PCI_CMD_BUS_MASTER
      (pci_set_command_flag device PCI_CMD_MEM_SPACE (set_command (device_header (mem s) device) 0 s))) =
    set_command hdr (PCI_CMD_MEM_SPACE OR PCI_CMD_BUS_MASTER) s"
proof -
  note F = command_frame(1) [OF assms]
  have "device_header (mem s) device = hdr" using assms by (simp add: controller_at_def)
  moreover have "(PCI_CMD_MEM_SPACE OR PCI_CMD_BUS_MASTER) AND NOT PCI_CMD_INT_DISABLE = PCI_CMD_MEM_SPACE OR PCI_CMD_BUS_MASTER"
    by (simp add: PCI_CMD_MEM_SPACE_def PCI_CMD_BUS_MASTER_def PCI_CMD_INT_DISABLE_def)
  ultimately show ?thesis
    by (simp add: pci_clear_command_flag_def pci_set_command_flag_def Let_def F dev_command_set set_command_twice)
qed

section \<open>Property\<close>

text \<open>
  C25. The AHCI driver switches the device to memory space and bus mastering, maps the register page, and requests the
  reset. It hangs with a message when the controller needs the handoff from the firmware, and otherwise returns
  exactly when the controller ends the reset after some number of polls: then the first such state is the one in which
  AHCI mode and interrupts are switched on. A controller that never ends the reset keeps the kernel in the loop
  forever.
\<close>

theorem ahci_init_returns:
  fixes s :: "'a vmm_scheme" and hw :: "memory \<Rightarrow> memory"
  assumes "vmm_inv s root" and "pml4 s = root + vmm_page_tables_offset s" and "vmm_initialised s"
    and "3 \<le> card (free_pages s)" and "no_huge_page s root abar" and "controller_at s root device hdr abar"
  defines "s2 \<equiv> vmm_map_page_flags abar abar (ucast (PT_ENTRY_READ_WRITE OR PT_ENTRY_CACHE_DISABLED))
      (set_command hdr (PCI_CMD_MEM_SPACE OR PCI_CMD_BUS_MASTER) s)"
  defines "m \<equiv> store32 (mem s2) (abar + 4) (hba_ghc (mem s) abar OR AHCI_GHC_HR)"
  defines "after \<equiv> (hw ^^ (LEAST k. reset_done hw abar m k)) m"
  shows "ahci_init hw device s =
      (if hba_cap2 (mem s) abar AND AHCI_CAP2_BOH \<noteq> 0 then faults_panic ''AHCI - BOH Unsupported'' s2
       else if \<exists>k. reset_done hw abar m k then
         Done (print (''%C[AHCI]%C - AHCI driver in development'' @ newline) [PInt (ucast COLOUR_DRIVER_INFO), PInt (ucast COLOUR_PRINT)]
           (s2\<lparr>mem := store32 after (abar + 4) (hba_ghc after abar OR AHCI_GHC_AE OR AHCI_GHC_IE)\<rparr>))
       else Undefined) \<and>
    vmm_inv s2 root \<and>
    (\<forall>p. length p = 4 \<longrightarrow> translate s2 root p =
      (if p = path_of abar then Some (addr (convert_to_phys s abar)) else translate s root p))"
proof -
  let ?c = "PCI_CMD_MEM_SPACE OR PCI_CMD_BUS_MASTER"
  define s1 where "s1 = set_command hdr ?c s"
  note F = command_frame [OF assms(6), where c = ?c, folded s1_def]
  have s1: "s1 = s\<lparr>mem := mem s1\<rparr>" by (simp add: s1_def set_command_def)
  note V = vmm_inv_mem [OF assms(1) F(5), folded s1]
  have f1: "pml4 s1 = root + vmm_page_tables_offset s1" "vmm_initialised s1" "vmm_page_tables_offset s1 = vmm_page_tables_offset s"
    "pml4 s1 = pml4 s"
    using assms(2,3) by (subst s1, simp)+
  have conv: "convert_to_phys s1 abar = convert_to_phys s abar"
    using V(4,5) f1(1,2) by (intro convert_to_phys_cong(2) [OF assms(1) V(1) assms(2,3)]) simp_all
  have inv1: "vmm_inv s1 root" "3 \<le> card (free_pages s1)" "no_huge_page s1 root abar" using V assms(4,5) by simp_all
  have s2: "s2 = vmm_map_page_pml4 (root + vmm_page_tables_offset s1) abar abar (ucast (PT_ENTRY_READ_WRITE OR PT_ENTRY_CACHE_DISABLED)) s1"
    by (simp add: s2_def vmm_map_page_flags_def s1_def [symmetric] f1(1))
  note M = map_page_maps [OF inv1, of abar "ucast (PT_ENTRY_READ_WRITE OR PT_ENTRY_CACHE_DISABLED)", folded s2, unfolded conv]
  have out: "mem s2 x = mem s1 x" if "x \<notin> vmm_bytes s root" for x
    using M(1) that V(3) unfolding maps_to_def by blast
  have regs: "load32 (mem s2) a = load32 (mem s1) a" if "a = abar + 4 \<or> a = abar + 36" for a
    using assms(6) that by (intro cell32.rd_cong out) (auto simp: controller_at_def in_range_def unat_of_nat take_bit_nat_eq_self)
  have g: "hba_ghc (mem s2) abar = hba_ghc (mem s) abar" "hba_cap2 (mem s2) abar = hba_cap2 (mem s) abar"
    using F(3,4) regs by (simp_all add: hba_ghc_def hba_cap2_def)
  have A: "ahci_init hw device s =
      (if hba_cap2 (mem s) abar AND AHCI_CAP2_BOH \<noteq> 0 then faults_panic ''AHCI - BOH Unsupported'' s2
       else and_then (returned (wait_reset hw abar (s2\<lparr>mem := m\<rparr>))) (\<lambda>s.
         Done (print (''%C[AHCI]%C - AHCI driver in development'' @ newline) [PInt (ucast COLOUR_DRIVER_INFO), PInt (ucast COLOUR_PRINT)]
           (or_ghc abar AHCI_GHC_IE (or_ghc abar AHCI_GHC_AE s)))))"
    unfolding ahci_init_def Let_def ahci_command [OF assms(6)]
    by (simp add: s1_def [symmetric] F(2)) (simp add: s1_def s2_def [symmetric] faults_assert_def faults_panic_def faults_hang_def g
        m_def or_ghc_def)
  have T: "translate s2 root p = (if p = path_of abar then Some (addr (convert_to_phys s abar)) else translate s root p)"
    if "length p = 4" for p
  proof -
    have "translate s1 root p = translate s root p" using that by (intro V(5)) simp_all
    then show ?thesis using M(1) that unfolding maps_to_def by simp
  qed
  have I: "vmm_inv s2 root" using M(1) unfolding maps_to_def by blast
  have W: "and_then (returned (wait_reset hw abar (s2\<lparr>mem := m\<rparr>))) f =
      (if \<exists>k. reset_done hw abar m k then f (s2\<lparr>mem := after\<rparr>) else Undefined)" for f :: "_ \<Rightarrow> (_, 'a vmm_scheme) outcome"
    unfolding wait_reset_eq after_def by auto
  show ?thesis unfolding A W or_ghc_twice using I T by auto
qed

text \<open>
  A device at 0x100000, its header at 0x200000 and the registers of the controller at 0x300000; the controller ends the
  reset after one poll.
\<close>

definition ahci_low :: memory where
  "ahci_low = (\<lambda>_. 0)(0x100002 := 0x20, 0x100010 := 0x10, 0x100012 := 0x20, 0x200026 := 0x30)"

definition ahci_machine :: vmm where
  "ahci_machine = demo_vmm\<lparr>mem := \<lambda>x. if x < 0x80000000 then ahci_low x else mem demo_vmm x\<rparr>"

definition demo_controller :: "memory \<Rightarrow> memory" where
  "demo_controller m = store32 m 0x300004 0"

lemma ahci_machine:
  "vmm_inv ahci_machine demo_root" "free_pages ahci_machine = free_pages demo_vmm" "no_huge_page ahci_machine demo_root v"
  "x \<in> vmm_bytes ahci_machine demo_root \<Longrightarrow> \<not> x < 0x80000000"
proof -
  have low: "\<not> x < 0x80000000" if "x \<in> vmm_bytes demo_vmm demo_root" for x
    using demo_machine_bytes(1) [OF that] by (simp add: word_less_nat_alt)
  then have "mem ahci_machine x = mem demo_vmm x" if "x \<in> vmm_bytes demo_vmm demo_root" for x
    using that by (simp add: ahci_machine_def)
  note V = vmm_inv_mem [OF demo_vmm_inv(1), of "mem ahci_machine"]
  have eq: "demo_vmm\<lparr>mem := mem ahci_machine\<rparr> = ahci_machine" by (simp add: ahci_machine_def)
  have keep: "\<And>x. x \<in> vmm_bytes demo_vmm demo_root \<Longrightarrow> mem ahci_machine x = mem demo_vmm x"
    using low by (simp add: ahci_machine_def)
  note W = V [OF keep, unfolded eq]
  show "vmm_inv ahci_machine demo_root" "free_pages ahci_machine = free_pages demo_vmm" by (intro W; assumption)+
  show "no_huge_page ahci_machine demo_root v" using demo_vmm_inv(7) by (intro W)
  show "\<not> x < 0x80000000" if "x \<in> vmm_bytes ahci_machine demo_root"
    using W(3) that low by blast
qed

theorem ahci_init_returns_witness:
  "\<exists>s'. ahci_init demo_controller 0x100000 ahci_machine = Done s' \<and>
    hba_ghc (mem s') 0x300000 = AHCI_GHC_AE OR AHCI_GHC_IE"
proof -
  have m: "mem ahci_machine x = (if x < 0x80000000 then ahci_low x else mem demo_vmm x)" for x by (simp add: ahci_machine_def)
  have far: "\<not> in_range x (a + 4) 4 \<and> \<not> in_range x (a + 36) 4 \<and> \<not> in_range x (b + 4) 2"
    if "\<not> x < 0x80000000" "a = 0x300000" "b = 0x200000" for x a b :: u64
  proof -
    have "unat x \<ge> 0x80000000" using that(1) by (simp add: word_less_nat_alt)
    then show ?thesis using that(2,3) by (simp add: in_range_def unat_diff_ge) linarith
  qed
  have c: "controller_at ahci_machine demo_root 0x100000 0x200000 0x300000"
    using ahci_machine(4) far
    by (auto simp: controller_at_def device_header_def device_extended_def ext_bar5_def mem_simps m ahci_low_def disj_def)
  have f: "pml4 ahci_machine = demo_root + vmm_page_tables_offset ahci_machine" "vmm_initialised ahci_machine"
    "3 \<le> card (free_pages ahci_machine)"
    unfolding ahci_machine(2) using demo_vmm_inv(2-4) by (simp_all add: ahci_machine_def)
  have g: "hba_ghc (mem ahci_machine) 0x300000 = 0" "hba_cap2 (mem ahci_machine) 0x300000 = 0"
    by (simp_all add: hba_ghc_def hba_cap2_def mem_simps m ahci_low_def)
  note T = conjunct1 [OF ahci_init_returns [OF ahci_machine(1) f ahci_machine(3) c, of demo_controller]]
  have ghc: "hba_ghc (store32 n 0x300004 v) 0x300000 = v" for n v by (simp add: hba_ghc_def cell32.rd_wr)
  have ends: "reset_done demo_controller 0x300000 (store32 n 0x300004 AHCI_GHC_HR) k \<longleftrightarrow> 0 < k" for n k
    by (cases k) (simp_all add: reset_done_def demo_controller_def ghc, simp add: AHCI_GHC_HR_def)
  have "Least (reset_done demo_controller 0x300000 (store32 n 0x300004 AHCI_GHC_HR)) = 1" for n
    by (rule Least_equality) (simp_all add: ends)
  then show ?thesis
    unfolding T using g by (auto simp: ends demo_controller_def ghc)
qed

end
