(* ===== verification/Pcie_Scan.thy ===== *)
theory Pcie_Scan
  imports Pci
begin

unbundle bit_operations_syntax

text \<open>
  The specification of device discovery, on the configuration space alone: which functions a scan of buses and segment groups visits and
  finds, without page tables, heap or loops.
\<close>

section \<open>What a scan finds\<close>

text \<open>The configuration spaces of the 256 functions of a bus, in the order in which they are probed.\<close>

definition bus_function :: "u64 \<Rightarrow> u64 \<Rightarrow> u64 \<Rightarrow> nat \<Rightarrow> u64" where
  "bus_function base_addr start_bus bus k = function_address base_addr start_bus bus (of_nat (k div 8)) (of_nat (k mod 8))"

definition bus_functions :: "u64 \<Rightarrow> u64 \<Rightarrow> u64 \<Rightarrow> u64 list" where
  "bus_functions base_addr start_bus bus = map (bus_function base_addr start_bus bus) [0..<256]"

definition no_function :: "memory \<Rightarrow> u64 \<Rightarrow> bool" where
  "no_function m a \<longleftrightarrow> dev_device_id m a = 0 \<or> dev_device_id m a = 0xFFFF"

definition secondary_bus :: "memory \<Rightarrow> u64 \<Rightarrow> u64" where
  "secondary_bus m a = ucast (bridge_secondary_bus m (a + sizeof_device_hdr))"

text \<open>
  \<open>scan m base start as vs hs\<close>: on the configuration spaces \<open>as\<close> and on all buses behind them the spaces \<open>vs\<close> are visited and
  the devices \<open>hs\<close> are found. The devices behind a bridge come before the bridge. There is no derivation when a bridge leads back to
  its own bus.
\<close>

inductive scan :: "memory \<Rightarrow> u64 \<Rightarrow> u64 \<Rightarrow> u64 list \<Rightarrow> u64 list \<Rightarrow> u64 list \<Rightarrow> bool" for m base_addr start_bus where
  scan_end: "scan m base_addr start_bus [] [] []"
| scan_absent: "no_function m a \<Longrightarrow> scan m base_addr start_bus as vs hs \<Longrightarrow> scan m base_addr start_bus (a # as) (a # vs) hs"
| scan_device: "\<not> no_function m a \<Longrightarrow> \<not> is_bridge m a \<Longrightarrow> scan m base_addr start_bus as vs hs \<Longrightarrow>
    scan m base_addr start_bus (a # as) (a # vs) (a # hs)"
| scan_bridge: "\<not> no_function m a \<Longrightarrow> is_bridge m a \<Longrightarrow>
    scan m base_addr start_bus (bus_functions base_addr start_bus (secondary_bus m a)) us gs \<Longrightarrow> scan m base_addr start_bus as vs hs \<Longrightarrow>
    scan m base_addr start_bus (a # as) (a # us @ vs) (gs @ a # hs)"

text \<open>Without bridges, the devices of the bus.\<close>

lemma scan_flat:
  "(\<And>a. a \<in> set as \<Longrightarrow> no_function m a \<or> \<not> is_bridge m a) \<Longrightarrow> scan m base_addr start_bus as as (filter (\<lambda>a. \<not> no_function m a) as)"
  by (induction as) (auto intro: scan.intros)

text \<open>The configuration space determines what is found.\<close>

inductive_simps scan_simps: "scan m base_addr start_bus [] vs hs" "scan m base_addr start_bus (a # as) vs hs"

lemma scan_cases:
  assumes "scan m base_addr start_bus (a # as) vs hs"
  obtains (absent) vs1 where "no_function m a" "vs = a # vs1" "scan m base_addr start_bus as vs1 hs"
  | (device) vs1 hs1 where "\<not> no_function m a" "\<not> is_bridge m a" "vs = a # vs1" "hs = a # hs1" "scan m base_addr start_bus as vs1 hs1"
  | (bridge) us gs vs1 hs1 where "\<not> no_function m a" "is_bridge m a" "vs = a # us @ vs1" "hs = gs @ a # hs1"
    "scan m base_addr start_bus (bus_functions base_addr start_bus (secondary_bus m a)) us gs" "scan m base_addr start_bus as vs1 hs1"
  using assms by (auto simp: scan_simps(2))

lemma scan_deterministic:
  "scan m base_addr start_bus as vs hs \<Longrightarrow> scan m base_addr start_bus as vs' hs' \<Longrightarrow> vs' = vs \<and> hs' = hs"
proof (induction arbitrary: vs' hs' rule: scan.induct)
  case (scan_bridge a us gs as vs hs)
  from scan_bridge.prems show ?case
  proof (cases rule: scan_cases)
    case (bridge us1 gs1 vs1 hs1)
    with scan_bridge.IH(1) [OF bridge(5)] scan_bridge.IH(2) [OF bridge(6)] show ?thesis by simp
  qed (use scan_bridge.hyps(1,2) in simp_all)
next
  case (scan_absent a as vs hs)
  from scan_absent.prems show ?case
    by (cases rule: scan_cases) (use scan_absent.hyps(1) scan_absent.IH in simp_all)
next
  case (scan_device a as vs hs)
  from scan_device.prems show ?case
    by (cases rule: scan_cases) (use scan_device.hyps(1,2) scan_device.IH in simp_all)
qed (simp add: scan_simps(1))

lemma scan_append:
  "scan m base_addr start_bus (as @ bs) vs hs \<Longrightarrow> \<exists>us ws gs ks. scan m base_addr start_bus as us gs \<and> scan m base_addr start_bus bs ws ks \<and>
    vs = us @ ws \<and> hs = gs @ ks"
proof (induction as arbitrary: vs hs)
  case Nil
  then show ?case using scan.scan_end by fastforce
next
  case (Cons a as)
  from Cons.prems have "scan m base_addr start_bus (a # (as @ bs)) vs hs" by simp
  then show ?case
  proof (cases rule: scan_cases)
    case (absent vs1)
    from Cons.IH [OF absent(3)] obtain us ws gs ks where "scan m base_addr start_bus as us gs" "scan m base_addr start_bus bs ws ks"
      "vs = (a # us) @ ws" "hs = gs @ ks" using absent(2) by auto
    with scan.scan_absent [OF absent(1)] show ?thesis by blast
  next
    case (device vs1 hs1)
    from Cons.IH [OF device(5)] obtain us ws gs ks where "scan m base_addr start_bus as us gs" "scan m base_addr start_bus bs ws ks"
      "vs = (a # us) @ ws" "hs = (a # gs) @ ks" using device(3,4) by auto
    with scan.scan_device [OF device(1,2)] show ?thesis by blast
  next
    case (bridge us1 gs1 vs1 hs1)
    from Cons.IH [OF bridge(6)] obtain us ws gs ks where "scan m base_addr start_bus as us gs" "scan m base_addr start_bus bs ws ks"
      "vs = (a # us1 @ us) @ ws" "hs = (gs1 @ a # gs) @ ks" using bridge(3,4) by auto
    with scan.scan_bridge [OF bridge(1,2,5)] show ?thesis by blast
  qed
qed

text \<open>The functions found are those that are present on the buses that can be reached, each as often as it is visited.\<close>

inductive_set on_bus :: "memory \<Rightarrow> u64 \<Rightarrow> u64 \<Rightarrow> u64 list \<Rightarrow> u64 set" for m base_addr start_bus as where
  on_bus_here: "a \<in> set as \<Longrightarrow> a \<in> on_bus m base_addr start_bus as"
| on_bus_behind: "a \<in> on_bus m base_addr start_bus as \<Longrightarrow> \<not> no_function m a \<Longrightarrow> is_bridge m a \<Longrightarrow>
    b \<in> set (bus_functions base_addr start_bus (secondary_bus m a)) \<Longrightarrow> b \<in> on_bus m base_addr start_bus as"

lemma scan_visits: "scan m base_addr start_bus as vs hs \<Longrightarrow> set as \<subseteq> set vs \<and> set hs = {a \<in> set vs. \<not> no_function m a} \<and>
    (\<forall>a \<in> set vs. \<not> no_function m a \<and> is_bridge m a \<longrightarrow> set (bus_functions base_addr start_bus (secondary_bus m a)) \<subseteq> set vs)"
  by (induction rule: scan.induct) auto

lemma on_bus_trans:
  "b \<in> on_bus m base_addr start_bus bs \<Longrightarrow> set bs \<subseteq> on_bus m base_addr start_bus as \<Longrightarrow> b \<in> on_bus m base_addr start_bus as"
  by (induction rule: on_bus.induct) (auto intro: on_bus.intros)

lemma on_bus_Cons: "b \<in> on_bus m base_addr start_bus as \<Longrightarrow> b \<in> on_bus m base_addr start_bus (a # as)"
  by (erule on_bus_trans) (auto intro: on_bus_here)

lemma scan_reachable: "scan m base_addr start_bus as vs hs \<Longrightarrow> set vs \<subseteq> on_bus m base_addr start_bus as"
proof (induction rule: scan.induct)
  case (scan_bridge a us gs as vs hs)
  have "set (bus_functions base_addr start_bus (secondary_bus m a)) \<subseteq> on_bus m base_addr start_bus (a # as)"
    using on_bus_behind [OF on_bus_here [of a "a # as"] scan_bridge.hyps(1,2)] by auto
  then have "set us \<subseteq> on_bus m base_addr start_bus (a # as)" using scan_bridge.IH(1) on_bus_trans by blast
  then show ?case using scan_bridge.IH(2) by (auto intro: on_bus_here on_bus_Cons)
qed (auto intro: on_bus_here on_bus_Cons)

lemma scan_finds:
  assumes "scan m base_addr start_bus as vs hs"
  shows "set vs = on_bus m base_addr start_bus as" "set hs = {a \<in> on_bus m base_addr start_bus as. \<not> no_function m a}"
proof -
  note V = scan_visits [OF assms]
  have "a \<in> set vs" if "a \<in> on_bus m base_addr start_bus as" for a
    using that by (induction rule: on_bus.induct) (use V in blast)+
  then show "set vs = on_bus m base_addr start_bus as" using scan_reachable [OF assms] by blast
  with V show "set hs = {a \<in> on_bus m base_addr start_bus as. \<not> no_function m a}" by simp
qed

section \<open>Segment groups\<close>

definition group_functions :: "memory \<Rightarrow> u64 \<Rightarrow> u64 list" where
  "group_functions m g = concat (map (\<lambda>b. bus_functions (sg_base_address m g) (ucast (sg_start_bus m g)) (of_nat b))
    [unat (sg_start_bus m g)..<unat (sg_end_bus m g)])"

inductive scan_groups :: "memory \<Rightarrow> u64 list \<Rightarrow> u64 list \<Rightarrow> u64 list \<Rightarrow> bool" for m where
  groups_end: "scan_groups m [] [] []"
| groups_next: "scan m (sg_base_address m g) (ucast (sg_start_bus m g)) (group_functions m g) us hs \<Longrightarrow>
    scan_groups m gs vs ks \<Longrightarrow> scan_groups m (g # gs) (us @ vs) (hs @ ks)"

lemma scan_groups_finds: "scan_groups m gs vs hds \<Longrightarrow> set hds =
    (\<Union>g \<in> set gs. {a \<in> on_bus m (sg_base_address m g) (ucast (sg_start_bus m g)) (group_functions m g). \<not> no_function m a})"
  by (induction rule: scan_groups.induct) (simp_all add: scan_finds(2))

end
