(* ===== verification/Pcie_Probe.thy ===== *)
theory Pcie_Probe
  imports Pcie_Scan Vector_Copies Vmm_In_Use
begin

unbundle bit_operations_syntax

text \<open>
  The probe of \<open>src/pci/pcie.c\<close> follows the scan: each step maps a configuration space and registers what it finds, and keeps the
  invariants of page tables, allocator, heap and vectors.
\<close>

section \<open>The loops of the probe\<close>

definition probe_at :: "u64 \<Rightarrow> u64 \<Rightarrow> u64 \<Rightarrow> nat \<Rightarrow> 'a pci_scheme \<Rightarrow> 'a pci_scheme option" where
  "probe_at base_addr start_bus bus k = probe_from base_addr start_bus bus (of_nat (k div 8)) (of_nat (k mod 8))"

definition map_function :: "u64 \<Rightarrow> 'a vmm_scheme \<Rightarrow> 'a vmm_scheme" where
  "map_function a = vmm_map_page_flags a a (ucast (PT_ENTRY_READ_WRITE OR PT_ENTRY_CACHE_DISABLED))"

lemma small_of_nat: "n < 2 ^ 64 \<Longrightarrow> k < 2 ^ 64 \<Longrightarrow> (of_nat n :: u64) < of_nat k \<longleftrightarrow> n < k"
  by (simp add: word_less_nat_alt unat_of_nat take_bit_nat_eq_self)

lemma probe_at_end: "probe_at base_addr start_bus bus 256 s = Some s"
  unfolding probe_at_def by (subst probe_from.simps) simp

lemma probe_at_next:
  assumes "k < 256"
  shows "probe_from base_addr start_bus bus (of_nat (k div 8)) (of_nat (k mod 8) + 1) s = probe_at base_addr start_bus bus (Suc k) s"
proof (cases "k mod 8 = 7")
  case True
  then have k: "Suc k div 8 = Suc (k div 8)" "Suc k mod 8 = 0" by (simp_all add: div_Suc mod_Suc)
  have "k div 8 < 32" using assms by simp
  then have "(of_nat (k div 8) :: u64) < 32" using small_of_nat [of "k div 8" 32] by simp
  then show ?thesis unfolding probe_at_def k True by (subst probe_from.simps) (simp add: add.commute)
next
  case False
  then have "Suc k div 8 = k div 8" "Suc k mod 8 = Suc (k mod 8)" by (auto simp: div_Suc mod_Suc)
  then show ?thesis unfolding probe_at_def by (simp add: add.commute)
qed

lemma probe_at_step:
  fixes base_addr start_bus bus :: u64 and s :: "'a pci_scheme"
  assumes "k < 256"
  defines "a \<equiv> bus_function base_addr start_bus bus k" and "rest \<equiv> probe_at base_addr start_bus bus (Suc k)"
  shows "probe_at base_addr start_bus bus k s =
    (let s = map_function a s
     in if no_function (mem s) a then rest s
        else Option.bind (if is_bridge (mem s) a then pcie_probe_bus base_addr start_bus (secondary_bus (mem s) a) s else Some s)
          (\<lambda>s. Option.bind (pci_register_device a s) rest))"
proof -
  have "k div 8 < 32" "k mod 8 < 8" using assms(1) by auto
  then have "(of_nat (k div 8) :: u64) < 32" "(of_nat (k mod 8) :: u64) < 8"
    using small_of_nat [of "k div 8" 32] small_of_nat [of "k mod 8" 8] by simp_all
  then show ?thesis
    unfolding rest_def probe_at_next [OF assms(1), symmetric]
    by (subst probe_at_def, subst probe_from.simps)
      (simp add: Let_def map_function_def a_def bus_function_def no_function_def secondary_bus_def pcie_probe_bus_def)
qed

lemma probe_bus_at: "pcie_probe_bus base_addr start_bus bus = probe_at base_addr start_bus bus 0"
  by (rule ext) (simp add: pcie_probe_bus_def probe_at_def)

section \<open>Headers\<close>

definition outside :: "u64 \<Rightarrow> u64 set \<Rightarrow> bool" where
  "outside a R \<longleftrightarrow> (\<forall>x \<in> R. \<not> in_range x a 32)"

definition same_header :: "memory \<Rightarrow> memory \<Rightarrow> u64 \<Rightarrow> bool" where
  "same_header m m' a \<longleftrightarrow> (\<forall>x. in_range x a 32 \<longrightarrow> m' x = m x)"

lemma header_byte: "same_header m m' a \<Longrightarrow> n < 32 \<Longrightarrow> m' (a + of_nat n) = m (a + of_nat n)"
  by (simp add: same_header_def in_range_def unat_of_nat take_bit_nat_eq_self)

lemma same_header:
  assumes "same_header m m' a"
  shows "dev_vendor m' a = dev_vendor m a" "dev_device_id m' a = dev_device_id m a" "dev_class m' a = dev_class m a"
    "dev_subclass m' a = dev_subclass m a" "dev_prog_if m' a = dev_prog_if m a" "dev_hdr_type m' a = dev_hdr_type m a"
    "no_function m' a = no_function m a" "is_bridge m' a = is_bridge m a" "secondary_bus m' a = secondary_bus m a"
proof -
  note b = header_byte [OF assms]
  have w: "load16 m' (a + of_nat n) = load16 m (a + of_nat n)" if "n + 1 < 32" for n
  proof (rule cell16.rd_cong)
    fix i :: nat assume "i < 2"
    then show "m' (a + of_nat n + of_nat i) = m (a + of_nat n + of_nat i)" using b [of "n + i"] that by (simp add: add.assoc)
  qed
  show d: "dev_device_id m' a = dev_device_id m a" and t: "dev_hdr_type m' a = dev_hdr_type m a"
    using w [of 2] b [of 14] by (simp_all add: dev_device_id_def dev_hdr_type_def)
  show "dev_vendor m' a = dev_vendor m a" "dev_class m' a = dev_class m a"
    "dev_subclass m' a = dev_subclass m a" "dev_prog_if m' a = dev_prog_if m a"
    using w [of 0] b [of 9] b [of 10] b [of 11] by (simp_all add: dev_vendor_def dev_class_def dev_subclass_def dev_prog_if_def)
  show "no_function m' a = no_function m a" "is_bridge m' a = is_bridge m a" by (simp_all add: no_function_def is_bridge_def d t)
  show "secondary_bus m' a = secondary_bus m a"
    using b [of 25] by (simp add: secondary_bus_def bridge_secondary_bus_def sizeof_device_hdr_def add.commute)
qed

lemma same_header_outside: "(\<And>x. x \<notin> R \<Longrightarrow> m' x = m x) \<Longrightarrow> outside a R \<Longrightarrow> same_header m m' a"
  unfolding same_header_def outside_def by blast

lemma same_header_trans: "same_header m m1 a \<Longrightarrow> same_header m1 m2 a \<Longrightarrow> same_header m m2 a"
  by (simp add: same_header_def)

section \<open>Mapping configuration space\<close>

text \<open>The addresses of configuration spaces, and the page tables that are still missing to map them.\<close>

definition config_spaces :: "u64 set \<Rightarrow> bool" where
  "config_spaces V \<longleftrightarrow> finite V \<and> inj_on path_of V \<and> (\<forall>v \<in> V. v mod 0x1000 = 0 \<and> addr v = v)"

definition missing_tables :: "u64 \<Rightarrow> u64 set \<Rightarrow> 'a vmm_scheme \<Rightarrow> path set" where
  "missing_tables root V s = {p \<in> (\<lambda>v. take 3 (path_of v)) ` V. tab s root p = None}"

text \<open>
  While the spaces \<open>V\<close> are probed: those visited, \<open>U\<close>, are mapped to themselves, the others too or not at all, all other
  translations are as before, and there are pages for the missing tables.
\<close>

definition mapping :: "u64 \<Rightarrow> u64 set \<Rightarrow> (path \<Rightarrow> u64 option) \<Rightarrow> u64 set \<Rightarrow> 'a vmm_scheme \<Rightarrow> bool" where
  "mapping root V T U s \<longleftrightarrow> in_use root s \<and> (\<forall>v \<in> V. no_huge_page s root v) \<and>
    3 + 3 * card (missing_tables root V s) \<le> card (free_pages s) \<and>
    (\<forall>q. length q = 4 \<and> q \<notin> path_of ` V \<longrightarrow> translate s root q = T q) \<and>
    (\<forall>v \<in> V. translate s root (path_of v) = Some v \<or> v \<notin> U \<and> translate s root (path_of v) = None)"

lemma mappingD:
  assumes "mapping root V T U s"
  shows "in_use root s" "v \<in> V \<Longrightarrow> no_huge_page s root v" "3 + 3 * card (missing_tables root V s) \<le> card (free_pages s)"
    "3 \<le> card (free_pages s)" "length q = 4 \<Longrightarrow> q \<notin> path_of ` V \<Longrightarrow> translate s root q = T q"
    "v \<in> V \<Longrightarrow> translate s root (path_of v) = Some v \<or> v \<notin> U \<and> translate s root (path_of v) = None"
  using assms unfolding mapping_def by simp_all

lemma map_function_room:
  fixes s :: "'a vmm_scheme"
  assumes "config_spaces V" "mapping root V T U s" "v \<in> V"
  shows "3 + 3 * card (missing_tables root V (map_function v s)) \<le> card (free_pages (map_function v s))"
proof -
  let ?s = "map_function v s" and ?p = "take 3 (path_of v)"
  note A = mappingD [OF assms(2)] and D = in_useD [OF mappingD(1) [OF assms(2)]]
  have eq: "?s = vmm_map_page_pml4 (root + vmm_page_tables_offset s) v v (ucast (PT_ENTRY_READ_WRITE OR PT_ENTRY_CACHE_DISABLED)) s"
    by (simp add: map_function_def vmm_map_page_flags_def D(2))
  have len: "length p \<le> 3" if "p \<in> (\<lambda>v. take 3 (path_of v)) ` V" for p using that by auto
  show ?thesis
  proof (cases "tab s root ?p")
    case (Some t)
    note L = stores_leaf(1) [OF D(1) Some, where a = v and f = "ucast (PT_ENTRY_READ_WRITE OR PT_ENTRY_CACHE_DISABLED)", folded eq]
    have "tab ?s root p = tab s root p" if "p \<in> (\<lambda>v. take 3 (path_of v)) ` V" for p
      using L len [OF that] unfolding stores_leaf_def by blast
    then have "missing_tables root V ?s = missing_tables root V s"
      unfolding missing_tables_def by (intro Collect_cong conj_cong refl) (simp only:)
    moreover have "free_pages ?s = free_pages s" using L by (simp add: stores_leaf_def)
    ultimately show ?thesis using A(3) by simp
  next
    case None
    have fin: "finite (missing_tables root V s)" using assms(1) by (simp add: config_spaces_def missing_tables_def)
    have p: "?p \<in> missing_tables root V s" using None assms(3) by (auto simp: missing_tables_def)
    have "tab ?s root p \<noteq> None" if "length p \<le> 3" "tab s root p \<noteq> None" for p
      using that map_page_tables(2) [OF D(1) A(4) A(2) [OF assms(3)] that(1)] unfolding eq by auto
    moreover have "tab ?s root ?p \<noteq> None" using map_page_tables(3) [OF D(1) A(4) A(2) [OF assms(3)]] unfolding eq by auto
    ultimately have "missing_tables root V ?s \<subseteq> missing_tables root V s - {?p}" using len unfolding missing_tables_def by blast
    then have "card (missing_tables root V ?s) \<le> card (missing_tables root V s - {?p})" using fin by (intro card_mono) simp_all
    moreover have "card (missing_tables root V s - {?p}) + 1 = card (missing_tables root V s)"
      using p fin card_Suc_Diff1 by fastforce
    moreover have "card (free_pages s) \<le> card (free_pages ?s) + 3"
      using maps_toD(4) [OF map_page_maps(1) [OF D(1) A(4) A(2) [OF assms(3)]]] unfolding eq .
    ultimately show ?thesis using A(3) by linarith
  qed
qed

lemma map_function_step:
  fixes s :: "'a vmm_scheme"
  assumes "config_spaces V" "mapping root V T U s" "v \<in> V"
  shows "mapping root V T (insert v U) (map_function v s)" "only_vmm s (map_function v s)"
    "vmm_bytes (map_function v s) root \<subseteq> vmm_bytes s root" "x \<notin> vmm_bytes s root \<Longrightarrow> mem (map_function v s) x = mem s x"
proof -
  let ?s = "map_function v s"
  note A = mappingD [OF assms(2)] and D = in_useD [OF mappingD(1) [OF assms(2)]]
  have eq: "?s = vmm_map_page_pml4 (root + vmm_page_tables_offset s) v v (ucast (PT_ENTRY_READ_WRITE OR PT_ENTRY_CACHE_DISABLED)) s"
    by (simp add: map_function_def vmm_map_page_flags_def D(2))
  have v: "v mod 0x1000 = 0" "addr v = v" "inj_on path_of V" using assms(1,3) by (simp_all add: config_spaces_def)
  have "convert_to_phys s v = v" using A(6) [OF assms(3)] by (auto simp: convert_in_use [OF A(1) v(1)] resolve_def)
  with map_page_maps(1) [OF D(1) A(4) A(2) [OF assms(3)], of v "ucast (PT_ENTRY_READ_WRITE OR PT_ENTRY_CACHE_DISABLED)", folded eq]
  have M: "maps_to root v (Some v) s ?s" by (simp only: v(2))
  show o: "only_vmm s ?s" unfolding eq by (rule map_page_maps(3) [OF D(1) A(4) A(2) [OF assms(3)]])
  show "vmm_bytes ?s root \<subseteq> vmm_bytes s root" using M unfolding maps_to_def by blast
  show "x \<notin> vmm_bytes s root \<Longrightarrow> mem ?s x = mem s x" by (rule maps_toD(2) [OF M])
  have t: "translate ?s root (path_of w) = (if w = v then Some v else translate s root (path_of w))" if "w \<in> V" for w
    using maps_toD(1) [OF M, of "path_of w"] v(3) that assms(3) by (simp add: path_take inj_on_eq_iff)
  have "translate ?s root q = T q" if "length q = 4" "q \<notin> path_of ` V" for q
    using maps_toD(1) [OF M that(1)] A(5) [OF that] that(2) assms(3) by auto
  moreover have "translate ?s root (path_of w) = Some w \<or> w \<notin> insert v U \<and> translate ?s root (path_of w) = None" if "w \<in> V" for w
    using t [OF that] A(6) [OF that] by auto
  ultimately show "mapping root V T (insert v U) ?s"
    unfolding mapping_def using in_use_step [OF A(1) M o] maps_to_no_huge [OF M A(2)] map_function_room [OF assms] by blast
qed

text \<open>Other memory does not matter.\<close>

lemma mapping_mem:
  assumes "mapping root V T U s" "\<And>x. x \<in> vmm_bytes s root \<Longrightarrow> mem s' x = mem s x"
    "same_tables (s\<lparr>mem := mem s'\<rparr>) s'" "pml4 s' = pml4 s" "vmm_initialised s' = vmm_initialised s"
  shows "mapping root V T U s'" "vmm_bytes s' root \<subseteq> vmm_bytes s root"
proof -
  note A = mappingD [OF assms(1)] and D = in_useD [OF mappingD(1) [OF assms(1)]]
  note W = vmm_inv_mem [OF D(1) assms(2)] and S = same_tables(1-6,8) [OF assms(3)]
  have off: "vmm_page_tables_offset s' = vmm_page_tables_offset s" using assms(3) by (simp add: same_tables_def)
  have i: "vmm_inv s' root" "free_pages s' = free_pages s" "vmm_bytes s' root \<subseteq> vmm_bytes s root" unfolding S by (intro W; assumption)+
  show "vmm_bytes s' root \<subseteq> vmm_bytes s root" by (rule i(3))
  have t: "tab s' root q = tab s root q" if "length q \<le> 3" for q unfolding S using that by (intro W)
  have tr: "translate s' root q = translate s root q" if "length q = 4" for q unfolding S using that by (intro W)
  have "no_huge_page (s\<lparr>mem := mem s'\<rparr>) root v" if "v \<in> V" for v using A(2) [OF that] by (intro W)
  then have n: "no_huge_page s' root v" if "v \<in> V" for v using that by (simp only: no_huge_page_def S)
  have "missing_tables root V s' = missing_tables root V s"
    unfolding missing_tables_def by (intro Collect_cong conj_cong refl) (auto simp only: t length_take)
  then show "mapping root V T U s'"
    unfolding mapping_def in_use_def using i n tr A(3,5,6) D(2,3) assms(4,5) off by (auto simp: path_take)
qed

section \<open>Registering a device\<close>

definition heap_range :: "u64 \<Rightarrow> nat \<Rightarrow> u64 set" where
  "heap_range b e = {a. unat b \<le> unat a \<and> unat a < e}"

text \<open>The names of the device whose header is at \<open>h\<close>.\<close>

definition names_of :: "memory \<Rightarrow> u64 \<Rightarrow> pci_descriptors option" where
  "names_of m h = pci_get_descriptors (dev_vendor m h) (dev_device_id m h) (dev_class m h) (dev_subclass m h) (dev_prog_if m h)"

text \<open>
  The structure \<open>d\<close> stands for the device with the header \<open>h\<close> in the configuration space \<open>m0\<close>: in a state with the descriptors
  \<open>D\<close>, and as a block of the heap.
\<close>

definition describes :: "memory \<Rightarrow> memory \<Rightarrow> (u64 \<Rightarrow> pci_descriptors option) \<Rightarrow> u64 \<Rightarrow> u64 \<Rightarrow> bool" where
  "describes m0 m D d h \<longleftrightarrow> device_header m d = h \<and> D (device_descriptors m d) = names_of m0 h \<and>
    (dev_hdr_type m0 h AND 0b01111111 = 0 \<longrightarrow> device_extended m d = h + sizeof_device_hdr \<and> load64 m (d + 24) = 0)"

definition registered :: "memory \<Rightarrow> memory \<Rightarrow> (u64 \<Rightarrow> pci_descriptors option) \<Rightarrow> seg list \<Rightarrow> seg \<Rightarrow> u64 \<Rightarrow> u64 \<Rightarrow> bool" where
  "registered m0 m D hs x d h \<longleftrightarrow> describes m0 m D d h \<and>
    (\<exists>t \<in> set hs. \<not> seg_free t \<and> t \<noteq> x \<and> d = seg_addr t + sizeof_hdr \<and> 32 \<le> seg_size t) \<and>
    (\<exists>u \<in> set hs. \<not> seg_free u \<and> device_descriptors m d = seg_addr u + sizeof_hdr)"

text \<open>Descriptors of blocks in use are not overwritten.\<close>

definition kept_names :: "seg list \<Rightarrow> (u64 \<Rightarrow> pci_descriptors option) \<Rightarrow> (u64 \<Rightarrow> pci_descriptors option) \<Rightarrow> bool" where
  "kept_names hs D D' \<longleftrightarrow> (\<forall>u \<in> set hs. \<not> seg_free u \<longrightarrow> D' (seg_addr u + sizeof_hdr) = D (seg_addr u + sizeof_hdr))"

lemma kept_names_refl: "kept_names hs D D"
  by (simp add: kept_names_def)

lemma registered_kept:
  assumes "registered m0 m D hs x d h" "kept_segs hs hs' {x} m m'" "heap_list m b e hs" "kept_names hs D D'"
  shows "registered m0 m' D' hs' x d h"
proof -
  from assms(1) obtain t u where t: "t \<in> set hs" "\<not> seg_free t" "t \<noteq> x" "d = seg_addr t + sizeof_hdr" "32 \<le> seg_size t"
    and u: "u \<in> set hs" "\<not> seg_free u" "device_descriptors m d = seg_addr u + sizeof_hdr"
    and d: "describes m0 m D d h" unfolding registered_def by blast
  note S = heap_list_seg [OF assms(3) t(1)]
  have l: "load64 m' (d + of_nat n) = load64 m (d + of_nat n)" if "n + 8 \<le> 32" for n
  proof (rule kept_load64 [OF assms(2) t(1,2)])
    have "unat (d + of_nat n) = unat d + n" using S t(4,5) that by (intro unat_plus) simp
    then show "unat (seg_addr t) + 21 \<le> unat (d + of_nat n)" "unat (d + of_nat n) + 8 \<le> seg_end t"
      using S t(4,5) that by simp_all
  qed (use t(3) S(3) in simp_all)
  have f: "device_header m' d = device_header m d" "device_descriptors m' d = device_descriptors m d"
    "device_extended m' d = device_extended m d" "load64 m' (d + 24) = load64 m (d + 24)"
    using l [of 0] l [of 8] l [of 16] l [of 24] by (simp_all add: device_header_def device_descriptors_def device_extended_def)
  have "D' (device_descriptors m d) = D (device_descriptors m d)" using assms(4) u by (simp add: kept_names_def)
  then have "describes m0 m' D' d h" using d by (simp add: describes_def f)
  moreover have "t \<in> set hs'" "u \<in> set hs'" using assms(2) t(1,2) u(1,2) by (auto simp: kept_segs_def)
  ultimately show ?thesis unfolding registered_def f using t u by blast
qed

lemma fill_device:
  assumes "heap_list m b e hs" "t \<in> set hs" "32 \<le> seg_size t" "d = seg_addr t + sizeof_hdr" "outside h (heap_range b e)"
  shows "within (unat (seg_addr t) + 21) (seg_end t) m (fill_device d h p m)"
    "device_header (fill_device d h p m) d = h" "device_descriptors (fill_device d h p m) d = p"
    "dev_hdr_type m h AND 0b01111111 = 0 \<Longrightarrow>
      device_extended (fill_device d h p m) d = h + sizeof_device_hdr \<and> load64 (fill_device d h p m) (d + 24) = 0"
proof -
  note S = heap_list_seg [OF assms(1,2)] and B = heap_list_segs [OF assms(1,2)]
  have w: "within (unat (seg_addr t) + 21) (seg_end t) m' (store64 m' (d + of_nat n) v)" if "n + 8 \<le> 32" for m' n v
  proof -
    have "unat (d + of_nat n) = unat d + n" using S assms(3,4) that by (intro unat_plus) simp
    then show ?thesis using S assms(3,4) that by (intro within_mono [OF store64_within]) simp_all
  qed
  define m1 where "m1 = store64 (store64 m d h) (d + 8) p"
  have w1: "within (unat (seg_addr t) + 21) (seg_end t) m m1"
    unfolding m1_def using within_trans [OF w [of 0 m h] w [of 8 _ p]] by simp
  have "same_header m m1 h"
  proof (rule same_header_outside [OF _ assms(5)])
    fix a assume "a \<notin> heap_range b e"
    then have "unat a < unat (seg_addr t) + 21 \<or> seg_end t \<le> unat a" using B by (auto simp: heap_range_def)
    then show "m1 a = m a" using w1 unfolding within_def by blast
  qed
  then have ty: "dev_hdr_type m1 h = dev_hdr_type m h" by (rule same_header)
  have eq: "fill_device d h p m = (if dev_hdr_type m h AND 0b01111111 = 0
      then store64 (store64 m1 (d + 16) (h + sizeof_device_hdr)) (d + 24) 0 else m1)"
    by (simp add: fill_device_def Let_def m1_def [symmetric] ty)
  show "within (unat (seg_addr t) + 21) (seg_end t) m (fill_device d h p m)"
    unfolding eq using within_trans [OF w1 within_trans [OF w [of 16 m1] w [of 24 _ 0]]] w1 by simp
  have dj: "disj (d + i) 8 (d + j) 8" if "(i, j) \<in> {(0, 8), (8, 0), (0, 16), (8, 16), (0, 24), (8, 24), (16, 24)}" for i j
    using that disj_offsets [of 0 8 8 8 d] disj_offsets [of 0 8 16 8 d] disj_offsets [of 0 8 24 8 d]
      disj_offsets [of 8 8 16 8 d] disj_offsets [of 8 8 24 8 d] disj_offsets [of 16 8 24 8 d] disj_sym by auto
  note dd = dj [of 0 8, simplified] dj [of 8 0, simplified] dj [of 0 16, simplified] dj [of 8 16, simplified] dj [of 0 24, simplified]
    dj [of 8 24, simplified] dj [of 16 24, simplified]
  note ld = cell64.rd_wr cell64.rd_wr_disj
  show "device_header (fill_device d h p m) d = h" "device_descriptors (fill_device d h p m) d = p"
    "dev_hdr_type m h AND 0b01111111 = 0 \<Longrightarrow>
      device_extended (fill_device d h p m) d = h + sizeof_device_hdr \<and> load64 (fill_device d h p m) (d + 24) = 0"
    unfolding eq m1_def device_header_def device_descriptors_def device_extended_def by (simp_all add: ld dd)
qed

lemma print_device:
  "mem (print_device p s) = mem s" "descriptors_at (print_device p s) = descriptors_at s"
  "print_device p s = s\<lparr>console := console (print_device p s)\<rparr>"
  by (simp_all add: print_device_def print_def Let_def split: option.split)

definition only_devices :: "'a pci_scheme \<Rightarrow> 'a pci_scheme \<Rightarrow> bool" where
  "only_devices s s' \<longleftrightarrow> s' = s\<lparr>mem := mem s', descriptors_at := descriptors_at s', console := console s'\<rparr>"

lemma block_ptr_neq:
  assumes "heap_list m base e hs" "w \<in> set hs" "u \<in> set hs" "w \<noteq> u"
  shows "seg_addr w + sizeof_hdr \<noteq> seg_addr u + sizeof_hdr"
  using heap_list_distinct_segs [OF assms(1-4)] by (auto simp: seg_end_def)

lemma register_device:
  fixes s :: "'a pci_scheme"
  assumes v: "is_vec (mem s) (heap_base_address s) e hs x y ds" and dev: "pci_devices s = seg_addr x + sizeof_hdr"
    and f: "first_fits [sizeof_pci_descriptors, sizeof_pci_device, 8 * (of_nat (length ds) + 1)] hs = Some (ps, hs')"
    and h: "outside h (heap_range (heap_base_address s) e)"
  shows "\<exists>s' z d. pci_register_device h s = Some s' \<and> is_vec (mem s') (heap_base_address s) e hs' x z (ds @ [d]) \<and>
    registered (mem s) (mem s') (descriptors_at s') hs' x d h \<and> frame (heap_base_address s) e hs hs' {x} (mem s) (mem s') \<and>
    kept_names hs (descriptors_at s) (descriptors_at s') \<and> only_devices s s'"
proof -
  let ?b = "heap_base_address s"
  note D = is_vecD [OF v]
  from f obtain p d q hs1 hs2 where f1: "first_fit sizeof_pci_descriptors hs = Some (p, hs1)"
    and f2: "first_fit sizeof_pci_device hs1 = Some (d, hs2)"
    and f3: "first_fit (8 * (of_nat (length ds) + 1)) hs2 = Some (q, hs')"
    by (auto split: option.splits)
  from D(1) f1 obtain m1 u where m1: "malloc sizeof_pci_descriptors s = Some (p, s\<lparr>mem := m1\<rparr>)" "heap_list m1 ?b e hs1"
    "frame ?b e hs hs1 {} (mem s) m1" and u: "u \<in> set hs1" "\<not> seg_free u" "p = seg_addr u + sizeof_hdr"
    "\<And>w. w \<in> set hs \<Longrightarrow> \<not> seg_free w \<Longrightarrow> w \<in> set hs1 \<and> w \<noteq> u"
    by (rule malloc_block) blast
  have out: "m' a = mem s a" if "frame ?b e gs gs' X (mem s) m'" "a \<notin> heap_range ?b e" for m' gs gs' X a
    using that by (auto simp: frame_def within_def heap_range_def)
  have hd1: "same_header (mem s) m1 h" using out [OF m1(3)] h by (rule same_header_outside)
  obtain n where n: "names_of (mem s) h = Some n" using pci_get_descriptors_eq unfolding names_of_def by blast
  define s1 where "s1 = s\<lparr>mem := m1, descriptors_at := (descriptors_at s)(p \<mapsto> n)\<rparr>"
  have r1: "register_descriptors h s = Some (p, s1)"
    using n unfolding register_descriptors_def m1(1) by (simp add: names_of_def same_header [OF hd1] s1_def)
  have s1: "mem s1 = m1" "heap_base_address s1 = ?b" "pci_devices s1 = pci_devices s"
    "descriptors_at s1 = (descriptors_at s)(p \<mapsto> n)" by (simp_all add: s1_def)
  have "heap_list (mem s1) (heap_base_address s1) e hs1" using m1(2) by (simp add: s1)
  from this f2 obtain m2 t where m2: "malloc sizeof_pci_device s1 = Some (d, s1\<lparr>mem := m2\<rparr>)"
    "heap_list m2 ?b e hs2" "frame ?b e hs1 hs2 {} m1 m2"
    and t: "t \<in> set hs2" "\<not> seg_free t" "d = seg_addr t + sizeof_hdr" "unat sizeof_pci_device \<le> seg_size t"
      "\<And>w. w \<in> set hs1 \<Longrightarrow> \<not> seg_free w \<Longrightarrow> w \<in> set hs2 \<and> w \<noteq> t"
    and wr: "\<And>m. within (unat (seg_addr t) + 21) (seg_end t) m2 m \<Longrightarrow> heap_list m ?b e hs2 \<and> frame ?b e hs1 hs2 {} m1 m"
    unfolding s1 by (rule malloc_block [of s1 e hs1 sizeof_pci_device d hs2, unfolded s1]) blast
  have sz: "32 \<le> seg_size t" using t(4) by (simp add: sizeof_pci_device_def)
  define m3 where "m3 = fill_device d h p m2"
  note F = fill_device [OF m2(2) t(1) sz t(3) h, of p, folded m3_def]
  note h3 = conjunct1 [OF wr [OF F(1)]] and fr3 = conjunct2 [OF wr [OF F(1)]]
  have fr: "frame ?b e hs hs2 {} (mem s) m3" using frame_trans [OF m1(3) fr3] by simp
  have v3: "is_vec (mem (s1\<lparr>mem := m3\<rparr>)) (heap_base_address (s1\<lparr>mem := m3\<rparr>)) e hs2 x y ds"
    using is_vec_frame [OF v fr h3] by (simp add: s1)
  from vector_add_vec [OF v3 f3, of d] obtain m4 z where
    a: "vector_add (pci_devices s) d (s1\<lparr>mem := m3\<rparr>) = Some (s1\<lparr>mem := m4\<rparr>)" "is_vec m4 ?b e hs' x z (ds @ [d])"
    "frame ?b e hs2 hs' {x} m3 m4" by (auto simp: s1 dev)
  define s' where "s' = print_device p (s1\<lparr>mem := m4\<rparr>)"
  have s': "mem s' = m4" "descriptors_at s' = (descriptors_at s)(p \<mapsto> n)" unfolding s'_def print_device(1,2) by (simp_all add: s1)
  have "pci_register_device h s = Some s'"
    using a(1) by (simp add: pci_register_device_def r1 m2(1) Let_def m3_def [symmetric] s1 s'_def)
  moreover have "frame ?b e hs hs' {x} (mem s) m4" using frame_trans [OF fr a(3)] by simp
  moreover have "seg_addr w + sizeof_hdr \<noteq> p" if "w \<in> set hs" "\<not> seg_free w" for w
    unfolding u(3) by (rule block_ptr_neq [OF m1(2) _ u(1)]) (use u(4) [OF that] in blast)+
  then have "kept_names hs (descriptors_at s) (descriptors_at s')" by (simp add: kept_names_def s')
  moreover have "registered (mem s) m4 (descriptors_at s') hs' x d h"
  proof (rule registered_kept [OF _ frame_kept [OF a(3)] h3])
    have "same_header (mem s) m2 h"
      using out [OF frame_trans [OF m1(3) m2(3)]] h by (rule same_header_outside)
    then have ty: "dev_hdr_type m2 h = dev_hdr_type (mem s) h" by (rule same_header)
    have "describes (mem s) m3 (descriptors_at s') d h"
      using F(2-4) n by (simp add: describes_def s' ty)
    moreover have "t \<noteq> x" using t(5) [OF conjunct1 [OF u(4) [OF D(2,5)]] D(5)] by blast
    ultimately show "registered (mem s) m3 (descriptors_at s') hs2 x d h"
      unfolding registered_def F(3) using t(1-3) sz t(5) [OF u(1,2)] u(2,3) by blast
    show "kept_names hs2 (descriptors_at s') (descriptors_at s')" by (rule kept_names_refl)
  qed
  moreover have "only_devices s s'"
    unfolding only_devices_def by (subst s'_def, subst print_device(3)) (simp add: s'_def print_device(1,2) s1_def)
  ultimately show ?thesis using a(2) unfolding s'(1) [symmetric] by blast
qed

section \<open>The state of a probe\<close>

text \<open>
  What stays the same during a discovery: the tables' root, the configuration spaces and the memory before, the translation of all other
  pages, the heap, the vector of devices with the devices it held before, the segments that were in use, and the vector of groups.
\<close>

record discovery =
  d_root :: u64
  d_spaces :: "u64 set"
  d_config :: memory
  d_translation :: "path \<Rightarrow> u64 option"
  d_heap :: u64
  d_heap_end :: nat
  d_vector :: seg
  d_before :: "u64 list"
  d_segments :: "seg list"
  d_groups :: u64

definition spaces_ok :: "discovery \<Rightarrow> bool" where
  "spaces_ok c \<longleftrightarrow> config_spaces (d_spaces c) \<and> (\<forall>v \<in> d_spaces c. outside v (heap_range (d_heap c) (d_heap_end c)))"

text \<open>The devices \<open>found\<close> have been registered and the spaces \<open>U\<close> visited; \<open>hs\<close> are the segments of the heap.\<close>

definition probed :: "discovery \<Rightarrow> seg list \<Rightarrow> u64 list \<Rightarrow> u64 set \<Rightarrow> 'a pci_scheme \<Rightarrow> bool" where
  "probed c hs found U s \<longleftrightarrow> mapping (d_root c) (d_spaces c) (d_translation c) U s \<and>
    heap_base_address s = d_heap c \<and> pci_devices s = seg_addr (d_vector c) + sizeof_hdr \<and> mcfg_segment_groups s = d_groups c \<and>
    kept_segs (d_segments c) hs {d_vector c} (d_config c) (mem s) \<and>
    vmm_bytes s (d_root c) \<inter> heap_range (d_heap c) (d_heap_end c) = {} \<and>
    (\<forall>v \<in> d_spaces c. same_header (d_config c) (mem s) v \<and> outside v (vmm_bytes s (d_root c))) \<and>
    (\<exists>y ds. is_vec (mem s) (d_heap c) (d_heap_end c) hs (d_vector c) y (d_before c @ ds) \<and>
      list_all2 (registered (d_config c) (mem s) (descriptors_at s) hs (d_vector c)) ds found)"

lemma probedD:
  assumes "probed c hs found U s"
  shows "mapping (d_root c) (d_spaces c) (d_translation c) U s" "heap_base_address s = d_heap c"
    "pci_devices s = seg_addr (d_vector c) + sizeof_hdr" "vmm_bytes s (d_root c) \<inter> heap_range (d_heap c) (d_heap_end c) = {}"
    "v \<in> d_spaces c \<Longrightarrow> same_header (d_config c) (mem s) v" "v \<in> d_spaces c \<Longrightarrow> outside v (vmm_bytes s (d_root c))"
    "\<exists>y ds. is_vec (mem s) (d_heap c) (d_heap_end c) hs (d_vector c) y (d_before c @ ds) \<and>
      list_all2 (registered (d_config c) (mem s) (descriptors_at s) hs (d_vector c)) ds found"
    "mcfg_segment_groups s = d_groups c" "kept_segs (d_segments c) hs {d_vector c} (d_config c) (mem s)"
  using assms unfolding probed_def by blast+

lemma outside_subset: "outside v R \<Longrightarrow> R' \<subseteq> R \<Longrightarrow> outside v R'"
  unfolding outside_def by blast

lemma kept_segs_heap:
  assumes "heap_list m b e hs" "\<And>a. a \<in> heap_range b e \<Longrightarrow> m' a = m a"
  shows "kept_segs hs hs X m m'" "heap_list m' b e hs"
proof -
  show "heap_list m' b e hs" by (rule heap_list_agree [OF assms(1) assms(2)]) (simp add: heap_range_def)
  have "a \<in> heap_range b e" if "z \<in> set hs" "unat (seg_addr z) + 21 \<le> unat a" "unat a < seg_end z" for z a
    using heap_list_segs [OF assms(1) that(1)] that(2,3) by (simp add: heap_range_def)
  then show "kept_segs hs hs X m m'" unfolding kept_segs_def using assms(2) by blast
qed

text \<open>A change that keeps the vector and all segments keeps the devices that are registered.\<close>

lemma registered_all:
  assumes "list_all2 (registered m0 m D hs x) ds found" "kept_segs hs hs' {x} m m'" "heap_list m b e hs" "kept_names hs D D'"
  shows "list_all2 (registered m0 m' D' hs' x) ds found"
  using assms(1) by (rule list_all2_mono) (rule registered_kept [OF _ assms(2-4)])

lemma probed_map:
  assumes "spaces_ok c" "probed c hs found U s" "v \<in> d_spaces c"
  shows "probed c hs found (insert v U) (map_function v s)"
proof -
  let ?s = "map_function v s"
  note P = probedD [OF assms(2)]
  have "config_spaces (d_spaces c)" using assms(1) by (simp add: spaces_ok_def)
  note M = map_function_step [OF this P(1) assms(3)]
  have f: "heap_base_address ?s = heap_base_address s" "pci_devices ?s = pci_devices s" "descriptors_at ?s = descriptors_at s"
    "mcfg_segment_groups ?s = mcfg_segment_groups s"
    using M(2) by (elim only_vmmE; simp)+
  obtain y ds where y: "is_vec (mem s) (d_heap c) (d_heap_end c) hs (d_vector c) y (d_before c @ ds)"
    "list_all2 (registered (d_config c) (mem s) (descriptors_at s) hs (d_vector c)) ds found" using P(7) by blast
  note D = is_vecD [OF y(1)]
  have eq: "mem ?s a = mem s a" if "a \<in> heap_range (d_heap c) (d_heap_end c)" for a
    using M(4) P(4) that by blast
  note K = kept_segs_heap [OF D(1) eq]
  have "is_vec (mem ?s) (d_heap c) (d_heap_end c) hs (d_vector c) y (d_before c @ ds)"
    by (rule is_vec_kept [OF y(1) K(1) [of "{}"] K(2)]) simp_all
  moreover have "list_all2 (registered (d_config c) (mem ?s) (descriptors_at ?s) hs (d_vector c)) ds found"
    unfolding f by (rule registered_all [OF y(2) K(1) D(1) kept_names_refl])
  moreover have "same_header (d_config c) (mem ?s) w \<and> outside w (vmm_bytes ?s (d_root c))" if "w \<in> d_spaces c" for w
    using same_header_trans [OF P(5) [OF that] same_header_outside [OF M(4) P(6) [OF that]]]
      outside_subset [OF P(6) [OF that] M(3)] by blast
  moreover have "kept_segs (d_segments c) hs {d_vector c} (d_config c) (mem ?s)" using P(9) K(1) by (rule kept_segs_trans)
  ultimately show ?thesis unfolding probed_def f using M(1,3) P(2-4,8) by blast
qed

lemma probed_register:
  fixes s :: "'a pci_scheme"
  assumes ok: "spaces_ok c" and p: "probed c hs found U s" and v: "v \<in> d_spaces c"
    and f: "first_fits [sizeof_pci_descriptors, sizeof_pci_device, 8 * (of_nat (length (d_before c) + length found) + 1)] hs = Some (ps, hs')"
  shows "\<exists>s'. pci_register_device v s = Some s' \<and> probed c hs' (found @ [v]) U s'"
proof -
  let ?b = "d_heap c" and ?e = "d_heap_end c" and ?x = "d_vector c"
  note P = probedD [OF p]
  obtain y ds where y: "is_vec (mem s) ?b ?e hs ?x y (d_before c @ ds)"
    "list_all2 (registered (d_config c) (mem s) (descriptors_at s) hs ?x) ds found" using P(7) by blast
  have len: "length (d_before c @ ds) = length (d_before c) + length found" using list_all2_lengthD [OF y(2)] by simp
  have out: "outside v (heap_range ?b ?e)" using ok v by (simp add: spaces_ok_def)
  from register_device [of s ?e hs ?x y "d_before c @ ds", unfolded P(2) len, OF y(1) P(3) f out] obtain s' z d where
    s': "pci_register_device v s = Some s'" "is_vec (mem s') ?b ?e hs' ?x z ((d_before c @ ds) @ [d])"
      "registered (mem s) (mem s') (descriptors_at s') hs' ?x d v" "frame ?b ?e hs hs' {?x} (mem s) (mem s')"
      "kept_names hs (descriptors_at s) (descriptors_at s')" "only_devices s s'" by blast
  have eq: "mem s' a = mem s a" if "a \<notin> heap_range ?b ?e" for a
    using s'(4) that by (auto simp: frame_def within_def heap_range_def)
  from s'(6) obtain m D k where eqs: "s' = s\<lparr>mem := m, descriptors_at := D, console := k\<rparr>"
    unfolding only_devices_def by blast
  have fields: "heap_base_address s' = heap_base_address s" "pci_devices s' = pci_devices s" "pml4 s' = pml4 s"
    "vmm_initialised s' = vmm_initialised s" "same_tables (s\<lparr>mem := mem s'\<rparr>) s'"
    "mcfg_segment_groups s' = mcfg_segment_groups s"
    unfolding same_tables_def by (simp_all add: eqs)
  have "mem s' a = mem s a" if "a \<in> vmm_bytes s (d_root c)" for a using eq P(4) that by blast
  note M = mapping_mem [OF P(1) this fields(5,3,4)]
  have hd: "same_header (d_config c) (mem s') w" if "w \<in> d_spaces c" for w
  proof (rule same_header_trans [OF P(5) [OF that] same_header_outside [OF eq]])
    show "outside w (heap_range ?b ?e)" using ok that unfolding spaces_ok_def by blast
  qed
  have "registered (d_config c) (mem s') (descriptors_at s') hs' ?x d v"
    using s'(3) same_header [OF P(5) [OF v]] by (simp add: registered_def describes_def names_of_def)
  then have "list_all2 (registered (d_config c) (mem s') (descriptors_at s') hs' ?x) (ds @ [d]) (found @ [v])"
    using registered_all [OF y(2) frame_kept [OF s'(4)] is_vecD(1) [OF y(1)] s'(5)] by (simp add: list_all2_appendI)
  moreover have "is_vec (mem s') ?b ?e hs' ?x z (d_before c @ (ds @ [d]))" using s'(2) by simp
  moreover have "vmm_bytes s' (d_root c) \<inter> heap_range ?b ?e = {}" using M(2) P(4) by blast
  moreover have "outside w (vmm_bytes s' (d_root c))" if "w \<in> d_spaces c" for w using P(6) [OF that] M(2) by (rule outside_subset)
  moreover have "kept_segs (d_segments c) hs' {?x} (d_config c) (mem s')" using P(9) frame_kept [OF s'(4)] by (rule kept_segs_trans)
  ultimately have "probed c hs' (found @ [v]) U s'"
    unfolding probed_def fields using M(1) P(2,3,8) hd by blast
  with s'(1) show ?thesis by blast
qed

section \<open>The probe follows the scan\<close>

definition device_requests :: "nat list \<Rightarrow> u64 list" where
  "device_requests ks = concat (map (\<lambda>k. [sizeof_pci_descriptors, sizeof_pci_device, 8 * (of_nat k + 1)]) ks)"

abbreviation probed_devices :: "discovery \<Rightarrow> u64 list \<Rightarrow> nat" where
  "probed_devices c found \<equiv> length (d_before c) + length found"

lemma device_requests_split:
  assumes "first_fits (device_requests [n..<n + (i + j)]) hs = Some (qs, hs')"
  obtains ps rs hs1 where "first_fits (device_requests [n..<n + i]) hs = Some (ps, hs1)"
    "first_fits (device_requests [n + i..<n + i + j]) hs1 = Some (rs, hs')"
proof -
  have "device_requests [n..<n + (i + j)] = device_requests [n..<n + i] @ device_requests [n + i..<n + i + j]"
    using upt_add_eq_append [of n "n + i" j] by (simp add: device_requests_def add.assoc)
  with assms show thesis by (auto simp: first_fits_append split: option.splits intro: that)
qed

lemma bus_rest: "map f [k..<256] = a # as \<Longrightarrow> k < 256 \<and> a = f k \<and> as = map f [Suc k..<256]"
  by (cases "k < 256") (auto simp: upt_conv_Cons)

lemma scan_probes:
  assumes ok: "spaces_ok c"
  shows "scan (d_config c) base_addr start_bus as vs hds \<Longrightarrow> k \<le> 256 \<Longrightarrow> as = map (bus_function base_addr start_bus bus) [k..<256] \<Longrightarrow>
    set vs \<subseteq> d_spaces c \<Longrightarrow> probed c hs found U s \<Longrightarrow>
    first_fits (device_requests [probed_devices c found..<probed_devices c found + length hds]) hs = Some (qs, hs') \<Longrightarrow>
    \<exists>s'. probe_at base_addr start_bus bus k s = Some s' \<and> probed c hs' (found @ hds) (U \<union> set vs) s'"
proof (induction arbitrary: k bus s hs found U qs hs' rule: scan.induct)
  case scan_end
  then have "k = 256" by simp
  with scan_end show ?case by (simp add: probe_at_end device_requests_def)
next
  case (scan_absent a as vs hds)
  from bus_rest [OF scan_absent.prems(2) [symmetric]] have k: "k < 256" "a = bus_function base_addr start_bus bus k"
    "as = map (bus_function base_addr start_bus bus) [Suc k..<256]" by blast+
  have a: "a \<in> d_spaces c" using scan_absent.prems(3) by simp
  note M = probed_map [OF ok scan_absent.prems(4) a]
  have "no_function (mem (map_function a s)) a" using same_header(7) [OF probedD(5) [OF M a]] scan_absent.hyps(1) by simp
  then have "probe_at base_addr start_bus bus k s = probe_at base_addr start_bus bus (Suc k) (map_function a s)"
    using probe_at_step [OF k(1), of base_addr start_bus bus s, folded k(2)] by (simp add: Let_def)
  with scan_absent.IH [OF _ k(3) _ M scan_absent.prems(5)] scan_absent.prems(3) k(1) show ?case by simp
next
  case (scan_device a as vs hds)
  from bus_rest [OF scan_device.prems(2) [symmetric]] have k: "k < 256" "a = bus_function base_addr start_bus bus k"
    "as = map (bus_function base_addr start_bus bus) [Suc k..<256]" by blast+
  have a: "a \<in> d_spaces c" using scan_device.prems(3) by simp
  note M = probed_map [OF ok scan_device.prems(4) a]
  note H = same_header(7,8) [OF probedD(5) [OF M a]]
  let ?n = "probed_devices c found"
  have "first_fits (device_requests [?n..<?n + (1 + length hds)]) hs = Some (qs, hs')" using scan_device.prems(5) by simp
  then obtain ps rs hs1 where f: "first_fits (device_requests [?n..<?n + 1]) hs = Some (ps, hs1)"
    "first_fits (device_requests [?n + 1..<?n + 1 + length hds]) hs1 = Some (rs, hs')" by (rule device_requests_split)
  have "first_fits [sizeof_pci_descriptors, sizeof_pci_device, 8 * (of_nat ?n + 1)] hs = Some (ps, hs1)"
    using f(1) by (simp add: device_requests_def)
  from probed_register [OF ok M a this] obtain s1 where s1: "pci_register_device a (map_function a s) = Some s1"
    "probed c hs1 (found @ [a]) (insert a U) s1" by blast
  have "probe_at base_addr start_bus bus k s = probe_at base_addr start_bus bus (Suc k) s1"
    using probe_at_step [OF k(1), of base_addr start_bus bus s, folded k(2)] H scan_device.hyps(1,2) s1(1) by (simp add: Let_def)
  with scan_device.IH [OF _ k(3) _ s1(2), of rs hs'] f(2) scan_device.prems(3) k(1) show ?case by simp
next
  case (scan_bridge a us gs as vs hds)
  from bus_rest [OF scan_bridge.prems(2) [symmetric]] have k: "k < 256" "a = bus_function base_addr start_bus bus k"
    "as = map (bus_function base_addr start_bus bus) [Suc k..<256]" by blast+
  have a: "a \<in> d_spaces c" using scan_bridge.prems(3) by simp
  note M = probed_map [OF ok scan_bridge.prems(4) a]
  note H = same_header(7-9) [OF probedD(5) [OF M a]]
  let ?n = "probed_devices c found"
  have "first_fits (device_requests [?n..<?n + (length gs + (1 + length hds))]) hs = Some (qs, hs')"
    using scan_bridge.prems(5) by simp
  then obtain qs1 ps hs1 where f1: "first_fits (device_requests [?n..<?n + length gs]) hs = Some (qs1, hs1)"
    "first_fits (device_requests [?n + length gs..<?n + length gs + (1 + length hds)]) hs1 = Some (ps, hs')"
    by (rule device_requests_split)
  from f1(2) obtain ps2 rs hs2 where f2: "first_fits (device_requests [?n + length gs..<?n + length gs + 1]) hs1 = Some (ps2, hs2)"
    "first_fits (device_requests [?n + length gs + 1..<?n + length gs + 1 + length hds]) hs2 = Some (rs, hs')"
    by (rule device_requests_split)
  have sb: "bus_functions base_addr start_bus (secondary_bus (d_config c) a) =
      map (bus_function base_addr start_bus (secondary_bus (d_config c) a)) [0..<256]" by (simp add: bus_functions_def)
  have us: "set us \<subseteq> d_spaces c" "set vs \<subseteq> d_spaces c" using scan_bridge.prems(3) by auto
  from scan_bridge.IH(1) [OF _ sb us(1) M f1(1)] obtain s1 where
    s1: "pcie_probe_bus base_addr start_bus (secondary_bus (d_config c) a) (map_function a s) = Some s1"
      "probed c hs1 (found @ gs) (insert a U \<union> set us) s1" by (auto simp: probe_bus_at)
  have "first_fits [sizeof_pci_descriptors, sizeof_pci_device, 8 * (of_nat (probed_devices c (found @ gs)) + 1)] hs1 = Some (ps2, hs2)"
    using f2(1) by (simp add: device_requests_def add.assoc)
  from probed_register [OF ok s1(2) a this] obtain s2 where s2: "pci_register_device a s1 = Some s2"
    "probed c hs2 ((found @ gs) @ [a]) (insert a U \<union> set us) s2" by blast
  have "probe_at base_addr start_bus bus k s = probe_at base_addr start_bus bus (Suc k) s2"
    using probe_at_step [OF k(1), of base_addr start_bus bus s, folded k(2)] H scan_bridge.hyps(1,2) s1(1) s2(1) by (simp add: Let_def)
  with scan_bridge.IH(2) [OF _ k(3) us(2) s2(2), of rs hs'] f2(2) k(1) show ?case by (simp add: Un_assoc add.assoc)
qed

section \<open>Loops over buses and groups\<close>

text \<open>A group lies in a block of the heap, which no registration touches.\<close>

definition group_block :: "seg list \<Rightarrow> seg \<Rightarrow> u64 \<Rightarrow> bool" where
  "group_block hs x g \<longleftrightarrow> (\<exists>t \<in> set hs. \<not> seg_free t \<and> t \<noteq> x \<and> g = seg_addr t + sizeof_hdr \<and> 16 \<le> seg_size t)"

lemma group_kept:
  assumes "kept_segs hs hs' {x} m m'" "heap_list m b e hs" "group_block hs x g"
  shows "sg_base_address m' g = sg_base_address m g" "sg_start_bus m' g = sg_start_bus m g" "sg_end_bus m' g = sg_end_bus m g"
proof -
  from assms(3) obtain t where t: "t \<in> set hs" "\<not> seg_free t" "t \<noteq> x" "g = seg_addr t + sizeof_hdr" "16 \<le> seg_size t"
    unfolding group_block_def by blast
  note S = heap_list_seg [OF assms(2) t(1)]
  have b: "m' (g + of_nat n) = m (g + of_nat n)" if "n < 16" for n
  proof -
    have "unat (g + of_nat n) = unat (seg_addr t) + 21 + n" using unat_plus [of g n] S t(4,5) that by simp
    then show ?thesis using assms(1) t S that unfolding kept_segs_def by simp
  qed
  show "sg_start_bus m' g = sg_start_bus m g" "sg_end_bus m' g = sg_end_bus m g"
    using b [of 10] b [of 11] by (simp_all add: sg_start_bus_def sg_end_bus_def)
  show "sg_base_address m' g = sg_base_address m g"
    unfolding sg_base_address_def by (rule cell64.rd_cong) (simp add: b)
qed

lemma probe_buses_scan:
  fixes g :: u64
  defines "base_addr m \<equiv> sg_base_address m g" and "start_bus m \<equiv> ucast (sg_start_bus m g) :: u64"
  assumes ok: "spaces_ok c" "heap_list (d_config c) (d_heap c) (d_heap_end c) (d_segments c)" "group_block (d_segments c) (d_vector c) g"
    and "n = unat (sg_end_bus (d_config c) g)" "i < 256"
  shows "scan (d_config c) (base_addr (d_config c)) (start_bus (d_config c))
      (concat (map (\<lambda>b. bus_functions (base_addr (d_config c)) (start_bus (d_config c)) (of_nat b)) [i..<n])) vs hds \<Longrightarrow>
    set vs \<subseteq> d_spaces c \<Longrightarrow> probed c hs found U s \<Longrightarrow>
    first_fits (device_requests [probed_devices c found..<probed_devices c found + length hds]) hs = Some (qs, hs') \<Longrightarrow>
    \<exists>s'. probe_buses g (of_nat i) s = Some s' \<and> probed c hs' (found @ hds) (U \<union> set vs) s'"
  using assms(6-)
proof (induction "n - i" arbitrary: i s vs hds hs found U qs)
  case 0
  note K = group_kept [OF probedD(9) [OF "0.prems"(3)] ok(2,3)]
  have "unat (of_nat i :: u8) = i" using "0.prems"(6) by (simp add: unat_of_nat take_bit_nat_eq_self)
  then have "\<not> (of_nat i :: u8) < sg_end_bus (mem s) g" using "0.hyps" "0.prems"(5) K(3) by (simp add: word_less_nat_alt)
  then have "probe_buses g (of_nat i) s = Some s" by (subst probe_buses.simps) simp
  moreover have "vs = [] \<and> hds = []" using "0.hyps" "0.prems"(1) by (simp add: scan_simps(1))
  ultimately show ?case using "0.prems"(3,4) by (simp add: device_requests_def)
next
  case (Suc k)
  let ?m = "d_config c" and ?n = "probed_devices c found"
  let ?bus = "\<lambda>b. bus_functions (base_addr ?m) (start_bus ?m) (of_nat b)"
  note K = group_kept [OF probedD(9) [OF Suc.prems(3)] ok(2,3)]
  have i: "i < n" "n < 256" using Suc.hyps(2) Suc.prems(5) unsigned_less [of "sg_end_bus ?m g", where 'a = nat] by simp_all
  have u: "unat (of_nat i :: u8) = i" using Suc.prems(6) by (simp add: unat_of_nat take_bit_nat_eq_self)
  have lt: "(of_nat i :: u8) < sg_end_bus (mem s) g" using i(1) Suc.prems(5) u K(3) by (simp add: word_less_nat_alt)
  have w: "ucast (of_nat i :: u8) = (of_nat i :: u64)"
    by (rule word_unat_eq_iff [THEN iffD2]) (use u i in \<open>simp add: unsigned_ucast_eq unat_of_nat take_bit_nat_eq_self\<close>)
  have "[i..<n] = i # [Suc i..<n]" using i(1) by (simp add: upt_conv_Cons)
  with Suc.prems(1) have "scan ?m (base_addr ?m) (start_bus ?m) (?bus i @ concat (map ?bus [Suc i..<n])) vs hds" by simp
  from scan_append [OF this] obtain us ws gs ks where sp: "scan ?m (base_addr ?m) (start_bus ?m) (?bus i) us gs"
    "scan ?m (base_addr ?m) (start_bus ?m) (concat (map ?bus [Suc i..<n])) ws ks" "vs = us @ ws" "hds = gs @ ks" by blast
  have "first_fits (device_requests [?n..<?n + (length gs + length ks)]) hs = Some (qs, hs')" using Suc.prems(4) sp(4) by simp
  then obtain ps rs hs1 where f: "first_fits (device_requests [?n..<?n + length gs]) hs = Some (ps, hs1)"
    "first_fits (device_requests [?n + length gs..<?n + length gs + length ks]) hs1 = Some (rs, hs')" by (rule device_requests_split)
  from scan_probes [OF ok(1) sp(1), of 0 "of_nat i" hs found U s ps hs1] f(1) Suc.prems(2,3) sp(3) obtain s1 where
    s1: "pcie_probe_bus (base_addr ?m) (start_bus ?m) (of_nat i) s = Some s1" "probed c hs1 (found @ gs) (U \<union> set us) s1"
    by (auto simp: probe_bus_at bus_functions_def)
  have "probe_buses g (of_nat i) s = probe_buses g (of_nat (Suc i)) s1"
    using lt s1(1) K(1,2) by (subst probe_buses.simps) (simp add: base_addr_def start_bus_def w add.commute)
  moreover have "\<exists>s'. probe_buses g (of_nat (Suc i)) s1 = Some s' \<and> probed c hs' ((found @ gs) @ ks) (U \<union> set us \<union> set ws) s'"
    using sp(2,3) Suc.prems(2,5,6) s1(2) f(2) i Suc.hyps(2)
    by (intro Suc.hyps(1) [of "Suc i" ws ks hs1 "found @ gs" "U \<union> set us" s1 rs]) (simp_all add: add.assoc)
  ultimately show ?case by (simp add: sp(3,4) Un_assoc)
qed

text \<open>The groups are read from their vector in each step of the loop.\<close>

lemma probe_groups_scan:
  assumes ok: "spaces_ok c" and v: "is_vec (d_config c) (d_heap c) (d_heap_end c) (d_segments c) x y groups"
    "d_groups c = seg_addr x + sizeof_hdr" "d_vector c \<noteq> x" "d_vector c \<noteq> y"
    and g: "\<forall>g \<in> set groups. group_block (d_segments c) (d_vector c) g"
  shows "scan_groups (d_config c) gs vs hds \<Longrightarrow> gs = drop i groups \<Longrightarrow> i \<le> length groups \<Longrightarrow>
    set vs \<subseteq> d_spaces c \<Longrightarrow> probed c hs found U s \<Longrightarrow>
    first_fits (device_requests [probed_devices c found..<probed_devices c found + length hds]) hs = Some (qs, hs') \<Longrightarrow>
    \<exists>s'. probe_groups (of_nat i) s = Some s' \<and> probed c hs' (found @ hds) (U \<union> set vs) s'"
proof (induction arbitrary: i s hs found U qs rule: scan_groups.induct)
  case groups_end
  note P = probedD [OF groups_end.prems(4)]
  obtain y' ds where "is_vec (mem s) (d_heap c) (d_heap_end c) hs (d_vector c) y' (d_before c @ ds)" using P(7) by blast
  then have "is_vec (mem s) (d_heap c) (d_heap_end c) hs x y groups"
    using v(3,4) by (intro is_vec_kept [OF v(1) P(9) is_vecD(1)]) auto
  then have "is_vector (mem s) (d_heap c) (d_heap_end c) hs (mcfg_segment_groups s) groups"
    unfolding is_vector_def P(8) v(2) by blast
  note V = vector_size_get [OF this]
  have "i = length groups" using groups_end.prems(1,2) by simp
  then have "probe_groups (of_nat i) s = Some s" using V by (subst probe_groups.simps) simp
  then show ?case using groups_end.prems(4,5) by (simp add: device_requests_def)
next
  case (groups_next g us hds gs vs ks)
  let ?m = "d_config c" and ?n = "probed_devices c found"
  note P = probedD [OF groups_next.prems(4)]
  obtain y' ds where "is_vec (mem s) (d_heap c) (d_heap_end c) hs (d_vector c) y' (d_before c @ ds)" using P(7) by blast
  then have "is_vec (mem s) (d_heap c) (d_heap_end c) hs x y groups"
    using v(3,4) by (intro is_vec_kept [OF v(1) P(9) is_vecD(1)]) auto
  note D = is_vecD [OF this]
  have "is_vector (mem s) (d_heap c) (d_heap_end c) hs (mcfg_segment_groups s) groups"
    unfolding is_vector_def P(8) v(2) using \<open>is_vec (mem s) (d_heap c) (d_heap_end c) hs x y groups\<close> by blast
  note V = vector_size_get [OF this]
  have i1: "i < length groups" using groups_next.prems(1) by (metis drop_all list.distinct(1) not_le)
  with groups_next.prems(1) have i: "i < length groups" "groups ! i = g" "gs = drop (Suc i) groups"
    by (simp_all add: Cons_nth_drop_Suc [symmetric])
  have u: "unat (of_nat i :: u64) = i" using i(1) D(20) unat_u64_less by (simp add: unat_of_nat take_bit_nat_eq_self)
  have lt: "(of_nat i :: u64) < vector_size s (mcfg_segment_groups s)" "vector_get s (mcfg_segment_groups s) (of_nat i) = g"
    using V u i D(20) by (simp_all add: word_less_nat_alt)
  have gb: "group_block (d_segments c) (d_vector c) g" using g i(1,2) nth_mem by blast
  note h = is_vecD(1) [OF v(1)]
  note K = group_kept [OF P(9) h gb]
  have "first_fits (device_requests [?n..<?n + (length hds + length ks)]) hs = Some (qs, hs')" using groups_next.prems(5) by simp
  then obtain ps rs hs1 where f: "first_fits (device_requests [?n..<?n + length hds]) hs = Some (ps, hs1)"
    "first_fits (device_requests [?n + length hds..<?n + length hds + length ks]) hs1 = Some (rs, hs')" by (rule device_requests_split)
  from probe_buses_scan [OF ok h gb refl _ groups_next.hyps(1) [unfolded group_functions_def] _ groups_next.prems(4) f(1)] groups_next.prems(3)
  obtain s1 where s1: "probe_buses g (sg_start_bus ?m g) s = Some s1" "probed c hs1 (found @ hds) (U \<union> set us) s1"
    using unsigned_less [of "sg_start_bus ?m g", where 'a = nat] by auto
  have "probe_groups (of_nat i) s = probe_groups (of_nat (Suc i)) s1"
    using lt s1(1) K(2) by (subst probe_groups.simps) (simp add: Let_def add.commute)
  moreover have "\<exists>s'. probe_groups (of_nat (Suc i)) s1 = Some s' \<and> probed c hs' ((found @ hds) @ ks) (U \<union> set us \<union> set vs) s'"
    using i groups_next.prems(3) s1(2) f(2) by (intro groups_next.IH [of "Suc i" hs1 "found @ hds" "U \<union> set us" s1 rs]) (simp_all add: add.assoc)
  ultimately show ?case by (simp add: Un_assoc)
qed

section \<open>A bridge to its own bus\<close>

text \<open>The spaces \<open>V\<close> as the probe sees them, whatever the heap holds.\<close>

definition visible :: "u64 \<Rightarrow> u64 set \<Rightarrow> (path \<Rightarrow> u64 option) \<Rightarrow> memory \<Rightarrow> u64 set \<Rightarrow> 'a vmm_scheme \<Rightarrow> bool" where
  "visible root V T m U s \<longleftrightarrow> mapping root V T U s \<and> (\<forall>v \<in> V. same_header m (mem s) v \<and> outside v (vmm_bytes s root))"

lemma visible_map:
  assumes "config_spaces V" "visible root V T m U s" "v \<in> V"
  shows "visible root V T m (insert v U) (map_function v s)"
proof -
  have A: "mapping root V T U s" "\<And>w. w \<in> V \<Longrightarrow> same_header m (mem s) w" "\<And>w. w \<in> V \<Longrightarrow> outside w (vmm_bytes s root)"
    using assms(2) unfolding visible_def by blast+
  note M = map_function_step [OF assms(1) A(1) assms(3)]
  have "same_header m (mem (map_function v s)) w \<and> outside w (vmm_bytes (map_function v s) root)" if "w \<in> V" for w
    using same_header_trans [OF A(2) [OF that] same_header_outside [OF M(4) A(3) [OF that]]] outside_subset [OF A(3) [OF that] M(3)] by blast
  with M(1) show ?thesis unfolding visible_def by blast
qed

lemma probe_cycle:
  assumes "config_spaces V" and V: "\<And>j. j \<le> k \<Longrightarrow> bus_function base_addr start_bus bus j \<in> V" and "k < 256"
    and absent: "\<And>j. j < k \<Longrightarrow> no_function m (bus_function base_addr start_bus bus j)"
    and bridge: "\<not> no_function m (bus_function base_addr start_bus bus k)" "is_bridge m (bus_function base_addr start_bus bus k)"
      "secondary_bus m (bus_function base_addr start_bus bus k) = bus"
  shows "probe_from b0 s0 bus0 dev_slot fn s = Some s' \<Longrightarrow> b0 = base_addr \<Longrightarrow> s0 = start_bus \<Longrightarrow> bus0 = bus \<Longrightarrow>
    \<exists>i j U. dev_slot = of_nat i \<and> fn = of_nat j \<and> j \<le> 8 \<and> 8 * i + j \<le> k \<and> visible root V T m U s \<Longrightarrow> False"
proof (induction rule: probe_from.raw_induct [rotated 1, consumes 1])
  case (1 probe b0 s0 bus0 dev_slot fn s s')
  from "1.prems"(4) obtain i j U where ij: "dev_slot = of_nat i" "fn = of_nat j" "j \<le> 8" "8 * i + j \<le> k"
    and vis: "visible root V T m U s" by blast
  have IH: "probe base_addr start_bus bus (of_nat i') (of_nat j') t \<noteq> Some t'"
    if "j' \<le> 8" "8 * i' + j' \<le> k" "visible root V T m U' t" for i' j' U' t t'
    using "1.IH" [of base_addr start_bus bus "of_nat i'" "of_nat j'" t t'] that by blast
  have i: "i < 32" using ij(4) assms(3) by simp
  then have slot: "(of_nat i :: u64) < 32" using small_of_nat [of i 32] by simp
  let ?a = "bus_function base_addr start_bus bus (8 * i + j)"
  show ?case
  proof (cases "j = 8")
    case True
    then have "probe base_addr start_bus bus (of_nat (Suc i)) (of_nat 0) s = Some s'"
      using "1.hyps" "1.prems"(1-3) slot ij by (simp add: add.commute)
    with IH [of 0 "Suc i" U s] True ij(4) vis show ?thesis by simp
  next
    case False
    then have j: "j < 8" "(of_nat j :: u64) < 8" using ij(3) small_of_nat [of j 8] by simp_all
    have addr: "function_address base_addr start_bus bus (of_nat i) (of_nat j) = ?a" using j by (simp add: bus_function_def)
    let ?s = "map_function ?a s"
    note M = visible_map [OF assms(1) vis V [OF ij(4)]]
    have hdr: "same_header m (mem ?s) ?a" using M V [OF ij(4)] unfolding visible_def by blast
    have sj: "(of_nat j + 1 :: u64) = of_nat (Suc j)" by simp
    have eq: "(if no_function (mem ?s) ?a then probe base_addr start_bus bus (of_nat i) (of_nat j + 1) ?s
        else Option.bind (if is_bridge (mem ?s) ?a then probe base_addr start_bus (secondary_bus (mem ?s) ?a) 0 0 ?s else Some ?s)
          (\<lambda>s. Option.bind (pci_register_device ?a s) (probe base_addr start_bus bus (of_nat i) (of_nat j + 1)))) = Some s'"
      using "1.hyps" [unfolded "1.prems"(1-3) ij(1,2)] slot j(2)
      by (simp only: Let_def addr map_function_def no_function_def secondary_bus_def not_True_eq_False if_False)
    show ?thesis
    proof (cases "8 * i + j = k")
      case True
      with eq bridge same_header(7-9) [OF hdr] obtain t where "probe base_addr start_bus bus 0 0 ?s = Some t"
        by (auto simp: bind_eq_Some_conv)
      with IH [of 0 0 _ ?s t] M show ?thesis by simp
    next
      case False
      then have lt: "8 * i + j < k" using ij(4) by simp
      with eq absent same_header(7) [OF hdr] have "probe base_addr start_bus bus (of_nat i) (of_nat j + 1) ?s = Some s'" by simp
      then have "probe base_addr start_bus bus (of_nat i) (of_nat (Suc j)) ?s = Some s'" by (simp only: sj)
      with IH [of "Suc j" i _ ?s s'] M j lt show ?thesis by simp
    qed
  qed
qed

end
