(* ===== verification/Pcie_Correct.thy ===== *)
theory Pcie_Correct
  imports Pcie_Probe CMemory_Eval
begin

unbundle bit_operations_syntax

text \<open>Device discovery is complete and exact, and does not return when a bridge leads back to its own bus.\<close>

section \<open>Properties\<close>

text \<open>
  A state in which the configuration spaces \<open>V\<close> can be probed: page tables in use, with pages for the missing tables; the spaces
  mapped to themselves or not at all, and apart from the heap and from the memory of tables and allocator; a vector \<open>ds\<close> of
  devices and another one of segment groups in the heap \<open>hs\<close>.
\<close>

definition ready_to_probe :: "u64 \<Rightarrow> u64 set \<Rightarrow> nat \<Rightarrow> seg list \<Rightarrow> u64 list \<Rightarrow> u64 list \<Rightarrow> 'a pci_scheme \<Rightarrow> bool" where
  "ready_to_probe root V e hs ds groups s \<longleftrightarrow> in_use root s \<and> config_spaces V \<and>
    3 + 3 * card (missing_tables root V s) \<le> card (free_pages s) \<and>
    (\<forall>v \<in> V. no_huge_page s root v \<and> (translate s root (path_of v) = None \<or> translate s root (path_of v) = Some v) \<and>
      outside v (vmm_bytes s root) \<and> outside v (heap_range (heap_base_address s) e)) \<and>
    vmm_bytes s root \<inter> heap_range (heap_base_address s) e = {} \<and>
    (\<exists>x y xg yg. pci_devices s = seg_addr x + sizeof_hdr \<and> is_vec (mem s) (heap_base_address s) e hs x y ds \<and>
      mcfg_segment_groups s = seg_addr xg + sizeof_hdr \<and> is_vec (mem s) (heap_base_address s) e hs xg yg groups \<and>
      x \<noteq> xg \<and> x \<noteq> yg \<and> (\<forall>g \<in> set groups. group_block hs x g))"

section \<open>A small machine with a bridge\<close>

text \<open>
  The heap at 0x100000 holds the vector of devices, empty, the vector of groups and one group, for bus 0 at 0x40000000; a vector of
  parsed tables is at 0x2000. Function 0 of bus 0 is a bridge to bus 1, function 0 of bus 1 an NVMe controller.
\<close>

definition heap_low :: memory where
  "heap_low x =
    (if x < 0x100000 then ((\<lambda>_. 0)(
      0x2000 := 1, 0x2009 := 0x21, 0x2101 := 0x22, 0x2200 := 0x4D, 0x2201 := 0x43, 0x2202 := 0x46, 0x2203 := 0x47)) x
     else if x < 0x100025 then ((\<lambda>_. 0)(0x100008 := 0x25, 0x10000A := 0x10, 0x100010 := 16, 0x10001D := 0x3A, 0x10001F := 0x10)) x
     else if x < 0x100042 then ((\<lambda>_. 0)(0x10002D := 0x42, 0x10002F := 0x10, 0x100035 := 8)) x
     else if x < 0x100067 then ((\<lambda>_. 0)(
      0x10004A := 0x67, 0x10004C := 0x10, 0x100052 := 16, 0x100057 := 1, 0x10005F := 0x7C, 0x100061 := 0x10)) x
     else if x < 0x100084 then ((\<lambda>_. 0)(0x10006F := 0x84, 0x100071 := 0x10, 0x100077 := 8, 0x10007C := 0x99, 0x10007E := 0x10)) x
     else if x < 0x1000A9 then ((\<lambda>_. 0)(0x10008C := 0xA9, 0x10008E := 0x10, 0x100094 := 16, 0x10009C := 0x40, 0x1000A4 := 1)) x
     else ((\<lambda>_. 0)(0x1000B9 := 0x42, 0x1000BA := 0x0F, 0x1000BD := 1)) x)"

definition config_low :: memory where
  "config_low = (\<lambda>_. 0)(
    0x40000000 := 0x86, 0x40000001 := 0x80, 0x40000002 := 1, 0x4000000A := 4, 0x4000000B := 6, 0x4000000E := 1, 0x40000019 := 1,
    0x40100000 := 0x86, 0x40100001 := 0x80, 0x40100002 := 2, 0x40100009 := 2, 0x4010000A := 8, 0x4010000B := 1)"

definition pci_low :: memory where
  "pci_low x = (if x < 0x40000000 then heap_low x else config_low x)"

definition blank_pci :: pci where
  "blank_pci = demo_machine (vmm.more (mcfg.extend (madt.extend (acpi.extend (heap.extend
    (blank_vmm (heap.fields 0 0)) (acpi.fields False 0 0 0 0 0 0 0 0)) (madt.fields 0 0 0 0 0 0 0)) (mcfg.fields 0 0))
    (pci.fields 0 (\<lambda>_. None))))"

definition pci_machine :: "memory \<Rightarrow> pci" where
  "pci_machine low = blank_pci\<lparr>mem := (\<lambda>x. if x < 0x80000000 then low x else mem blank_pci x), heap_base_address := 0x100000,
    acpi_parsed_tables := 0x2000, mcfg_hdr := 0x3000, mcfg_segment_groups := 0x100057, pci_devices := 0x100015\<rparr>"

abbreviation "segs_demo \<equiv> [Seg 0x100000 16 False, Seg 0x100025 8 False, Seg 0x100042 16 False, Seg 0x100067 8 False,
  Seg 0x100084 16 False, Seg 0x1000A9 3906 True]"

lemma pci_machine:
  "vmm_inv (pci_machine low) demo_root" "card (free_pages (pci_machine low)) = 14" "no_huge_page (pci_machine low) demo_root v"
  "x \<in> vmm_bytes (pci_machine low) demo_root \<Longrightarrow> \<not> x < 0x80000000" "in_use demo_root (pci_machine low)"
  "translate (pci_machine low) demo_root (path_of v) = None" "x < 0x80000000 \<Longrightarrow> mem (pci_machine low) x = low x"
proof -
  from blank_pci_def obtain more where b: "blank_pci = demo_machine more" by blast
  note D = demo_machine_inv [where x = more, folded b]
  let ?s = "pci_machine low"
  have low: "\<not> x < 0x80000000" if "x \<in> vmm_bytes blank_pci demo_root" for x
    using demo_machine_bytes(1) [of x more] that by (simp add: b word_less_nat_alt)
  have keep: "mem ?s x = mem blank_pci x" if "x \<in> vmm_bytes blank_pci demo_root" for x
    using low [OF that] by (simp add: pci_machine_def)
  have "same_tables (blank_pci\<lparr>mem := mem ?s\<rparr>) ?s" by (simp add: same_tables_def pci_machine_def)
  note S = same_tables(1-6,8) [OF this] and W = vmm_inv_mem [OF D(1) keep]
  show i: "vmm_inv ?s demo_root" unfolding S by (intro W; assumption)
  have "free_pages ?s = free_pages blank_pci" unfolding S by (intro W; assumption)
  with D(2) show "card (free_pages ?s) = 14" by simp
  have "no_huge_page (blank_pci\<lparr>mem := mem ?s\<rparr>) demo_root v" using D(7) by (intro W)
  then show "no_huge_page ?s demo_root v" by (simp only: no_huge_page_def S)
  have "vmm_bytes ?s demo_root \<subseteq> vmm_bytes blank_pci demo_root" unfolding S by (intro W; assumption)
  with low show "x \<in> vmm_bytes ?s demo_root \<Longrightarrow> \<not> x < 0x80000000" by blast
  show "in_use demo_root ?s" using i D(3,4) by (simp add: in_use_def pci_machine_def)
  have "translate ?s demo_root (path_of v) = translate blank_pci demo_root (path_of v)"
    unfolding S by (intro W) (simp_all add: path_take)
  then show "translate ?s demo_root (path_of v) = None" using D(5) by (simp add: path_of_def del: translate.simps)
  show "x < 0x80000000 \<Longrightarrow> mem ?s x = low x" by (simp add: pci_machine_def)
qed

text \<open>The functions of bus 0 and bus 1 lie in one page table. The lists of 256 functions are not unfolded.\<close>

declare upt_rec_numeral [simp del]

definition space :: "nat \<Rightarrow> u64" where "space k = of_nat (0x40000000 + 0x1000 * k)"

lemma bus_function_space: "b < 2 \<Longrightarrow> k < 256 \<Longrightarrow> bus_function 0x40000000 0 (of_nat b) k = space (256 * b + k)"
proof -
  have "k = 8 * (k div 8) + k mod 8" by simp
  then have k: "(of_nat k :: u64) = 8 * of_nat (k div 8) + of_nat (k mod 8)" by (metis of_nat_add of_nat_mult of_nat_numeral)
  show ?thesis
    by (simp add: bus_function_def function_address_def space_def push_bit_eq_mult k algebra_simps)
qed

lemma unat_space: "k < 512 \<Longrightarrow> unat (space k) = 0x40000000 + 0x1000 * k"
  by (simp add: space_def unat_of_nat take_bit_nat_eq_self del: of_nat_add of_nat_mult)

lemma path_space: "k < 512 \<Longrightarrow> path_of (space k) = [0, 1, 0, of_nat k]"
proof -
  assume k: "k < 512"
  have d: "(drop_bit n (space k) :: u64) = of_nat ((0x40000000 + 0x1000 * k) div 2 ^ n)" for n
  proof -
    let ?a = "0x40000000 + 0x1000 * k"
    have "?a < 2 ^ 64" using k by simp
    then have "?a div 2 ^ n < 2 ^ 64" by (rule le_less_trans [OF div_le_dividend])
    then have "unat (of_nat (?a div 2 ^ n) :: u64) = ?a div 2 ^ n" by (simp add: unat_of_nat take_bit_nat_eq_self)
    moreover have "unat (drop_bit n (space k)) = ?a div 2 ^ n"
      using unat_drop_bit_eq [of n "space k"] unat_space [OF k] drop_bit_eq_div [of n ?a] by (simp only:)
    ultimately show ?thesis by (simp only: word_unat_eq_iff)
  qed
  have "(ucast (drop_bit n (space k)) :: 9 word) = of_nat ((0x40000000 + 0x1000 * k) div 2 ^ n)" for n
    unfolding d by (simp add: unsigned_of_nat take_bit_of_nat [symmetric] take_bit_word_eq_self)
  moreover have "(0x40000000 + 0x1000 * k) div 0x8000000000 = 0" "(0x40000000 + 0x1000 * k) div 0x40000000 = 1"
    "(0x40000000 + 0x1000 * k) div 0x200000 = 512"
    by (rule div_nat_eqI; use k in simp)+
  ultimately show ?thesis by (simp add: path_of_def)
qed

lemma config_spaces_demo: "V \<subseteq> space ` {..<512} \<Longrightarrow> config_spaces V"
proof -
  assume V: "V \<subseteq> space ` {..<512}"
  have "inj_on path_of (space ` {..<512})"
  proof (rule inj_onI)
    fix v w assume "v \<in> space ` {..<512}" "w \<in> space ` {..<512}" "path_of v = path_of w"
    then obtain i j where "v = space i" "w = space j" "i < 512" "j < 512" "(of_nat i :: 9 word) = of_nat j"
      by (auto simp: path_space)
    then show "v = w" by (auto simp: word_unat_eq_iff unat_of_nat take_bit_nat_eq_self)
  qed
  moreover have "space k mod 0x1000 = 0 \<and> addr (space k) = space k" if "k < 512" for k
  proof -
    have "unat (space k mod 0x1000) = 0" using that by (simp add: unat_mod unat_space)
    then show ?thesis using that by (simp add: page_addr_iff page_aligned_def unat_space unat_eq_0)
  qed
  ultimately show "config_spaces V"
    unfolding config_spaces_def using V by (auto intro: inj_on_subset finite_subset)
qed

lemma missing_demo: "V \<subseteq> space ` {..<512} \<Longrightarrow> card (missing_tables root V s) \<le> 1"
proof -
  assume "V \<subseteq> space ` {..<512}"
  then have "missing_tables root V s \<subseteq> {[0, 1, 0]}" by (auto simp: missing_tables_def path_space)
  then have "card (missing_tables root V s) \<le> card {[0, 1, 0 :: 9 word]}" by (intro card_mono) simp_all
  then show "card (missing_tables root V s) \<le> 1" by simp
qed

lemma outside_demo:
  assumes "k < 512"
  shows "outside (space k) (vmm_bytes (pci_machine low) demo_root)" "outside (space k) (heap_range 0x100000 0x101000)"
proof -
  have r: "0x40000000 \<le> unat x \<and> unat x < 0x80000000" if "in_range x (space k) 32" for x
  proof -
    have "unat x = unat (space k) + unat (x - space k)"
      using unat_plus [of "space k" "unat (x - space k)"] unat_space [OF assms] assms that by (simp add: in_range_def)
    then show ?thesis using unat_space [OF assms] assms that by (simp add: in_range_def)
  qed
  show "outside (space k) (vmm_bytes (pci_machine low) demo_root)"
    using r pci_machine(4) by (fastforce simp: outside_def word_less_nat_alt)
  show "outside (space k) (heap_range 0x100000 0x101000)" using r by (fastforce simp: outside_def heap_range_def)
qed

lemma pci_low_zero: "0x40000000 \<le> unat x \<Longrightarrow> 0x1000 \<le> unat x mod 0x100000 \<Longrightarrow> pci_low x = 0"
  by (auto simp: pci_low_def config_low_def word_less_nat_alt)

lemma pci_low_functions:
  fixes m :: memory
  defines "m \<equiv> mem (pci_machine pci_low)"
  shows "k < 512 \<Longrightarrow> no_function m (space k) \<longleftrightarrow> k \<noteq> 0 \<and> k \<noteq> 256"
    "is_bridge m (space 0)" "\<not> is_bridge m (space 256)" "secondary_bus m (space 0) = 1"
proof -
  have m: "m x = pci_low x" if "x < 0x80000000" for x using pci_machine(7) [OF that] by (simp add: m_def)
  have z: "m (space k + of_nat n) = 0" if "k < 512" "k \<noteq> 0" "k \<noteq> 256" "n < 4" for k n
  proof -
    have u: "unat (space k + of_nat n) = 0x40000000 + 0x1000 * k + n"
      using unat_space [OF that(1)] that by (subst unat_plus) simp_all
    have "0x1000 \<le> (0x40000000 + 0x1000 * k + n) mod 0x100000"
    proof (cases "k < 256")
      case True
      have "0x40000000 + 0x1000 * k + n = (0x1000 * k + n) + 0x100000 * 1024" by simp
      then have "(0x40000000 + 0x1000 * k + n) mod 0x100000 = (0x1000 * k + n) mod 0x100000" by (simp only: mod_mult_self2)
      then show ?thesis using True that(2,4) by simp
    next
      case False
      then obtain j where j: "k = 256 + j" by (auto simp: not_less le_iff_add)
      have "0x40000000 + 0x1000 * k + n = (0x1000 * j + n) + 0x100000 * 1025" by (simp add: j)
      then have "(0x40000000 + 0x1000 * k + n) mod 0x100000 = (0x1000 * j + n) mod 0x100000" by (simp only: mod_mult_self2)
      then show ?thesis using j that by simp
    qed
    then have "pci_low (space k + of_nat n) = 0" by (intro pci_low_zero) (simp_all add: u)
    moreover have "space k + of_nat n < 0x80000000" using that by (simp only: word_less_nat_alt u) simp
    ultimately show ?thesis by (simp add: m)
  qed
  have s: "space 0 = 0x40000000" "space 256 = 0x40100000" by (simp_all add: space_def)
  have "no_function m (space k)" if "k < 512" "k \<noteq> 0" "k \<noteq> 256"
    using z [OF that, of 2] z [OF that, of 3] by (simp add: no_function_def dev_device_id_def mem_simps add.assoc)
  moreover have "\<not> no_function m (space 0)" "\<not> no_function m (space 256)"
    by (simp_all add: s no_function_def dev_device_id_def mem_simps m pci_low_def heap_low_def config_low_def)
  ultimately show "k < 512 \<Longrightarrow> no_function m (space k) \<longleftrightarrow> k \<noteq> 0 \<and> k \<noteq> 256" by metis
  show "is_bridge m (space 0)" "\<not> is_bridge m (space 256)" "secondary_bus m (space 0) = 1"
    by (simp_all add: s is_bridge_def dev_hdr_type_def secondary_bus_def bridge_secondary_bus_def sizeof_device_hdr_def m pci_low_def heap_low_def config_low_def)
qed

lemma pci_low_scan:
  fixes m :: memory
  defines "m \<equiv> mem (pci_machine pci_low)"
  shows "\<exists>vs. scan_groups m [0x100099] vs [space 256, space 0] \<and> set vs \<subseteq> space ` {..<512}"
proof -
  note F = pci_low_functions [folded m_def]
  have m: "m x = pci_low x" if "x < 0x80000000" for x using pci_machine(7) [OF that] by (simp add: m_def)
  have up: "[0..<256] = 0 # [1..<256]" by (subst upt_conv_Cons) simp_all
  let ?bus = "\<lambda>b. map (\<lambda>k. space (256 * b + k)) [0..<256]"
  have b: "bus_functions 0x40000000 0 (of_nat b) = ?bus b" if "b < 2" for b
    using bus_function_space [OF that] by (simp add: bus_functions_def)
  have g: "sg_base_address m 0x100099 = 0x40000000" "sg_start_bus m 0x100099 = 0" "sg_end_bus m 0x100099 = 1"
    by (simp_all add: sg_base_address_def sg_start_bus_def sg_end_bus_def mem_simps m pci_low_def heap_low_def config_low_def)
  have "filter (\<lambda>a. \<not> no_function m a) (?bus 1) = [space 256]"
  proof -
    have "?bus 1 = space 256 # map (\<lambda>k. space (256 + k)) [1..<256]" by (simp add: up)
    moreover have "filter (\<lambda>a. \<not> no_function m a) (map (\<lambda>k. space (256 + k)) [1..<256]) = []" using F(1) by (auto simp: filter_empty_conv)
    ultimately show ?thesis using F(1) [of 256] by simp
  qed
  moreover have "no_function m a \<or> \<not> is_bridge m a" if "a \<in> set (?bus 1)" for a
    using that F(1,3) by auto
  ultimately have 1: "scan m 0x40000000 0 (bus_functions 0x40000000 0 (secondary_bus m (space 0))) (?bus 1) [space 256]"
    using scan_flat [of "?bus 1" m "0x40000000" 0] b [of 1] by (simp add: F(4))
  have "filter (\<lambda>a. \<not> no_function m a) (map space [1..<256]) = []" using F(1) by (auto simp: filter_empty_conv)
  moreover have "no_function m a \<or> \<not> is_bridge m a" if "a \<in> set (map space [1..<256])" for a using that F(1) by auto
  ultimately have 2: "scan m 0x40000000 0 (map space [1..<256]) (map space [1..<256]) []"
    using scan_flat [of "map space [1..<256]" m "0x40000000" 0] by simp
  have "scan m 0x40000000 0 (space 0 # map space [1..<256]) (space 0 # ?bus 1 @ map space [1..<256]) ([space 256] @ space 0 # [])"
    using F(1) [of 0] F(2) 1 2 by (intro scan.scan_bridge) simp_all
  moreover have "group_functions m 0x100099 = space 0 # map space [1..<256]"
    using b [of 0] by (simp add: group_functions_def g up)
  ultimately have "scan_groups m [0x100099] ((space 0 # ?bus 1 @ map space [1..<256]) @ []) ([space 256, space 0] @ [])"
    by (intro groups_next groups_end) (simp add: g)
  moreover have "set (space 0 # ?bus 1 @ map space [1..<256]) \<subseteq> space ` {..<512}" by auto
  ultimately show ?thesis by (intro exI [of _ "space 0 # ?bus 1 @ map space [1..<256]"]) (simp del: upt_Suc)
qed

lemma pci_low_heap:
  fixes m :: memory
  defines "m \<equiv> mem (pci_machine pci_low)"
  shows "is_vec m 0x100000 0x101000 segs_demo (Seg 0x100000 16 False) (Seg 0x100025 8 False) []"
    "is_vec m 0x100000 0x101000 segs_demo (Seg 0x100042 16 False) (Seg 0x100067 8 False) [0x100099]"
    "acpi_has_parsed (sig ''MCFG'') (pci_machine pci_low)"
    "\<exists>ps hs'. first_fits (device_requests [0..<2]) segs_demo = Some (ps, hs')"
proof -
  have m: "m x = pci_low x" if "x < 0x80000000" for x using pci_machine(7) [OF that] by (simp add: m_def)
  note [simp] = m pci_low_def heap_low_def mem_simps
  have seg: "seg_ok m 0x101000 (Seg 0x100000 16 False)" "seg_ok m 0x101000 (Seg 0x100025 8 False)"
    "seg_ok m 0x101000 (Seg 0x100042 16 False)" "seg_ok m 0x101000 (Seg 0x100067 8 False)"
    "seg_ok m 0x101000 (Seg 0x100084 16 False)" "seg_ok m 0x101000 (Seg 0x1000A9 3906 True)"
    by (simp_all add: seg_ok_def seg_end_def hdr_size_def hdr_next_def hdr_free_def)
  then have h: "heap_list m 0x100000 0x101000 segs_demo" by (simp add: heap_list_def seg_end_def)
  show "is_vec m 0x100000 0x101000 segs_demo (Seg 0x100000 16 False) (Seg 0x100025 8 False) []"
    using h by (simp add: is_vec_def vector_length_def vector_items_def elems_def sizeof_hdr_def)
  show "is_vec m 0x100000 0x101000 segs_demo (Seg 0x100042 16 False) (Seg 0x100067 8 False) [0x100099]"
    using h by (simp add: is_vec_def vector_length_def vector_items_def elems_def sizeof_hdr_def)
  have p: "acpi_parsed_tables (pci_machine pci_low) = 0x2000" by (simp add: pci_machine_def)
  have "vector_size (pci_machine pci_low) 0x2000 = 1" "vector_get (pci_machine pci_low) 0x2000 0 = 0x2200"
    by (simp_all add: vector_size_def vector_get_def item_def vector_length_def vector_items_def m_def [symmetric])
  moreover have "signature_at m 0x2200 4 = sig ''MCFG''" by (simp add: signature_at_def sig_def upt_rec)
  ultimately show "acpi_has_parsed (sig ''MCFG'') (pci_machine pci_low)"
    unfolding acpi_has_parsed_def
    by (subst has_parsed_from.simps) (simp add: p m_def [symmetric] signatures_equal_iff sig_def)
  show "\<exists>ps hs'. first_fits (device_requests [0..<2]) segs_demo = Some (ps, hs')"
    by (simp add: device_requests_def upt_rec fits_def place_def sizeof_hdr_def sizeof_pci_descriptors_def sizeof_pci_device_def)
qed

lemma pci_low_ready:
  assumes "V \<subseteq> space ` {..<512}"
  shows "ready_to_probe demo_root V 0x101000 segs_demo [] [0x100099] (pci_machine pci_low)"
proof -
  let ?s = "pci_machine pci_low"
  have f: "heap_base_address ?s = 0x100000" "pci_devices ?s = 0x100015" "mcfg_segment_groups ?s = 0x100057"
    by (simp_all add: pci_machine_def)
  have "3 + 3 * card (missing_tables demo_root V ?s) \<le> card (free_pages ?s)"
    using missing_demo [OF assms, of demo_root ?s] pci_machine(2) [of pci_low] by simp
  moreover have "no_huge_page ?s demo_root v \<and> translate ?s demo_root (path_of v) = None \<and>
      outside v (vmm_bytes ?s demo_root) \<and> outside v (heap_range 0x100000 0x101000)" if "v \<in> V" for v
    using that assms outside_demo pci_machine(3,6) by blast
  moreover have "vmm_bytes ?s demo_root \<inter> heap_range 0x100000 0x101000 = {}"
    using pci_machine(4) [of _ pci_low] by (force simp: heap_range_def word_less_nat_alt)
  moreover have "group_block segs_demo (Seg 0x100000 16 False) 0x100099" by (simp add: group_block_def sizeof_hdr_def)
  ultimately show ?thesis
    unfolding ready_to_probe_def f using pci_machine(5) [of pci_low] config_spaces_demo [OF assms] pci_low_heap(1,2)
    by (intro conjI ballI exI [of _ "Seg 0x100000 16 False"] exI [of _ "Seg 0x100025 8 False"] exI [of _ "Seg 0x100042 16 False"]
        exI [of _ "Seg 0x100067 8 False"]) (auto simp: sizeof_hdr_def)
qed

text \<open>
  C5. Discovery is complete and exact. On a configuration space whose bridges form no cycle \<open>pcie_probe\<close> returns and has appended to
  the vector of devices one structure for each function found, devices behind a bridge before the bridge, with its header,
  its names and, for an ordinary device, its extended header. Found are exactly the functions that are present on the buses of the
  groups, the last one excluded, and on the buses behind their bridges. Every space that was looked at is mapped to itself, and no other
  translation has changed.
\<close>

theorem pcie_probe_finds:
  fixes s :: "'a pci_scheme"
  assumes "acpi_has_parsed (sig ''MCFG'') s" and "acpi_get_mcfg s \<noteq> 0"
    and "scan_groups (mem s) groups vs found" and "ready_to_probe root (set vs) e hs ds groups s"
    and "first_fits (device_requests [length ds..<length ds + length found]) hs = Some (ps, hs')"
  shows "\<exists>s' new. pcie_probe s = Some s' \<and>
    is_vector (mem s') (heap_base_address s') e hs' (pci_devices s') (ds @ new) \<and>
    list_all2 (describes (mem s) (mem s') (descriptors_at s')) new found \<and>
    set found = (\<Union>g \<in> set groups.
      {a \<in> on_bus (mem s) (sg_base_address (mem s) g) (ucast (sg_start_bus (mem s) g)) (group_functions (mem s) g). \<not> no_function (mem s) a}) \<and>
    in_use root s' \<and> (\<forall>v \<in> set vs. translate s' root (path_of v) = Some v) \<and>
    (\<forall>q. length q = 4 \<and> q \<notin> path_of ` set vs \<longrightarrow> translate s' root q = translate s root q)"
proof -
  note R = assms(4) [unfolded ready_to_probe_def]
  obtain x y xg yg where x: "pci_devices s = seg_addr x + sizeof_hdr" "is_vec (mem s) (heap_base_address s) e hs x y ds"
    "mcfg_segment_groups s = seg_addr xg + sizeof_hdr" "is_vec (mem s) (heap_base_address s) e hs xg yg groups"
    "x \<noteq> xg" "x \<noteq> yg" "\<forall>g \<in> set groups. group_block hs x g" using R by blast
  define c where "c = \<lparr>d_root = root, d_spaces = set vs, d_config = mem s, d_translation = translate s root,
    d_heap = heap_base_address s, d_heap_end = e, d_vector = x, d_before = ds, d_segments = hs, d_groups = mcfg_segment_groups s\<rparr>"
  have c: "d_root c = root" "d_spaces c = set vs" "d_config c = mem s" "d_translation c = translate s root" "d_heap c = heap_base_address s"
    "d_heap_end c = e" "d_vector c = x" "d_before c = ds" "d_segments c = hs" "d_groups c = mcfg_segment_groups s" by (simp_all add: c_def)
  have ok: "spaces_ok c" using R unfolding spaces_ok_def c by blast
  have "mapping root (set vs) (translate s root) {} s" using R by (auto simp: mapping_def)
  then have p: "probed c hs [] {} s"
    unfolding probed_def c using R x(1,2) by (auto simp: same_header_def kept_segs_def intro!: exI [of _ y] exI [of _ "[]"])
  from probe_groups_scan [OF ok, unfolded c, OF x(4,3,5,6,7) assms(3), of 0 hs "[]" "{}" s ps hs'] p assms(5)
  obtain s' where s': "probe_groups 0 s = Some s'" "probed c hs' found (set vs) s'" by (auto simp: c)
  note P = probedD [OF s'(2), unfolded c]
  from P(7) obtain z new where n: "is_vec (mem s') (heap_base_address s) e hs' x z (ds @ new)"
    "list_all2 (registered (mem s) (mem s') (descriptors_at s') hs' x) new found" by blast
  have "pcie_probe s = Some s'" using assms(1,2) s'(1) by (simp add: pcie_probe_def)
  moreover have "is_vector (mem s') (heap_base_address s') e hs' (pci_devices s') (ds @ new)"
    unfolding is_vector_def P(2,3) using n(1) by blast
  moreover have "list_all2 (describes (mem s) (mem s') (descriptors_at s')) new found"
    using n(2) by (rule list_all2_mono) (simp add: registered_def)
  ultimately show ?thesis
    using scan_groups_finds [OF assms(3)] mappingD(1) [OF P(1)] mappingD(5) [OF P(1)] mappingD(6) [OF P(1)] by blast
qed

theorem pcie_probe_finds_witness:
  "\<exists>s'. pcie_probe (pci_machine pci_low) = Some s' \<and> vector_size s' (pci_devices s') = 2 \<and>
    device_header (mem s') (vector_get s' (pci_devices s') 0) = 0x40100000 \<and>
    device_header (mem s') (vector_get s' (pci_devices s') 1) = 0x40000000"
proof -
  obtain vs where vs: "scan_groups (mem (pci_machine pci_low)) [0x100099] vs [space 256, space 0]" "set vs \<subseteq> space ` {..<512}"
    using pci_low_scan by blast
  obtain ps hs' where f: "first_fits (device_requests [0..<2]) segs_demo = Some (ps, hs')" using pci_low_heap(4) by blast
  have c: "acpi_get_mcfg (pci_machine pci_low) \<noteq> 0" by (simp add: acpi_get_mcfg_def pci_machine_def)
  have f2: "first_fits (device_requests [length []..<length [] + length [space 256, space 0]]) segs_demo = Some (ps, hs')"
    using f by (simp add: numeral_2_eq_2)
  obtain s' new where
    s': "pcie_probe (pci_machine pci_low) = Some s'" "is_vector (mem s') (heap_base_address s') 0x101000 hs' (pci_devices s') new"
      "list_all2 (describes (mem (pci_machine pci_low)) (mem s') (descriptors_at s')) new [space 256, space 0]"
    using pcie_probe_finds [OF pci_low_heap(3) c vs(1) pci_low_ready [OF vs(2)] f2] unfolding append_Nil by blast
  from s'(3) obtain d0 d1 where "new = [d0, d1]" "device_header (mem s') d0 = space 256" "device_header (mem s') d1 = space 0"
    by (auto simp: list_all2_Cons2 describes_def)
  then show ?thesis
    using s'(1) vector_size_get [OF s'(2), of 0] vector_size_get [OF s'(2), of 1] by (simp add: space_def)
qed

text \<open>
  C40. A bridge that has not been set up reports bus 0 as its secondary bus. When the first function present on a bus is a bridge that
  leads back to that bus, \<open>pcie_probe_bus\<close> does not return.
\<close>

theorem pcie_probe_bus_endless:
  fixes s :: "'a pci_scheme" and base_addr start_bus bus :: u64
  defines "f \<equiv> bus_function base_addr start_bus bus"
  assumes "k < 256" and "\<forall>j < k. no_function (mem s) (f j)"
    and "\<not> no_function (mem s) (f k)" and "is_bridge (mem s) (f k)" and "secondary_bus (mem s) (f k) = bus"
    and "in_use root s" and "config_spaces (f ` {..k})"
    and "3 + 3 * card (missing_tables root (f ` {..k}) s) \<le> card (free_pages s)"
    and "\<forall>j \<le> k. no_huge_page s root (f j) \<and> outside (f j) (vmm_bytes s root) \<and>
      (translate s root (path_of (f j)) = None \<or> translate s root (path_of (f j)) = Some (f j))"
  shows "pcie_probe_bus base_addr start_bus bus s = None"
proof (rule ccontr)
  assume "pcie_probe_bus base_addr start_bus bus s \<noteq> None"
  then obtain s' where s': "probe_from base_addr start_bus bus 0 0 s = Some s'" by (auto simp: pcie_probe_bus_def)
  have "mapping root (f ` {..k}) (translate s root) {} s" using assms(7-10) by (auto simp: mapping_def)
  then have "visible root (f ` {..k}) (translate s root) (mem s) {} s"
    using assms(10) by (auto simp: visible_def same_header_def)
  then have "\<exists>i j U. (0 :: u64) = of_nat i \<and> (0 :: u64) = of_nat j \<and> j \<le> 8 \<and> 8 * i + j \<le> k \<and>
      visible root (f ` {..k}) (translate s root) (mem s) U s"
    by (intro exI [of _ 0]) auto
  with probe_cycle [OF assms(8) _ assms(2) _ assms(4-6) [unfolded f_def] s' refl refl refl] assms(3)
  show False unfolding f_def by blast
qed

text \<open>Function 0 of bus 0 is a bridge after reset.\<close>

definition reset_bridge :: memory where
  "reset_bridge = (\<lambda>_. 0)(0x40000002 := 1, 0x4000000E := 1)"

theorem pcie_probe_bus_endless_witness:
  "pcie_probe_bus 0x40000000 0 0 (pci_machine reset_bridge) = None"
proof -
  let ?s = "pci_machine reset_bridge" and ?f = "bus_function 0x40000000 0 0"
  have f: "?f 0 = space 0" "space 0 = 0x40000000" using bus_function_space [of 0 0] by (simp_all add: space_def)
  have V: "?f ` {..0} \<subseteq> space ` {..<512}" by (auto simp: f(1))
  have m: "mem ?s x = reset_bridge x" if "x < 0x80000000" for x using pci_machine(7) [OF that] .
  note [simp] = m [unfolded reset_bridge_def] reset_bridge_def mem_simps no_function_def dev_device_id_def is_bridge_def dev_hdr_type_def secondary_bus_def
    bridge_secondary_bus_def sizeof_device_hdr_def
  show ?thesis
  proof (rule pcie_probe_bus_endless [of 0])
    show "in_use demo_root ?s" by (rule pci_machine(5))
    show "config_spaces (?f ` {..0})" using V by (rule config_spaces_demo)
    show "3 + 3 * card (missing_tables demo_root (?f ` {..0}) ?s) \<le> card (free_pages ?s)"
      using missing_demo [OF V, of demo_root ?s] pci_machine(2) [of reset_bridge] by simp
    show "\<forall>j \<le> 0. no_huge_page ?s demo_root (?f j) \<and> outside (?f j) (vmm_bytes ?s demo_root) \<and>
        (translate ?s demo_root (path_of (?f j)) = None \<or> translate ?s demo_root (path_of (?f j)) = Some (?f j))"
      using outside_demo(1) [of 0 reset_bridge] pci_machine(3,6) by (simp add: f(1))
  qed (simp_all add: f)
qed

end
