(* ===== verification/Interrupts.thy ===== *)
theory Interrupts
  imports Pci
begin

unbundle bit_operations_syntax

text \<open>
  \<open>src/int\<close>: the interrupt descriptor table in \<open>idt.c\<close>, its handlers in \<open>isr.c\<close>, the local APIC in \<open>lapic.c\<close> and
  their initialisation in \<open>int.c\<close>. The table and the register image are pages of the allocator. The
  addresses of the handlers are fixed by the linker and are a parameter \<open>isr_addr\<close>; \<open>_idt_load\<close> is the instruction \<open>lidt\<close>.
\<close>

section \<open>Handlers\<close>

datatype isr = Isr_default | Isr_div_by_zero | Isr_gp_fault | Isr_page_fault

text \<open>The endless loop behind each panic is not reached.\<close>

definition isr_default_handler :: "'m machine_scheme \<Rightarrow> (unit, 'm machine_scheme) outcome" where
  "isr_default_handler s = faults_panic ''Unhandled interrupt'' s"
definition isr_div_by_zero_handler :: "'m machine_scheme \<Rightarrow> (unit, 'm machine_scheme) outcome" where
  "isr_div_by_zero_handler s = faults_panic ''Division by zero'' s"
definition isr_gp_fault_handler :: "'m machine_scheme \<Rightarrow> (unit, 'm machine_scheme) outcome" where
  "isr_gp_fault_handler s = faults_panic ''General Protection fault'' s"
definition isr_page_fault_handler :: "'m machine_scheme \<Rightarrow> (unit, 'm machine_scheme) outcome" where
  "isr_page_fault_handler s = faults_panic ''Page fault'' s"

fun run_isr :: "isr \<Rightarrow> 'm machine_scheme \<Rightarrow> (unit, 'm machine_scheme) outcome" where
  "run_isr Isr_default s = isr_default_handler s"
| "run_isr Isr_div_by_zero s = isr_div_by_zero_handler s"
| "run_isr Isr_gp_fault s = isr_gp_fault_handler s"
| "run_isr Isr_page_fault s = isr_page_fault_handler s"

section \<open>The descriptor table\<close>

text \<open>
  The variables of \<open>idt.c\<close> and \<open>lapic.c\<close> (whose \<open>lapics\<close> is a variable of its own, besides the one of \<open>madt.c\<close>).
\<close>

record interrupts = pci +
  idt :: u64
  idtr :: u64
  lapic_lapics :: u64
  lapic_base_addr :: u64

text \<open>
  \<open>idt_entry_t\<close>: \<open>offset0\<close> and the segment selector (2 bytes each), two bytes of bit fields, \<open>offset1\<close> (2), \<open>offset2\<close>
  (4), reserved (4). In the first byte of bit fields \<open>ist\<close> are the bits 0 to 2, in the second one
  \<open>gate_type\<close> are the bits 0 to 3, \<open>dpl\<close> the bits 5 and 6 and \<open>present\<close> is bit 7.
\<close>

definition sizeof_idt_entry :: u64 where "sizeof_idt_entry = 2 + 2 + 2 + 2 + 4 + 4"

definition set_field :: "nat \<Rightarrow> nat \<Rightarrow> u8 \<Rightarrow> u64 \<Rightarrow> memory \<Rightarrow> memory" where
  "set_field low width v a m =
    m(a := (m a AND NOT (push_bit low (mask width))) OR push_bit low (v AND mask width))"

definition idt_init :: "'a interrupts_scheme \<Rightarrow> 'a interrupts_scheme" where
  "idt_init s =
    (let (p, s) = pmm_alloc s; s = s\<lparr>idt := p\<rparr>;
         (p, s) = pmm_alloc s; s = s\<lparr>idtr := p\<rparr>;
         idtr_size = idtr s;
         idtr_base = idtr_size + 2;
         m = store16 (mem s) idtr_size (ucast (256 * sizeof_idt_entry - 1));
         m = store64 m idtr_base (idt s)
     in s\<lparr>mem := m\<rparr>)"

definition write_gate :: "u64 \<Rightarrow> u64 \<Rightarrow> u8 \<Rightarrow> memory \<Rightarrow> memory" where
  "write_gate entry isr_address gate_type m =
    (let m = store16 m entry (ucast (isr_address AND 0xFFFF));
         m = store16 m (entry + 6) (ucast (drop_bit 16 isr_address AND 0xFFFF));
         m = store32 m (entry + 8) (ucast (drop_bit 32 isr_address AND 0xFFFFFFFF));
         m = store16 m (entry + 2) (push_bit 3 5);
         m = set_field 0 3 0 (entry + 4) m;
         m = set_field 5 2 0 (entry + 5) m;
         m = set_field 0 4 gate_type (entry + 5) m
     in set_field 7 1 1 (entry + 5) m)"

definition idt_set_handler :: "u8 \<Rightarrow> u64 \<Rightarrow> u8 \<Rightarrow> 'a interrupts_scheme \<Rightarrow> 'a interrupts_scheme" where
  "idt_set_handler vector handler gate_type s =
    s\<lparr>mem := write_gate (idt s + sizeof_idt_entry * ucast vector) handler gate_type (mem s)\<rparr>"

definition idt_install :: "'a interrupts_scheme \<Rightarrow> 'a interrupts_scheme" where
  "idt_install s = cpu (Lidt (idtr s)) s"

section \<open>The local APIC\<close>

text \<open>
  The loop over the local APICs of the MADT only reads their pointers, so it has no effect on the state.
  \<open>cpuid_ebx\<close> is the register \<open>ebx\<close> that the instruction \<open>cpuid\<close> returns for a leaf.
\<close>

definition lapic_init :: "'a interrupts_scheme \<Rightarrow> 'a interrupts_scheme" where
  "lapic_init s =
    (let s = s\<lparr>lapic_lapics := acpi_get_lapics s\<rparr>;
         s = s\<lparr>lapic_base_addr := acpi_get_lapic_addr s\<rparr>
     in vmm_map_page_flags (lapic_base_addr s) (lapic_base_addr s)
          (ucast (PT_ENTRY_READ_WRITE OR PT_ENTRY_CACHE_DISABLED)) s)"

definition lapic_get_cpu_num :: "(u32 \<Rightarrow> u32) \<Rightarrow> u8" where
  "lapic_get_cpu_num cpuid_ebx = ucast (drop_bit 24 (cpuid_ebx 1) AND 0xFF)"

section \<open>Initialisation\<close>

text \<open>The loop variable is an \<open>int\<close> that is passed as a \<open>uint8_t\<close>.\<close>

definition set_default_handlers :: "(isr \<Rightarrow> u64) \<Rightarrow> nat \<Rightarrow> 'a interrupts_scheme \<Rightarrow> 'a interrupts_scheme" where
  "set_default_handlers isr_addr n s = fold (\<lambda>i. idt_set_handler (of_nat i) (isr_addr Isr_default) 0xE) [0..<n] s"

definition int_init :: "(isr \<Rightarrow> u64) \<Rightarrow> 'a interrupts_scheme \<Rightarrow> 'a interrupts_scheme" where
  "int_init isr_addr s =
    (let s = cpu Cli s;
         s = idt_init s;
         s = set_default_handlers isr_addr 256 s;
         s = idt_set_handler 0 (isr_addr Isr_div_by_zero) 0xE s;
         s = idt_set_handler 0x0D (isr_addr Isr_gp_fault) 0xE s;
         s = idt_set_handler 0x0E (isr_addr Isr_page_fault) 0xE s;
         s = idt_install s;
         s = lapic_init s;
         s = print (''%C[Interrupts]%C - Interrupts installed'' @ newline)
           [PInt (ucast COLOUR_KERNEL_INFO), PInt (ucast COLOUR_PRINT)] s
     in cpu Sti s)"

end
