(* ===== verification/Interrupts_Correct.thy ===== *)
theory Interrupts_Correct
  imports Interrupts Vmm_Pages
begin

unbundle bit_operations_syntax

text \<open>
  What the interrupt descriptor table means to the processor: \<open>gate_at\<close> decodes an entry, \<open>deliver\<close> is the
  address at which an interrupt continues, as the processor's manual states it. After \<open>int_init\<close> every vector leads to its handler,
  unless the page the table lies in held a one in the reserved bit of the entry.
\<close>

section \<open>Entries\<close>

record gate =
  gate_offset :: u64
  gate_selector :: u16
  gate_ist :: u8
  gate_type :: u8
  gate_dpl :: u8
  gate_present :: bool

definition gate_at :: "memory \<Rightarrow> u64 \<Rightarrow> gate" where
  "gate_at m e =
    \<lparr>gate_offset = ucast (load16 m e) OR push_bit 16 (ucast (load16 m (e + 6))) OR push_bit 32 (ucast (load32 m (e + 8))),
     gate_selector = load16 m (e + 2),
     gate_ist = m (e + 4) AND mask 3,
     gate_type = m (e + 5) AND mask 4,
     gate_dpl = drop_bit 5 (m (e + 5)) AND mask 2,
     gate_present = bit (m (e + 5)) 7\<rparr>"

definition reserved_bit :: "memory \<Rightarrow> u64 \<Rightarrow> bool" where
  "reserved_bit m e \<longleftrightarrow> bit (m (e + 5)) 4"

definition deliver :: "memory \<Rightarrow> u64 \<Rightarrow> u8 \<Rightarrow> u64 option" where
  "deliver m reg v =
    (let limit = load16 m reg; base = load64 m (reg + 2); e = base + 16 * ucast v; g = gate_at m e
     in if 16 * unat v + 15 \<le> unat limit \<and> gate_present g \<and> \<not> reserved_bit m e \<and> (gate_type g = 0xE \<or> gate_type g = 0xF)
        then Some (gate_offset g) else None)"

text \<open>Ranges at fixed offsets from one address.\<close>

lemma offsets_apart [simp]:
  "disj (a :: u64) n (a + numeral k) l \<longleftrightarrow> n \<le> unat (numeral k :: u64) \<and> l \<le> unat (- numeral k :: u64)"
  "disj (a + numeral k) n a l \<longleftrightarrow> n \<le> unat (- numeral k :: u64) \<and> l \<le> unat (numeral k :: u64)"
  "disj (a + numeral k) n (a + numeral j) l \<longleftrightarrow>
    n \<le> unat (numeral j - numeral k :: u64) \<and> l \<le> unat (numeral k - numeral j :: u64)"
  "in_range (a + numeral k) a n \<longleftrightarrow> unat (numeral k :: u64) < n"
  "in_range a (a + numeral k) n \<longleftrightarrow> unat (- numeral k :: u64) < n"
  "in_range (a + numeral k) (a + numeral j) n \<longleftrightarrow> unat (numeral k - numeral j :: u64) < n"
  by (simp_all add: disj_def in_range_def algebra_simps)

lemma unat_neg_1 [simp]: "unat (- 1 :: u64) = 18446744073709551615"
  by (simp add: unsigned_minus_1_eq_mask mask_eq_exp_minus_1)

lemma split_offset:
  "(ucast (ucast (a AND 0xFFFF) :: u16) :: u64) OR push_bit 16 (ucast (ucast (drop_bit 16 a AND 0xFFFF) :: u16)) OR
    push_bit 32 (ucast (ucast (drop_bit 32 a AND 0xFFFFFFFF) :: u32)) = a"
proof -
  have m: "(0xFFFF :: u64) = mask 16" "(0xFFFFFFFF :: u64) = mask 32" by (simp_all add: mask_eq_exp_minus_1)
  show ?thesis
    unfolding m
  proof (rule bit_word_eqI)
    fix n assume "n < LENGTH(64)"
    then consider "n < 16" | "16 \<le> n" "n < 32" | "32 \<le> n" "n < 64" by fastforce
    then show "bit ((ucast (ucast (a AND mask 16) :: u16) :: u64) OR push_bit 16 (ucast (ucast (drop_bit 16 a AND mask 16) :: u16)) OR
        push_bit 32 (ucast (ucast (drop_bit 32 a AND mask 32) :: u32))) n = bit a n"
      by cases (auto simp: bit_simps)
  qed
qed

lemma set_field_apart:
  "\<not> in_range b a 2 \<Longrightarrow> load16 (set_field l w v b m) a = load16 m a"
  "\<not> in_range b a 4 \<Longrightarrow> load32 (set_field l w v b m) a = load32 m a"
proof -
  have "a + of_nat i \<noteq> b" if "i < n" "\<not> in_range b a n" "n < 2 ^ 64" for i n
    using that by (auto simp: in_range_def unat_of_nat take_bit_nat_eq_self)
  note ne = this
  show "load16 (set_field l w v b m) a = load16 m a" if "\<not> in_range b a 2"
    by (rule cell16.rd_cong) (use ne [of _ 2] that in \<open>auto simp: set_field_def\<close>)
  show "load32 (set_field l w v b m) a = load32 m a" if "\<not> in_range b a 4"
    by (rule cell32.rd_cong) (use ne [of _ 4] that in \<open>auto simp: set_field_def\<close>)
qed

lemma write_gate_outside: "\<not> in_range x e 16 \<Longrightarrow> write_gate e a t m x = m x"
proof -
  assume "\<not> in_range x e 16"
  moreover have "in_range x e 16" if "in_range x (e + of_nat k) n" "k + n \<le> 16" for k n
  proof -
    have "unat (x - (e + of_nat k) + of_nat k) = unat (x - (e + of_nat k)) + unat (of_nat k :: u64)"
      using that by (subst unat_add_lem [THEN iffD1]) (auto simp: in_range_def unat_of_nat take_bit_nat_eq_self)
    moreover have "x - (e + of_nat k) + of_nat k = x - e" by simp
    ultimately show ?thesis using that by (simp add: in_range_def unat_of_nat take_bit_nat_eq_self)
  qed
  from this [of 0 2] this [of 6 2] this [of 8 4] this [of 2 2] this [of 4 1] this [of 5 1]
  have "in_range x e 2 \<or> in_range x (e + 6) 2 \<or> in_range x (e + 8) 4 \<or> in_range x (e + 2) 2 \<or> x = e + 4 \<or> x = e + 5 \<longrightarrow>
      in_range x e 16"
    by auto
  ultimately show ?thesis
    by (simp add: write_gate_def Let_def set_field_def cell16.wr_outside cell32.wr_outside)
qed

lemma write_gate:
  "gate_at (write_gate e a t m) e =
    \<lparr>gate_offset = a, gate_selector = 0x28, gate_ist = 0, gate_type = t AND mask 4, gate_dpl = 0, gate_present = True\<rparr>"
  "reserved_bit (write_gate e a t m) e \<longleftrightarrow> reserved_bit m e"
proof -
  note W = cell16.rd_wr cell16.rd_wr_disj cell16.rd_frame [OF cell32.wr_outside] cell32.rd_wr cell32.rd_frame [OF cell16.wr_outside]
  have b5: "write_gate e a t m (e + 5) = (((m (e + 5) AND NOT (push_bit 5 (mask 2))) AND NOT (push_bit 0 (mask 4))) OR (t AND mask 4))
      AND NOT (push_bit 7 (mask 1)) OR push_bit 7 (1 AND mask 1)"
    by (simp add: write_gate_def Let_def set_field_def cell16.wr_outside cell32.wr_outside)
  have b4: "write_gate e a t m (e + 4) = m (e + 4) AND NOT (mask 3)"
    by (simp add: write_gate_def Let_def set_field_def cell16.wr_outside cell32.wr_outside)
  have l: "load16 (write_gate e a t m) e = ucast (a AND 0xFFFF)" 
    "load16 (write_gate e a t m) (e + 6) = ucast (drop_bit 16 a AND 0xFFFF)"
    "load32 (write_gate e a t m) (e + 8) = ucast (drop_bit 32 a AND 0xFFFFFFFF)"
    "load16 (write_gate e a t m) (e + 2) = 0x28"
    by (simp_all add: write_gate_def Let_def set_field_apart W)
  show "gate_at (write_gate e a t m) e =
    \<lparr>gate_offset = a, gate_selector = 0x28, gate_ist = 0, gate_type = t AND mask 4, gate_dpl = 0, gate_present = True\<rparr>"
  proof -
    have "\<not> bit (128 :: u8) n" if "n < 4" for n
      using that by (subgoal_tac "n = 0 \<or> n = 1 \<or> n = 2 \<or> n = 3") auto
    moreover have "\<not> bit (4 :: u8) n" if "n < 2" for n
      using that by (subgoal_tac "n = 0 \<or> n = 1") auto
    ultimately show ?thesis
      unfolding gate_at_def l b5 b4 split_offset by (auto simp: bit_simps intro!: bit_word_eqI)
  qed
  show "reserved_bit (write_gate e a t m) e \<longleftrightarrow> reserved_bit m e"
    unfolding reserved_bit_def b5 by (simp add: bit_simps)
qed

section \<open>The table\<close>

definition entry_at :: "u64 \<Rightarrow> u8 \<Rightarrow> u64" where
  "entry_at table v = table + sizeof_idt_entry * ucast v"

lemma unat_entry: "unat (sizeof_idt_entry * ucast (v :: u8)) = 16 * unat v" "16 * unat v + 16 \<le> 4096"
proof -
  have "unat v < 256" using unsigned_less [of v] by simp
  then show "unat (sizeof_idt_entry * ucast v) = 16 * unat v"
    by (simp add: sizeof_idt_entry_def unat_mult_lem [THEN iffD1] unsigned_ucast_eq take_bit_nat_eq_self)
  show "16 * unat v + 16 \<le> 4096" using \<open>unat v < 256\<close> by simp
qed

lemma entries_apart:
  assumes "v \<noteq> w"
  shows "disj (entry_at a v) 16 (entry_at a w) 16"
proof -
  have less: "disj (entry_at a v) 16 (entry_at a w) 16" if "unat v < unat w" for v w
  proof -
    have "unat (sizeof_idt_entry * ucast v) + 16 \<le> unat (sizeof_idt_entry * ucast w)"
      unfolding unat_entry(1) using that by linarith
    moreover have "unat (sizeof_idt_entry * ucast w) + 16 \<le> 2 ^ 64"
      unfolding unat_entry(1) using unat_entry(2) by (rule order_trans) simp
    ultimately show ?thesis unfolding entry_at_def by (rule disj_offsets) simp_all
  qed
  from assms have "unat v < unat w \<or> unat w < unat v" by (auto simp: word_unat_eq_iff)
  then show ?thesis using less disj_sym by blast
qed

lemma entry_in_table: "i < 16 \<Longrightarrow> in_range (entry_at a v + of_nat i) a 4096"
proof -
  assume i: "i < 16"
  have e: "unat (sizeof_idt_entry * ucast v + of_nat i :: u64) = 16 * unat v + i"
    using i unat_entry [of v] by (subst unat_add_lem [THEN iffD1]) (simp_all add: unat_of_nat take_bit_nat_eq_self)
  have d: "entry_at a v + of_nat i - a = sizeof_idt_entry * ucast v + of_nat i" by (simp add: entry_at_def)
  show ?thesis unfolding in_range_def d e using i unat_entry(2) [of v] by linarith
qed

lemma gate_cong:
  assumes "\<And>i. i < 16 \<Longrightarrow> m (e + of_nat i) = m' (e + of_nat i)"
  shows "gate_at m e = gate_at m' e" "reserved_bit m e = reserved_bit m' e"
proof -
  have at: "m (e + of_nat k + of_nat i) = m' (e + of_nat k + of_nat i)" if "k + i < 16" for k i
    using assms [OF that] by (simp add: ac_simps)
  have "load16 m (e + of_nat k) = load16 m' (e + of_nat k)" if "k + 2 \<le> 16" for k
    by (rule cell16.rd_cong) (use that in \<open>auto intro: at\<close>)
  from this [of 0] this [of 2] this [of 6]
  have l: "load16 m e = load16 m' e" "load16 m (e + 2) = load16 m' (e + 2)" "load16 m (e + 6) = load16 m' (e + 6)"
    by simp_all
  have "load32 m (e + of_nat 8) = load32 m' (e + of_nat 8)" by (rule cell32.rd_cong) (rule at, simp)
  then show "gate_at m e = gate_at m' e" "reserved_bit m e = reserved_bit m' e"
    using l assms [of 4] assms [of 5] by (simp_all add: gate_at_def reserved_bit_def)
qed

text \<open>Writing entries changes only the bytes of the table, and none of the reserved bits.\<close>

definition only_idt :: "'a interrupts_scheme \<Rightarrow> 'a interrupts_scheme \<Rightarrow> bool" where
  "only_idt s s' \<longleftrightarrow> s' = s\<lparr>mem := mem s'\<rparr> \<and> (\<forall>x. \<not> in_range x (idt s) 4096 \<longrightarrow> mem s' x = mem s x) \<and>
    (\<forall>v. reserved_bit (mem s') (entry_at (idt s) v) = reserved_bit (mem s) (entry_at (idt s) v))"

lemma only_idtD:
  assumes "only_idt s s'"
  shows "s' = s\<lparr>mem := mem s'\<rparr>" "\<not> in_range x (idt s) 4096 \<Longrightarrow> mem s' x = mem s x"
    "reserved_bit (mem s') (entry_at (idt s) v) = reserved_bit (mem s) (entry_at (idt s) v)" "idt s' = idt s"
proof -
  show e: "s' = s\<lparr>mem := mem s'\<rparr>" and "\<not> in_range x (idt s) 4096 \<Longrightarrow> mem s' x = mem s x"
    "reserved_bit (mem s') (entry_at (idt s) v) = reserved_bit (mem s) (entry_at (idt s) v)"
    using assms unfolding only_idt_def by blast+
  show "idt s' = idt s" by (subst e) simp
qed

lemma only_idt_trans [trans]:
  assumes "only_idt s s1" "only_idt s1 s2"
  shows "only_idt s s2"
proof -
  note A = only_idtD [OF assms(1)] and B = only_idtD [OF assms(2), unfolded A(4)]
  have "s2 = s\<lparr>mem := mem s2\<rparr>" by (subst B(1), subst A(1)) simp
  then show ?thesis unfolding only_idt_def using A(2,3) B(2,3) by simp
qed

lemma set_handler:
  fixes s :: "'a interrupts_scheme" and w :: u8 and h :: u64 and t :: u8
  defines "s' \<equiv> idt_set_handler w h t s"
  shows "only_idt s s'" "gate_at (mem s') (entry_at (idt s) v) =
    (if v = w then \<lparr>gate_offset = h, gate_selector = 0x28, gate_ist = 0, gate_type = t AND mask 4, gate_dpl = 0, gate_present = True\<rparr>
     else gate_at (mem s) (entry_at (idt s) v))"
proof -
  have m: "mem s' = write_gate (entry_at (idt s) w) h t (mem s)"
    by (simp add: s'_def idt_set_handler_def entry_at_def)
  have out: "mem s' x = mem s x" if "\<not> in_range x (entry_at (idt s) w) 16" for x
    unfolding m using that by (rule write_gate_outside)
  have other: "mem s' (entry_at (idt s) v + of_nat i) = mem s (entry_at (idt s) v + of_nat i)" if "v \<noteq> w" "i < 16" for v i
    by (rule out) (use not_in_range_disj [OF entries_apart [OF that(1)] that(2)] in simp)
  note G = gate_cong [of "mem s'" _ "mem s", OF other]
  show "gate_at (mem s') (entry_at (idt s) v) =
    (if v = w then \<lparr>gate_offset = h, gate_selector = 0x28, gate_ist = 0, gate_type = t AND mask 4, gate_dpl = 0, gate_present = True\<rparr>
     else gate_at (mem s) (entry_at (idt s) v))"
    using G(1) [of v] by (simp add: m write_gate)
  have "mem s' x = mem s x" if "\<not> in_range x (idt s) 4096" for x
  proof (rule out)
    show "\<not> in_range x (entry_at (idt s) w) 16"
    proof
      assume i: "in_range x (entry_at (idt s) w) 16"
      define i where "i = unat (x - entry_at (idt s) w)"
      have "x = entry_at (idt s) w + of_nat i" "i < 16" using i by (simp_all add: i_def in_range_def)
      with entry_in_table that show False by blast
    qed
  qed
  moreover have "reserved_bit (mem s') (entry_at (idt s) v) = reserved_bit (mem s) (entry_at (idt s) v)" for v
    using G(2) [of v] by (cases "v = w") (simp_all add: m write_gate)
  ultimately show "only_idt s s'" by (simp add: only_idt_def) (simp add: s'_def idt_set_handler_def)
qed

lemma set_default_handlers:
  fixes s :: "'a interrupts_scheme" and isr_addr :: "isr \<Rightarrow> u64" and n :: nat
  assumes "n \<le> 256"
  defines "s' \<equiv> set_default_handlers isr_addr n s"
  shows "only_idt s s' \<and> (\<forall>v. unat v < n \<longrightarrow> gate_at (mem s') (entry_at (idt s) v) =
    \<lparr>gate_offset = isr_addr Isr_default, gate_selector = 0x28, gate_ist = 0, gate_type = 0xE, gate_dpl = 0, gate_present = True\<rparr>)"
  using assms(1) unfolding s'_def
proof (induction n)
  case 0
  then show ?case by (simp add: set_default_handlers_def only_idt_def)
next
  case (Suc n)
  let ?s = "set_default_handlers isr_addr n s"
  have step: "set_default_handlers isr_addr (Suc n) s = idt_set_handler (of_nat n) (isr_addr Isr_default) 0xE ?s"
    by (simp add: set_default_handlers_def)
  from Suc have IH: "only_idt s ?s" and
    g: "\<And>v. unat v < n \<Longrightarrow> gate_at (mem ?s) (entry_at (idt s) v) = \<lparr>gate_offset = isr_addr Isr_default,
      gate_selector = 0x28, gate_ist = 0, gate_type = 0xE, gate_dpl = 0, gate_present = True\<rparr>" by auto
  note H = set_handler [where w = "of_nat n" and h = "isr_addr Isr_default" and t = "0xE" and s = ?s, unfolded only_idtD(4) [OF IH]]
  have "unat v < Suc n \<longleftrightarrow> unat v < n \<or> v = of_nat n" for v :: u8
    using Suc.prems by (auto simp: less_Suc_eq word_unat_eq_iff unat_of_nat take_bit_nat_eq_self)
  moreover have "(0xE :: u8) AND mask 4 = 0xE" by (simp add: mask_eq_exp_minus_1)
  ultimately show ?case
    unfolding step using only_idt_trans [OF IH H(1)] H(2) g by auto
qed

section \<open>Initialisation\<close>

lemma interrupts_fields:
  fixes s :: "'a interrupts_scheme"
  assumes "only_pmm s s'"
  shows "idt s' = idt s" "idtr s' = idtr s" "cpu_ops s' = cpu_ops s" "local_apic_addr s' = local_apic_addr s"
    "lapics s' = lapics s"
  using assms by (elim only_pmmE; simp)+

definition sets_variable :: "u64 \<Rightarrow> (u64 \<Rightarrow> 'a vmm_scheme \<Rightarrow> 'a vmm_scheme) \<Rightarrow> bool" where
  "sets_variable root f \<longleftrightarrow> (\<forall>p t. vmm_inv t root \<longrightarrow> keeps root t (f p t) \<and> free_pages (f p t) = free_pages t \<and>
    vmm_bytes (f p t) root = vmm_bytes t root)"

lemma sets_idt:
  "sets_variable root (\<lambda>p (t :: 'a interrupts_scheme). t\<lparr>idt := p\<rparr>)"
  "sets_variable root (\<lambda>p (t :: 'a interrupts_scheme). t\<lparr>idtr := p\<rparr>)"
proof -
  have st: "same_tables t (t\<lparr>idt := p\<rparr>)" "same_tables t (t\<lparr>idtr := p\<rparr>)" for t :: "'a interrupts_scheme" and p
    by (simp_all add: same_tables_def)
  then show "sets_variable root (\<lambda>p (t :: 'a interrupts_scheme). t\<lparr>idt := p\<rparr>)"
    "sets_variable root (\<lambda>p (t :: 'a interrupts_scheme). t\<lparr>idtr := p\<rparr>)"
    unfolding sets_variable_def same_tables [OF st(1)] same_tables [OF st(2)] by (auto intro: keeps_same_tables)
qed

text \<open>The image of the register: the limit and, unaligned, the address of the table.\<close>

definition write_idtr :: "u64 \<Rightarrow> u64 \<Rightarrow> memory \<Rightarrow> memory" where
  "write_idtr reg table m = store64 (store16 m reg 0xFFF) (reg + 2) table"

lemma write_idtr:
  "load16 (write_idtr reg table m) reg = 0xFFF" "load64 (write_idtr reg table m) (reg + 2) = table"
  "\<not> in_range x reg 4096 \<Longrightarrow> write_idtr reg table m x = m x"
proof -
  have "disj reg 2 (reg + 2) 8" by simp
  from cell16.rd_frame [OF _ this] show "load16 (write_idtr reg table m) reg = 0xFFF"
    unfolding write_idtr_def by (metis cell16.rd_wr cell64.wr_outside)
  show "load64 (write_idtr reg table m) (reg + 2) = table" by (simp add: write_idtr_def cell64.rd_wr)
  assume x: "\<not> in_range x reg 4096"
  then have "\<not> in_range x reg 2" using in_range_mono [of x reg 2 4096] by auto
  moreover have "\<not> in_range x (reg + 2) 8"
  proof
    assume i: "in_range x (reg + 2) 8"
    then have "unat (x - (reg + 2) + 2) = unat (x - (reg + 2)) + 2"
      by (subst unat_add_lem [THEN iffD1]) (auto simp: in_range_def)
    with i x show False by (simp add: in_range_def algebra_simps)
  qed
  ultimately show "write_idtr reg table m x = m x"
    by (simp add: write_idtr_def cell64.wr_outside cell16.wr_outside)
qed

text \<open>A page that is taken and stored in a variable.\<close>

lemma take_page:
  fixes s :: "'a interrupts_scheme" and f :: "u64 \<Rightarrow> 'a interrupts_scheme \<Rightarrow> 'a interrupts_scheme"
  assumes "vmm_inv s root" "free_pages s \<noteq> {}"
    and f: "sets_variable root f"
  defines "s1 \<equiv> f (fst (pmm_alloc s)) (snd (pmm_alloc s))" and "a \<equiv> fst (pmm_alloc_phys s)"
  shows "keeps root s s1" "free_pages s1 = free_pages s - {a}" "a \<in> free_pages s" "page_aligned a"
    "card (free_pages s) = card (free_pages s1) + 1" "fst (pmm_alloc s) = a + higher_half_offset s"
    "in_range x (a + higher_half_offset s) 4096 \<Longrightarrow> x \<notin> vmm_bytes s1 root"
    "in_range x (a + higher_half_offset s) 4096 \<Longrightarrow> x \<in> vmm_bytes s root"
    "in_range x (a + higher_half_offset s) 4096 \<Longrightarrow> mem (snd (pmm_alloc s)) x = mem s x"
proof -
  note A = vmm_inv_alloc [OF assms(1,2), folded a_def]
  have F: "keeps root (snd (pmm_alloc s)) s1" "free_pages s1 = free_pages (snd (pmm_alloc s))"
    "vmm_bytes s1 root = vmm_bytes (snd (pmm_alloc s)) root"
    unfolding s1_def using f A(6) unfolding sets_variable_def by blast+
  show "keeps root s s1" using keeps_alloc [OF assms(1,2)] F(1) by (rule keeps_trans)
  show "fst (pmm_alloc s) = a + higher_half_offset s" "a \<in> free_pages s" "page_aligned a" by (rule A)+
  show fr: "free_pages s1 = free_pages s - {a}" unfolding F(2) by (rule A(4))
  show "card (free_pages s) = card (free_pages s1) + 1"
    unfolding fr using card_Suc_Diff1 [OF finite_free_pages A(2)] by simp
  show "in_range x (a + higher_half_offset s) 4096 \<Longrightarrow> x \<notin> vmm_bytes s1 root" unfolding F(3) by (rule A(10))
  show "in_range x (a + higher_half_offset s) 4096 \<Longrightarrow> x \<in> vmm_bytes s root" by (rule A(14))
  show "in_range x (a + higher_half_offset s) 4096 \<Longrightarrow> mem (snd (pmm_alloc s)) x = mem s x"
    using free_page_not_bitmap_bytes [OF vmm_invD(2) [OF assms(1)] A(2)] by (intro A(7))
qed

lemma idt_init:
  fixes s :: "'a interrupts_scheme"
  assumes inv: "vmm_inv s root" and fr: "2 \<le> card (free_pages s)"
  defines "s' \<equiv> idt_init s"
  shows "keeps root s s'" "card (free_pages s) = card (free_pages s') + 2" "idt s' \<in> free_virt s"
    "load16 (mem s') (idtr s') = 0xFFF" "load64 (mem s') (idtr s' + 2) = idt s'"
    "in_range x (idt s') 4096 \<Longrightarrow> x \<notin> vmm_bytes s' root" "in_range x (idt s') 4096 \<Longrightarrow> mem s' x = mem s x"
    "in_range x (idtr s') 4096 \<Longrightarrow> x \<notin> vmm_bytes s' root" "in_range x (idtr s') 4096 \<Longrightarrow> \<not> in_range x (idt s') 4096"
    "local_apic_addr s' = local_apic_addr s"
proof -
  have ne: "free_pages s \<noteq> {}" using fr by auto
  define s1 where "s1 = (snd (pmm_alloc s))\<lparr>idt := fst (pmm_alloc s)\<rparr>"
  note A = take_page [OF inv ne sets_idt(1), folded s1_def]
  have ne1: "free_pages s1 \<noteq> {}" using fr A(5) by auto
  note inv1 = keepsD(1) [OF A(1)]
  define s2 where "s2 = (snd (pmm_alloc s1))\<lparr>idtr := fst (pmm_alloc s1)\<rparr>"
  note B = take_page [OF inv1 ne1 sets_idt(2), folded s2_def]
  define a b where "a = fst (pmm_alloc_phys s)" and "b = fst (pmm_alloc_phys s1)"
  note hh = keepsD(8) [OF A(1)]
  have o: "only_pmm s (snd (pmm_alloc s))" "only_pmm s1 (snd (pmm_alloc s1))"
    using vmm_inv_alloc(5) inv inv1 ne ne1 by blast+
  note F = interrupts_fields [OF o(1)] interrupts_fields [OF o(2)]
  have f1: "idt s1 = a + higher_half_offset s" using A(6) by (simp add: s1_def a_def)
  have f2: "idt s2 = a + higher_half_offset s" using f1 F(6) by (simp add: s2_def)
  have f3: "idtr s2 = b + higher_half_offset s" using B(6) by (simp add: s2_def b_def hh)
  have "b \<in> free_pages s - {a}" using B(3) A(2) by (simp add: a_def b_def)
  then have ab: "a \<noteq> b" by blast
  define m where "m = write_idtr (idtr s2) (idt s2) (mem s2)"
  have s': "s' = s2\<lparr>mem := m\<rparr>"
    by (simp add: s'_def idt_init_def s1_def s2_def m_def write_idtr_def Let_def split_beta sizeof_idt_entry_def)
  note W = write_idtr [where reg = "idtr s2" and table = "idt s2" and m = "mem s2", folded m_def]
  have apart: "\<not> in_range x (idt s2) 4096" if "in_range x (idtr s2) 4096" for x
    using pages_apart [OF A(4) B(4), folded a_def b_def] ab that unfolding f2 f3 by blast
  have reg: "x \<notin> vmm_bytes s2 root" "x \<in> vmm_bytes s1 root" if "in_range x (idtr s2) 4096" for x
    using B(7,8) [of x] that unfolding f3 by (simp_all add: b_def hh)
  have K: "keeps root s s2" using A(1) B(1) by (rule keeps_trans)
  have "m x = mem s2 x" if "x \<in> vmm_bytes s2 root \<or> x \<notin> vmm_bytes s root" for x
    using W(3) [of x] reg [of x] keepsD(2) [OF A(1)] that by blast
  note M = keeps_mem [OF K this, folded s']
  show "keeps root s s'" by (rule M(1))
  show "card (free_pages s) = card (free_pages s') + 2" using A(5) B(5) M(2) by simp
  show "idt s' \<in> free_virt s" using A(3) by (simp add: s' f2 free_virt_def a_def)
  show "load16 (mem s') (idtr s') = 0xFFF" "load64 (mem s') (idtr s' + 2) = idt s'" using W(1,2) by (simp_all add: s')
  have sub: "vmm_bytes s' root \<subseteq> vmm_bytes s2 root"
    unfolding s' by (rule vmm_inv_mem(3) [OF keepsD(1) [OF K]]) (use W(3) reg(1) in blast)
  have table: "x \<notin> vmm_bytes s1 root" if "in_range x (idt s2) 4096" for x
    using A(7) [of x] that unfolding f2 by (simp add: a_def)
  show "x \<notin> vmm_bytes s' root" if "in_range x (idt s') 4096"
    using table [of x] that sub keepsD(2) [OF B(1)] by (auto simp: s')
  show "x \<notin> vmm_bytes s' root" if "in_range x (idtr s') 4096" using reg(1) [of x] that sub by (auto simp: s')
  show "\<not> in_range x (idt s') 4096" if "in_range x (idtr s') 4096" using apart [of x] that by (simp add: s')
  show "mem s' x = mem s x" if "in_range x (idt s') 4096"
  proof -
    have x: "in_range x (idt s2) 4096" using that by (simp add: s')
    have "m x = mem s2 x" using apart [of x] x by (intro W(3)) blast
    also have "mem s2 x = mem s1 x" using table [OF x] by (rule keepsD(3) [OF B(1)])
    also have "mem s1 x = mem s x" using A(9) [of x] x by (simp add: f2 a_def s1_def)
    finally show ?thesis by (simp add: s')
  qed
  show "local_apic_addr s' = local_apic_addr s" using F(4,9) by (simp add: s' s2_def s1_def)
qed

text \<open>The handler of each vector, and the table after all of them have been set.\<close>

definition isr_of :: "u8 \<Rightarrow> isr" where
  "isr_of v = (if v = 0 then Isr_div_by_zero else if v = 0x0D then Isr_gp_fault
    else if v = 0x0E then Isr_page_fault else Isr_default)"

definition gate_for :: "u64 \<Rightarrow> gate" where
  "gate_for handler = \<lparr>gate_offset = handler, gate_selector = 0x28, gate_ist = 0, gate_type = 0xE, gate_dpl = 0, gate_present = True\<rparr>"

definition set_handlers :: "(isr \<Rightarrow> u64) \<Rightarrow> 'a interrupts_scheme \<Rightarrow> 'a interrupts_scheme" where
  "set_handlers isr_addr s =
    idt_set_handler 0x0E (isr_addr Isr_page_fault) 0xE (idt_set_handler 0x0D (isr_addr Isr_gp_fault) 0xE
      (idt_set_handler 0 (isr_addr Isr_div_by_zero) 0xE (set_default_handlers isr_addr 256 s)))"

lemma set_handlers:
  fixes s :: "'a interrupts_scheme"
  shows "only_idt s (set_handlers isr_addr s)"
    "gate_at (mem (set_handlers isr_addr s)) (entry_at (idt s) v) = gate_for (isr_addr (isr_of v))"
proof -
  let ?s = "set_default_handlers isr_addr 256 s"
  let ?divz = "idt_set_handler 0 (isr_addr Isr_div_by_zero) 0xE ?s"
  let ?gp = "idt_set_handler 0x0D (isr_addr Isr_gp_fault) 0xE ?divz"
  have "unat v < 256" for v :: u8 using unsigned_less [of v] by simp
  then have D: "only_idt s ?s" "gate_at (mem ?s) (entry_at (idt s) v) = gate_for (isr_addr Isr_default)"
    using set_default_handlers [of 256 s isr_addr] by (simp_all add: gate_for_def)
  have t: "(0xE :: u8) AND mask 4 = 0xE" by (simp add: mask_eq_exp_minus_1)
  have step: "only_idt s (idt_set_handler w h 0xE u)"
    "gate_at (mem (idt_set_handler w h 0xE u)) (entry_at (idt s) v) =
      (if v = w then gate_for h else gate_at (mem u) (entry_at (idt s) v))" if "only_idt s u" for w h u
    using only_idt_trans [OF that set_handler(1)] set_handler(2) [where s = u and t = "0xE" and w = w and h = h and v = v]
    by (simp_all only: only_idtD(4) [OF that] gate_for_def t)
  have o: "only_idt s ?divz" "only_idt s ?gp" using D(1) by (intro step; assumption)+
  show "only_idt s (set_handlers isr_addr s)" unfolding set_handlers_def using o(2) by (rule step(1))
  show "gate_at (mem (set_handlers isr_addr s)) (entry_at (idt s) v) = gate_for (isr_addr (isr_of v))"
    unfolding set_handlers_def step(2) [OF o(2)] step(2) [OF o(1)] step(2) [OF D(1)] D(2)
    by (simp add: isr_of_def)
qed

lemma deliver_entry:
  assumes "load16 m reg = 0xFFF" "load64 m (reg + 2) = table" "gate_at m (entry_at table v) = gate_for h"
  shows "deliver m reg v = (if reserved_bit m (entry_at table v) then None else Some h)"
  using unat_entry(2) [of v] assms(3)
  by (simp add: deliver_def Let_def assms(1,2) gate_for_def entry_at_def sizeof_idt_entry_def)

text \<open>
  \<open>idt_ready old h root s\<close>: the register points to the table, whose gates are those of the handlers \<open>h\<close>, with the reserved bits
  that \<open>old\<close> has; both are apart from page tables and allocator.
\<close>

definition idt_ready :: "memory \<Rightarrow> (u8 \<Rightarrow> u64) \<Rightarrow> u64 \<Rightarrow> 'a interrupts_scheme \<Rightarrow> bool" where
  "idt_ready old h root s \<longleftrightarrow> load16 (mem s) (idtr s) = 0xFFF \<and> load64 (mem s) (idtr s + 2) = idt s \<and>
    (\<forall>v. gate_at (mem s) (entry_at (idt s) v) = gate_for (h v) \<and>
      reserved_bit (mem s) (entry_at (idt s) v) = reserved_bit old (entry_at (idt s) v)) \<and>
    (\<forall>x. in_range x (idt s) 4096 \<or> in_range x (idtr s) 4096 \<longrightarrow> x \<notin> vmm_bytes s root)"

lemma register_cong:
  assumes "\<And>x. in_range x reg 4096 \<Longrightarrow> m' x = m x"
  shows "load16 m' reg = load16 m reg" "load64 m' (reg + 2) = load64 m (reg + 2)"
proof -
  have *: "m' (reg + of_nat i) = m (reg + of_nat i)" if "i < 4096" for i
    by (rule assms) (use that in \<open>simp add: in_range_def unat_of_nat take_bit_nat_eq_self\<close>)
  show "load16 m' reg = load16 m reg" by (rule cell16.rd_cong) (use * in simp)
  show "load64 m' (reg + 2) = load64 m (reg + 2)"
    by (rule cell64.rd_cong) (use * [of "2 + _"] in \<open>simp add: ac_simps\<close>)
qed

lemma idt_ready_cong:
  fixes s s' :: "'a interrupts_scheme"
  assumes "idt_ready old h root s" "\<And>x. x \<notin> vmm_bytes s root \<Longrightarrow> mem s' x = mem s x" "idt s' = idt s" "idtr s' = idtr s"
  shows "gate_at (mem s') (entry_at (idt s') v) = gate_for (h v)"
    "deliver (mem s') (idtr s') v = (if reserved_bit old (entry_at (idt s') v) then None else Some (h v))"
proof -
  note R = assms(1) [unfolded idt_ready_def]
  have "mem s' (entry_at (idt s) v + of_nat i) = mem s (entry_at (idt s) v + of_nat i)" if "i < 16" for i
    by (rule assms(2)) (use R entry_in_table [OF that] in blast)
  note G = gate_cong [of "mem s'" "entry_at (idt s) v" "mem s", OF this]
  have "mem s' x = mem s x" if "in_range x (idtr s) 4096" for x by (rule assms(2)) (use R that in blast)
  note L = register_cong [OF this]
  show g: "gate_at (mem s') (entry_at (idt s') v) = gate_for (h v)" using R G(1) assms(3) by simp
  have "reserved_bit (mem s') (entry_at (idt s') v) = reserved_bit old (entry_at (idt s') v)" using R G(2) assms(3) by simp
  then show "deliver (mem s') (idtr s') v = (if reserved_bit old (entry_at (idt s') v) then None else Some (h v))"
    using deliver_entry [OF _ _ g, of "idtr s'"] L R assms(3,4) by simp
qed

lemma idt_built:
  fixes s :: "'a interrupts_scheme" and isr_addr :: "isr \<Rightarrow> u64"
  assumes inv: "vmm_inv s root" and fr: "2 \<le> card (free_pages s)"
  defines "s' \<equiv> set_handlers isr_addr (idt_init s)"
  shows "keeps root s s'" "card (free_pages s) = card (free_pages s') + 2" "idt s' \<in> free_virt s"
    "local_apic_addr s' = local_apic_addr s" "idt_ready (mem s) (\<lambda>v. isr_addr (isr_of v)) root s'"
proof -
  define s1 where "s1 = idt_init s"
  note I = idt_init [OF inv fr, folded s1_def] and K = keepsD [OF idt_init(1) [OF inv fr], folded s1_def]
  note H = only_idtD [OF set_handlers(1) [of s1 isr_addr], unfolded s1_def, folded s'_def, folded s1_def]
    and G = set_handlers(2) [of isr_addr s1, unfolded s1_def, folded s'_def, folded s1_def]
  have m: "mem s' x = mem s1 x" if "x \<in> vmm_bytes s1 root" for x using I(6) that by (intro H(2)) blast
  note V = vmm_inv_mem [OF K(1) m, folded H(1)]
  have "mem s' x = mem s1 x" if "x \<in> vmm_bytes s1 root \<or> x \<notin> vmm_bytes s root" for x
    using that m H(2) [of x] I(3) unfolding vmm_bytes_def by blast
  from keeps_mem(1) [OF I(1) this] show "keeps root s s'" unfolding H(1) [symmetric] .
  have "idtr s' = idtr s1" "local_apic_addr s' = local_apic_addr s1" by (subst H(1), simp)+
  note f = this H(4)
  show "card (free_pages s) = card (free_pages s') + 2" using I(2) V(2) by simp
  show "idt s' \<in> free_virt s" "local_apic_addr s' = local_apic_addr s" using I(3,10) by (simp_all add: f)
  have "mem s' x = mem s1 x" if "in_range x (idtr s1) 4096" for x using H(2) I(9) [OF that] by blast
  note L = register_cong [OF this]
  have "mem s1 (entry_at (idt s1) v + of_nat i) = mem s (entry_at (idt s1) v + of_nat i)" if "i < 16" for v i
    using I(7) [OF entry_in_table [OF that]] .
  from gate_cong(2) [of "mem s1" _ "mem s", OF this]
  have "reserved_bit (mem s') (entry_at (idt s1) v) = reserved_bit (mem s) (entry_at (idt s1) v)" for v using H(3) by simp
  then show "idt_ready (mem s) (\<lambda>v. isr_addr (isr_of v)) root s'"
    unfolding idt_ready_def f using L I(4,5,6,8) G V(3) by auto
qed

section \<open>Property\<close>

text \<open>
  C8. \<open>int_init\<close> leaves a descriptor table in a formerly free page whose 256 gates are present interrupt
  gates of the kernel's code segment, each with the full address of its handler: vectors 0, 13 and 14 have their own, all
  others the default one. An interrupt is delivered to that handler unless the page held a one in the
  reserved bit of the gate, which the code never clears (the page is not zeroed). Interrupts are enabled last, after the
  table has been loaded, and the only change of the address space is the identity mapping of the local APIC.
\<close>

theorem int_init_correct:
  fixes s :: "'a interrupts_scheme" and isr_addr :: "isr \<Rightarrow> u64"
  assumes "vmm_inv s root" and "pml4 s = root + vmm_page_tables_offset s" and "vmm_initialised s"
    and "5 \<le> card (free_pages s)" and "no_huge_page s root (local_apic_addr s)"
  defines "s' \<equiv> int_init isr_addr s" and "apic \<equiv> local_apic_addr s"
  shows "vmm_inv s' root \<and> idt s' \<in> free_virt s \<and>
    (\<forall>v. gate_at (mem s') (entry_at (idt s') v) = gate_for (isr_addr (isr_of v)) \<and>
      deliver (mem s') (idtr s') v =
        (if reserved_bit (mem s) (entry_at (idt s') v) then None else Some (isr_addr (isr_of v)))) \<and>
    cpu_ops s' = cpu_ops s @ [Cli, Lidt (idtr s'), Invlpg (convert_to_phys s apic), Invlpg apic, Sti] \<and>
    (\<forall>p. length p = 4 \<longrightarrow> translate s' root p =
      (if p = path_of apic then Some (addr (convert_to_phys s apic)) else translate s root p))"
proof -
  define s0 where "s0 = cpu Cli s"
  have st0: "same_tables s s0" "cpu_ops s0 = cpu_ops s @ [Cli]" "pml4 s0 = pml4 s" "vmm_initialised s0 = vmm_initialised s" "mem s0 = mem s"
    "local_apic_addr s0 = apic"
    by (simp_all add: s0_def cpu_def same_tables_def apic_def)
  note S0 = same_tables [OF st0(1)]
  have i0: "vmm_inv s0 root" "2 \<le> card (free_pages s0)" unfolding S0 using assms(1,4) by simp_all
  define s2 where "s2 = set_handlers isr_addr (idt_init s0)"
  note B = idt_built [OF i0, of isr_addr, folded s2_def] and K = keepsD [OF idt_built(1) [OF i0, of isr_addr], folded s2_def]
  define s3 where "s3 = (idt_install s2)\<lparr>lapic_lapics := lapics s2, lapic_base_addr := local_apic_addr s2\<rparr>"
  have st3: "same_tables s2 s3" "cpu_ops s3 = cpu_ops s2 @ [Lidt (idtr s2)]" "pml4 s3 = pml4 s2" "idt s3 = idt s2" "idtr s3 = idtr s2"
    "vmm_initialised s3 = vmm_initialised s2"
    by (simp_all add: s3_def idt_install_def same_tables_def cpu_def)
  note S3 = same_tables [OF st3(1)]
  have inv3: "vmm_inv s3 root" "3 \<le> card (free_pages s3)" unfolding S3 using K(1) B(2) assms(4) S0 by simp_all
  have "no_huge_page s3 root apic = no_huge_page s2 root apic" "no_huge_page s0 root apic = no_huge_page s root apic"
    by (simp_all only: no_huge_page_def S3 S0)
  then have nh: "no_huge_page s3 root apic" using K(6) assms(5) by (simp add: apic_def)
  have p3: "pml4 s3 = root + vmm_page_tables_offset s3" "vmm_initialised s3"
    using assms(2,3) K(10-12) st3 st0 S0 S3 by simp_all
  have tb: "length q \<le> 3 \<Longrightarrow> tab s3 root q = tab s root q" "length q = 4 \<Longrightarrow> translate s3 root q = translate s root q" for q
    unfolding S3 using K(4,5) S0 by simp_all
  have C: "convert_to_phys s3 apic = convert_to_phys s apic"
    by (rule convert_to_phys_cong(2) [OF assms(1) inv3(1) assms(2,3) p3]) (erule tb)+
  define s4 where "s4 = lapic_init (idt_install s2)"
  have s4: "s4 = vmm_map_page_pml4 (root + vmm_page_tables_offset s3) apic apic (ucast (PT_ENTRY_READ_WRITE OR PT_ENTRY_CACHE_DISABLED)) s3"
    using p3(1) B(4) st0(6)
    by (simp add: s4_def s3_def lapic_init_def vmm_map_page_flags_def Let_def acpi_get_lapics_def acpi_get_lapic_addr_def
        idt_install_def cpu_def)
  note M = map_page_maps [OF inv3 nh, of apic "ucast (PT_ENTRY_READ_WRITE OR PT_ENTRY_CACHE_DISABLED)", folded s4, unfolded C]
  have s': "same_tables s4 s'" "cpu_ops s' = cpu_ops s4 @ [Sti]" "idt s' = idt s4" "idtr s' = idtr s4"
    by (simp_all add: s'_def int_init_def s4_def s2_def s0_def set_handlers_def Let_def print_def cpu_def same_tables_def)
  note S' = same_tables [OF s'(1)]
  have more: "vmm.more s4 = vmm.more s3" using M(3) by (rule only_vmm_fields)
  have vars: "idt s' = idt s2" "idtr s' = idtr s2" using more s'(3,4) st3(4,5) by (cases s4; cases s3; simp)+
  have "mem s' x = mem s2 x" if "x \<notin> vmm_bytes s2 root" for x
    using M(1) that unfolding maps_to_def S' S3 by blast
  note R = idt_ready_cong [OF B(5) this vars, unfolded st0(5)]
  have ops: "cpu_ops s' = cpu_ops s @ [Cli, Lidt (idtr s'), Invlpg (convert_to_phys s apic), Invlpg apic, Sti]"
    using M(2) K(13) st3(2) by (simp add: s'(2) st0(2) vars)
  have "idt s' \<in> free_virt s" using B(3) st0(1) by (simp add: vars free_virt_def S0 same_tables_def)
  moreover have "translate s' root p =
      (if p = path_of apic then Some (addr (convert_to_phys s apic)) else translate s root p)" if "length p = 4" for p
    using M(1) tb(2) [OF that] that unfolding maps_to_def S' by simp
  moreover have "vmm_inv s' root" using M(1) unfolding maps_to_def S' by blast
  ultimately show ?thesis using R ops by blast
qed

text \<open>The small machine with all variables of the later components 0.\<close>

definition demo_interrupts :: interrupts where
  "demo_interrupts = demo_machine (vmm.more (pci.extend (mcfg.extend (madt.extend (acpi.extend (heap.extend
    (blank_vmm (heap.fields 0 0)) (acpi.fields False 0 0 0 0 0 0 0 0)) (madt.fields 0 0 0 0 0 0 0)) (mcfg.fields 0 0))
    (pci.fields 0 (\<lambda>_. None))) (interrupts.fields 0 0 0 0)))"

fun demo_isr_addr :: "isr \<Rightarrow> u64" where
  "demo_isr_addr Isr_default = 0xFFFFFFFF80001000"
| "demo_isr_addr Isr_div_by_zero = 0xFFFFFFFF80001100"
| "demo_isr_addr Isr_gp_fault = 0xFFFFFFFF80001200"
| "demo_isr_addr Isr_page_fault = 0xFFFFFFFF80001300"

theorem int_init_correct_witness:
  "gate_offset (gate_at (mem (int_init demo_isr_addr demo_interrupts)) (entry_at (idt (int_init demo_isr_addr demo_interrupts)) 0x0E)) =
    0xFFFFFFFF80001300"
proof -
  from demo_interrupts_def obtain x where "demo_interrupts = demo_machine x" by blast
  note D = demo_machine_inv [where x = x, folded this]
  have "5 \<le> card (free_pages demo_interrupts)" unfolding D(2) by simp
  from int_init_correct [OF D(1,4,3) this D(7), of demo_isr_addr] show ?thesis
    by (simp add: gate_for_def isr_of_def)
qed

end
