(* ===== verification/Font.thy ===== *)
theory Font
  imports CString_Correct Faults Renderer
begin

unbundle bit_operations_syntax

text \<open>
  \<open>src/rendering/font.c\<close> and \<open>src/rendering/framebuffer.c\<close>: the font is one of the files the boot loader has loaded, in
  the format PSF1 or PSF2; the framebuffer is the first of the boot loader's answer. The answers of the boot loader are values
  (\<open>None\<close> is a null pointer), the files are bytes of the memory.

  The counters \<open>i\<close> and \<open>line\<close> of the search in the unicode table are C integers: the search is \<open>None\<close> when \<open>i\<close>
  overflows.
\<close>

section \<open>Structures\<close>

text \<open>\<open>struct limine_file\<close> and \<open>struct limine_framebuffer\<close>, as far as the code reads them.\<close>

record limine_file =
  file_path :: u64
  file_address :: u64
  file_size :: u64

record limine_framebuffer =
  lfb_address :: u64
  lfb_width :: u64
  lfb_height :: u64
  lfb_pitch :: u64

definition PSF1_FONT_MAGIC :: u16 where "PSF1_FONT_MAGIC = 0x0436"
definition PSF2_FONT_MAGIC :: u32 where "PSF2_FONT_MAGIC = 0x864ab572"

text \<open>\<open>psf1_header_t\<close>: magic (2 bytes), mode, character size. \<open>psf2_header_t\<close>: eight words of 4 bytes.\<close>

definition sizeof_psf1_header :: u64 where "sizeof_psf1_header = 2 + 1 + 1"
definition psf1_magic :: "memory \<Rightarrow> u64 \<Rightarrow> u16" where "psf1_magic m h = load16 m h"
definition psf1_character_size :: "memory \<Rightarrow> u64 \<Rightarrow> u8" where "psf1_character_size m h = m (h + 3)"

definition sizeof_psf2_header :: u64 where "sizeof_psf2_header = 8 * 4"
definition psf2_magic :: "memory \<Rightarrow> u64 \<Rightarrow> u32" where "psf2_magic m h = load32 m h"
definition psf2_flags :: "memory \<Rightarrow> u64 \<Rightarrow> u32" where "psf2_flags m h = load32 m (h + 12)"
definition psf2_num_glyphs :: "memory \<Rightarrow> u64 \<Rightarrow> u32" where "psf2_num_glyphs m h = load32 m (h + 16)"
definition psf2_bytes_per_glyph :: "memory \<Rightarrow> u64 \<Rightarrow> u32" where "psf2_bytes_per_glyph m h = load32 m (h + 20)"
definition psf2_height :: "memory \<Rightarrow> u64 \<Rightarrow> u32" where "psf2_height m h = load32 m (h + 24)"
definition psf2_width :: "memory \<Rightarrow> u64 \<Rightarrow> u32" where "psf2_width m h = load32 m (h + 28)"

section \<open>Framebuffer\<close>

definition framebuffer_init ::
  "limine_framebuffer list option \<Rightarrow> bamboo_fb \<Rightarrow> 's \<Rightarrow> (bamboo_fb, 's) outcome" where
  "framebuffer_init framebuffer_request fb s =
    (case framebuffer_request of
       None \<Rightarrow> faults_hang s
     | Some [] \<Rightarrow> faults_hang s
     | Some (lfb # _) \<Rightarrow>
         Done (fb\<lparr>fb_buffer := lfb_address lfb, fb_width := lfb_width lfb, fb_height := lfb_height lfb,
           fb_pitch := lfb_pitch lfb\<rparr>))"

section \<open>The unicode table\<close>

definition INT_MAX :: nat where "INT_MAX = 2 ^ 31 - 1"

text \<open>The length of a UTF-8 character by its first byte.\<close>

definition charlen :: "u8 \<Rightarrow> nat" where
  "charlen b = (if b AND 0xE0 = 0xC0 then 2 else if b AND 0xF0 = 0xE0 then 3 else if b AND 0xF8 = 0xF0 then 4 else 1)"

lemma charlen_pos: "0 < charlen b"
  by (simp add: charlen_def)

lemma charlen_progress: "\<not> n < i + charlen b \<Longrightarrow> n - (i + charlen b) < n - i"
  using charlen_pos [of b] by linarith

text \<open>\<open>Some (Some line)\<close>: found in this line; \<open>Some None\<close>: the loop ends without finding it.\<close>

function font_scan :: "memory \<Rightarrow> u64 \<Rightarrow> u64 \<Rightarrow> u64 \<Rightarrow> nat \<Rightarrow> nat \<Rightarrow> nat \<Rightarrow> nat option option" where
  "font_scan m table fsize offset ascii line i =
    (let b = m (table + of_nat i) in
     if unat b = ascii then Some (Some line)
     else
       (let line = (if b = 0xFF then line + 1 else line);
            j = i + charlen b
        in if j > INT_MAX then None
           else if line < 128 \<and> fsize > offset + of_nat j then font_scan m table fsize offset ascii line j
           else Some None))"
  by pat_completeness auto
termination
  by (relation "measure (\<lambda>(_, _, _, _, _, _, i). INT_MAX - i)") (auto simp: charlen_progress)

declare font_scan.simps [simp del]

fun load_mappings :: "memory \<Rightarrow> u64 \<Rightarrow> u64 \<Rightarrow> u64 \<Rightarrow> nat list \<Rightarrow> u32 list \<Rightarrow> u32 list option" where
  "load_mappings m table fsize offset [] maps = Some maps"
| "load_mappings m table fsize offset (ascii # rest) maps =
    (case font_scan m table fsize offset ascii 0 0 of
       None \<Rightarrow> None
     | Some None \<Rightarrow> load_mappings m table fsize offset rest maps
     | Some (Some line) \<Rightarrow> load_mappings m table fsize offset rest (maps[ascii := of_nat line]))"

section \<open>Loading\<close>

text \<open>The first file whose path ends with the given name.\<close>

fun find_module :: "u64 \<Rightarrow> limine_file list \<Rightarrow> memory \<Rightarrow> limine_file option option" where
  "find_module path [] m = Some None"
| "find_module path (f # fs) m =
    (case does_string_end_with (file_path f) path m of
       None \<Rightarrow> None
     | Some True \<Rightarrow> Some (Some f)
     | Some False \<Rightarrow> find_module path fs m)"

definition unicode_table_offset :: "memory \<Rightarrow> u64 \<Rightarrow> u64" where
  "unicode_table_offset m h = sizeof_psf2_header + ucast (psf2_num_glyphs m h * psf2_bytes_per_glyph m h)"

definition load_psf2 :: "limine_file \<Rightarrow> bamboo_font \<Rightarrow> memory \<Rightarrow> bamboo_font option" where
  "load_psf2 font_file font m =
    (let h = file_address font_file;
         font = font\<lparr>fi_width := psf2_width m h, fi_height := psf2_height m h, fi_num_glyphs := psf2_num_glyphs m h,
           fi_bytes_per_glyph := psf2_bytes_per_glyph m h\<rparr>;
         offset = unicode_table_offset m h;
         unicode_table = h + offset
     in case (if psf2_flags m h AND 0b1 \<noteq> 0
              then load_mappings m unicode_table (file_size font_file) offset [0..<128] (mappings font)
              else Some (mappings font)) of
          None \<Rightarrow> None
        | Some maps \<Rightarrow> Some (font\<lparr>mappings := maps, glyphs := h + sizeof_psf2_header\<rparr>))"

definition load_psf1 :: "limine_file \<Rightarrow> bamboo_font \<Rightarrow> memory \<Rightarrow> bamboo_font" where
  "load_psf1 font_file font m =
    (let h = file_address font_file;
         font = font\<lparr>fi_width := 8, fi_height := ucast (psf1_character_size m h), fi_num_glyphs := 128\<rparr>;
         font = font\<lparr>fi_bytes_per_glyph := fi_height font, glyphs := h + sizeof_psf1_header\<rparr>
     in font\<lparr>mappings := fold (\<lambda>i maps. maps[i := of_nat i]) [0..<128] (mappings font)\<rparr>)"

definition font_load ::
  "bamboo_font \<Rightarrow> u64 \<Rightarrow> limine_file list option \<Rightarrow> 'm machine_scheme \<Rightarrow> (bamboo_font, 'm machine_scheme) outcome" where
  "font_load font path module_request s =
    (case module_request of
       None \<Rightarrow> faults_hang s
     | Some modules \<Rightarrow>
       (case find_module path modules (mem s) of
          None \<Rightarrow> Undefined
        | Some None \<Rightarrow> faults_hang s
        | Some (Some font_file) \<Rightarrow>
          if psf1_magic (mem s) (file_address font_file) \<noteq> PSF1_FONT_MAGIC then
            if psf2_magic (mem s) (file_address font_file) \<noteq> PSF2_FONT_MAGIC then faults_hang s
            else returned (load_psf2 font_file font (mem s))
          else Done (load_psf1 font_file font (mem s))))"

end
