(* ===== verification/Font_Correct.thy ===== *)
theory Font_Correct
  imports Font CMemory_Eval
begin

unbundle bit_operations_syntax

text \<open>
  What \<open>font_load\<close> computes. The unicode table of a PSF2 file is the concatenation of one line per glyph; a line is a
  list of characters in UTF-8 (and separators of sequences) and ends with 0xFF. \<open>first_line\<close> is the glyph of a character,
  the first line that lists it, and the search in the bytes of the file is shown to find it.
\<close>

section \<open>The format\<close>

datatype psf_item = Char nat | Sequence

fun utf8 :: "nat \<Rightarrow> u8 list" where
  "utf8 c =
    (if c < 0x80 then [of_nat c]
     else if c < 0x800 then [0xC0 + of_nat (c div 64), 0x80 + of_nat (c mod 64)]
     else if c < 0x10000 then [0xE0 + of_nat (c div 4096), 0x80 + of_nat (c div 64 mod 64), 0x80 + of_nat (c mod 64)]
     else [0xF0 + of_nat (c div 262144), 0x80 + of_nat (c div 4096 mod 64), 0x80 + of_nat (c div 64 mod 64),
       0x80 + of_nat (c mod 64)])"

declare utf8.simps [simp del]

fun item_bytes :: "psf_item \<Rightarrow> u8 list" where
  "item_bytes (Char c) = utf8 c"
| "item_bytes Sequence = [0xFE]"

definition line_bytes :: "psf_item list \<Rightarrow> u8 list" where
  "line_bytes l = concat (map item_bytes l) @ [0xFF]"

definition table_bytes :: "psf_item list list \<Rightarrow> u8 list" where
  "table_bytes ls = concat (map line_bytes ls)"

fun item_ok :: "psf_item \<Rightarrow> bool" where
  "item_ok (Char c) \<longleftrightarrow> c < 0x110000"
| "item_ok Sequence \<longleftrightarrow> True"

text \<open>The glyph of a character among the first \<open>k\<close>.\<close>

fun first_line :: "nat \<Rightarrow> nat \<Rightarrow> psf_item list list \<Rightarrow> nat option" where
  "first_line c k [] = None"
| "first_line c 0 (l # ls) = None"
| "first_line c (Suc k) (l # ls) = (if Char c \<in> set l then Some 0 else map_option Suc (first_line c k ls))"

section \<open>The first byte of an item\<close>

lemma unat_and_high: "unat (b AND NOT (mask n)) = unat b div 2 ^ n * 2 ^ n" for b :: u8
proof -
  have le: "push_bit n (drop_bit n (unat b)) \<le> unat b" by (simp add: push_bit_eq_mult drop_bit_eq_div)
  have b: "unat b < 2 ^ 8" using unsigned_less [of b] by simp
  have "b AND NOT (mask n) = push_bit n (drop_bit n b)"
    by (rule bit_word_eqI) (auto simp: bit_simps)
  then have "unat (b AND NOT (mask n)) = take_bit 8 (push_bit n (drop_bit n (take_bit 8 (unat b))))"
    by (simp add: unsigned_push_bit_eq unsigned_drop_bit_eq)
  also have "\<dots> = push_bit n (drop_bit n (unat b))"
    using le b by (simp add: take_bit_nat_eq_self)
  finally show ?thesis by (simp add: push_bit_eq_mult drop_bit_eq_div)
qed

lemma charlen_range:
  "charlen b = (if 192 \<le> unat b \<and> unat b < 224 then 2 else if 224 \<le> unat b \<and> unat b < 240 then 3
    else if 240 \<le> unat b \<and> unat b < 248 then 4 else 1)"
proof -
  have m: "(0xE0 :: u8) = NOT (mask 5)" "(0xF0 :: u8) = NOT (mask 4)" "(0xF8 :: u8) = NOT (mask 3)"
    by (simp_all add: mask_eq_exp_minus_1)
  have "b AND 0xE0 = 0xC0 \<longleftrightarrow> 192 \<le> unat b \<and> unat b < 224"
    unfolding word_unat_eq_iff m(1) unat_and_high by auto
  moreover have "b AND 0xF0 = 0xE0 \<longleftrightarrow> 224 \<le> unat b \<and> unat b < 240"
    unfolding word_unat_eq_iff m(2) unat_and_high by auto
  moreover have "b AND 0xF8 = 0xF0 \<longleftrightarrow> 240 \<le> unat b \<and> unat b < 248"
    unfolding word_unat_eq_iff m(3) unat_and_high by auto
  ultimately show ?thesis unfolding charlen_def by simp
qed

text \<open>The first byte tells the length of the item, does not end the line, and is an ASCII character only as such.\<close>

lemma item_first:
  assumes "item_ok x"
  obtains b bs where "item_bytes x = b # bs" "charlen b = length (item_bytes x)" "b \<noteq> 0xFF"
    "\<And>c. c < 128 \<Longrightarrow> unat b = c \<longleftrightarrow> x = Char c"
proof (cases x)
  case Sequence
  then show ?thesis using that by (simp add: charlen_range)
next
  case (Char d)
  have u: "unat (k + of_nat n :: u8) = unat k + n" if "unat k + n < 256" for k n
    using that by (subst unat_add_lem [THEN iffD1]) (simp_all add: unat_of_nat take_bit_nat_eq_self)
  have s: "unat (of_nat n :: u8) = n" if "n < 256" for n
    using that by (simp add: unat_of_nat take_bit_nat_eq_self)
  consider "d < 0x80" | "0x80 \<le> d" "d < 0x800" | "0x800 \<le> d" "d < 0x10000" | "0x10000 \<le> d" "d < 0x110000"
    using assms Char by fastforce
  then show ?thesis
  proof cases
    case 1
    show ?thesis
      by (rule that [of "of_nat d" "[]"]) (use 1 Char s [of d] in \<open>auto simp: utf8.simps charlen_range word_unat_eq_iff\<close>)
  next
    case 2
    then have "d div 64 < 32" "2 \<le> d div 64" by auto
    then show ?thesis
      by (intro that [of "hd (utf8 d)" "tl (utf8 d)"])
        (use 2 Char u [of "0xC0" "d div 64"] in \<open>auto simp: utf8.simps charlen_range word_unat_eq_iff\<close>)
  next
    case 3
    then have "d div 4096 < 16" by auto
    then show ?thesis
      by (intro that [of "hd (utf8 d)" "tl (utf8 d)"])
        (use 3 Char u [of "0xE0" "d div 4096"] in \<open>auto simp: utf8.simps charlen_range word_unat_eq_iff\<close>)
  next
    case 4
    then have "d div 262144 < 5" by auto
    then show ?thesis
      by (intro that [of "hd (utf8 d)" "tl (utf8 d)"])
        (use 4 Char u [of "0xF0" "d div 262144"] in \<open>auto simp: utf8.simps charlen_range word_unat_eq_iff\<close>)
  qed
qed

section \<open>The search\<close>

lemma bytes_at_Nil [simp]: "bytes_at m a []"
  by (simp add: bytes_at_def)

lemma bytes_at_Cons [simp]: "bytes_at m a (x # xs) \<longleftrightarrow> m a = x \<and> bytes_at m (a + 1) xs"
  unfolding bytes_at_def by (auto simp: less_Suc_eq_0_disj ac_simps)

lemma bytes_at_append: "bytes_at m a (xs @ ys) \<longleftrightarrow> bytes_at m a xs \<and> bytes_at m (a + of_nat (length xs)) ys"
  by (induction xs arbitrary: a) (simp_all, simp_all add: bytes_at_def ac_simps)

lemma more_bytes:
  assumes "unat (offset :: u64) + n < 2 ^ 64" "j \<le> n"
  shows "offset + of_nat n > offset + of_nat j \<longleftrightarrow> j < n"
proof -
  have u: "unat (offset + of_nat k) = unat offset + k" if "k \<le> n" for k
    using that assms(1) by (subst unat_add_lem [THEN iffD1]) (simp_all add: unat_of_nat take_bit_nat_eq_self)
  show ?thesis using u [of n] u [of j] assms(2) by (simp add: word_less_nat_alt)
qed

text \<open>One round of the scan: an item that is not the character, and the end of a line.\<close>

lemma font_scan_item:
  assumes "item_bytes x = b # bs" "charlen b = length (item_bytes x)" "b \<noteq> 0xFF" "m (table + of_nat i) = b" "unat b \<noteq> c"
    and "line < 128" "i + length (item_bytes x) < n" "n \<le> INT_MAX" "unat offset + n < 2 ^ 64"
  shows "font_scan m table (offset + of_nat n) offset c line i =
    font_scan m table (offset + of_nat n) offset c line (i + length (item_bytes x))"
  using assms more_bytes [OF assms(9), of "i + length (item_bytes x)"]
  by (subst font_scan.simps) (simp add: Let_def)

lemma font_scan_line_end:
  assumes "m (table + of_nat i) = 0xFF" "c < 128" "i + 1 \<le> n" "n \<le> INT_MAX" "unat offset + n < 2 ^ 64"
  shows "font_scan m table (offset + of_nat n) offset c line i =
    (if line + 1 < 128 \<and> i + 1 < n then font_scan m table (offset + of_nat n) offset c (line + 1) (i + 1) else Some None)"
proof -
  have "unat (m (table + of_nat i)) \<noteq> c" "charlen 0xFF = 1" using assms(1,2) by (simp_all add: charlen_range)
  then show ?thesis
    using assms(1,3,4) more_bytes [OF assms(5), of "i + 1"] by (subst font_scan.simps) (simp add: Let_def)
qed

lemma font_scan_lines:
  assumes "c < 128" "line < 128" "\<forall>x \<in> set it. item_ok x" "\<forall>l \<in> set ls. \<forall>x \<in> set l. item_ok x"
    and "bytes_at m (table + of_nat i) (line_bytes it @ table_bytes ls)"
    and "i + length (line_bytes it @ table_bytes ls) = n" "n \<le> INT_MAX" "unat offset + n < 2 ^ 64"
  shows "font_scan m table (offset + of_nat n) offset c line i =
    Some (map_option ((+) line) (first_line c (128 - line) (it # ls)))"
  using assms
proof (induction "length (line_bytes it @ table_bytes ls)" arbitrary: it ls line i rule: less_induct)
  case less
  have k: "128 - line = Suc (127 - line)" using less.prems(2) by simp
  show ?case
  proof (cases it)
    case (Cons x it')
    have "item_ok x" using less.prems(3) Cons by simp
    then obtain b bs where b: "item_bytes x = b # bs" "charlen b = length (item_bytes x)" "b \<noteq> 0xFF"
      "\<And>c. c < 128 \<Longrightarrow> unat b = c \<longleftrightarrow> x = Char c" by (rule item_first) blast
    let ?j = "i + length (item_bytes x)"
    have lb: "line_bytes it = item_bytes x @ line_bytes it'" by (simp add: Cons line_bytes_def)
    have at: "m (table + of_nat i) = b" "bytes_at m (table + of_nat ?j) (line_bytes it' @ table_bytes ls)"
      using less.prems(5) by (simp_all add: lb bytes_at_append b(1) ac_simps)
    have n: "?j + length (line_bytes it' @ table_bytes ls) = n" using less.prems(6) by (simp add: lb)
    then have jn: "?j < n" by (simp add: line_bytes_def)
    show ?thesis
    proof (cases "x = Char c")
      case True
      then have "unat (m (table + of_nat i)) = c" using b(4) less.prems(1) at(1) by simp
      then have "font_scan m table (offset + of_nat n) offset c line i = Some (Some line)"
        by (subst font_scan.simps) simp
      then show ?thesis using True by (simp add: k Cons)
    next
      case False
      then have "unat b \<noteq> c" using b(4) less.prems(1) by simp
      with b(1-3) at(1) less.prems(2) jn less.prems(7,8)
      have "font_scan m table (offset + of_nat n) offset c line i = font_scan m table (offset + of_nat n) offset c line ?j"
        by (intro font_scan_item)
      also have "font_scan m table (offset + of_nat n) offset c line ?j = Some (map_option ((+) line) (first_line c (128 - line) (it' # ls)))"
        using less.prems(1-4,7,8) Cons at(2) n by (intro less.hyps) (simp_all add: lb [unfolded Cons] b(1))
      also have "first_line c (128 - line) (it' # ls) = first_line c (128 - line) (it # ls)"
        using False by (simp add: k Cons)
      finally show ?thesis .
    qed
  next
    case Nil
    have "unat (m (table + of_nat i)) = 255" using less.prems(5) by (simp add: Nil line_bytes_def)
    then have "m (table + of_nat i) = 0xFF" by (simp add: word_unat_eq_iff)
    have at: "bytes_at m (table + of_nat (i + 1)) (table_bytes ls)"
      using less.prems(5) by (simp add: Nil line_bytes_def ac_simps)
    have n: "i + 1 + length (table_bytes ls) = n" using less.prems(6) by (simp add: Nil line_bytes_def)
    have scan: "font_scan m table (offset + of_nat n) offset c line i =
      (if line + 1 < 128 \<and> i + 1 < n then font_scan m table (offset + of_nat n) offset c (line + 1) (i + 1) else Some None)"
      by (rule font_scan_line_end) (use \<open>m _ = 0xFF\<close> n less.prems(1,7,8) in simp_all)
    have nil: "first_line c (128 - line) (it # ls) = map_option Suc (first_line c (127 - line) ls)"
      by (simp add: k Nil)
    show ?thesis
    proof (cases "line + 1 < 128 \<and> ls \<noteq> []")
      case False
      then have "first_line c (127 - line) ls = None" by (cases ls) auto
      moreover have "\<not> (line + 1 < 128 \<and> i + 1 < n)" using False n by (auto simp: table_bytes_def)
      then have "font_scan m table (offset + of_nat n) offset c line i = Some None" unfolding scan by (rule if_not_P)
      ultimately show ?thesis using nil by simp
    next
      case True
      then obtain l ls' where ls: "ls = l # ls'" by (cases ls) auto
      have t: "table_bytes ls = line_bytes l @ table_bytes ls'" by (simp add: ls table_bytes_def)
      have "i + 1 < n" using n by (simp add: t line_bytes_def)
      then have "font_scan m table (offset + of_nat n) offset c line i = font_scan m table (offset + of_nat n) offset c (line + 1) (i + 1)"
        using True scan by simp
      also have "\<dots> = Some (map_option ((+) (line + 1)) (first_line c (128 - (line + 1)) (l # ls')))"
        using less.prems(1,4,7,8) True at n by (intro less.hyps) (simp_all add: t [unfolded ls] ls Nil line_bytes_def)
      also have "(+) (line + 1) = (+) line \<circ> Suc" by auto
      finally show ?thesis using nil by (simp add: ls option.map_comp comp_def)
    qed
  qed
qed

section \<open>Loading\<close>

lemma load_mappings:
  assumes "\<And>c. c \<in> set cs \<Longrightarrow> font_scan m table fsize offset c 0 0 = Some (g c)" "distinct cs" "\<forall>c \<in> set cs. c < length maps"
  shows "\<exists>maps'. load_mappings m table fsize offset cs maps = Some maps' \<and> length maps' = length maps \<and>
    (\<forall>c < length maps. maps' ! c =
      (if c \<in> set cs then (case g c of None \<Rightarrow> maps ! c | Some l \<Rightarrow> of_nat l) else maps ! c))"
  using assms
proof (induction cs arbitrary: maps)
  case (Cons c cs)
  define maps1 where "maps1 = (case g c of None \<Rightarrow> maps | Some l \<Rightarrow> maps[c := of_nat l])"
  have eq: "load_mappings m table fsize offset (c # cs) maps = load_mappings m table fsize offset cs maps1"
    using Cons.prems(1) [of c] by (simp add: maps1_def split: option.splits)
  have len: "length maps1 = length maps" by (simp add: maps1_def split: option.splits)
  have nth: "maps1 ! d = (if d = c then (case g c of None \<Rightarrow> maps ! c | Some l \<Rightarrow> of_nat l) else maps ! d)" for d
    using Cons.prems(3) by (simp add: maps1_def split: option.splits)
  have "\<exists>maps'. load_mappings m table fsize offset cs maps1 = Some maps' \<and> length maps' = length maps1 \<and>
    (\<forall>c < length maps1. maps' ! c =
      (if c \<in> set cs then (case g c of None \<Rightarrow> maps1 ! c | Some l \<Rightarrow> of_nat l) else maps1 ! c))"
    using Cons.prems by (intro Cons.IH) (simp_all add: len)
  then obtain maps' where M: "load_mappings m table fsize offset cs maps1 = Some maps'" "length maps' = length maps"
    "\<And>d. d < length maps \<Longrightarrow> maps' ! d =
      (if d \<in> set cs then (case g d of None \<Rightarrow> maps1 ! d | Some l \<Rightarrow> of_nat l) else maps1 ! d)"
    using len by auto
  have "maps' ! d = (if d \<in> set (c # cs) then (case g d of None \<Rightarrow> maps ! d | Some l \<Rightarrow> of_nat l) else maps ! d)"
    if "d < length maps" for d
    using M(3) [OF that] nth [of d] Cons.prems(2) by (auto split: option.splits)
  with M(1,2) show ?case unfolding eq by blast
qed simp

text \<open>The file that is loaded: the first one whose path ends with the name.\<close>

definition chosen_file :: "(limine_file \<Rightarrow> u8 list) \<Rightarrow> u8 list \<Rightarrow> limine_file list \<Rightarrow> limine_file option" where
  "chosen_file path_of_file name files = find (\<lambda>f. suffix name (path_of_file f)) files"

lemma find_module:
  assumes "cstring m path name" "\<forall>f \<in> set files. cstring m (file_path f) (path_of_file f)"
  shows "find_module path files m = Some (chosen_file path_of_file name files)"
  using assms(2)
proof (induction files)
  case (Cons f fs)
  then have "does_string_end_with (file_path f) path m = Some (suffix name (path_of_file f))"
    using assms(1) by (intro end_with_suffix) simp
  with Cons show ?case by (simp add: chosen_file_def)
qed (simp add: chosen_file_def)

lemma font_load_chosen:
  assumes "cstring (mem s) path name" "\<forall>f \<in> set files. cstring (mem s) (file_path f) (path_of_file f)"
  shows "font_load font path (Some files) s =
    (case chosen_file path_of_file name files of
       None \<Rightarrow> Hung s
     | Some f \<Rightarrow>
       if psf1_magic (mem s) (file_address f) = PSF1_FONT_MAGIC then Done (load_psf1 f font (mem s))
       else if psf2_magic (mem s) (file_address f) = PSF2_FONT_MAGIC then returned (load_psf2 f font (mem s))
       else Hung s)"
  by (simp add: font_load_def find_module [OF assms] faults_hang_def split: option.splits)

section \<open>Properties\<close>

text \<open>
  \<open>font_load\<close> stops the machine exactly when the boot loader gave no answer, when no file has a path that ends with the
  name, or when the first such file has neither magic number; nothing else is tried then.
\<close>

lemma font_load_hangs:
  fixes s :: "'m machine_scheme"
  assumes "cstring (mem s) path name"
    and "\<forall>files. module_request = Some files \<longrightarrow> (\<forall>f \<in> set files. cstring (mem s) (file_path f) (path_of_file f))"
  shows "font_load font path module_request s = Hung s' \<longleftrightarrow> s' = s \<and>
    (case module_request of None \<Rightarrow> True
     | Some files \<Rightarrow>
       (case chosen_file path_of_file name files of None \<Rightarrow> True
        | Some f \<Rightarrow> psf1_magic (mem s) (file_address f) \<noteq> PSF1_FONT_MAGIC \<and>
            psf2_magic (mem s) (file_address f) \<noteq> PSF2_FONT_MAGIC))"
proof (cases module_request)
  case None
  then show ?thesis by (auto simp: font_load_def faults_hang_def)
next
  case (Some files)
  have r: "returned x \<noteq> Hung s'" for x :: "bamboo_font option" by (cases x) simp_all
  show ?thesis
    using font_load_chosen [OF assms(1), of files path_of_file font] assms(2) Some r
    by (auto split: option.splits if_splits)
qed

text \<open>A file \<open>/f\<close> with two glyphs: the first one for the letter A and an accented letter of two bytes, the second one for B.\<close>

definition font_memory :: memory where
  "font_memory = (\<lambda>_. 0)(0x100 := 0x66, 0x200 := 0x2F, 0x201 := 0x66,
    0x1000 := 0x72, 0x1001 := 0xB5, 0x1002 := 0x4A, 0x1003 := 0x86, 0x100C := 1, 0x1010 := 2, 0x1014 := 1,
    0x1018 := 16, 0x101C := 8,
    0x1022 := 0x41, 0x1023 := 0xC3, 0x1024 := 0xA9, 0x1025 := 0xFF, 0x1026 := 0x42, 0x1027 := 0xFF)"

definition font_machine :: machine where
  "font_machine = \<lparr>mem = font_memory, cpu_ops = [], console = []\<rparr>"

definition demo_file :: limine_file where
  "demo_file = \<lparr>file_path = 0x200, file_address = 0x1000, file_size = 40\<rparr>"

definition demo_font :: bamboo_font where
  "demo_font = \<lparr>fi_width = 0, fi_height = 0, fi_num_glyphs = 0, fi_bytes_per_glyph = 0, mappings = replicate 128 0, glyphs = 0\<rparr>"

definition demo_lines :: "psf_item list list" where
  "demo_lines = [[Char 0x41, Char 0xE9], [Char 0x42]]"

lemma demo_font:
  "cstring (mem font_machine) 0x100 [0x66]" "\<forall>f \<in> set [demo_file]. cstring (mem font_machine) (file_path f) [0x2F, 0x66]"
  "chosen_file (\<lambda>_. [0x2F, 0x66]) [0x66] [demo_file] = Some demo_file"
  "psf1_magic (mem font_machine) 0x1000 \<noteq> PSF1_FONT_MAGIC" "psf2_magic (mem font_machine) 0x1000 = PSF2_FONT_MAGIC"
  "psf2_flags (mem font_machine) 0x1000 AND 1 \<noteq> 0" "unicode_table_offset (mem font_machine) 0x1000 = 34"
  "bytes_at (mem font_machine) (0x1000 + 34) (table_bytes demo_lines)" "length (table_bytes demo_lines) = 6"
proof -
  note [simp] = font_machine_def font_memory_def demo_file_def
  show "cstring (mem font_machine) 0x100 [0x66]" "\<forall>f \<in> set [demo_file]. cstring (mem font_machine) (file_path f) [0x2F, 0x66]"
    by (simp_all add: cstring_def)
  show "chosen_file (\<lambda>_. [0x2F, 0x66]) [0x66] [demo_file] = Some demo_file"
    by (simp add: chosen_file_def suffix_def)
  show "psf1_magic (mem font_machine) 0x1000 \<noteq> PSF1_FONT_MAGIC" "psf2_magic (mem font_machine) 0x1000 = PSF2_FONT_MAGIC"
    "psf2_flags (mem font_machine) 0x1000 AND 1 \<noteq> 0" "unicode_table_offset (mem font_machine) 0x1000 = 34"
    by (simp_all add: psf1_magic_def PSF1_FONT_MAGIC_def psf2_magic_def PSF2_FONT_MAGIC_def psf2_flags_def
        unicode_table_offset_def psf2_num_glyphs_def psf2_bytes_per_glyph_def sizeof_psf2_header_def mem_simps)
  have t: "table_bytes demo_lines = [0x41, 0xC3, 0xA9, 0xFF, 0x42, 0xFF]"
    by (simp add: table_bytes_def demo_lines_def line_bytes_def utf8.simps)
  then show "bytes_at (mem font_machine) (0x1000 + 34) (table_bytes demo_lines)" "length (table_bytes demo_lines) = 6"
    by simp_all
qed

text \<open>
  C22. A PSF2 font whose unicode table is well-formed is loaded completely: the sizes are those of its header, the glyphs start
  behind the header, and the glyph of every ASCII character is the first of the first 128 lines of the
  table that lists it. Characters that are not listed keep their old mapping.
\<close>

theorem font_load_psf2:
  fixes s :: "'m machine_scheme" and font :: bamboo_font
  assumes "cstring (mem s) path name" and "\<forall>f \<in> set files. cstring (mem s) (file_path f) (path_of_file f)"
    and "chosen_file path_of_file name files = Some f" and "h = file_address f"
    and "psf1_magic (mem s) h \<noteq> PSF1_FONT_MAGIC" and "psf2_magic (mem s) h = PSF2_FONT_MAGIC"
    and "psf2_flags (mem s) h AND 1 \<noteq> 0" and "offset = unicode_table_offset (mem s) h"
    and "bytes_at (mem s) (h + offset) (table_bytes ls)" and "ls \<noteq> []" and "\<forall>l \<in> set ls. \<forall>x \<in> set l. item_ok x"
    and "file_size f = offset + of_nat (length (table_bytes ls))" and "length (table_bytes ls) \<le> INT_MAX"
    and "unat offset + length (table_bytes ls) < 2 ^ 64" and "length (mappings font) = 128"
  shows "\<exists>maps. font_load font path (Some files) s =
      Done (font\<lparr>fi_width := psf2_width (mem s) h, fi_height := psf2_height (mem s) h,
        fi_num_glyphs := psf2_num_glyphs (mem s) h, fi_bytes_per_glyph := psf2_bytes_per_glyph (mem s) h,
        mappings := maps, glyphs := h + sizeof_psf2_header\<rparr>) \<and>
    length maps = 128 \<and>
    (\<forall>c < 128. maps ! c = (case first_line c 128 ls of None \<Rightarrow> mappings font ! c | Some l \<Rightarrow> of_nat l))"
proof -
  obtain l ls' where ls: "ls = l # ls'" using assms(10) by (cases ls) auto
  have t: "table_bytes ls = line_bytes l @ table_bytes ls'" by (simp add: ls table_bytes_def)
  have ok: "\<forall>x \<in> set l. item_ok x" "\<forall>l \<in> set ls'. \<forall>x \<in> set l. item_ok x" using assms(11) by (simp_all add: ls)
  have id: "(+) (0 :: nat) = id" by auto
  have scan: "font_scan (mem s) (h + offset) (file_size f) offset c 0 0 = Some (first_line c 128 ls)" if "c < 128" for c
    using font_scan_lines [OF that _ ok, of 0 "mem s" "h + offset" 0 "length (table_bytes ls)" offset, folded t] assms(9,13,14)
    by (simp add: assms(12) id ls [symmetric] option.map_id)
  have "\<exists>maps. load_mappings (mem s) (h + offset) (file_size f) offset [0..<128] (mappings font) = Some maps \<and>
    length maps = length (mappings font) \<and>
    (\<forall>c < length (mappings font). maps ! c = (if c \<in> set [0..<128] then
      (case first_line c 128 ls of None \<Rightarrow> mappings font ! c | Some l \<Rightarrow> of_nat l) else mappings font ! c))"
    using scan assms(15) by (intro load_mappings) auto
  then obtain maps where maps: "load_mappings (mem s) (h + offset) (file_size f) offset [0..<128] (mappings font) = Some maps"
    "length maps = 128" "\<forall>c < 128. maps ! c = (case first_line c 128 ls of None \<Rightarrow> mappings font ! c | Some l \<Rightarrow> of_nat l)"
    using assms(15) by auto
  have "font_load font path (Some files) s =
      Done (font\<lparr>fi_width := psf2_width (mem s) h, fi_height := psf2_height (mem s) h,
        fi_num_glyphs := psf2_num_glyphs (mem s) h, fi_bytes_per_glyph := psf2_bytes_per_glyph (mem s) h,
        mappings := maps, glyphs := h + sizeof_psf2_header\<rparr>)"
    using assms(5-7) maps(1) by (simp add: font_load_chosen [OF assms(1,2)] assms(3,4,8) load_psf2_def Let_def)
  with maps(2,3) show ?thesis by blast
qed

theorem font_load_psf2_witness:
  "\<exists>font. font_load demo_font 0x100 (Some [demo_file]) font_machine = Done font \<and>
    mappings font ! 0x41 = 0 \<and> mappings font ! 0x42 = 1 \<and> mappings font ! 0x43 = 0"
proof -
  note D = demo_font
  have f: "0x1000 = file_address demo_file" "34 = unicode_table_offset (mem font_machine) 0x1000"
    "file_size demo_file = 34 + of_nat (length (table_bytes demo_lines))" "length (table_bytes demo_lines) \<le> INT_MAX"
    "unat (34 :: u64) + length (table_bytes demo_lines) < 2 ^ 64" "length (mappings demo_font) = 128"
    "demo_lines \<noteq> []" "\<forall>l \<in> set demo_lines. \<forall>x \<in> set l. item_ok x"
    by (simp_all add: demo_file_def D(7,9) INT_MAX_def demo_font_def) (simp_all add: demo_lines_def)
  obtain maps where m: "font_load demo_font 0x100 (Some [demo_file]) font_machine =
      Done (demo_font\<lparr>fi_width := psf2_width (mem font_machine) 0x1000, fi_height := psf2_height (mem font_machine) 0x1000,
        fi_num_glyphs := psf2_num_glyphs (mem font_machine) 0x1000,
        fi_bytes_per_glyph := psf2_bytes_per_glyph (mem font_machine) 0x1000,
        mappings := maps, glyphs := 0x1000 + sizeof_psf2_header\<rparr>)"
    "\<And>c. c < 128 \<Longrightarrow> maps ! c = (case first_line c 128 demo_lines of None \<Rightarrow> mappings demo_font ! c | Some l \<Rightarrow> of_nat l)"
    using font_load_psf2 [OF D(1-3) f(1) D(4-6) f(2) D(8) f(7,8,3-6)] by blast
  have step: "first_line c 128 (l # ls) = (if Char c \<in> set l then Some 0 else map_option Suc (first_line c 127 ls))"
    "first_line c 127 (l # ls) = (if Char c \<in> set l then Some 0 else map_option Suc (first_line c 126 ls))" for c l ls
    using first_line.simps(3) [of c 127 l ls] first_line.simps(3) [of c 126 l ls] by simp_all
  have "first_line c 128 demo_lines = (if c = 0x41 \<or> c = 0xE9 then Some 0 else if c = 0x42 then Some 1 else None)" for c
    by (simp add: demo_lines_def step)
  then have "maps ! 0x41 = 0" "maps ! 0x42 = 1" "maps ! 0x43 = 0"
    using m(2) [of "0x41"] m(2) [of "0x42"] m(2) [of "0x43"] by (simp_all add: demo_font_def)
  then show ?thesis by (simp add: m(1))
qed

end
