(* ===== verification/Memory_Setup.thy ===== *)
theory Memory_Setup
  imports Vmm_Map_Pages
begin

text \<open>
  \<open>src/mem/memory.c\<close>: the allocator and the page tables are initialised, and a new address space is built that maps
  every entry of the memory map into the higher half and the kernel to its address. \<open>cr3\<close> is the content of the
  control register that \<open>vmm_init\<close> reads.
\<close>

definition mapped_type :: "u64 \<Rightarrow> bool" where
  "mapped_type t \<longleftrightarrow>
    t = MEMMAP_USABLE \<or> t = MEMMAP_BOOTLOADER_RECLAIMABLE \<or> t = MEMMAP_EXECUTABLE_AND_MODULES \<or>
    t = MEMMAP_RESERVED \<or> t = MEMMAP_ACPI_RECLAIMABLE \<or> t = MEMMAP_ACPI_NVS \<or> t = MEMMAP_BAD_MEMORY \<or>
    t = MEMMAP_FRAMEBUFFER"

text \<open>The loop over the memory map, with the count of mapped pages.\<close>

fun map_entries :: "u64 \<Rightarrow> u64 \<Rightarrow> memmap_entry list \<Rightarrow> u64 \<Rightarrow> 'a vmm_scheme \<Rightarrow> u64 \<times> 'a vmm_scheme" where
  "map_entries new_pml4 offset [] count s = (count, s)"
| "map_entries new_pml4 offset (entry # entries) count s =
    (if mapped_type (me_type entry)
     then map_entries new_pml4 offset entries (count + me_length entry div 0x1000)
       (vmm_map_pages_pml4 new_pml4 (me_base entry) (me_base entry + offset) (me_length entry div 0x1000) s)
     else map_entries new_pml4 offset entries count s)"

definition kernel_page_count :: "higher_half_info \<Rightarrow> u64" where
  "kernel_page_count hh =
    (let kernel_size = hh_kernel_end hh - hh_kernel_start hh; kernel_pages = kernel_size div 0x1000
     in if kernel_size mod 0x1000 \<noteq> 0 then kernel_pages + 1 else kernel_pages)"

definition memory_init :: "u64 \<Rightarrow> boot_data \<Rightarrow> 'a vmm_scheme \<Rightarrow> 'a vmm_scheme" where
  "memory_init cr3 bootdata s =
    (let s = print (''%C[Memory]%C - Higher-half mapping active, kernel at %X'' @ newline)
           [PInt (ucast COLOUR_KERNEL_INFO), PInt (ucast COLOUR_PRINT), PInt (hh_kernel_start (higher_half bootdata))] s;
         s = pmm_init bootdata s;
         s = vmm_init cr3 bootdata s;
         (new_pml4, s) = pmm_allocz s;
         (mapped_page_count, s) =
           map_entries new_pml4 (hh_offset (higher_half bootdata)) (mm_entries (memmap bootdata)) 0 s;
         kernel_start_virt = hh_kernel_start (higher_half bootdata);
         kernel_start_phys = vmm_virt_to_phys s kernel_start_virt;
         kernel_pages = kernel_page_count (higher_half bootdata);
         s = vmm_map_pages_pml4 new_pml4 kernel_start_phys kernel_start_virt kernel_pages s;
         mapped_page_count = mapped_page_count + kernel_pages;
         s = vmm_set_pml4 new_pml4 s
     in print (''%C[VMM]%C - Created new page map - mapped %uMiB to the higher-half utilising larger pages for PDPT (1GiB) and PD (2MiB)'' @ newline)
          [PInt (ucast COLOUR_KERNEL_INFO), PInt (ucast COLOUR_PRINT), PInt (mapped_page_count * 0x1000 div (1024 * 1024))] s)"

end
