(* ===== verification/Kernel.thy ===== *)
theory Kernel
  imports Interrupts Font Memory_Setup Self_Test
begin

text \<open>
  \<open>src/kentry.c\<close> and \<open>src/kernel.c\<close>: the entry point collects the answers of the boot loader, loads the font, opens the
  terminal and starts the kernel, which initialises its components in order. What \<open>kentry.c\<close> and \<open>kernel.c\<close> print themselves, the
  panics of \<open>kentry\<close> included, is drawn into the framebuffer by \<open>Renderer.printf\<close> and recorded in the list \<open>console\<close> of the state;
  the messages of the components that \<open>kernel_init\<close> calls are recorded only.
\<close>

section \<open>State\<close>

text \<open>
  The requests: \<open>None\<close> is a response that is \<open>NULL\<close>. \<open>platform\<close> is what the machine and the linker fix: the content of \<open>cr3\<close>, the
  addresses of the interrupt handlers, what the disk controller does between two polls, the symbols around the
  kernel, and the address of the string that names the font, \<open>ter-u14n.psf\<close>.
\<close>

record boot_answers =
  base_revision_supported :: bool
  bootloader_info_request :: "(u64 \<times> u64) option"
  firmware_info_request :: "u64 option"
  hhdm_request :: "u64 option"
  memmap_request :: "memmap_entry list option"
  module_request :: "limine_file list option"
  framebuffer_request :: "limine_framebuffer list option"
  rsdp_request :: "u64 option"

record platform =
  initial_cr3 :: u64
  isr_addr :: "isr \<Rightarrow> u64"
  controller :: "memory \<Rightarrow> memory"
  kernel_start_symbol :: u64
  kernel_end_symbol :: u64
  font_path :: u64

text \<open>
  The variables of \<open>kentry.c\<close>, and those of \<open>renderer.c\<close> and \<open>stdio.c\<close>: \<open>terminal\<close> is the state that the operations of
  \<open>Renderer\<close> work on.
\<close>

record kernel = interrupts +
  bootdata :: boot_data
  kernel_font :: bamboo_font
  term_fb :: bamboo_fb
  term_font :: bamboo_font
  term_x :: u64
  term_y :: u64
  term_on_second_half :: bool
  term_colour :: u32

definition terminal :: "'a kernel_scheme \<Rightarrow> renderer" where
  "terminal s = \<lparr>mem = mem s, cpu_ops = cpu_ops s, console = console s, r_fb = term_fb s, r_font = term_font s,
    r_x = term_x s, r_y = term_y s, r_on_second_half = term_on_second_half s, print_colour = term_colour s\<rparr>"

definition on_terminal :: "(renderer \<Rightarrow> renderer) \<Rightarrow> 'a kernel_scheme \<Rightarrow> 'a kernel_scheme" where
  "on_terminal f s =
    (let t = f (terminal s)
     in s\<lparr>mem := mem t, term_fb := r_fb t, term_font := r_font t, term_x := r_x t, term_y := r_y t,
       term_on_second_half := r_on_second_half t, term_colour := print_colour t\<rparr>)"

section \<open>Printing\<close>

text \<open>
  \<open>printf\<close> on the terminal of the kernel, and \<open>faults_panic\<close> with it. Both are \<open>Undefined\<close> where \<open>printf\<close> is: with a format
  that does not agree with its arguments.
\<close>

definition kernel_printf :: "string \<Rightarrow> print_arg list \<Rightarrow> 'a kernel_scheme \<Rightarrow> ('a kernel_scheme, 'a kernel_scheme) outcome" where
  "kernel_printf format args s =
    and_then (returned (printf format args (terminal s))) (\<lambda>t. Done (print format args (on_terminal (\<lambda>_. t) s)))"

definition kernel_panic :: "string \<Rightarrow> 'a kernel_scheme \<Rightarrow> ('b, 'a kernel_scheme) outcome" where
  "kernel_panic message s =
    and_then (kernel_printf panic_text [PInt (ucast COLOUR_PRINT_ERROR), PInt (ucast COLOUR_PRINT), PStr message] s) faults_hang"

section \<open>The kernel\<close>

definition backslash :: string where "backslash = [CHR 0x5C]"

definition kernel_print_logo :: "'a kernel_scheme \<Rightarrow> ('a kernel_scheme, 'a kernel_scheme) outcome" where
  "kernel_print_logo s =
    (let c = COLOUR_KERNEL_INFO in
     and_then (kernel_printf (''%C  _____                                           _____   _____ '' @ newline) [PInt (ucast c)] s) (\<lambda>s.
     let c = c + 0x1000 in
     and_then (kernel_printf (''%C |  _  '' @ backslash @ ''  _____   _   _   _____   _____   _____  |  _  | |  ___|'' @ newline) [PInt (ucast c)] s) (\<lambda>s.
     let c = c + 0x1000 in
     and_then (kernel_printf (''%C | |_| | |  _  | | '' @ backslash @ ''_/ | |  _  | |  _  | |  _  | | | | | | |___ '' @ newline) [PInt (ucast c)] s) (\<lambda>s.
     let c = c + 0x1000 in
     and_then (kernel_printf (''%C |  _ <  | |_| | |  _  | | |_) / | | | | | | | | | | | | |___  |'' @ newline) [PInt (ucast c)] s) (\<lambda>s.
     let c = c + 0x1000 in
     and_then (kernel_printf (''%C | |_| | |  _  | | | | | | |_) '' @ backslash @ '' | |_| | | |_| | | |_| |  ___| |'' @ newline) [PInt (ucast c)] s) (\<lambda>s.
     let c = c + 0x1000 in
     kernel_printf (''%C |_____/ |_| |_| |_| |_| |_____| |_____| |_____| |_____| |_____|'' @ newline) [PInt (ucast c)] s))))))"

definition kernel_init :: "platform \<Rightarrow> boot_data \<Rightarrow> 'a kernel_scheme \<Rightarrow> ('a kernel_scheme, 'a kernel_scheme) outcome" where
  "kernel_init pf bd s =
    and_then (kernel_print_logo s) (\<lambda>s.
    and_then (kernel_printf newline [] s) (\<lambda>s.
    let s = memory_init (initial_cr3 pf) bd s;
        s = heap_init 0xFFFFFFF000000000 s
    in and_then (test_vmm s) (\<lambda>s.
       and_then (acpi_init bd s) (\<lambda>s.
       let s = int_init (isr_addr pf) s in
       and_then (returned (pci_init s)) (\<lambda>s.
       and_then (pci_init_builtin_drivers (controller pf) s) (\<lambda>s.
       kernel_printf (newline @ ''%C[Kernel]%C - Thanks for trying out BambooOS! There is currently no way to run programs. Learn more about the OS at https://github.com/sebcrookes/bamboo-os.'')
         [PInt (ucast COLOUR_KERNEL_INFO), PInt (ucast COLOUR_PRINT)] s))))))"

section \<open>The entry point\<close>

definition record_bootloader :: "(u64 \<times> u64) option \<Rightarrow> boot_data \<Rightarrow> boot_data" where
  "record_bootloader response bd =
    (case response of
       Some (name, version) \<Rightarrow> bd\<lparr>bootloader := (bootloader bd)\<lparr>bl_name := name, bl_version := version, bl_exists := True\<rparr>\<rparr>
     | None \<Rightarrow> bd\<lparr>bootloader := (bootloader bd)\<lparr>bl_exists := False\<rparr>\<rparr>)"

definition record_firmware :: "u64 option \<Rightarrow> boot_data \<Rightarrow> boot_data" where
  "record_firmware response bd =
    (case response of
       Some t \<Rightarrow> bd\<lparr>firmware := (firmware bd)\<lparr>fw_type := t, fw_exists := True\<rparr>\<rparr>
     | None \<Rightarrow> bd\<lparr>firmware := (firmware bd)\<lparr>fw_exists := False\<rparr>\<rparr>)"

definition record_higher_half :: "platform \<Rightarrow> u64 option \<Rightarrow> 'a kernel_scheme \<Rightarrow> ('a kernel_scheme, 'a kernel_scheme) outcome" where
  "record_higher_half pf response s =
    (case response of
       Some offset \<Rightarrow> Done (s\<lparr>bootdata := (bootdata s)\<lparr>higher_half := (higher_half (bootdata s))
         \<lparr>hh_offset := offset, hh_kernel_start := kernel_start_symbol pf, hh_kernel_end := kernel_end_symbol pf, hh_exists := True\<rparr>\<rparr>\<rparr>)
     | None \<Rightarrow> kernel_panic ''Could not get higher-half mapping from bootloader''
         (s\<lparr>bootdata := (bootdata s)\<lparr>higher_half := (higher_half (bootdata s))\<lparr>hh_exists := False\<rparr>\<rparr>\<rparr>))"

definition record_memmap :: "memmap_entry list option \<Rightarrow> 'a kernel_scheme \<Rightarrow> ('a kernel_scheme, 'a kernel_scheme) outcome" where
  "record_memmap response s =
    (case response of
       Some es \<Rightarrow> Done (s\<lparr>bootdata := (bootdata s)\<lparr>memmap := (memmap (bootdata s))\<lparr>mm_entries := es, mm_exists := True\<rparr>\<rparr>\<rparr>)
     | None \<Rightarrow> kernel_panic ''Could not get memory map from bootloader''
         (s\<lparr>bootdata := (bootdata s)\<lparr>memmap := (memmap (bootdata s))\<lparr>mm_exists := False\<rparr>\<rparr>\<rparr>))"

definition record_rsdp :: "u64 option \<Rightarrow> 'a kernel_scheme \<Rightarrow> ('a kernel_scheme, 'a kernel_scheme) outcome" where
  "record_rsdp response s =
    (case response of
       Some address \<Rightarrow> Done (s\<lparr>bootdata := (bootdata s)\<lparr>rsdp := (rsdp (bootdata s))\<lparr>rsdp_address := address, rsdp_exists := True\<rparr>\<rparr>\<rparr>)
     | None \<Rightarrow> kernel_panic ''Could not get RSDP address from bootloader''
         (s\<lparr>bootdata := (bootdata s)\<lparr>rsdp := (rsdp (bootdata s))\<lparr>rsdp_exists := False\<rparr>\<rparr>\<rparr>))"

text \<open>
  When \<open>kernel_init\<close> returns, the processor hangs. The conversions forget the fields of \<open>kentry.c\<close> that a component does not have.
\<close>

definition kentry :: "platform \<Rightarrow> boot_answers \<Rightarrow> kernel \<Rightarrow> (unit, kernel) outcome" where
  "kentry pf answers s =
    (if \<not> base_revision_supported answers then faults_hang s
     else
       and_then (framebuffer_init (framebuffer_request answers) (framebuffer (bootdata s)) s) (\<lambda>fb.
       let s = s\<lparr>bootdata := (bootdata s)\<lparr>framebuffer := fb\<rparr>\<rparr> in
       and_then (font_load (kernel_font s) (font_path pf) (module_request answers) s) (\<lambda>font.
       let s = on_terminal (renderer_init (framebuffer (bootdata s)) font) (s\<lparr>kernel_font := font\<rparr>);
           bd = record_firmware (firmware_info_request answers) (record_bootloader (bootloader_info_request answers) (bootdata s));
           s = s\<lparr>bootdata := bd\<rparr>
       in and_then (record_higher_half pf (hhdm_request answers) s) (\<lambda>s.
          and_then (record_memmap (memmap_request answers) s) (\<lambda>s.
          and_then (record_rsdp (rsdp_request answers) s) (\<lambda>s.
          let s = on_terminal (renderer_clear_screen COLOUR_BACKGROUND) s in
          and_then (kernel_init pf (bootdata s) s) faults_hang))))))"

end
