(* ===== verification/Kernel_Correct.thy ===== *)
theory Kernel_Correct
  imports Kernel Font_Correct Printf_Text
begin

text \<open>
  What the entry point guarantees: the kernel proper starts only with a complete boot data record and a cleared screen, and when
  an answer of the boot loader is missing the machine stops after drawing the message for it.
\<close>

section \<open>The steps\<close>

lemma on_terminal_simps [simp]:
  "bootdata (on_terminal f s) = bootdata s" "console (on_terminal f s) = console s" "cpu_ops (on_terminal f s) = cpu_ops s"
  "mem (on_terminal f s) = mem (f (terminal s))" "term_fb (on_terminal f s) = r_fb (f (terminal s))"
  "term_x (on_terminal f s) = r_x (f (terminal s))" "term_y (on_terminal f s) = r_y (f (terminal s))"
  by (simp_all add: on_terminal_def Let_def)

lemma terminal_simps [simp]: "mem (terminal s) = mem s" "r_fb (terminal s) = term_fb s" "print_colour (terminal s) = term_colour s"
  "r_font (terminal s) = term_font s"
  by (simp_all add: terminal_def)

lemma font_load_mem:
  fixes s :: "'m machine_scheme" and s' :: "'n machine_scheme"
  assumes "mem s' = mem s"
  shows "font_load font path r s = Done f \<Longrightarrow> font_load font path r s' = Done f"
    "font_load font path r s = Hung s0 \<Longrightarrow> font_load font path r s' = Hung s'"
proof -
  have r: "returned x \<noteq> Hung t" for x :: "bamboo_font option" and t :: "'m machine_scheme" by (cases x) simp_all
  have *: "(returned x :: (bamboo_font, 'm machine_scheme) outcome) = Done f \<Longrightarrow> (returned x :: (bamboo_font, 'n machine_scheme) outcome) = Done f"
    for x by (cases x) simp_all
  show "font_load font path r s = Done f \<Longrightarrow> font_load font path r s' = Done f"
    by (auto simp: font_load_def faults_hang_def assms * split: option.splits bool.splits if_splits)
  show "font_load font path r s = Hung s0 \<Longrightarrow> font_load font path r s' = Hung s'"
    by (auto simp: font_load_def faults_hang_def assms r split: option.splits bool.splits if_splits)
qed

text \<open>The record that a complete set of answers makes, \<open>bd\<close> before it.\<close>

definition framebuffer_of :: "limine_framebuffer \<Rightarrow> bamboo_fb" where
  "framebuffer_of lfb = \<lparr>fb_buffer = lfb_address lfb, fb_width = lfb_width lfb, fb_height = lfb_height lfb, fb_pitch = lfb_pitch lfb\<rparr>"

definition complete_data ::
  "platform \<Rightarrow> boot_answers \<Rightarrow> limine_framebuffer \<Rightarrow> u64 \<Rightarrow> memmap_entry list \<Rightarrow> u64 \<Rightarrow> boot_data \<Rightarrow> boot_data" where
  "complete_data pf answers lfb offset es address bd =
    \<lparr>bootloader = (case bootloader_info_request answers of None \<Rightarrow> (bootloader bd)\<lparr>bl_exists := False\<rparr>
       | Some (name, version) \<Rightarrow> \<lparr>bl_exists = True, bl_name = name, bl_version = version\<rparr>),
     firmware = (case firmware_info_request answers of None \<Rightarrow> (firmware bd)\<lparr>fw_exists := False\<rparr>
       | Some t \<Rightarrow> \<lparr>fw_exists = True, fw_type = t\<rparr>),
     higher_half = \<lparr>hh_exists = True, hh_offset = offset, hh_kernel_start = kernel_start_symbol pf, hh_kernel_end = kernel_end_symbol pf\<rparr>,
     framebuffer = framebuffer_of lfb,
     memmap = \<lparr>mm_exists = True, mm_entries = es\<rparr>,
     rsdp = \<lparr>rsdp_exists = True, rsdp_address = address\<rparr>\<rparr>"

lemma filled:
  "h\<lparr>hh_offset := offset, hh_kernel_start := a, hh_kernel_end := b, hh_exists := True\<rparr> =
    \<lparr>hh_exists = True, hh_offset = offset, hh_kernel_start = a, hh_kernel_end = b\<rparr>"
  "m\<lparr>mm_entries := es, mm_exists := True\<rparr> = \<lparr>mm_exists = True, mm_entries = es\<rparr>"
  "r\<lparr>rsdp_address := address, rsdp_exists := True\<rparr> = \<lparr>rsdp_exists = True, rsdp_address = address\<rparr>"
  by (cases h, simp) (cases m, simp, cases r, simp)

lemma framebuffer_init_Some: "framebuffer_init (Some (lfb # lfbs)) fb s = Done (framebuffer_of lfb)"
  by (simp add: framebuffer_init_def framebuffer_of_def)

text \<open>The entry point up to the requests that it cannot do without.\<close>

definition opened :: "platform \<Rightarrow> boot_answers \<Rightarrow> limine_framebuffer \<Rightarrow> bamboo_font \<Rightarrow> kernel \<Rightarrow> kernel" where
  "opened pf answers lfb font s =
    (let s = on_terminal (renderer_init (framebuffer_of lfb) font)
           (s\<lparr>bootdata := (bootdata s)\<lparr>framebuffer := framebuffer_of lfb\<rparr>, kernel_font := font\<rparr>)
     in s\<lparr>bootdata := record_firmware (firmware_info_request answers) (record_bootloader (bootloader_info_request answers) (bootdata s))\<rparr>)"

lemma opened: "mem (opened pf answers lfb font s) = mem s" "console (opened pf answers lfb font s) = console s"
  "cpu_ops (opened pf answers lfb font s) = cpu_ops s" "term_fb (opened pf answers lfb font s) = framebuffer_of lfb"
  "terminal (opened pf answers lfb font s) = renderer_init (framebuffer_of lfb) font (terminal s)"
  by (simp_all add: opened_def renderer_init_def Let_def) (simp add: terminal_def on_terminal_def renderer_init_def Let_def)

lemma kentry_opened:
  assumes "base_revision_supported answers" "framebuffer_request answers = Some (lfb # lfbs)"
    and "font_load (kernel_font s) (font_path pf) (module_request answers) s = Done font"
  shows "kentry pf answers s =
    and_then (record_higher_half pf (hhdm_request answers) (opened pf answers lfb font s)) (\<lambda>s.
    and_then (record_memmap (memmap_request answers) s) (\<lambda>s.
    and_then (record_rsdp (rsdp_request answers) s) (\<lambda>s.
    let s = on_terminal (renderer_clear_screen COLOUR_BACKGROUND) s in
    and_then (kernel_init pf (bootdata s) s) faults_hang)))"
proof -
  let ?s = "s\<lparr>bootdata := (bootdata s)\<lparr>framebuffer := framebuffer_of lfb\<rparr>\<rparr>"
  have "font_load (kernel_font ?s) (font_path pf) (module_request answers) ?s = Done font"
    using font_load_mem(1) [OF _ assms(3), of ?s] by simp
  then show ?thesis
    using assms(1,2) by (simp add: kentry_def framebuffer_init_Some opened_def Let_def)
qed

text \<open>The message for the first missing one of the three answers, and when the entry point does not get as far as asking for them.\<close>

definition missing_answer :: "boot_answers \<Rightarrow> string option" where
  "missing_answer answers =
    (if hhdm_request answers = None then Some ''Could not get higher-half mapping from bootloader''
     else if memmap_request answers = None then Some ''Could not get memory map from bootloader''
     else if rsdp_request answers = None then Some ''Could not get RSDP address from bootloader''
     else None)"

definition cannot_open :: "platform \<Rightarrow> boot_answers \<Rightarrow> kernel \<Rightarrow> bool" where
  "cannot_open pf answers s \<longleftrightarrow> \<not> base_revision_supported answers \<or> framebuffer_request answers \<in> {None, Some []} \<or>
    (\<exists>s'. font_load (kernel_font s) (font_path pf) (module_request answers) s = Hung s')"

text \<open>
  The terminal can be drawn on: the lines of the framebuffer hold its width, and the font has characters that are not empty, so
  that the number of characters on a line is defined. Nothing is said when the entry point stops before it has both.
\<close>

definition can_draw :: "platform \<Rightarrow> boot_answers \<Rightarrow> kernel \<Rightarrow> bool" where
  "can_draw pf answers s \<longleftrightarrow> cannot_open pf answers s \<or>
    (\<exists>lfb lfbs font. framebuffer_request answers = Some (lfb # lfbs) \<and> fb_ok (framebuffer_of lfb) \<and>
      font_load (kernel_font s) (font_path pf) (module_request answers) s = Done font \<and> fi_width font \<noteq> 0 \<and> fi_height font \<noteq> 0)"

text \<open>The messages of an entry point that stops: none when it cannot open a terminal, otherwise the panic of the first missing answer.\<close>

definition stop_messages :: "platform \<Rightarrow> boot_answers \<Rightarrow> kernel \<Rightarrow> (string \<times> print_arg list) list" where
  "stop_messages pf answers s =
    (if cannot_open pf answers s then []
     else [(panic_text, [PInt (ucast COLOUR_PRINT_ERROR), PInt (ucast COLOUR_PRINT), PStr (the (missing_answer answers))])])"

section \<open>Panics\<close>

text \<open>A panic: the text of \<open>faults.c\<close> in its colours, drawn from wherever the cursor is, with line breaks where the terminal breaks lines.\<close>

definition panic_chars :: "u32 \<Rightarrow> string \<Rightarrow> coloured" where
  "panic_chars k message =
    in_colour k newline @ in_colour COLOUR_PRINT_ERROR ''[Faults]'' @
    in_colour COLOUR_PRINT ('' - An unexpected fatal error occurred: '' @ message @ newline)"

lemma panic_format:
  fixes message :: string
  defines "args \<equiv> [PInt (ucast COLOUR_PRINT_ERROR), PInt (ucast COLOUR_PRINT), PStr message]"
  shows "format_ok panic_text args" "formatted panic_text args k = panic_chars k message"
  by (simp_all add: args_def panic_text_def panic_chars_def newline_def COLOUR_PRINT_def COLOUR_PRINT_ERROR_def)

text \<open>What \<open>printf\<close> leaves alone and what it draws.\<close>

lemma printf_drawn:
  assumes "format_ok format args"
  shows "\<exists>ys. starts (formatted format args (print_colour s)) ys \<and> printf format args s = Some (draw_chars ys s) \<and>
    (fb_ok (r_fb s) \<longrightarrow> paints s (draw_chars ys s))"
proof -
  obtain ys p where ys: "starts (formatted format args (print_colour s)) ys"
    "printf_loop True format args s = Some ((draw_chars ys s)\<lparr>print_colour := p\<rparr>)"
    using printf_loop_draws [OF assms, of True s] by auto
  have "(draw_chars ys s)\<lparr>print_colour := print_colour s\<rparr> = draw_chars ys s"
    using draw_chars_print_colour [of ys s] by simp
  moreover have "paints s (draw_chars ys s)" if "fb_ok (r_fb s)"
    using printf_loop_ok [OF that paints_refl, where first = True and format = format and args = args] ys(2) by simp
  ultimately show ?thesis using ys by (auto simp: printf_def)
qed

lemma kernel_panic_draws:
  "\<exists>s' ys. kernel_panic message s = Hung s' \<and> starts (panic_chars (term_colour s) message) ys \<and>
    mem s' = mem (draw_chars ys (terminal s)) \<and> (fb_ok (term_fb s) \<longrightarrow> (\<forall>a. a \<notin> fb_bytes (term_fb s) \<longrightarrow> mem s' a = mem s a)) \<and>
    cpu_ops s' = cpu_ops s \<and>
    console s' = console s @ [(panic_text, [PInt (ucast COLOUR_PRINT_ERROR), PInt (ucast COLOUR_PRINT), PStr message])]"
proof -
  let ?args = "[PInt (ucast COLOUR_PRINT_ERROR), PInt (ucast COLOUR_PRINT), PStr message]"
  obtain ys where ys: "starts (panic_chars (term_colour s) message) ys"
    "printf panic_text ?args (terminal s) = Some (draw_chars ys (terminal s))"
    "fb_ok (term_fb s) \<longrightarrow> paints (terminal s) (draw_chars ys (terminal s))"
    using printf_drawn [OF panic_format(1) [of message], of "terminal s"] unfolding panic_format(2) terminal_simps by blast
  have "\<forall>a. a \<notin> fb_bytes (term_fb s) \<longrightarrow> mem (draw_chars ys (terminal s)) a = mem s a" if "fb_ok (term_fb s)"
    using paintsD(3) [OF mp [OF ys(3) that]] by simp
  then show ?thesis using ys(1,2)
    by (intro exI [of _ "print panic_text ?args (on_terminal (\<lambda>_. draw_chars ys (terminal s)) s)"] exI [of _ ys])
      (simp add: kernel_panic_def kernel_printf_def faults_hang_def print_def)
qed

text \<open>The two ways in which the entry point stops.\<close>

lemma kentry_cannot_open:
  assumes "cannot_open pf answers s"
  shows "\<exists>s'. kentry pf answers s = Hung s' \<and> mem s' = mem s \<and> cpu_ops s' = cpu_ops s \<and> console s' = console s"
proof (cases "base_revision_supported answers \<and> framebuffer_request answers \<notin> {None, Some []}")
  case False
  then show ?thesis by (auto simp: kentry_def framebuffer_init_def faults_hang_def)
next
  case ok: True
  then obtain lfb lfbs where fb: "framebuffer_request answers = Some (lfb # lfbs)" by (metis insertCI list.exhaust option.exhaust)
  let ?s = "s\<lparr>bootdata := (bootdata s)\<lparr>framebuffer := framebuffer_of lfb\<rparr>\<rparr>"
  obtain s' where "font_load (kernel_font s) (font_path pf) (module_request answers) s = Hung s'"
    using assms ok by (auto simp: cannot_open_def)
  then have "font_load (kernel_font s) (font_path pf) (module_request answers) ?s = Hung ?s" by (rule font_load_mem(2) [rotated]) simp
  then show ?thesis using ok by (simp add: kentry_def fb framebuffer_init_Some Let_def)
qed

lemma kentry_panics:
  assumes "base_revision_supported answers" "framebuffer_request answers = Some (lfb # lfbs)"
    and "font_load (kernel_font s) (font_path pf) (module_request answers) s = Done font" and "missing_answer answers = Some message"
  shows "\<exists>s' ys. kentry pf answers s = Hung s' \<and> starts (panic_chars (term_colour s) message) ys \<and>
    mem s' = mem (draw_chars ys (renderer_init (framebuffer_of lfb) font (terminal s))) \<and>
    (fb_ok (framebuffer_of lfb) \<longrightarrow> (\<forall>a. a \<notin> fb_bytes (framebuffer_of lfb) \<longrightarrow> mem s' a = mem s a)) \<and> cpu_ops s' = cpu_ops s \<and>
    console s' = console s @ [(panic_text, [PInt (ucast COLOUR_PRINT_ERROR), PInt (ucast COLOUR_PRINT), PStr message])]"
proof -
  let ?o = "opened pf answers lfb font s"
  have panic: "\<exists>bd. kentry pf answers s = kernel_panic message (?o\<lparr>bootdata := bd\<rparr>)"
  proof -
    have stop: "and_then (kernel_panic message t) f = kernel_panic message t" for t f
      by (simp add: kernel_panic_def and_then_assoc faults_hang_def [abs_def])
    show ?thesis
      unfolding kentry_opened [OF assms(1-3)] using assms(4)
      by (auto simp: missing_answer_def record_higher_half_def record_memmap_def record_rsdp_def stop split: if_splits option.splits)
  qed
  then obtain bd where eq: "kentry pf answers s = kernel_panic message (?o\<lparr>bootdata := bd\<rparr>)" by blast
  have t: "terminal (?o\<lparr>bootdata := bd\<rparr>) = renderer_init (framebuffer_of lfb) font (terminal s)"
    using opened(5) [of pf answers lfb font s] by (simp add: terminal_def)
  have "term_colour (?o\<lparr>bootdata := bd\<rparr>) = term_colour s"
    using arg_cong [OF opened(5) [of pf answers lfb font s], of print_colour] by (simp add: renderer_init_def)
  with kernel_panic_draws [of message "?o\<lparr>bootdata := bd\<rparr>"] show ?thesis unfolding eq t by (simp add: opened)
qed

section \<open>The start of the kernel\<close>

lemma kentry_complete:
  assumes "base_revision_supported answers" and "framebuffer_request answers = Some (lfb # lfbs)"
    and "font_load (kernel_font s) (font_path pf) (module_request answers) s = Done font"
    and "hhdm_request answers = Some offset" and "memmap_request answers = Some es" and "rsdp_request answers = Some address"
    and "fb_ok (framebuffer_of lfb)"
  shows "\<exists>s1. kentry pf answers s = and_then (kernel_init pf (bootdata s1) s1) faults_hang \<and>
    bootdata s1 = complete_data pf answers lfb offset es address (bootdata s) \<and>
    (\<forall>x < lfb_width lfb. \<forall>y < lfb_height lfb. load32 (mem s1) (pixel_address (framebuffer_of lfb) x y) = COLOUR_BACKGROUND) \<and>
    term_x s1 = 0 \<and> term_y s1 = 0 \<and>
    (\<forall>a. a \<notin> fb_bytes (framebuffer_of lfb) \<longrightarrow> mem s1 a = mem s a) \<and> cpu_ops s1 = cpu_ops s \<and> console s1 = console s"
proof -
  let ?o = "opened pf answers lfb font s"
  define s0 where "s0 = ?o\<lparr>bootdata := (bootdata ?o)
    \<lparr>higher_half := \<lparr>hh_exists = True, hh_offset = offset, hh_kernel_start = kernel_start_symbol pf, hh_kernel_end = kernel_end_symbol pf\<rparr>,
     memmap := \<lparr>mm_exists = True, mm_entries = es\<rparr>, rsdp := \<lparr>rsdp_exists = True, rsdp_address = address\<rparr>\<rparr>\<rparr>"
  define s1 where "s1 = on_terminal (renderer_clear_screen COLOUR_BACKGROUND) s0"
  let ?t = "terminal s0"
  have fb: "r_fb ?t = framebuffer_of lfb" "fb_ok (r_fb ?t)" using assms(7) by (simp_all add: s0_def opened)
  have "kentry pf answers s = and_then (kernel_init pf (bootdata s1) s1) faults_hang"
    unfolding kentry_opened [OF assms(1-3)]
    by (simp add: assms(4-6) record_higher_half_def record_memmap_def record_rsdp_def Let_def s1_def s0_def filled)
  moreover have "bootdata s1 = complete_data pf answers lfb offset es address (bootdata s)"
    by (simp add: s1_def s0_def opened_def complete_data_def record_bootloader_def record_firmware_def Let_def split: option.split)
  moreover have "load32 (mem s1) (pixel_address (framebuffer_of lfb) x y) = COLOUR_BACKGROUND"
    if "x < lfb_width lfb" "y < lfb_height lfb" for x y
    using clear_screen_pixels [OF fb(2), of x y COLOUR_BACKGROUND] that unfolding fb(1) by (simp add: s1_def framebuffer_of_def)
  moreover have "term_x s1 = 0" "term_y s1 = 0" by (simp_all add: s1_def renderer_clear_screen_def Let_def)
  moreover have "mem s1 a = mem s a" if "a \<notin> fb_bytes (framebuffer_of lfb)" for a
    using paintsD(3) [OF paints_clear_screen [OF fb(2)], of a COLOUR_BACKGROUND] that unfolding fb(1)
    by (simp add: s1_def) (simp add: s0_def opened)
  moreover have "cpu_ops s1 = cpu_ops s" "console s1 = console s" by (simp_all add: s1_def s0_def opened)
  ultimately show ?thesis by blast
qed

section \<open>Properties\<close>

text \<open>
  C9. With a supported revision, a framebuffer, a font and the three answers that the kernel needs, the entry point starts
  the kernel with the complete record of the answers; before that it has cleared the screen: every pixel has the background
  colour, the cursor is at the origin, and nothing but bytes of the framebuffer was written. In every other case the kernel is not
  started: the machine stops with at most one message, that of a missing answer, no privileged instruction executed, and nothing but
  bytes of the framebuffer written. When the entry point gets as far as opening the terminal, that is assumed to be one that can be drawn on
  (\<open>can_draw\<close>).
\<close>

theorem kentry_starts_kernel:
  assumes "can_draw pf answers s"
  shows "(\<forall>lfb lfbs font offset es address.
      base_revision_supported answers \<and> framebuffer_request answers = Some (lfb # lfbs) \<and>
      font_load (kernel_font s) (font_path pf) (module_request answers) s = Done font \<and>
      hhdm_request answers = Some offset \<and> memmap_request answers = Some es \<and> rsdp_request answers = Some address \<longrightarrow>
      (\<exists>s1. kentry pf answers s = and_then (kernel_init pf (bootdata s1) s1) faults_hang \<and>
        bootdata s1 = complete_data pf answers lfb offset es address (bootdata s) \<and>
        (\<forall>x < lfb_width lfb. \<forall>y < lfb_height lfb. load32 (mem s1) (pixel_address (framebuffer_of lfb) x y) = COLOUR_BACKGROUND) \<and>
        term_x s1 = 0 \<and> term_y s1 = 0 \<and>
        (\<forall>a. a \<notin> fb_bytes (framebuffer_of lfb) \<longrightarrow> mem s1 a = mem s a) \<and> cpu_ops s1 = cpu_ops s \<and> console s1 = console s)) \<and>
    (\<not> base_revision_supported answers \<or> framebuffer_request answers \<in> {None, Some []} \<or>
      (\<exists>s'. font_load (kernel_font s) (font_path pf) (module_request answers) s = Hung s') \<or>
      hhdm_request answers = None \<or> memmap_request answers = None \<or> rsdp_request answers = None \<longrightarrow>
      (\<exists>s'. kentry pf answers s = Hung s' \<and> console s' = console s @ stop_messages pf answers s \<and> cpu_ops s' = cpu_ops s \<and>
        (\<forall>a. mem s' a \<noteq> mem s a \<longrightarrow> (\<exists>lfb lfbs. framebuffer_request answers = Some (lfb # lfbs) \<and> a \<in> fb_bytes (framebuffer_of lfb)))))"
proof (intro conjI allI impI)
  fix lfb lfbs font offset es address
  assume "base_revision_supported answers \<and> framebuffer_request answers = Some (lfb # lfbs) \<and>
    font_load (kernel_font s) (font_path pf) (module_request answers) s = Done font \<and>
    hhdm_request answers = Some offset \<and> memmap_request answers = Some es \<and> rsdp_request answers = Some address"
  then have a: "base_revision_supported answers" "framebuffer_request answers = Some (lfb # lfbs)"
    "font_load (kernel_font s) (font_path pf) (module_request answers) s = Done font"
    "hhdm_request answers = Some offset" "memmap_request answers = Some es" "rsdp_request answers = Some address" by simp_all
  then have "fb_ok (framebuffer_of lfb)" using assms by (auto simp: can_draw_def cannot_open_def)
  with a show "\<exists>s1. kentry pf answers s = and_then (kernel_init pf (bootdata s1) s1) faults_hang \<and>
        bootdata s1 = complete_data pf answers lfb offset es address (bootdata s) \<and>
        (\<forall>x < lfb_width lfb. \<forall>y < lfb_height lfb. load32 (mem s1) (pixel_address (framebuffer_of lfb) x y) = COLOUR_BACKGROUND) \<and>
        term_x s1 = 0 \<and> term_y s1 = 0 \<and>
        (\<forall>a. a \<notin> fb_bytes (framebuffer_of lfb) \<longrightarrow> mem s1 a = mem s a) \<and> cpu_ops s1 = cpu_ops s \<and> console s1 = console s"
    by (rule kentry_complete)
next
  assume "\<not> base_revision_supported answers \<or> framebuffer_request answers \<in> {None, Some []} \<or>
      (\<exists>s'. font_load (kernel_font s) (font_path pf) (module_request answers) s = Hung s') \<or>
      hhdm_request answers = None \<or> memmap_request answers = None \<or> rsdp_request answers = None"
  then have stop: "cannot_open pf answers s \<or> missing_answer answers \<noteq> None" by (auto simp: cannot_open_def missing_answer_def)
  show "\<exists>s'. kentry pf answers s = Hung s' \<and> console s' = console s @ stop_messages pf answers s \<and> cpu_ops s' = cpu_ops s \<and>
    (\<forall>a. mem s' a \<noteq> mem s a \<longrightarrow> (\<exists>lfb lfbs. framebuffer_request answers = Some (lfb # lfbs) \<and> a \<in> fb_bytes (framebuffer_of lfb)))"
  proof (cases "cannot_open pf answers s")
    case True
    with kentry_cannot_open show ?thesis by (fastforce simp: stop_messages_def)
  next
    case False
    then have rev: "base_revision_supported answers" by (simp add: cannot_open_def)
    from False assms obtain lfb lfbs font where f: "framebuffer_request answers = Some (lfb # lfbs)" "fb_ok (framebuffer_of lfb)"
      "font_load (kernel_font s) (font_path pf) (module_request answers) s = Done font" by (auto simp: can_draw_def)
    obtain message where m: "missing_answer answers = Some message" using stop False by auto
    from kentry_panics [OF rev f(1,3) m] f(1,2) show ?thesis by (auto simp: stop_messages_def False m)
  qed
qed

text \<open>
  C28. Without a supported revision, a framebuffer or a font the machine stops at once, without a message: no memory is written and no privileged
  instruction executed. Otherwise, with one of the three answers missing, it stops with the panic of the first missing
  one, in the order higher half, memory map, root pointer: the text of the panic is drawn on the opened terminal in its colours, with line breaks
  as \<open>printf\<close> makes them, no byte outside of the framebuffer is written and no privileged instruction executed. The lines of the framebuffer hold its
  width, and the characters of the font are not empty.
\<close>

theorem kentry_missing_answer:
  "(cannot_open pf answers s \<longrightarrow>
      (\<exists>s'. kentry pf answers s = Hung s' \<and> mem s' = mem s \<and> cpu_ops s' = cpu_ops s \<and> console s' = console s)) \<and>
    (\<forall>lfb lfbs font message.
      base_revision_supported answers \<and> framebuffer_request answers = Some (lfb # lfbs) \<and> fb_ok (framebuffer_of lfb) \<and>
      font_load (kernel_font s) (font_path pf) (module_request answers) s = Done font \<and> fi_width font \<noteq> 0 \<and> fi_height font \<noteq> 0 \<and>
      missing_answer answers = Some message \<longrightarrow>
      (\<exists>s' ys. kentry pf answers s = Hung s' \<and> starts (panic_chars (term_colour s) message) ys \<and>
        mem s' = mem (draw_chars ys (renderer_init (framebuffer_of lfb) font (terminal s))) \<and>
        (\<forall>a. a \<notin> fb_bytes (framebuffer_of lfb) \<longrightarrow> mem s' a = mem s a) \<and> cpu_ops s' = cpu_ops s \<and>
        console s' = console s @ [(panic_text, [PInt (ucast COLOUR_PRINT_ERROR), PInt (ucast COLOUR_PRINT), PStr message])]))"
proof (intro conjI allI impI)
  show "\<exists>s'. kentry pf answers s = Hung s' \<and> mem s' = mem s \<and> cpu_ops s' = cpu_ops s \<and> console s' = console s"
    if "cannot_open pf answers s" using that by (rule kentry_cannot_open)
next
  fix lfb lfbs font message
  assume a: "base_revision_supported answers \<and> framebuffer_request answers = Some (lfb # lfbs) \<and> fb_ok (framebuffer_of lfb) \<and>
    font_load (kernel_font s) (font_path pf) (module_request answers) s = Done font \<and> fi_width font \<noteq> 0 \<and> fi_height font \<noteq> 0 \<and>
    missing_answer answers = Some message"
  then have "base_revision_supported answers" "framebuffer_request answers = Some (lfb # lfbs)"
    "font_load (kernel_font s) (font_path pf) (module_request answers) s = Done font" "missing_answer answers = Some message" by simp_all
  from kentry_panics [OF this] a
  show "\<exists>s' ys. kentry pf answers s = Hung s' \<and> starts (panic_chars (term_colour s) message) ys \<and>
      mem s' = mem (draw_chars ys (renderer_init (framebuffer_of lfb) font (terminal s))) \<and>
      (\<forall>a. a \<notin> fb_bytes (framebuffer_of lfb) \<longrightarrow> mem s' a = mem s a) \<and> cpu_ops s' = cpu_ops s \<and>
      console s' = console s @ [(panic_text, [PInt (ucast COLOUR_PRINT_ERROR), PInt (ucast COLOUR_PRINT), PStr message])]" by auto
qed

section \<open>Witnesses\<close>

text \<open>A boot with a PSF1 font at 0x1000 and a screen of two pixels.\<close>

definition kentry_memory :: memory where
  "kentry_memory = (\<lambda>_. 0)(0x100 := 0x66, 0x200 := 0x66, 0x1000 := 0x36, 0x1001 := 0x04, 0x1003 := 16)"

definition kentry_platform :: platform where
  "kentry_platform = \<lparr>initial_cr3 = 0x7000, isr_addr = (\<lambda>_. 0), controller = id, kernel_start_symbol = 0xFFFFFFFF80000000,
    kernel_end_symbol = 0xFFFFFFFF80010000, font_path = 0x100\<rparr>"

definition kentry_answers :: boot_answers where
  "kentry_answers = \<lparr>base_revision_supported = True, bootloader_info_request = None, firmware_info_request = Some 2,
    hhdm_request = Some 0xFFFF800000000000, memmap_request = Some [],
    module_request = Some [\<lparr>file_path = 0x200, file_address = 0x1000, file_size = 40\<rparr>],
    framebuffer_request = Some [\<lparr>lfb_address = 0x10000, lfb_width = 2, lfb_height = 1, lfb_pitch = 8\<rparr>], rsdp_request = Some 0x9000\<rparr>"

definition kentry_start :: kernel where
  "kentry_start = \<lparr>mem = kentry_memory, cpu_ops = [], console = [], higher_half_offset = 0, memmap_entries = [],
    pmm_usable_pages = 0, pmm_bitmap_pages = 0, pmm_num_allocated_pages = 0, vmm_page_tables_offset = 0, pml4 = 0,
    vmm_initialised = False, heap_base_address = 0, heap_size = 0, acpi_is_xsdt = False, rsdp_v1 = 0, rsdp_v2 = 0,
    rsdt = 0, xsdt = 0, acpi_higher_half_offset = 0, acpi_parsed_tables = 0, acpi_handlers = 0, local_handler = 0,
    madt_hdr = 0, local_apic_addr = 0, lapics = 0, ioapics = 0, interrupt_source_overrides = 0, interrupt_ioapic_nmis = 0,
    interrupt_lapic_nmis = 0, mcfg_hdr = 0, mcfg_segment_groups = 0, pci_devices = 0, descriptors_at = (\<lambda>_. None),
    idt = 0, idtr = 0, lapic_lapics = 0, lapic_base_addr = 0,
    bootdata = \<lparr>bootloader = \<lparr>bl_exists = False, bl_name = 0, bl_version = 0\<rparr>, firmware = \<lparr>fw_exists = False, fw_type = 0\<rparr>,
      higher_half = \<lparr>hh_exists = False, hh_offset = 0, hh_kernel_start = 0, hh_kernel_end = 0\<rparr>,
      framebuffer = \<lparr>fb_buffer = 0, fb_width = 0, fb_height = 0, fb_pitch = 0\<rparr>,
      memmap = \<lparr>mm_exists = False, mm_entries = []\<rparr>, rsdp = \<lparr>rsdp_exists = False, rsdp_address = 0\<rparr>\<rparr>,
    kernel_font = demo_font, term_fb = \<lparr>fb_buffer = 0, fb_width = 0, fb_height = 0, fb_pitch = 0\<rparr>, term_font = demo_font,
    term_x = 0, term_y = 0, term_on_second_half = False, term_colour = 0\<rparr>"

lemma kentry_font:
  "\<exists>font. font_load (kernel_font kentry_start) (font_path kentry_platform) (module_request kentry_answers) kentry_start = Done font \<and>
    fi_width font \<noteq> 0 \<and> fi_height font \<noteq> 0"
proof -
  let ?f = "\<lparr>file_path = 0x200, file_address = 0x1000, file_size = 40\<rparr>"
  have m: "mem kentry_start = kentry_memory" by (simp add: kentry_start_def)
  have c: "cstring (mem kentry_start) 0x100 [0x66]" "\<forall>f \<in> set [?f]. cstring (mem kentry_start) (file_path f) [0x66]"
    by (simp_all add: cstring_def m kentry_memory_def)
  have "chosen_file (\<lambda>_. [0x66]) [0x66] [?f] = Some ?f" by (simp add: chosen_file_def)
  moreover have "psf1_magic (mem kentry_start) 0x1000 = PSF1_FONT_MAGIC"
    by (simp add: psf1_magic_def PSF1_FONT_MAGIC_def mem_simps m kentry_memory_def)
  moreover have "psf1_character_size (mem kentry_start) 0x1000 = 16" by (simp add: psf1_character_size_def m kentry_memory_def)
  ultimately show ?thesis
    using font_load_chosen [OF c, of "kernel_font kentry_start"]
    by (simp add: kentry_platform_def kentry_answers_def load_psf1_def Let_def)
qed

definition kentry_screen :: limine_framebuffer where
  "kentry_screen = \<lparr>lfb_address = 0x10000, lfb_width = 2, lfb_height = 1, lfb_pitch = 8\<rparr>"

lemma kentry_can_draw: "can_draw kentry_platform kentry_answers kentry_start"
  "can_draw kentry_platform (kentry_answers\<lparr>memmap_request := None\<rparr>) kentry_start"
proof -
  have "framebuffer_request kentry_answers = Some (kentry_screen # [])" "fb_ok (framebuffer_of kentry_screen)"
    by (simp_all add: kentry_answers_def kentry_screen_def fb_ok_def framebuffer_of_def)
  then show "can_draw kentry_platform kentry_answers kentry_start"
    "can_draw kentry_platform (kentry_answers\<lparr>memmap_request := None\<rparr>) kentry_start"
    using kentry_font unfolding can_draw_def by auto
qed

lemma kentry_cut:
  "stop_messages kentry_platform (kentry_answers\<lparr>memmap_request := None\<rparr>) kentry_start =
    [(panic_text, [PInt (ucast COLOUR_PRINT_ERROR), PInt (ucast COLOUR_PRINT), PStr ''Could not get memory map from bootloader''])]"
proof -
  have "\<not> cannot_open kentry_platform (kentry_answers\<lparr>memmap_request := None\<rparr>) kentry_start"
    using kentry_font by (auto simp: cannot_open_def) (simp_all add: kentry_answers_def)
  then show ?thesis by (simp add: stop_messages_def) (simp add: missing_answer_def kentry_answers_def)
qed

theorem kentry_starts_kernel_witness:
  "(\<exists>s1. kentry kentry_platform kentry_answers kentry_start = and_then (kernel_init kentry_platform (bootdata s1) s1) faults_hang \<and>
    hh_offset (higher_half (bootdata s1)) = 0xFFFF800000000000 \<and> fw_exists (firmware (bootdata s1)) \<and>
    load32 (mem s1) 0x10004 = COLOUR_BACKGROUND) \<and>
   (\<exists>s'. kentry kentry_platform (kentry_answers\<lparr>memmap_request := None\<rparr>) kentry_start = Hung s' \<and> length (console s') = 1)"
proof (rule conjI)
  obtain font where f: "font_load (kernel_font kentry_start) (font_path kentry_platform) (module_request kentry_answers) kentry_start = Done font"
    using kentry_font by blast
  have a: "base_revision_supported kentry_answers" "framebuffer_request kentry_answers = Some (kentry_screen # [])"
    "hhdm_request kentry_answers = Some 0xFFFF800000000000" "memmap_request kentry_answers = Some []" "rsdp_request kentry_answers = Some 0x9000"
    by (simp_all add: kentry_answers_def kentry_screen_def)
  obtain s1 where s1: "kentry kentry_platform kentry_answers kentry_start = and_then (kernel_init kentry_platform (bootdata s1) s1) faults_hang"
    "bootdata s1 = complete_data kentry_platform kentry_answers kentry_screen 0xFFFF800000000000 [] 0x9000 (bootdata kentry_start)"
    "\<forall>x < lfb_width kentry_screen. \<forall>y < lfb_height kentry_screen.
      load32 (mem s1) (pixel_address (framebuffer_of kentry_screen) x y) = COLOUR_BACKGROUND"
    using conjunct1 [OF kentry_starts_kernel [OF kentry_can_draw(1)], rule_format, OF conjI [OF a(1) conjI [OF a(2) conjI [OF f conjI [OF a(3) conjI [OF a(4,5)]]]]]]
    by blast
  have "(1 :: u64) < 2" "(0 :: u64) < 1" by simp_all
  with s1(3) have "load32 (mem s1) (pixel_address (framebuffer_of kentry_screen) 1 0) = COLOUR_BACKGROUND" by (simp add: kentry_screen_def)
  then have "load32 (mem s1) 0x10004 = COLOUR_BACKGROUND" by (simp add: pixel_address_def framebuffer_of_def kentry_screen_def)
  then show "\<exists>s1. kentry kentry_platform kentry_answers kentry_start = and_then (kernel_init kentry_platform (bootdata s1) s1) faults_hang \<and>
    hh_offset (higher_half (bootdata s1)) = 0xFFFF800000000000 \<and> fw_exists (firmware (bootdata s1)) \<and>
    load32 (mem s1) 0x10004 = COLOUR_BACKGROUND"
    using s1(1,2) by (intro exI [of _ s1]) (simp add: complete_data_def kentry_answers_def)
next
  have "memmap_request (kentry_answers\<lparr>memmap_request := None\<rparr>) = None" by simp
  with conjunct2 [OF kentry_starts_kernel [OF kentry_can_draw(2)]]
  obtain s' where "kentry kentry_platform (kentry_answers\<lparr>memmap_request := None\<rparr>) kentry_start = Hung s'"
    "console s' = console kentry_start @ stop_messages kentry_platform (kentry_answers\<lparr>memmap_request := None\<rparr>) kentry_start" by blast
  then show "\<exists>s'. kentry kentry_platform (kentry_answers\<lparr>memmap_request := None\<rparr>) kentry_start = Hung s' \<and> length (console s') = 1"
    unfolding kentry_cut by (intro exI [of _ s']) (simp add: kentry_start_def)
qed

text \<open>
  The memory map is missing: the message is drawn on the first line of a terminal that has no room for it. And a boot loader whose base revision
  is not supported.
\<close>

theorem kentry_missing_answer_witness:
  "(\<exists>s' ys. kentry kentry_platform (kentry_answers\<lparr>memmap_request := None\<rparr>) kentry_start = Hung s' \<and>
      starts (panic_chars 0 ''Could not get memory map from bootloader'') ys \<and> mem s' 0x1000 = 0x36) \<and>
    (\<exists>s'. kentry kentry_platform (kentry_answers\<lparr>base_revision_supported := False\<rparr>) kentry_start = Hung s' \<and> console s' = [])"
proof (rule conjI)
  let ?a = "kentry_answers\<lparr>memmap_request := None\<rparr>"
  have r: "module_request ?a = module_request kentry_answers" by simp
  obtain font where f: "font_load (kernel_font kentry_start) (font_path kentry_platform) (module_request ?a) kentry_start = Done font"
    "fi_width font \<noteq> 0" "fi_height font \<noteq> 0" using kentry_font unfolding r by blast
  have a: "base_revision_supported ?a" "framebuffer_request ?a = Some (kentry_screen # [])" "fb_ok (framebuffer_of kentry_screen)"
    "missing_answer ?a = Some ''Could not get memory map from bootloader''"
    by (simp_all add: kentry_answers_def kentry_screen_def fb_ok_def framebuffer_of_def missing_answer_def)
  from conjunct2 [OF kentry_missing_answer, rule_format, OF conjI [OF a(1) conjI [OF a(2) conjI [OF a(3) conjI [OF f(1) conjI [OF f(2)
    conjI [OF f(3) a(4)]]]]]]] obtain s' ys where s': "kentry kentry_platform ?a kentry_start = Hung s'"
    "starts (panic_chars (term_colour kentry_start) ''Could not get memory map from bootloader'') ys"
    "\<forall>a. a \<notin> fb_bytes (framebuffer_of kentry_screen) \<longrightarrow> mem s' a = mem kentry_start a" by blast
  have "(0x1000 :: u64) \<notin> fb_bytes (framebuffer_of kentry_screen)"
    by (simp add: fb_bytes_def in_range_def framebuffer_of_def kentry_screen_def)
  with s'(3) have "mem s' 0x1000 = mem kentry_start 0x1000" by blast
  moreover have "mem kentry_start 0x1000 = 0x36" "term_colour kentry_start = 0" by (simp_all add: kentry_start_def kentry_memory_def)
  ultimately show "\<exists>s' ys. kentry kentry_platform ?a kentry_start = Hung s' \<and>
      starts (panic_chars 0 ''Could not get memory map from bootloader'') ys \<and> mem s' 0x1000 = 0x36" using s'(1,2) by auto
next
  let ?a = "kentry_answers\<lparr>base_revision_supported := False\<rparr>"
  have "cannot_open kentry_platform ?a kentry_start" by (simp add: cannot_open_def)
  moreover have "console kentry_start = []" by (simp add: kentry_start_def)
  ultimately show "\<exists>s'. kentry kentry_platform ?a kentry_start = Hung s' \<and> console s' = []"
    using conjunct1 [OF kentry_missing_answer, of kentry_platform ?a kentry_start] by auto
qed

end
