(* ===== verification/Spec2Isabelle.thy ===== *)
theory Spec2Isabelle
  imports Memory_Runs Printf_Text Pci_Tables Heap_Correct Vmm_Runs Vector Renderer_Correct CString_Correct Mcfg_Correct Madt_Correct Pci_Correct Pcie_Correct Interrupts_Correct Font_Correct Kernel_Correct
begin

text \<open>
  BambooOS is a 64-bit x86 kernel started by the Limine boot loader. This development models its C code and proves what
  its components promise.

  \<^bold>\<open>The program.\<close> \<open>kentry\<close> collects the answers of the boot loader in a \<open>boot_data_t\<close>, loads a font and opens the terminal;
  \<open>kernel_init\<close> then starts, in this order, the memory manager (\<open>pmm_init\<close>, \<open>vmm_init\<close> and a new address space in \<open>memory_init\<close>),
  the heap, the ACPI tables, the interrupts, the PCI devices and the drivers. Each component calls those before it: page tables take
  their pages from the page allocator, the allocator looks pages up in the page tables when it frees
  them, the heap maps pages it allocates, vectors live in heap blocks, the ACPI parsers collect copies of table entries in vectors,
  and the PCI code reads the segment groups that the MCFG parser collected. Output goes to a terminal drawn into the framebuffer.

  \<^bold>\<open>State.\<close> The memory is one byte per 64-bit virtual address (\<open>CMemory\<close>), and all structures the C code keeps in memory are read and
  written there, field by field, at their offsets. The global variables of a C file are the fields of a record, and the records extend
  each other in the order of the components: \<open>machine\<close> (memory, executed privileged instructions, messages), \<open>pmm\<close>, \<open>vmm\<close>, \<open>heap\<close>,
  \<open>acpi\<close>, \<open>madt\<close>, \<open>mcfg\<close>, \<open>pci\<close>, \<open>interrupts\<close>, \<open>kernel\<close>; the terminal has its own extension \<open>renderer\<close> of \<open>machine\<close>, which the
  kernel enters and leaves by \<open>on_terminal\<close>. An operation takes the state and returns it
  updated. It is an option where the C function may not return, and an \<open>outcome\<close> (\<open>Faults\<close>) where it may stop the machine.

  \<^bold>\<open>Theories.\<close>
  \<^item> \<open>Prelude\<close>, \<open>CMemory\<close>, \<open>CMemory_Eval\<close>, \<open>Machine\<close>, \<open>Faults\<close>: machine words and addresses; typed access to memory (locale \<open>cell\<close>, interpreted at 16, 32 and 64
    bits); the structures of \<open>src/bootdata.h\<close>; the assertions of \<open>src/inc/faults.c\<close>.
  \<^item> \<open>CString\<close>, \<open>CString_Correct\<close>: \<open>src/inc/string.c\<close>. The loops compute list functions on the bytes of a range; \<open>memmove\<close> and
    \<open>does_string_end_with\<close> are characterised on every input.
  \<^item> \<open>Page_Allocator\<close>, \<open>Pmm\<close>, \<open>Pmm_Correct\<close>, \<open>Pmm_Free\<close>: \<open>src/mem/pmm.c\<close>. The locale \<open>page_allocator\<close> is the contract clients rely on. The index
    arithmetic is lookup in the list of usable pages, the bitmap is a set of page numbers, allocation takes the free page of least number.
  \<^item> \<open>Vmm\<close>, \<open>Vmm_Tables\<close>, \<open>Vmm_Install\<close>, \<open>Vmm_Walk\<close>, \<open>Vmm_Map\<close>, \<open>Vmm_Correct\<close>, \<open>Vmm_Map_Pages\<close>, \<open>Vmm_Runs\<close>, \<open>Vmm_Pages\<close>, \<open>Vmm_In_Use\<close>: \<open>src/mem/vmm.c\<close>. The tables in
    memory are a tree addressed by paths of nine-bit indices; the invariant \<open>vmm_inv\<close> says that no table is shared or free. The
    abstract specification is the function \<open>translate\<close> from paths to physical addresses, and mapping, unmapping and lookup are
    its update and application. The locale \<open>table_installer\<close> is shared by the two operations that put a new table behind an entry.
    \<open>in_use\<close> is the state of a running kernel: the direct map is complete and there are pages for new tables.
  \<^item> \<open>Memory_Runs\<close>: allocator and page tables together. A relation \<open>memory_run\<close> steps through operations of a client that holds pages; over
    every run the translation is that of an abstract map, and pages that are held stay isolated.
  \<^item> \<open>Heap\<close>, \<open>Heap_List\<close>, \<open>Heap_Extend\<close>, \<open>Heap_Correct\<close>: \<open>src/mem/heap.c\<close>. The linked headers are a list of segments
    (\<open>heap_list\<close>); \<open>malloc\<close> refines the abstract first fit on that list. An access to a header through the null pointer is \<open>None\<close>, which
    tells when \<open>free\<close> returns (\<open>heap_operations_return\<close>).
  \<^item> \<open>Vector\<close>, \<open>Vector_Copies\<close>: \<open>src/inc/vector.c\<close>. A vector stands for a list of words, and the operations for list operations;
    \<open>frame\<close> says what an allocation leaves alone.
  \<^item> \<open>Acpi_Tables\<close>, \<open>Acpi_Correct\<close>, \<open>Acpi\<close>, \<open>Madt\<close>, \<open>Madt_Correct\<close>, \<open>Mcfg\<close>, \<open>Mcfg_Correct\<close>: \<open>src/acpi\<close>. Lookup of tables is search in the
    list of the root table; the parsers leave vectors of copies of the entries.
  \<^item> \<open>Pci_Tables\<close>, \<open>Pci\<close>, \<open>Pci_Correct\<close>: \<open>src/pci\<close> and \<open>src/dev\<close>. The name tables with their sentinels (locale \<open>sentinel_table\<close>), the probe of the buses, the
    drivers, of which the one for AHCI waits for its device.
  \<^item> \<open>Pcie_Scan\<close>, \<open>Pcie_Probe\<close>, \<open>Pcie_Correct\<close>: \<open>src/pci/pcie.c\<close> composed with page tables, heap and vectors. The specification is a
    relation \<open>scan\<close> on the configuration space alone, with the functions that are reachable over bridges (\<open>on_bus\<close>) as its result. The probe registers
    exactly these, and it does not return when a bridge leads back to its own bus. The configuration space is assumed to lie apart from heap,
    tables and allocator, and not to change while it is probed.
  \<^item> \<open>Memory_Setup\<close>: \<open>src/mem/memory.c\<close>.
  \<^item> \<open>Interrupts\<close>, \<open>Interrupts_Correct\<close>: \<open>src/int\<close>. The gates of the descriptor table are read back field by field.
  \<^item> \<open>Renderer\<close>, \<open>Renderer_Correct\<close>: \<open>src/rendering/renderer.c\<close> and \<open>printf\<close>. Numbers are drawn in positional notation; \<open>printf\<close> is
    shown to return, and to write pixels only, on every format that agrees with its arguments.
  \<^item> \<open>Printf_Text\<close>: a reference formatter that knows no terminal, and the proof that \<open>printf\<close> draws its text.
  \<^item> \<open>Font\<close>, \<open>Font_Correct\<close>: \<open>src/rendering/font.c\<close>. The map from characters to glyphs is compared with the lines of the unicode table.
  \<^item> \<open>Self_Test\<close>: \<open>src/test.c\<close>. The accesses of the test go through the page tables (\<open>mmu_address\<close>).
  \<^item> \<open>Kernel\<close>, \<open>Kernel_Correct\<close>: \<open>src/kentry.c\<close> and \<open>src/kernel.c\<close>. The answers of the boot loader are a record of options (\<open>boot_answers\<close>),
    the devices and handler addresses another (\<open>platform\<close>). The kernel starts only with a complete record; otherwise the panic for the first missing answer
    is drawn, which is stated with the formatter of \<open>Printf_Text\<close>.

  \<^bold>\<open>Loops.\<close> A loop over a 64-bit counter is a function with a measure. Where the code may not return (a walk over a list of headers
  that may be cyclic, entries of length 0, a bus that is probed again, a device that is polled), the model is a partial function
  and returning is a theorem. No fuel is used. The heap theorems that speak of several allocations assume that the heap has
  room for all of them (\<open>first_fits\<close>); growing the heap is treated on its own (\<open>malloc_extends\<close>). \<open>vmm_map_pages_pml4\<close> is
  characterised for runs that it maps by pages of 4 KiB, up to 1024 pages.

  \<^bold>\<open>Not modelled.\<close> Memory accesses other than those of the self test are not translated: that a heap page, or a page mapped elsewhere, is also
  visible through the direct map of the boot loader is not part of the model, and neither are caches and concurrency. Devices change no
  memory by themselves, except the AHCI controller during its reset, whose behaviour is a parameter. The components that \<open>kernel_init\<close> calls
  only record the messages they print, panics included: the bytes of the framebuffer that \<open>printf\<close> would change then stay as they are. What \<open>kentry.c\<close> and
  \<open>kernel.c\<close> print themselves, the panics of \<open>kentry\<close> and the logo, is drawn by \<open>Renderer.printf\<close> (\<open>kernel_printf\<close>). The result of
  \<open>cpuid\<close> and the addresses of the interrupt handlers are parameters, \<open>lidt\<close> and \<open>sti\<close> are recorded in the order of execution. The assembly files and
  the code of Limine are outside of the C code; of Limine's structures only the fields that \<open>kentry\<close> reads appear. No property
  covers \<open>memory_init\<close> or runs that are mapped by larger pages, whose tables are freed again: while the new tables are built the boot loader's are
  still used, and the two trees would have to be followed together.
\<close>

end
